(* ===== verification/Vita_Prelude.thy ===== *)
theory Vita_Prelude
  imports Main "HOL-Library.Word" "HOL-Library.Monad_Syntax"
begin

text \<open>
  What the components share: the machine integer types of the C sources, the little-endian
  views of a byte buffer, and the lists and option lemmas used by several components.
\<close>

unbundle bit_operations_syntax

type_synonym u8 = "8 word"
type_synonym u16 = "16 word"
type_synonym u32 = "32 word"
type_synonym u64 = "64 word"

named_theorems word_bytes "views of byte buffers as machine words"

section \<open>Reading and writing a byte buffer\<close>

text \<open>
  A buffer is a byte list. Reading or writing outside of it is a fault of the model
  (\<open>None\<close>), never an unspecified value.
\<close>

definition rd8 :: "u8 list \<Rightarrow> nat \<Rightarrow> u8 option" where
  "rd8 bs i = (if i < length bs then Some (bs ! i) else None)"

definition rd16 :: "u8 list \<Rightarrow> nat \<Rightarrow> u16 option" where
  "rd16 bs i = (if i + 1 < length bs
     then Some (ucast (bs ! i) OR push_bit 8 (ucast (bs ! (i + 1)))) else None)"

definition join32 :: "u8 \<Rightarrow> u8 \<Rightarrow> u8 \<Rightarrow> u8 \<Rightarrow> u32" where
  "join32 b0 b1 b2 b3 = ucast b0 OR push_bit 8 (ucast b1) OR push_bit 16 (ucast b2)
     OR push_bit 24 (ucast b3)"

definition rd32 :: "u8 list \<Rightarrow> nat \<Rightarrow> u32 option" where
  "rd32 bs i = (if i + 3 < length bs
     then Some (join32 (bs ! i) (bs ! (i + 1)) (bs ! (i + 2)) (bs ! (i + 3))) else None)"

definition bytes32 :: "u32 \<Rightarrow> u8 list" where
  "bytes32 w = [ucast w, ucast (drop_bit 8 w), ucast (drop_bit 16 w), ucast (drop_bit 24 w)]"

definition put_bytes :: "u8 list \<Rightarrow> nat \<Rightarrow> u8 list \<Rightarrow> u8 list" where
  "put_bytes bs i xs = take i bs @ xs @ drop (i + length xs) bs"

definition wr32 :: "u8 list \<Rightarrow> nat \<Rightarrow> u32 \<Rightarrow> u8 list option" where
  "wr32 bs i w = (if i + 3 < length bs then Some (put_bytes bs i (bytes32 w)) else None)"

lemma length_bytes32 [simp]: "length (bytes32 w) = 4"
  by (simp add: bytes32_def)

lemma length_put_bytes [simp]:
  "i + length xs \<le> length bs \<Longrightarrow> length (put_bytes bs i xs) = length bs"
  by (simp add: put_bytes_def)

lemma u8_bit_high [word_bytes]: "8 \<le> n \<Longrightarrow> \<not> bit (a :: u8) n"
  using bit_imp_le_length [of a n] by auto

lemma bytes32_join32 [word_bytes]: "bytes32 (join32 a b c d) = [a, b, c, d]"
  by (auto simp: bytes32_def join32_def u8_bit_high bit_simps intro!: bit_word_eqI)

lemma join32_bytes32 [word_bytes]:
  "join32 (ucast w) (ucast (drop_bit 8 w)) (ucast (drop_bit 16 w)) (ucast (drop_bit 24 w)) = w"
proof (rule bit_word_eqI)
  fix n assume "n < LENGTH(32)"
  then consider "n < 8" | "8 \<le> n" "n < 16" | "16 \<le> n" "n < 24" | "24 \<le> n" "n < 32" by fastforce
  then show "bit (join32 (ucast w) (ucast (drop_bit 8 w)) (ucast (drop_bit 16 w)) (ucast (drop_bit 24 w))) n
      \<longleftrightarrow> bit w n"
    by cases (auto simp: join32_def bit_simps)
qed

lemma put_bytes_nth:
  assumes "i + length xs \<le> length bs" "j < length xs"
  shows "put_bytes bs i xs ! (i + j) = xs ! j"
  using assms by (simp add: put_bytes_def nth_append)

lemma put_bytes_nth_outside:
  assumes "i + length xs \<le> length bs" "j < length bs" "j < i \<or> i + length xs \<le> j"
  shows "put_bytes bs i xs ! j = bs ! j"
  using assms by (auto simp: put_bytes_def nth_append min_def)

lemma rd32_wr32 [word_bytes]:
  assumes "wr32 bs i w = Some bs'"
  shows "rd32 bs' i = Some w"
proof -
  have b: "i + 3 < length bs" "bs' = put_bytes bs i (bytes32 w)"
    using assms by (auto simp: wr32_def split: if_splits)
  have n: "bs' ! (i + j) = bytes32 w ! j" if "j < 4" for j
    unfolding b(2) by (rule put_bytes_nth) (use b that in auto)
  show ?thesis
    using b n [of 0] n [of 1] n [of 2] n [of 3]
    by (simp add: rd32_def bytes32_def join32_bytes32)
qed

section \<open>Errors as values\<close>

text \<open>A computation that stops at its first error, the left summand.\<close>

definition ebind :: "'e + 'a \<Rightarrow> ('a \<Rightarrow> 'e + 'b) \<Rightarrow> 'e + 'b" where
  "ebind r f = (case r of Inl e \<Rightarrow> Inl e | Inr x \<Rightarrow> f x)"

lemma ebind_simps [simp]: "ebind (Inl e) f = Inl e" "ebind (Inr x) f = f x"
  by (simp_all add: ebind_def)

lemma ebind_cong [fundef_cong]:
  "r = r' \<Longrightarrow> (\<And>x. r' = Inr x \<Longrightarrow> f x = f' x) \<Longrightarrow> ebind r f = ebind r' f'"
  by (auto simp: ebind_def split: sum.split)

lemma ebind_Inr: "ebind r f = Inr y \<longleftrightarrow> (\<exists>x. r = Inr x \<and> f x = Inr y)"
  by (auto simp: ebind_def split: sum.split)

lemma ebind_Inl: "ebind r f = Inl e \<longleftrightarrow> r = Inl e \<or> (\<exists>x. r = Inr x \<and> f x = Inl e)"
  by (auto simp: ebind_def split: sum.split)

text \<open>
  \<open>runs F P r\<close>: the computation fails with an error of \<open>F\<close> or yields a value with \<open>P\<close>. The rules
  carry it along a chain of \<open>ebind\<close>.
\<close>

definition runs :: "'e set \<Rightarrow> ('a \<Rightarrow> bool) \<Rightarrow> 'e + 'a \<Rightarrow> bool" where
  "runs F P r = (case r of Inl e \<Rightarrow> e \<in> F | Inr x \<Rightarrow> P x)"

lemma runs_simps [simp]: "runs F P (Inl e) \<longleftrightarrow> e \<in> F" "runs F P (Inr x) \<longleftrightarrow> P x"
  by (simp_all add: runs_def)

lemma runs_ebind: "runs F P r \<Longrightarrow> (\<And>x. P x \<Longrightarrow> runs F Q (f x)) \<Longrightarrow> runs F Q (ebind r f)"
  by (cases r) simp_all

lemma runs_mono: "runs F P r \<Longrightarrow> F \<subseteq> G \<Longrightarrow> (\<And>x. P x \<Longrightarrow> Q x) \<Longrightarrow> runs G Q r"
  by (cases r) auto

section \<open>Arithmetic modulo a length\<close>

lemma mult_mod_cancel:
  fixes a b s l :: nat
  assumes "coprime s l"
  shows "(a * s) mod l = (b * s) mod l \<longleftrightarrow> a mod l = b mod l"
proof -
  have le: "(a * s) mod l = (b * s) mod l \<longleftrightarrow> a mod l = b mod l" if "b \<le> a" for a b :: nat
    using that assms by (simp add: mod_eq_dvd_iff_nat coprime_commute coprime_dvd_mult_left_iff flip: diff_mult_distrib)
  show ?thesis
    using le [of a b] le [of b a] by (metis linear)
qed

lemma mod_add_cancel_left:
  fixes a b c l :: nat
  shows "(a + b) mod l = (a + c) mod l \<longleftrightarrow> b mod l = c mod l"
proof -
  have le: "(a + b) mod l = (a + c) mod l \<longleftrightarrow> b mod l = c mod l" if "c \<le> b" for b c :: nat
    using that by (simp add: mod_eq_dvd_iff_nat)
  show ?thesis using le [of b c] le [of c b] by (metis linear)
qed

lemma neg_inverse_exists:
  fixes s l :: nat
  assumes "coprime s l" "0 < l"
  shows "\<exists>n<l. (n * s + 1) mod l = 0"
proof -
  have inj: "inj_on (\<lambda>n. (n * s + 1) mod l) {0..<l}"
  proof (rule inj_onI)
    fix a b assume ab: "a \<in> {0..<l}" "b \<in> {0..<l}" and eq: "(a * s + 1) mod l = (b * s + 1) mod l"
    from eq have "(a * s) mod l = (b * s) mod l"
      by (metis add.commute mod_add_cancel_left)
    then show "a = b" using ab assms(1) by (simp add: mult_mod_cancel)
  qed
  have "(\<lambda>n. (n * s + 1) mod l) ` {0..<l} = {0..<l}"
    by (rule endo_inj_surj [OF _ _ inj]) (use assms(2) in auto)
  then have "0 \<in> (\<lambda>n. (n * s + 1) mod l) ` {0..<l}" using assms(2) by simp
  then show ?thesis by force
qed

lemma takeWhile_upt_length:
  assumes "n < m" "\<not> P n" "\<And>k. k < n \<Longrightarrow> P k"
  shows "length (takeWhile P [0..<m]) = n"
proof -
  have "takeWhile P [0..<m] = take n [0..<m]"
    by (rule takeWhile_eq_take_P_nth) (use assms in auto)
  then show ?thesis using assms(1) by simp
qed

section \<open>Bounded logs\<close>

text \<open>The last \<open>n\<close> elements of a list: what a bounded log keeps.\<close>

definition keep_last :: "nat \<Rightarrow> 'a list \<Rightarrow> 'a list" where
  "keep_last n xs = drop (length xs - n) xs"

lemma length_keep_last [simp]: "length (keep_last n xs) = min n (length xs)"
  by (simp add: keep_last_def)

lemma keep_last_eq_Nil [simp]: "keep_last n xs = [] \<longleftrightarrow> n = 0 \<or> xs = []"
  by (cases xs) (auto simp: keep_last_def)

lemma keep_last_append: "keep_last m (keep_last m xs @ ys) = keep_last m (xs @ ys)"
  by (cases "length xs \<le> m") (auto simp: keep_last_def add.commute)

lemma keep_last_id: "length xs \<le> m \<Longrightarrow> keep_last m xs = xs"
  by (simp add: keep_last_def)

end
