(* ===== verification/RingBuf.thy ===== *)
theory RingBuf
  imports Vita_Prelude "HOL-Library.Sublist"
begin

text \<open>
  The ring buffer of PrincessLog and PSMLogUSB (\<open>ringbuf.c\<close>): its static variables and
  the kernel objects it owns as a record, every function of the file, the contract of a
  bounded byte queue as a locale, and the proof that the file implements that contract.
  Pointers are 32-bit words into the kernel's memory, as on the device, and the reduction
  \<open>(unsigned int)ptr % buf_len\<close> is taken of the address itself, as the code does.
\<close>

unbundle bit_operations_syntax

section \<open>State\<close>

record ringbuf =
  evf_uid :: int
  mtx_uid :: int
  memblock_uid :: int
  buf_len :: u32
  base_ptr :: u32
  get_ptr :: u32
  put_ptr :: u32
  rmem :: "u32 \<Rightarrow> u8"      \<comment> \<open>kernel memory\<close>
  evf_bits :: u32           \<comment> \<open>bit pattern of the event flag \<open>evf_uid\<close>\<close>
  mtx_locks :: int          \<comment> \<open>lock count of the mutex \<open>mtx_uid\<close>\<close>
  kobjs :: "int list"       \<comment> \<open>kernel objects that are alive\<close>

definition RINGBUF_EVF_NON_EMPTY :: u32 where
  "RINGBUF_EVF_NON_EMPTY = 1"

section \<open>The byte operations\<close>

text \<open>A division by \<open>buf_len = 0\<close> (before \<open>ringbuf_init\<close>, after \<open>ringbuf_term\<close>) is a fault.\<close>

definition idx :: "ringbuf \<Rightarrow> u32 \<Rightarrow> u32 option" where
  "idx rb p = (if buf_len rb = 0 then None else Some (p mod buf_len rb))"

definition inc :: "ringbuf \<Rightarrow> u32 \<Rightarrow> u32 option" where
  "inc rb p = do { i \<leftarrow> idx rb (p + 1); Some (base_ptr rb + i) }"

definition is_empty :: "ringbuf \<Rightarrow> bool" where
  "is_empty rb \<longleftrightarrow> get_ptr rb = put_ptr rb"

definition is_full :: "ringbuf \<Rightarrow> bool option" where
  "is_full rb = do { i \<leftarrow> idx rb (put_ptr rb + 1); j \<leftarrow> idx rb (get_ptr rb); Some (i = j) }"

definition store_put :: "ringbuf \<Rightarrow> u8 \<Rightarrow> ringbuf option" where
  "store_put rb c = (let rb = rb\<lparr>rmem := (rmem rb)(put_ptr rb := c)\<rparr> in
     do { p \<leftarrow> inc rb (put_ptr rb); Some (rb\<lparr>put_ptr := p\<rparr>) })"

definition put :: "ringbuf \<Rightarrow> u8 \<Rightarrow> (ringbuf \<times> int) option" where
  "put rb c = do {
     f \<leftarrow> is_full rb;
     if f then Some (rb, -1)
     else do { rb \<leftarrow> store_put rb c; Some (rb, 0) } }"

definition put_clobber :: "ringbuf \<Rightarrow> u8 \<Rightarrow> (ringbuf \<times> int) option" where
  "put_clobber rb c = do {
     f \<leftarrow> is_full rb;
     rb \<leftarrow> (if f then do { g \<leftarrow> inc rb (get_ptr rb); Some (rb\<lparr>get_ptr := g\<rparr>) } else Some rb);
     rb \<leftarrow> store_put rb c;
     Some (rb, 0) }"

text \<open>\<open>get\<close> returns \<open>None\<close> for the code's \<open>-1\<close>, else the byte it stores through its argument.\<close>

definition get :: "ringbuf \<Rightarrow> (ringbuf \<times> u8 option) option" where
  "get rb = (if is_empty rb then Some (rb, None)
     else (let c = rmem rb (get_ptr rb) in
       do { g \<leftarrow> inc rb (get_ptr rb); Some (rb\<lparr>get_ptr := g\<rparr>, Some c) }))"

section \<open>The loops\<close>

text \<open>
  The three loops over a caller's buffer, over the byte operation they call. \<open>cs\<close> is the
  caller's memory from \<open>c\<close> on: running past its end before \<open>size\<close> is used up is a fault.
\<close>

fun put_loop :: "('s \<Rightarrow> 'c \<Rightarrow> ('s \<times> int) option) \<Rightarrow> 's \<Rightarrow> 'c list \<Rightarrow> int \<Rightarrow> int \<Rightarrow> ('s \<times> int) option" where
  "put_loop pt s [] sz n = (if sz > 0 then None else Some (s, n))"
| "put_loop pt s (c # cs) sz n =
     (if sz > 0 then do {
        (s', r) \<leftarrow> pt s c;
        if r = 0 then put_loop pt s' cs (sz - 1) (n + 1) else Some (s', n) }
      else Some (s, n))"

fun clobber_loop :: "('s \<Rightarrow> 'c \<Rightarrow> ('s \<times> int) option) \<Rightarrow> 's \<Rightarrow> 'c list \<Rightarrow> int \<Rightarrow> int \<Rightarrow> ('s \<times> int) option" where
  "clobber_loop pt s [] sz n = (if sz > 0 then None else Some (s, n))"
| "clobber_loop pt s (c # cs) sz n =
     (if sz > 0 then do { (s', r) \<leftarrow> pt s c; clobber_loop pt s' cs (sz - 1) (n + 1) }
      else Some (s, n))"

fun get_loop :: "('s \<Rightarrow> ('s \<times> 'c option) option) \<Rightarrow> 's \<Rightarrow> nat \<Rightarrow> 'c list \<Rightarrow> ('s \<times> 'c list) option" where
  "get_loop gt s 0 out = Some (s, out)"
| "get_loop gt s (Suc sz) out = do {
     (s', r) \<leftarrow> gt s;
     (case r of Some c \<Rightarrow> get_loop gt s' sz (out @ [c]) | None \<Rightarrow> Some (s', out)) }"

section \<open>The exported functions\<close>

definition lock_mutex :: "ringbuf \<Rightarrow> ringbuf" where
  "lock_mutex rb = rb\<lparr>mtx_locks := mtx_locks rb + 1\<rparr>"

definition unlock_mutex :: "ringbuf \<Rightarrow> ringbuf" where
  "unlock_mutex rb = rb\<lparr>mtx_locks := mtx_locks rb - 1\<rparr>"

definition set_event :: "ringbuf \<Rightarrow> u32 \<Rightarrow> ringbuf" where
  "set_event rb bits = rb\<lparr>evf_bits := evf_bits rb OR bits\<rparr>"

definition clear_event :: "ringbuf \<Rightarrow> u32 \<Rightarrow> ringbuf" where
  "clear_event rb bits = rb\<lparr>evf_bits := evf_bits rb AND bits\<rparr>"

text \<open>What the kernel answers to the three allocations of \<open>ringbuf_init\<close>.\<close>

record init_env =
  evf_res :: int
  mtx_res :: int
  memblock_res :: int
  memblock_base :: u32

definition ringbuf_init :: "init_env \<Rightarrow> ringbuf \<Rightarrow> int \<Rightarrow> ringbuf \<times> int" where
  "ringbuf_init k rb sz =
    (let rb = rb\<lparr>evf_uid := evf_res k\<rparr> in
     if evf_uid rb < 0 then (rb, evf_uid rb) else
     let rb = rb\<lparr>kobjs := evf_uid rb # kobjs rb, evf_bits := 0, mtx_uid := mtx_res k\<rparr> in
     if mtx_uid rb < 0 then (rb\<lparr>kobjs := remove1 (evf_uid rb) (kobjs rb)\<rparr>, mtx_uid rb) else
     let rb = rb\<lparr>kobjs := mtx_uid rb # kobjs rb, mtx_locks := 0, memblock_uid := memblock_res k\<rparr> in
     if memblock_uid rb < 0 then
       (rb\<lparr>kobjs := remove1 (evf_uid rb) (remove1 (mtx_uid rb) (kobjs rb))\<rparr>, memblock_uid rb) else
     (rb\<lparr>kobjs := memblock_uid rb # kobjs rb, base_ptr := memblock_base k,
         buf_len := word_of_int sz, get_ptr := memblock_base k, put_ptr := memblock_base k\<rparr>, 0))"

definition ringbuf_term :: "ringbuf \<Rightarrow> ringbuf \<times> int" where
  "ringbuf_term rb =
    (let rb = rb\<lparr>kobjs := remove1 (memblock_uid rb) (remove1 (mtx_uid rb) (remove1 (evf_uid rb) (kobjs rb)))\<rparr>
     in (rb\<lparr>mtx_uid := -1, memblock_uid := -1, buf_len := 0,
            base_ptr := 0, get_ptr := 0, put_ptr := 0\<rparr>, 0))"

definition ringbuf_put :: "ringbuf \<Rightarrow> u8 list \<Rightarrow> int \<Rightarrow> (ringbuf \<times> int) option" where
  "ringbuf_put rb cs sz = do {
     (rb, n_put) \<leftarrow> put_loop put (lock_mutex rb) cs sz 0;
     let rb = (if n_put > 0 then set_event rb RINGBUF_EVF_NON_EMPTY else rb);
     Some (unlock_mutex rb, n_put) }"

definition ringbuf_put_clobber :: "ringbuf \<Rightarrow> u8 list \<Rightarrow> int \<Rightarrow> (ringbuf \<times> int) option" where
  "ringbuf_put_clobber rb cs sz = do {
     (rb, n_put) \<leftarrow> clobber_loop put_clobber (lock_mutex rb) cs sz 0;
     let rb = (if n_put > 0 then set_event rb RINGBUF_EVF_NON_EMPTY else rb);
     Some (unlock_mutex rb, n_put) }"

definition ringbuf_get :: "ringbuf \<Rightarrow> int \<Rightarrow> (ringbuf \<times> u8 list) option" where
  "ringbuf_get rb sz = do {
     (rb, out) \<leftarrow> get_loop get (lock_mutex rb) (nat sz) [];
     let rb = (if is_empty rb then clear_event rb (NOT RINGBUF_EVF_NON_EMPTY) else rb);
     Some (unlock_mutex rb, out) }"

text \<open>\<open>ret\<close> is what \<open>ksceKernelWaitEventFlag\<close> returned; a negative one is a timeout or an error.\<close>

definition ringbuf_get_wait :: "ringbuf \<Rightarrow> int \<Rightarrow> int \<Rightarrow> (ringbuf \<times> u8 list) option" where
  "ringbuf_get_wait rb sz ret =
     (if ret < 0 then Some (rb, [])
      else do {
        (rb, out) \<leftarrow> get_loop get (lock_mutex rb) (nat sz) [];
        let rb = (if is_empty rb then clear_event rb (NOT RINGBUF_EVF_NON_EMPTY) else rb);
        Some (unlock_mutex rb, out) })"

section \<open>Slots of the block and the pending bytes\<close>

text \<open>
  The code steps a pointer \<open>p\<close> to \<open>base_ptr + (p + 1) % buf_len\<close> with \<open>p\<close> an absolute
  address: from offset \<open>i\<close> to \<open>(base_ptr + i + 1) mod buf_len\<close>. With \<open>base_ptr\<close> a multiple of
  \<open>buf_len\<close> this is the next offset; in general the ring is walked with the stride
  \<open>(base_ptr + 1) mod buf_len\<close>, and \<open>slot rb k\<close> is the address of its \<open>k\<close>-th step.
\<close>

definition rlen :: "ringbuf \<Rightarrow> nat" where
  "rlen rb = unat (buf_len rb)"

definition stride :: "ringbuf \<Rightarrow> nat" where
  "stride rb = (unat (base_ptr rb) + 1) mod rlen rb"

definition slot :: "ringbuf \<Rightarrow> nat \<Rightarrow> u32" where
  "slot rb k = base_ptr rb + of_nat ((k * stride rb) mod rlen rb)"

definition rb_cap :: "ringbuf \<Rightarrow> nat" where
  "rb_cap rb = length (takeWhile (\<lambda>n. (n * stride rb + 1) mod rlen rb \<noteq> 0) [0..<rlen rb])"

definition blk_ok :: "ringbuf \<Rightarrow> bool" where
  "blk_ok rb \<longleftrightarrow> 1 < rlen rb \<and> unat (base_ptr rb) + rlen rb < 2 ^ 32 \<and> coprime (stride rb) (rlen rb)"

lemma rb_cap_unique:
  assumes "blk_ok rb" "n < rlen rb" "(n * stride rb + 1) mod rlen rb = 0"
  shows "rb_cap rb = n"
  unfolding rb_cap_def
proof (rule takeWhile_upt_length [OF assms(2)])
  show "\<not> (n * stride rb + 1) mod rlen rb \<noteq> 0" using assms(3) by simp
next
  fix k assume "k < n"
  show "(k * stride rb + 1) mod rlen rb \<noteq> 0"
  proof
    assume "(k * stride rb + 1) mod rlen rb = 0"
    then have "(k * stride rb) mod rlen rb = (n * stride rb) mod rlen rb"
      using assms(3) by (metis add.commute mod_add_cancel_left)
    then show False
      using assms \<open>k < n\<close> by (simp add: mult_mod_cancel blk_ok_def)
  qed
qed

lemma rb_cap_less: "blk_ok rb \<Longrightarrow> rb_cap rb < rlen rb"
  using neg_inverse_exists [of "stride rb" "rlen rb"] rb_cap_unique [of rb]
  by (auto simp: blk_ok_def)

lemma full_iff_cap:
  assumes "blk_ok rb" "n \<le> rb_cap rb"
  shows "(n * stride rb + 1) mod rlen rb = 0 \<longleftrightarrow> n = rb_cap rb"
proof -
  have "n < rlen rb" using assms rb_cap_less [of rb] by simp
  obtain m where m: "m < rlen rb" "(m * stride rb + 1) mod rlen rb = 0"
    using neg_inverse_exists [of "stride rb" "rlen rb"] assms(1) by (auto simp: blk_ok_def)
  with assms(1) have "rb_cap rb = m" by (intro rb_cap_unique)
  then show ?thesis
    using m(2) rb_cap_unique [OF assms(1) \<open>n < rlen rb\<close>] by metis
qed

lemma unat_slot:
  assumes "blk_ok rb"
  shows "unat (slot rb k) = unat (base_ptr rb) + (k * stride rb) mod rlen rb"
proof -
  let ?o = "(k * stride rb) mod rlen rb"
  have lt: "?o < rlen rb" and sum: "unat (base_ptr rb) + rlen rb < 2 ^ 32"
    using assms by (auto simp: blk_ok_def)
  have "unat (of_nat ?o :: u32) = ?o"
    using lt sum by (simp add: unat_of_nat)
  then show ?thesis
    unfolding slot_def using lt sum by (simp add: unat_word_ariths)
qed

lemma slot_eq_iff:
  assumes "blk_ok rb"
  shows "slot rb a = slot rb b \<longleftrightarrow> a mod rlen rb = b mod rlen rb"
proof -
  have "slot rb a = slot rb b \<longleftrightarrow> unat (slot rb a) = unat (slot rb b)"
    by (simp add: word_unat_eq_iff)
  also have "\<dots> \<longleftrightarrow> a mod rlen rb = b mod rlen rb"
    using assms by (simp add: unat_slot mult_mod_cancel blk_ok_def)
  finally show ?thesis .
qed

lemma unat_idx_slot:
  assumes "blk_ok rb"
  shows "unat ((slot rb k + 1) mod buf_len rb) = (Suc k * stride rb) mod rlen rb"
proof -
  let ?o = "(k * stride rb) mod rlen rb"
  have lt: "?o < rlen rb" and sum: "unat (base_ptr rb) + rlen rb < 2 ^ 32"
    using assms by (auto simp: blk_ok_def)
  have "unat (slot rb k + 1) = unat (base_ptr rb) + ?o + 1"
    using lt sum by (simp add: unat_word_ariths unat_slot [OF assms])
  then have "unat ((slot rb k + 1) mod buf_len rb) = (unat (base_ptr rb) + 1 + k * stride rb) mod rlen rb"
    by (simp add: unat_mod flip: rlen_def) (simp add: mod_simps mod_Suc_eq flip: mod_Suc_eq [of "_ + _ mod _"])
  also have "\<dots> = (Suc k * stride rb) mod rlen rb"
    by (simp add: stride_def mod_simps)
  finally show ?thesis .
qed

lemma inc_slot:
  assumes "blk_ok rb"
  shows "inc rb (slot rb k) = Some (slot rb (Suc k))"
proof -
  have "buf_len rb \<noteq> 0" using assms by (auto simp: blk_ok_def rlen_def)
  moreover have "(slot rb k + 1) mod buf_len rb = of_nat ((Suc k * stride rb) mod rlen rb)"
    by (metis unat_idx_slot [OF assms] of_nat_unat ucast_id)
  ultimately show ?thesis by (simp add: inc_def idx_def slot_def [of rb "Suc k"])
qed

lemma is_full_pending:
  assumes "blk_ok rb" "get_ptr rb = slot rb g" "put_ptr rb = slot rb (g + n)" "n \<le> rb_cap rb"
  shows "is_full rb = Some (n = rb_cap rb)"
proof -
  let ?s = "stride rb" and ?l = "rlen rb" and ?b = "unat (base_ptr rb)"
  have nz: "buf_len rb \<noteq> 0" using assms(1) by (auto simp: blk_ok_def rlen_def)
  have "unat (slot rb g mod buf_len rb) = (?b + g * ?s) mod ?l"
    by (simp add: unat_mod rlen_def [symmetric] unat_slot [OF assms(1)] mod_simps)
  moreover have "unat ((slot rb (g + n) + 1) mod buf_len rb) = (?b + g * ?s + (n * ?s + 1)) mod ?l"
  proof -
    have "(Suc (g + n) * ?s) mod ?l = ((?b + 1) + (g + n) * ?s) mod ?l"
      by (simp add: stride_def mod_simps)
    then show ?thesis
      using unat_idx_slot [OF assms(1), of "g + n"] by (simp add: algebra_simps)
  qed
  ultimately have "(slot rb (g + n) + 1) mod buf_len rb = slot rb g mod buf_len rb
      \<longleftrightarrow> (?b + g * ?s + (n * ?s + 1)) mod ?l = (?b + g * ?s + 0) mod ?l"
    by (simp add: word_unat_eq_iff)
  also have "\<dots> \<longleftrightarrow> (n * ?s + 1) mod ?l = 0"
    by (simp only: mod_add_cancel_left) simp
  also have "\<dots> \<longleftrightarrow> n = rb_cap rb" by (rule full_iff_cap [OF assms(1,4)])
  finally show ?thesis using nz assms(2,3) by (simp add: is_full_def idx_def)
qed

lemma rb_cap_pos: "blk_ok rb \<Longrightarrow> 0 < rb_cap rb"
  using full_iff_cap [of rb 0] by (auto simp: blk_ok_def)

fun walk :: "ringbuf \<Rightarrow> nat \<Rightarrow> u32 \<Rightarrow> u8 list" where
  "walk rb 0 p = []"
| "walk rb (Suc k) p = (if p = put_ptr rb then []
     else rmem rb p # walk rb k (base_ptr rb + (p + 1) mod buf_len rb))"

definition contents :: "ringbuf \<Rightarrow> u8 list" where
  "contents rb = walk rb (rlen rb) (get_ptr rb)"

definition pending :: "ringbuf \<Rightarrow> nat \<Rightarrow> nat \<Rightarrow> bool" where
  "pending rb g n \<longleftrightarrow> get_ptr rb = slot rb g \<and> put_ptr rb = slot rb (g + n) \<and> n \<le> rb_cap rb"

definition rb_wf :: "ringbuf \<Rightarrow> bool" where
  "rb_wf rb \<longleftrightarrow> blk_ok rb \<and> (\<exists>g n. pending rb g n)"

lemma same_block [simp]:
  "rlen (rb\<lparr>get_ptr := p\<rparr>) = rlen rb" "rlen (rb\<lparr>put_ptr := p\<rparr>) = rlen rb"
  "rlen (rb\<lparr>rmem := m\<rparr>) = rlen rb" "rlen (rb\<lparr>evf_bits := b\<rparr>) = rlen rb"
  "rlen (rb\<lparr>mtx_locks := l\<rparr>) = rlen rb"
  "stride (rb\<lparr>get_ptr := p\<rparr>) = stride rb" "stride (rb\<lparr>put_ptr := p\<rparr>) = stride rb"
  "stride (rb\<lparr>rmem := m\<rparr>) = stride rb" "stride (rb\<lparr>evf_bits := b\<rparr>) = stride rb"
  "stride (rb\<lparr>mtx_locks := l\<rparr>) = stride rb"
  by (simp_all add: rlen_def stride_def)

lemma same_slot [simp]:
  "slot (rb\<lparr>get_ptr := p\<rparr>) k = slot rb k" "slot (rb\<lparr>put_ptr := p\<rparr>) k = slot rb k"
  "slot (rb\<lparr>rmem := m\<rparr>) k = slot rb k" "slot (rb\<lparr>evf_bits := b\<rparr>) k = slot rb k"
  "slot (rb\<lparr>mtx_locks := l\<rparr>) k = slot rb k"
  "rb_cap (rb\<lparr>get_ptr := p\<rparr>) = rb_cap rb" "rb_cap (rb\<lparr>put_ptr := p\<rparr>) = rb_cap rb"
  "rb_cap (rb\<lparr>rmem := m\<rparr>) = rb_cap rb" "rb_cap (rb\<lparr>evf_bits := b\<rparr>) = rb_cap rb"
  "rb_cap (rb\<lparr>mtx_locks := l\<rparr>) = rb_cap rb"
  "blk_ok (rb\<lparr>get_ptr := p\<rparr>) = blk_ok rb" "blk_ok (rb\<lparr>put_ptr := p\<rparr>) = blk_ok rb"
  "blk_ok (rb\<lparr>rmem := m\<rparr>) = blk_ok rb" "blk_ok (rb\<lparr>evf_bits := b\<rparr>) = blk_ok rb"
  "blk_ok (rb\<lparr>mtx_locks := l\<rparr>) = blk_ok rb"
  by (simp_all add: slot_def rb_cap_def blk_ok_def)

lemma walk_pending:
  assumes "blk_ok rb" "put_ptr rb = slot rb (h + m)" "m < rlen rb" "m \<le> fuel"
  shows "walk rb fuel (slot rb h) = map (\<lambda>j. rmem rb (slot rb (h + j))) [0..<m]"
  using assms(2-)
proof (induction fuel arbitrary: h m)
  case 0
  then show ?case by simp
next
  case (Suc fuel)
  show ?case
  proof (cases m)
    case 0
    then show ?thesis using Suc.prems by simp
  next
    case (Suc k)
    have ne: "slot rb h \<noteq> put_ptr rb"
    proof
      assume "slot rb h = put_ptr rb"
      then have "(h + 0) mod rlen rb = (h + m) mod rlen rb"
        using Suc.prems(1) slot_eq_iff [OF assms(1)] by simp
      then have "0 mod rlen rb = m mod rlen rb"
        by (simp only: mod_add_cancel_left)
      then show False using Suc.prems(2) \<open>m = Suc k\<close> by simp
    qed
    have nx: "base_ptr rb + (slot rb h + 1) mod buf_len rb = slot rb (Suc h)"
      using inc_slot [OF assms(1), of h] by (simp add: inc_def idx_def split: if_splits)
    have "walk rb fuel (slot rb (Suc h)) = map (\<lambda>j. rmem rb (slot rb (Suc h + j))) [0..<k]"
      by (rule Suc.IH) (use Suc.prems \<open>m = Suc k\<close> in auto)
    then show ?thesis
      using ne nx \<open>m = Suc k\<close> by (simp add: upt_conv_Cons map_Suc_upt [symmetric] del: upt_Suc)
  qed
qed

lemma contents_pending:
  assumes "blk_ok rb" "pending rb g n"
  shows "contents rb = map (\<lambda>j. rmem rb (slot rb (g + j))) [0..<n]"
  using assms rb_cap_less [OF assms(1)]
  by (auto simp: contents_def pending_def intro!: walk_pending)

lemma length_contents: "blk_ok rb \<Longrightarrow> pending rb g n \<Longrightarrow> length (contents rb) = n"
  by (simp add: contents_pending)

lemma wf_pending:
  assumes "rb_wf rb"
  obtains g where "blk_ok rb" "pending rb g (length (contents rb))"
  using assms by (metis length_contents rb_wf_def)

lemma wf_bound: "rb_wf rb \<Longrightarrow> length (contents rb) \<le> rb_cap rb"
  by (metis pending_def wf_pending)

lemma is_empty_iff: "rb_wf rb \<Longrightarrow> is_empty rb \<longleftrightarrow> contents rb = []"
proof -
  assume wf: "rb_wf rb"
  then obtain g where g: "blk_ok rb" "pending rb g (length (contents rb))" by (rule wf_pending)
  let ?n = "length (contents rb)"
  have lt: "?n < rlen rb" using g rb_cap_less [of rb] by (simp add: pending_def)
  have "is_empty rb \<longleftrightarrow> (g + 0) mod rlen rb = (g + ?n) mod rlen rb"
    using g slot_eq_iff [OF g(1)] by (simp add: is_empty_def pending_def)
  also have "\<dots> \<longleftrightarrow> 0 mod rlen rb = ?n mod rlen rb" by (simp only: mod_add_cancel_left)
  finally show ?thesis using lt by auto
qed

lemma is_full_iff: "rb_wf rb \<Longrightarrow> is_full rb = Some (length (contents rb) = rb_cap rb)"
  by (metis is_full_pending pending_def wf_pending)

text \<open>What a byte operation leaves alone: the kernel objects and all memory outside the block.\<close>

definition in_block :: "ringbuf \<Rightarrow> u32 \<Rightarrow> bool" where
  "in_block rb a \<longleftrightarrow> unat (base_ptr rb) \<le> unat a \<and> unat a < unat (base_ptr rb) + rlen rb"

definition rb_frame :: "ringbuf \<Rightarrow> u32 \<times> int \<times> u32 \<times> u32 \<times> int list \<times> (u32 \<Rightarrow> u8)" where
  "rb_frame rb = (evf_bits rb, mtx_locks rb, base_ptr rb, buf_len rb, kobjs rb,
     \<lambda>a. if in_block rb a then 0 else rmem rb a)"

lemma rb_frame_ptrs [simp]:
  "rb_frame (rb\<lparr>get_ptr := p\<rparr>) = rb_frame rb" "rb_frame (rb\<lparr>put_ptr := p\<rparr>) = rb_frame rb"
  by (simp_all add: rb_frame_def in_block_def cong: if_cong)

lemma slot_in_block: "blk_ok rb \<Longrightarrow> in_block rb (slot rb k)"
  by (simp add: in_block_def unat_slot blk_ok_def)

lemma rb_frame_store:
  "in_block rb p \<Longrightarrow> rb_frame (rb\<lparr>rmem := (rmem rb)(p := c)\<rparr>) = rb_frame rb"
  by (auto simp: rb_frame_def in_block_def fun_eq_iff)

lemma store_put_law:
  assumes "blk_ok rb" "pending rb g n" "n < rb_cap rb"
  shows "\<exists>rb'. store_put rb c = Some rb' \<and> blk_ok rb' \<and> pending rb' g (Suc n) \<and>
    rb_frame rb' = rb_frame rb \<and> rb_cap rb' = rb_cap rb \<and> contents rb' = contents rb @ [c]"
proof -
  let ?m = "(rmem rb)(put_ptr rb := c)"
  let ?rb = "rb\<lparr>rmem := ?m, put_ptr := slot rb (Suc (g + n))\<rparr>"
  have put: "put_ptr rb = slot rb (g + n)" and get: "get_ptr rb = slot rb g"
    using assms(2) by (simp_all add: pending_def)
  have "inc (rb\<lparr>rmem := ?m\<rparr>) (slot rb (g + n)) = Some (slot rb (Suc (g + n)))"
    using inc_slot [OF assms(1), of "g + n"] by (simp add: inc_def idx_def split: if_splits)
  then have "store_put rb c = Some ?rb"
    by (simp add: store_put_def put)
  moreover have pend: "pending ?rb g (Suc n)"
    using assms get by (simp add: pending_def)
  moreover have "contents ?rb = contents rb @ [c]"
  proof -
    have fresh: "slot rb (g + j) \<noteq> slot rb (g + n)" if "j < n" for j
      using that assms rb_cap_less [OF assms(1)]
      by (simp add: slot_eq_iff mod_add_cancel_left)
    then have "map (\<lambda>j. ?m (slot rb (g + j))) [0..<n] = map (\<lambda>j. rmem rb (slot rb (g + j))) [0..<n]"
      by (auto simp: put)
    then show ?thesis
      using contents_pending [of ?rb g "Suc n"] contents_pending [OF assms(1,2)] pend assms(1)
      by (simp add: put)
  qed
  moreover have "rb_frame ?rb = rb_frame rb"
    using rb_frame_store [OF slot_in_block [OF assms(1)], of "g + n" c]
    by (simp add: put)
  ultimately show ?thesis using assms(1) by auto
qed

lemma put_law:
  assumes "rb_wf rb" "length (contents rb) < rb_cap rb"
  shows "\<exists>rb'. put rb c = Some (rb', 0) \<and> rb_wf rb' \<and> rb_frame rb' = rb_frame rb \<and> rb_cap rb' = rb_cap rb \<and>
    contents rb' = contents rb @ [c]"
proof -
  obtain g where "blk_ok rb" "pending rb g (length (contents rb))" using assms(1) by (rule wf_pending)
  from store_put_law [OF this assms(2), of c]
  obtain rb' where "store_put rb c = Some rb'" "rb_wf rb'" "rb_frame rb' = rb_frame rb" "rb_cap rb' = rb_cap rb"
      "contents rb' = contents rb @ [c]"
    unfolding rb_wf_def by blast
  then show ?thesis using is_full_iff [OF assms(1)] assms(2) by (simp add: put_def)
qed

lemma put_full_law:
  "rb_wf rb \<Longrightarrow> length (contents rb) = rb_cap rb \<Longrightarrow> put rb c = Some (rb, -1)"
  by (simp add: put_def is_full_iff)

lemma drop_get:
  assumes "blk_ok rb" "pending rb g (Suc n)"
  shows "\<exists>rb'. inc rb (get_ptr rb) = Some (slot rb (Suc g)) \<and> rb' = rb\<lparr>get_ptr := slot rb (Suc g)\<rparr> \<and>
    pending rb' (Suc g) n \<and> contents rb = rmem rb (get_ptr rb) # contents rb'"
proof -
  let ?rb = "rb\<lparr>get_ptr := slot rb (Suc g)\<rparr>"
  have get: "get_ptr rb = slot rb g" using assms(2) by (simp add: pending_def)
  have pend: "pending ?rb (Suc g) n" using assms(2) by (simp add: pending_def)
  have "contents rb = rmem rb (slot rb g) # contents ?rb"
    using contents_pending [OF assms] contents_pending [of ?rb, OF _ pend] assms(1)
    by (simp add: upt_conv_Cons map_Suc_upt [symmetric] del: upt_Suc)
  then show ?thesis using get pend inc_slot [OF assms(1)] by simp
qed

lemma get_nil_law: "rb_wf rb \<Longrightarrow> contents rb = [] \<Longrightarrow> get rb = Some (rb, None)"
  by (simp add: get_def is_empty_iff)

lemma get_cons_law:
  assumes "rb_wf rb" "contents rb = c # cs"
  shows "\<exists>rb'. get rb = Some (rb', Some c) \<and> rb_wf rb' \<and> rb_frame rb' = rb_frame rb \<and> rb_cap rb' = rb_cap rb \<and> contents rb' = cs"
proof -
  obtain g where g: "blk_ok rb" "pending rb g (length (contents rb))" using assms(1) by (rule wf_pending)
  then have "pending rb g (Suc (length cs))" using assms(2) by simp
  from drop_get [OF g(1) this] show ?thesis
    using assms g(1) by (auto simp: get_def is_empty_iff rb_wf_def)
qed

lemma put_clobber_law:
  assumes "rb_wf rb"
  shows "\<exists>rb'. put_clobber rb c = Some (rb', 0) \<and> rb_wf rb' \<and> rb_frame rb' = rb_frame rb \<and> rb_cap rb' = rb_cap rb \<and>
    contents rb' = keep_last (rb_cap rb) (contents rb @ [c])"
proof (cases "length (contents rb) = rb_cap rb")
  case False
  then have lt: "length (contents rb) < rb_cap rb" using wf_bound [OF assms] by simp
  from put_law [OF assms lt, of c] show ?thesis
    using is_full_iff [OF assms] lt
    by (auto simp: put_clobber_def put_def keep_last_def)
next
  case True
  obtain g where g: "blk_ok rb" "pending rb g (length (contents rb))" using assms by (rule wf_pending)
  obtain n where n: "rb_cap rb = Suc n" using rb_cap_pos [OF g(1)] by (cases "rb_cap rb") auto
  let ?rb = "rb\<lparr>get_ptr := slot rb (Suc g)\<rparr>"
  have d: "inc rb (get_ptr rb) = Some (slot rb (Suc g))" "pending ?rb (Suc g) n"
      "contents rb = rmem rb (get_ptr rb) # contents ?rb"
    using drop_get [OF g(1), of g n] g(2) True n by auto
  from store_put_law [of ?rb, OF _ d(2), of c] obtain rb' where
      "store_put ?rb c = Some rb'" "rb_wf rb'" "rb_frame rb' = rb_frame rb" "rb_cap rb' = rb_cap rb"
      "contents rb' = contents ?rb @ [c]"
    using g(1) n unfolding rb_wf_def by auto
  moreover have "keep_last (rb_cap rb) (contents rb @ [c]) = contents ?rb @ [c]"
    using d(3) True by (simp add: keep_last_def)
  ultimately show ?thesis
    using d(1) is_full_iff [OF assms] True by (simp add: put_clobber_def)
qed

section \<open>The contract: a bounded byte queue\<close>

locale bounded_queue =
  fixes invar :: "'s \<Rightarrow> bool"
    and elems :: "'s \<Rightarrow> 'c list"
    and cap :: "'s \<Rightarrow> nat"
    and frame :: "'s \<Rightarrow> 'f"
    and put1 :: "'s \<Rightarrow> 'c \<Rightarrow> ('s \<times> int) option"
    and clobber1 :: "'s \<Rightarrow> 'c \<Rightarrow> ('s \<times> int) option"
    and get1 :: "'s \<Rightarrow> ('s \<times> 'c option) option"
  assumes bound: "invar s \<Longrightarrow> length (elems s) \<le> cap s"
    and put_room: "invar s \<Longrightarrow> length (elems s) < cap s \<Longrightarrow>
      \<exists>s'. put1 s c = Some (s', 0) \<and> invar s' \<and> frame s' = frame s \<and> cap s' = cap s \<and> elems s' = elems s @ [c]"
    and put_full: "invar s \<Longrightarrow> length (elems s) = cap s \<Longrightarrow> put1 s c = Some (s, -1)"
    and clobber: "invar s \<Longrightarrow>
      \<exists>s'. clobber1 s c = Some (s', 0) \<and> invar s' \<and> frame s' = frame s \<and> cap s' = cap s \<and>
        elems s' = keep_last (cap s) (elems s @ [c])"
    and get_nil: "invar s \<Longrightarrow> elems s = [] \<Longrightarrow> get1 s = Some (s, None)"
    and get_cons: "invar s \<Longrightarrow> elems s = c # cs \<Longrightarrow>
      \<exists>s'. get1 s = Some (s', Some c) \<and> invar s' \<and> frame s' = frame s \<and> cap s' = cap s \<and> elems s' = cs"
begin

lemma put_loop_queue:
  assumes "invar s" "nat sz \<le> length cs"
  shows "\<exists>s'. let k = min (nat sz) (cap s - length (elems s)) in
    put_loop put1 s cs sz n = Some (s', n + int k) \<and> invar s' \<and> frame s' = frame s \<and> cap s' = cap s \<and>
    elems s' = elems s @ take k cs"
  using assms
proof (induction cs arbitrary: s sz n)
  case Nil
  then show ?case by (auto simp: Let_def)
next
  case (Cons c cs)
  show ?case
  proof (cases "sz > 0")
    case False
    then show ?thesis using Cons.prems by (auto simp: Let_def)
  next
    case pos: True
    show ?thesis
    proof (cases "length (elems s) = cap s")
      case True
      then show ?thesis using pos put_full [OF Cons.prems(1)] Cons.prems(1) by (simp add: Let_def)
    next
      case False
      then have lt: "length (elems s) < cap s" using bound [OF Cons.prems(1)] by simp
      obtain s1 where s1: "put1 s c = Some (s1, 0)" "invar s1" "frame s1 = frame s" "cap s1 = cap s" "elems s1 = elems s @ [c]"
        using put_room [OF Cons.prems(1) lt] by blast
      have "nat (sz - 1) \<le> length cs" using Cons.prems(2) by auto
      from Cons.IH [OF s1(2) this, of "n + 1"] obtain s2 where
        s2: "let k = min (nat (sz - 1)) (cap s1 - length (elems s1)) in
          put_loop put1 s1 cs (sz - 1) (n + 1) = Some (s2, n + 1 + int k) \<and> invar s2 \<and> frame s2 = frame s1 \<and> cap s2 = cap s1 \<and>
          elems s2 = elems s1 @ take k cs" by blast
      define k where "k = min (nat (sz - 1)) (cap s1 - length (elems s1))"
      have k: "min (nat sz) (cap s - length (elems s)) = Suc k"
        using pos lt s1 by (auto simp: k_def)
      show ?thesis
        unfolding k Let_def
        using s2 pos s1 unfolding k_def [symmetric] by (intro exI [of _ s2]) (simp add: Let_def)
    qed
  qed
qed

lemma clobber_loop_queue:
  assumes "invar s" "nat sz \<le> length cs"
  shows "\<exists>s'. clobber_loop clobber1 s cs sz n = Some (s', n + int (nat sz)) \<and> invar s' \<and> frame s' = frame s \<and>
    cap s' = cap s \<and> elems s' = keep_last (cap s) (elems s @ take (nat sz) cs)"
  using assms
proof (induction cs arbitrary: s sz n)
  case Nil
  then show ?case using bound [of s] by (auto simp: keep_last_def)
next
  case (Cons c cs)
  show ?case
  proof (cases "sz > 0")
    case False
    then show ?thesis using Cons.prems bound [of s] by (auto simp: keep_last_def)
  next
    case True
    obtain s1 where s1: "clobber1 s c = Some (s1, 0)" "invar s1" "frame s1 = frame s" "cap s1 = cap s"
        "elems s1 = keep_last (cap s) (elems s @ [c])"
      using clobber [OF Cons.prems(1)] by blast
    have "nat (sz - 1) \<le> length cs" using Cons.prems(2) by auto
    from Cons.IH [OF s1(2) this, of "n + 1"] obtain s2 where
      s2: "clobber_loop clobber1 s1 cs (sz - 1) (n + 1) = Some (s2, n + 1 + int (nat (sz - 1)))"
        "invar s2" "frame s2 = frame s1" "cap s2 = cap s1" "elems s2 = keep_last (cap s1) (elems s1 @ take (nat (sz - 1)) cs)"
      by blast
    have "take (nat sz) (c # cs) = c # take (nat (sz - 1)) cs"
      using True by (cases "nat sz") (auto simp: nat_diff_distrib)
    then show ?thesis
      using True s1 s2 keep_last_append [of "cap s" "elems s @ [c]"] by simp
  qed
qed

lemma get_loop_queue:
  assumes "invar s"
  shows "\<exists>s'. get_loop get1 s m out = Some (s', out @ take m (elems s)) \<and> invar s' \<and> frame s' = frame s \<and>
    cap s' = cap s \<and> elems s' = drop m (elems s)"
  using assms
proof (induction m arbitrary: s out)
  case 0
  then show ?case by simp
next
  case (Suc m)
  show ?case
  proof (cases "elems s")
    case Nil
    then show ?thesis using get_nil [OF Suc.prems] Suc.prems by simp
  next
    case (Cons c cs)
    obtain s1 where s1: "get1 s = Some (s1, Some c)" "invar s1" "frame s1 = frame s" "cap s1 = cap s" "elems s1 = cs"
      using get_cons [OF Suc.prems Cons] by blast
    from Suc.IH [OF s1(2), of "out @ [c]"] show ?thesis using s1 Cons by auto
  qed
qed

end

interpretation rq: bounded_queue rb_wf contents rb_cap rb_frame put put_clobber get
  by unfold_locales
    (use wf_bound put_law put_full_law put_clobber_law get_nil_law get_cons_law in blast)+

section \<open>The exported functions\<close>

text \<open>The event flag says whether there is something to read: no reader sleeps on pending bytes.\<close>

definition signalled :: "ringbuf \<Rightarrow> bool" where
  "signalled rb \<longleftrightarrow> (evf_bits rb AND RINGBUF_EVF_NON_EMPTY \<noteq> 0 \<longleftrightarrow> contents rb \<noteq> [])"

lemma contents_upd [simp]:
  "contents (rb\<lparr>evf_bits := b\<rparr>) = contents rb" "contents (rb\<lparr>mtx_locks := l\<rparr>) = contents rb"
proof -
  have w: "walk (rb\<lparr>evf_bits := b\<rparr>) k p = walk rb k p" "walk (rb\<lparr>mtx_locks := l\<rparr>) k p = walk rb k p" for k p
    by (induction k arbitrary: p) simp_all
  show "contents (rb\<lparr>evf_bits := b\<rparr>) = contents rb" "contents (rb\<lparr>mtx_locks := l\<rparr>) = contents rb"
    by (simp_all add: contents_def w)
qed

lemma rb_wf_upd [simp]:
  "rb_wf (rb\<lparr>evf_bits := b\<rparr>) = rb_wf rb" "rb_wf (rb\<lparr>mtx_locks := l\<rparr>) = rb_wf rb"
  by (simp_all add: rb_wf_def pending_def)

lemma is_empty_upd [simp]:
  "is_empty (rb\<lparr>evf_bits := b\<rparr>) = is_empty rb" "is_empty (rb\<lparr>mtx_locks := l\<rparr>) = is_empty rb"
  by (simp_all add: is_empty_def)

lemmas rb_locks = lock_mutex_def unlock_mutex_def set_event_def clear_event_def

text \<open>The block a buffer lives in, and the memory around it.\<close>

definition same_outside :: "ringbuf \<Rightarrow> ringbuf \<Rightarrow> bool" where
  "same_outside rb rb' \<longleftrightarrow> base_ptr rb' = base_ptr rb \<and> buf_len rb' = buf_len rb \<and> kobjs rb' = kobjs rb \<and>
     mtx_locks rb' = mtx_locks rb \<and> (\<forall>a. \<not> in_block rb a \<longrightarrow> rmem rb' a = rmem rb a)"

lemma frame_same_outside:
  assumes "rb_frame rb1 = rb_frame (lock_mutex rb)"
  shows "same_outside rb (unlock_mutex (rb1\<lparr>evf_bits := b\<rparr>))" "same_outside rb (unlock_mutex rb1)"
    "evf_bits rb1 = evf_bits rb"
proof -
  have eqs: "evf_bits rb1 = evf_bits rb" "mtx_locks rb1 = mtx_locks rb + 1" "base_ptr rb1 = base_ptr rb"
      "buf_len rb1 = buf_len rb" "kobjs rb1 = kobjs rb"
    using assms by (simp_all add: rb_frame_def rb_locks)
  have "(\<lambda>a. if in_block rb1 a then 0 else rmem rb1 a)
      = (\<lambda>a. if in_block (lock_mutex rb) a then 0 else rmem (lock_mutex rb) a)"
    using assms by (simp add: rb_frame_def)
  then have "(if in_block rb1 a then 0 else rmem rb1 a) = (if in_block rb a then 0 else rmem rb a)" for a
    by (auto simp: fun_eq_iff rb_locks in_block_def rlen_def split: if_splits)
  then have "rmem rb1 a = rmem rb a" if "\<not> in_block rb a" for a
    using that eqs by (metis in_block_def rlen_def)
  then show "same_outside rb (unlock_mutex (rb1\<lparr>evf_bits := b\<rparr>))" "same_outside rb (unlock_mutex rb1)"
      "evf_bits rb1 = evf_bits rb"
    using eqs by (simp_all add: same_outside_def rb_locks)
qed

lemma ringbuf_put_clobber_law:
  assumes "rb_wf rb" "nat sz \<le> length cs"
  shows "\<exists>rb'. ringbuf_put_clobber rb cs sz = Some (rb', int (nat sz)) \<and> rb_wf rb' \<and>
    rb_cap rb' = rb_cap rb \<and> same_outside rb rb' \<and>
    contents rb' = keep_last (rb_cap rb) (contents rb @ take (nat sz) cs) \<and>
    (signalled rb \<longrightarrow> signalled rb')"
proof -
  obtain rb1 where rb1: "clobber_loop put_clobber (lock_mutex rb) cs sz 0 = Some (rb1, int (nat sz))"
      "rb_wf rb1" "rb_frame rb1 = rb_frame (lock_mutex rb)" "rb_cap rb1 = rb_cap rb"
      "contents rb1 = keep_last (rb_cap rb) (contents rb @ take (nat sz) cs)"
    using rq.clobber_loop_queue [of "lock_mutex rb" sz cs 0] assms by (auto simp: rb_locks)
  have ne: "contents rb1 \<noteq> []" if "sz > 0"
  proof -
    have "0 < rb_cap rb" using assms(1) rb_cap_pos by (auto simp: rb_wf_def)
    moreover have "take (nat sz) cs \<noteq> []" using that assms(2) by auto
    ultimately show ?thesis using rb1(5) by simp
  qed
  let ?rb = "unlock_mutex (if sz > 0 then set_event rb1 RINGBUF_EVF_NON_EMPTY else rb1)"
  have "ringbuf_put_clobber rb cs sz = Some (?rb, int (nat sz))"
    by (simp add: ringbuf_put_clobber_def rb1(1) Let_def)
  moreover have "signalled rb \<longrightarrow> signalled ?rb"
  proof (cases "sz > 0")
    case True
    then show ?thesis using ne
      by (simp add: signalled_def rb_locks RINGBUF_EVF_NON_EMPTY_def word_bw_comms bit.conj_disj_distrib2)
  next
    case False
    then show ?thesis
      using rb1(5) frame_same_outside(3) [OF rb1(3)] wf_bound [OF assms(1)]
      by (simp add: signalled_def rb_locks keep_last_def)
  qed
  ultimately show ?thesis
    using rb1 frame_same_outside [OF rb1(3)]
    by (intro exI [of _ ?rb]) (simp add: rb_locks)
qed

lemma get_tail_law:
  assumes "rb_wf rb" "signalled rb"
  shows "\<exists>rb1. get_loop get (lock_mutex rb) n [] = Some (rb1, take n (contents rb)) \<and>
    (let rb' = unlock_mutex (if is_empty rb1 then clear_event rb1 (NOT RINGBUF_EVF_NON_EMPTY) else rb1) in
      rb_wf rb' \<and> rb_cap rb' = rb_cap rb \<and> same_outside rb rb' \<and>
      contents rb' = drop n (contents rb) \<and> signalled rb')"
proof -
  obtain rb1 where rb1: "get_loop get (lock_mutex rb) n [] = Some (rb1, take n (contents rb))"
      "rb_wf rb1" "rb_frame rb1 = rb_frame (lock_mutex rb)" "rb_cap rb1 = rb_cap rb"
      "contents rb1 = drop n (contents rb)"
    using rq.get_loop_queue [of "lock_mutex rb" n "[]"] assms by (auto simp: rb_locks)
  have e: "is_empty rb1 \<longleftrightarrow> contents rb1 = []" using rb1(2) by (rule is_empty_iff)
  have "contents rb1 \<noteq> [] \<Longrightarrow> contents rb \<noteq> []" using rb1(5) by auto
  then show ?thesis
    using rb1 assms(2) e frame_same_outside [OF rb1(3)]
    by (auto simp: Let_def signalled_def rb_locks RINGBUF_EVF_NON_EMPTY_def word_bw_assocs)
qed

lemma ringbuf_get_law:
  assumes "rb_wf rb" "signalled rb"
  shows "\<exists>rb'. ringbuf_get rb sz = Some (rb', take (nat sz) (contents rb)) \<and> rb_wf rb' \<and>
    rb_cap rb' = rb_cap rb \<and> same_outside rb rb' \<and>
    contents rb' = drop (nat sz) (contents rb) \<and> signalled rb'"
  using get_tail_law [OF assms, of "nat sz"] by (auto simp: ringbuf_get_def Let_def)

lemma ringbuf_get_wait_law:
  assumes "rb_wf rb" "signalled rb"
  shows "\<exists>rb'. ringbuf_get_wait rb sz ret = Some (rb', if ret < 0 then [] else take (nat sz) (contents rb)) \<and>
    rb_wf rb' \<and> rb_cap rb' = rb_cap rb \<and> same_outside rb rb' \<and>
    contents rb' = (if ret < 0 then contents rb else drop (nat sz) (contents rb)) \<and> signalled rb'"
  using get_tail_law [OF assms, of "nat sz"] assms
  by (auto simp: ringbuf_get_wait_def Let_def same_outside_def)

lemma ringbuf_put_law:
  assumes "rb_wf rb" "signalled rb" "nat sz \<le> length cs"
  shows "\<exists>rb'. let k = min (nat sz) (rb_cap rb - length (contents rb)) in
    ringbuf_put rb cs sz = Some (rb', int k) \<and> rb_wf rb' \<and> rb_cap rb' = rb_cap rb \<and> same_outside rb rb' \<and>
    contents rb' = contents rb @ take k cs \<and> signalled rb'"
proof -
  define k where "k = min (nat sz) (rb_cap rb - length (contents rb))"
  obtain rb1 where rb1: "put_loop put (lock_mutex rb) cs sz 0 = Some (rb1, int k)"
      "rb_wf rb1" "rb_frame rb1 = rb_frame (lock_mutex rb)" "rb_cap rb1 = rb_cap rb"
      "contents rb1 = contents rb @ take k cs"
    using rq.put_loop_queue [of "lock_mutex rb" sz cs 0] assms by (auto simp: rb_locks k_def Let_def)
  have "k \<le> length cs" using assms(3) by (simp add: k_def)
  then show ?thesis
    unfolding k_def [symmetric] Let_def
    using rb1 assms(2) frame_same_outside [OF rb1(3)]
    by (intro exI [of _ "unlock_mutex (if k > 0 then set_event rb1 RINGBUF_EVF_NON_EMPTY else rb1)"])
      (auto simp: ringbuf_put_def Let_def signalled_def rb_locks RINGBUF_EVF_NON_EMPTY_def
        word_bw_comms bit.conj_disj_distrib2)
qed

lemma ringbuf_init_ok:
  assumes "evf_res k \<ge> 0" "mtx_res k \<ge> 0" "memblock_res k \<ge> 0"
    and "1 < n" "unat (memblock_base k) + n < 2 ^ 32" "coprime ((unat (memblock_base k) + 1) mod n) n"
    and "ringbuf_init k rb (int n) = (rb', r)"
  shows "r = 0 \<and> rb_wf rb' \<and> contents rb' = [] \<and> signalled rb' \<and> mtx_locks rb' = 0 \<and>
    rlen rb' = n \<and> base_ptr rb' = memblock_base k"
proof -
  have "base_ptr rb' = memblock_base k" "buf_len rb' = of_nat n" "get_ptr rb' = base_ptr rb'"
      "put_ptr rb' = base_ptr rb'" "evf_bits rb' = 0" "mtx_locks rb' = 0" "r = 0"
    using assms by (auto simp: ringbuf_init_def Let_def split: if_splits)
  moreover from this(2) have "rlen rb' = n"
    using assms(5) by (simp add: rlen_def unat_of_nat)
  moreover from calculation have "blk_ok rb'" "pending rb' 0 0"
    using assms(4-6) by (auto simp: blk_ok_def stride_def pending_def slot_def)
  moreover from this have "contents rb' = []" by (simp add: contents_pending)
  ultimately show ?thesis by (auto simp: rb_wf_def signalled_def)
qed

lemma ringbuf_init_fail:
  "ringbuf_init k rb n = (rb', r) \<Longrightarrow> r < 0 \<Longrightarrow> kobjs rb' = kobjs rb"
  by (auto simp: ringbuf_init_def Let_def split: if_splits)

lemma ringbuf_init_term:
  "ringbuf_init k rb n = (rb', r) \<Longrightarrow> r \<ge> 0 \<Longrightarrow> kobjs (fst (ringbuf_term rb')) = kobjs rb"
  by (auto simp: ringbuf_init_def ringbuf_term_def Let_def split: if_splits)

lemma same_outside_cap:
  "same_outside rb rb' \<Longrightarrow> rb_cap rb' = rb_cap rb"
  by (simp add: same_outside_def rb_cap_def stride_def rlen_def)

lemma rb_cap_aligned:
  assumes "1 < rlen rb" "rlen rb dvd unat (base_ptr rb)" "unat (base_ptr rb) + rlen rb < 2 ^ 32"
  shows "blk_ok rb \<and> rb_cap rb = rlen rb - 1"
proof -
  have s: "stride rb = 1" using assms(1,2) by (auto simp: stride_def dvd_def mod_Suc)
  then have "blk_ok rb" using assms by (simp add: blk_ok_def)
  moreover from this have "rb_cap rb = rlen rb - 1"
    by (rule rb_cap_unique) (use s assms(1) in auto)
  ultimately show ?thesis by simp
qed

lemma rb_cap_half_page:
  assumes "rlen rb = 0x2000" "unat (base_ptr rb) mod 0x2000 = 0x1000" "unat (base_ptr rb) + 0x2000 < 2 ^ 32"
  shows "blk_ok rb \<and> rb_cap rb = 0xFFF"
proof -
  have s: "stride rb = 0x1001" using assms(1,2) by (simp add: stride_def mod_Suc)
  have "coprime (0x1001::nat) 0x2000" by (simp add: coprime_iff_gcd_eq_1 gcd_non_0_nat)
  then have "blk_ok rb" using s assms by (simp add: blk_ok_def)
  moreover from this have "rb_cap rb = 0xFFF"
    by (rule rb_cap_unique) (use s assms(1) in auto)
  ultimately show ?thesis by simp
qed

section \<open>Refinement of a bounded byte queue by whole sequences of calls\<close>

text \<open>The calls of the four functions that move bytes, with the caller's buffer and size.\<close>

datatype rb_call = CPut "u8 list" int | CClobber "u8 list" int | CGet int | CWait int int

datatype rb_answer = Stored int | Fetched "u8 list"

definition rb_call_ok :: "rb_call \<Rightarrow> bool" where
  "rb_call_ok c = (case c of CPut cs sz \<Rightarrow> nat sz \<le> length cs | CClobber cs sz \<Rightarrow> nat sz \<le> length cs | _ \<Rightarrow> True)"

definition rb_call_step :: "ringbuf \<Rightarrow> rb_call \<Rightarrow> (ringbuf \<times> rb_answer) option" where
  "rb_call_step rb c = (case c of
     CPut cs sz \<Rightarrow> do { (rb, n) \<leftarrow> ringbuf_put rb cs sz; Some (rb, Stored n) }
   | CClobber cs sz \<Rightarrow> do { (rb, n) \<leftarrow> ringbuf_put_clobber rb cs sz; Some (rb, Stored n) }
   | CGet sz \<Rightarrow> do { (rb, out) \<leftarrow> ringbuf_get rb sz; Some (rb, Fetched out) }
   | CWait sz r \<Rightarrow> do { (rb, out) \<leftarrow> ringbuf_get_wait rb sz r; Some (rb, Fetched out) })"

fun rb_calls :: "ringbuf \<Rightarrow> rb_call list \<Rightarrow> (ringbuf \<times> rb_answer list) option" where
  "rb_calls rb [] = Some (rb, [])"
| "rb_calls rb (c # cs) = do { (rb, a) \<leftarrow> rb_call_step rb c; (rb, as) \<leftarrow> rb_calls rb cs; Some (rb, a # as) }"

text \<open>The same calls on a bounded queue.\<close>

definition queue_step :: "nat \<Rightarrow> u8 list \<Rightarrow> rb_call \<Rightarrow> u8 list \<times> rb_answer" where
  "queue_step m q c = (case c of
     CPut cs sz \<Rightarrow> (let k = min (nat sz) (m - length q) in (q @ take k cs, Stored (int k)))
   | CClobber cs sz \<Rightarrow> (keep_last m (q @ take (nat sz) cs), Stored (int (nat sz)))
   | CGet sz \<Rightarrow> (drop (nat sz) q, Fetched (take (nat sz) q))
   | CWait sz r \<Rightarrow> (if r < 0 then (q, Fetched []) else (drop (nat sz) q, Fetched (take (nat sz) q))))"

fun queue_calls :: "nat \<Rightarrow> u8 list \<Rightarrow> rb_call list \<Rightarrow> u8 list \<times> rb_answer list" where
  "queue_calls m q [] = (q, [])"
| "queue_calls m q (c # cs) =
    (let (q, a) = queue_step m q c; (q, as) = queue_calls m q cs in (q, a # as))"

lemma same_outside_trans:
  "same_outside a b \<Longrightarrow> same_outside b c \<Longrightarrow> same_outside a c"
  by (auto simp: same_outside_def in_block_def rlen_def)

lemma rb_call_step_refines:
  assumes "rb_wf rb" "signalled rb" "rb_call_ok c"
  shows "\<exists>rb'. rb_call_step rb c = Some (rb', snd (queue_step (rb_cap rb) (contents rb) c)) \<and>
    contents rb' = fst (queue_step (rb_cap rb) (contents rb) c) \<and>
    rb_wf rb' \<and> signalled rb' \<and> rb_cap rb' = rb_cap rb \<and> same_outside rb rb'"
proof (cases c)
  case (CPut cs sz)
  then show ?thesis using ringbuf_put_law [of rb sz cs] assms
    by (auto simp: rb_call_step_def queue_step_def rb_call_ok_def Let_def)
next
  case (CClobber cs sz)
  then show ?thesis using ringbuf_put_clobber_law [of rb sz cs] assms
    by (auto simp: rb_call_step_def queue_step_def rb_call_ok_def)
next
  case (CGet sz)
  then show ?thesis using ringbuf_get_law [of rb sz] assms
    by (auto simp: rb_call_step_def queue_step_def)
next
  case (CWait sz r)
  then show ?thesis using ringbuf_get_wait_law [of rb sz r] assms
    by (auto simp: rb_call_step_def queue_step_def)
qed

lemma rb_calls_refine:
  assumes "rb_wf rb" "signalled rb" "list_all rb_call_ok cs"
  shows "\<exists>rb'. rb_calls rb cs = Some (rb', snd (queue_calls (rb_cap rb) (contents rb) cs)) \<and>
    contents rb' = fst (queue_calls (rb_cap rb) (contents rb) cs) \<and>
    rb_wf rb' \<and> signalled rb' \<and> same_outside rb rb'"
  using assms
proof (induction cs arbitrary: rb)
  case Nil
  then show ?case by (simp add: same_outside_def)
next
  case (Cons c cs)
  have "rb_call_ok c" using Cons.prems by simp
  with Cons.prems obtain rb1 where rb1:
      "rb_call_step rb c = Some (rb1, snd (queue_step (rb_cap rb) (contents rb) c))"
      "contents rb1 = fst (queue_step (rb_cap rb) (contents rb) c)"
      "rb_wf rb1" "signalled rb1" "rb_cap rb1 = rb_cap rb" "same_outside rb rb1"
    using rb_call_step_refines by blast
  from Cons.IH [OF rb1(3,4)] Cons.prems obtain rb2 where
      "rb_calls rb1 cs = Some (rb2, snd (queue_calls (rb_cap rb1) (contents rb1) cs))"
      "contents rb2 = fst (queue_calls (rb_cap rb1) (contents rb1) cs)"
      "rb_wf rb2" "signalled rb2" "same_outside rb1 rb2"
    by auto
  then show ?case using rb1 same_outside_trans [of rb rb1 rb2]
    by (auto simp: Let_def split: prod.splits)
qed

lemma mod_page_cases:
  assumes "(b::nat) mod 0x1000 = 0"
  shows "b mod 0x2000 = 0 \<or> b mod 0x2000 = 0x1000"
proof -
  obtain q where "b = 0x1000 * q" using assms by auto
  then have "b mod 0x2000 = 0x1000 * (q mod 2)" using mult_mod_right [of "0x1000" q 2] by simp
  then show ?thesis by auto
qed

lemma page_coprime:
  assumes "(b::nat) mod 0x1000 = 0"
  shows "coprime ((b + 1) mod 0x2000) 0x2000"
proof -
  have "coprime (0x1001::nat) 0x2000" "coprime (1::nat) 0x2000"
    by (simp_all add: coprime_iff_gcd_eq_1 gcd_non_0_nat)
  moreover have "(b + 1) mod 0x2000 = 1 \<or> (b + 1) mod 0x2000 = 0x1001"
    using mod_page_cases [OF assms] by (auto simp: mod_Suc)
  ultimately show ?thesis by metis
qed

section \<open>Properties\<close>

text \<open>An answer of the kernel that grants the three objects of a buffer of two pages.\<close>

definition ring_env :: init_env where
  "ring_env = \<lparr>evf_res = 10, mtx_res = 11, memblock_res = 12, memblock_base = 0x2000\<rparr>"

definition ring_zero :: ringbuf where
  "ring_zero = \<lparr>evf_uid = 0, mtx_uid = 0, memblock_uid = 0, buf_len = 0, base_ptr = 0, get_ptr = 0,
     put_ptr = 0, rmem = (\<lambda>_. 0), evf_bits = 0, mtx_locks = 0, kobjs = []\<rparr>"

text \<open>
  C5. Refinement of the ring buffer: started by \<open>ringbuf_init\<close> on a block whose length is coprime
  to the stride the code walks it with, every sequence of \<open>ringbuf_put\<close>, \<open>ringbuf_put_clobber\<close>,
  \<open>ringbuf_get\<close> and \<open>ringbuf_get_wait\<close> calls (with buffers at least as long as the size given)
  runs without a fault, answers each call as a bounded first-in first-out queue does (clobbering
  puts lose the oldest bytes only), leaves the memory outside of the block as it was, releases
  the mutex, and leaves the event flag set exactly when bytes are pending.
\<close>

theorem ringbuf_refines_queue:
  assumes "evf_res k \<ge> 0" "mtx_res k \<ge> 0" "memblock_res k \<ge> 0"
    and "1 < n" "unat (memblock_base k) + n < 2 ^ 32" "coprime ((unat (memblock_base k) + 1) mod n) n"
    and "list_all rb_call_ok cs"
  shows "\<exists>rb rb'. ringbuf_init k rb0 (int n) = (rb, 0) \<and>
    rb_calls rb cs = Some (rb', snd (queue_calls (rb_cap rb) [] cs)) \<and>
    contents rb' = fst (queue_calls (rb_cap rb) [] cs) \<and>
    mtx_locks rb' = 0 \<and> (evf_bits rb' AND RINGBUF_EVF_NON_EMPTY \<noteq> 0 \<longleftrightarrow> contents rb' \<noteq> []) \<and>
    (\<forall>a. \<not> in_block rb a \<longrightarrow> rmem rb' a = rmem rb a)"
proof -
  obtain rb r where "ringbuf_init k rb0 (int n) = (rb, r)" by fastforce
  note ok = ringbuf_init_ok [OF assms(1-6) this] this
  from rb_calls_refine [of rb cs] ok assms(7) obtain rb' where
    "rb_calls rb cs = Some (rb', snd (queue_calls (rb_cap rb) [] cs))"
    "contents rb' = fst (queue_calls (rb_cap rb) [] cs)" "signalled rb'" "same_outside rb rb'"
    by auto
  with ok show ?thesis by (auto simp: same_outside_def signalled_def)
qed

theorem ringbuf_refines_queue_witness:
  "\<exists>rb rb'. ringbuf_init ring_env ring_zero (int 0x2000) = (rb, 0) \<and>
    rb_calls rb [CClobber [1, 2, 3] 3, CGet 2, CPut [4] 1] =
      Some (rb', snd (queue_calls (rb_cap rb) [] [CClobber [1, 2, 3] 3, CGet 2, CPut [4] 1]))"
  using ringbuf_refines_queue [of ring_env "0x2000" "[CClobber [1, 2, 3] 3, CGet 2, CPut [4] 1]" ring_zero]
  by (fastforce simp: ring_env_def rb_call_ok_def)

text \<open>
  Capacity: PrincessLog and PSMLogUSB ask for \<open>0x2000\<close> bytes and the kernel grants a block
  aligned to a page of \<open>0x1000\<close> bytes. When the block happens to be aligned to \<open>0x2000\<close> the
  buffer holds \<open>0x1FFF\<close> bytes as a ring of that length does; otherwise, because the index is
  taken of the absolute address, it holds only \<open>0xFFF\<close>.
\<close>

lemma ringbuf_capacity:
  assumes "evf_res k \<ge> 0" "mtx_res k \<ge> 0" "memblock_res k \<ge> 0"
    and "unat (memblock_base k) mod 0x1000 = 0" "unat (memblock_base k) + 0x2000 < 2 ^ 32"
    and "ringbuf_init k rb0 0x2000 = (rb, r)"
  shows "rb_wf rb \<and> rb_cap rb = (if unat (memblock_base k) mod 0x2000 = 0 then 0x1FFF else 0xFFF)"
proof -
  let ?b = "unat (memblock_base k)"
  have split: "?b mod 0x2000 = 0 \<or> ?b mod 0x2000 = 0x1000" by (rule mod_page_cases [OF assms(4)])
  note co = page_coprime [OF assms(4)]
  have init: "ringbuf_init k rb0 (int 0x2000) = (rb, r)" using assms(6) by simp
  have ok: "rb_wf rb" "rlen rb = 0x2000" "base_ptr rb = memblock_base k"
    using ringbuf_init_ok [OF assms(1-3) _ assms(5) co init] by simp_all
  then show ?thesis
    using split rb_cap_half_page [of rb] rb_cap_aligned [of rb] assms(5) by auto
qed

lemma ringbuf_capacity_witness:
  "rb_cap (fst (ringbuf_init (ring_env\<lparr>memblock_base := 0x81000\<rparr>) ring_zero 0x2000)) = 0xFFF"
  using ringbuf_capacity [of "ring_env\<lparr>memblock_base := 0x81000\<rparr>" ring_zero
      "fst (ringbuf_init (ring_env\<lparr>memblock_base := 0x81000\<rparr>) ring_zero 0x2000)"]
  by (simp add: ring_env_def prod_eq_iff)

text \<open>
  Resources of \<open>ringbuf_init\<close>: it fails exactly when one of the three allocations fails, with
  that allocation's code; a failed start leaves no kernel object behind, and after a successful
  one \<open>ringbuf_term\<close> leaves exactly the objects there were before.
\<close>

lemma ringbuf_init_resources:
  assumes "ringbuf_init k rb n = (rb', r)"
  shows "r = (if evf_res k < 0 then evf_res k else if mtx_res k < 0 then mtx_res k
      else if memblock_res k < 0 then memblock_res k else 0) \<and>
    kobjs (if r < 0 then rb' else fst (ringbuf_term rb')) = kobjs rb"
  using assms ringbuf_init_fail [OF assms] ringbuf_init_term [OF assms]
  by (auto simp: ringbuf_init_def Let_def split: if_splits)

lemma ringbuf_init_resources_witness:
  "kobjs (fst (ringbuf_init (ring_env\<lparr>memblock_res := -5\<rparr>) ring_zero 0x2000)) = [] \<and>
   snd (ringbuf_init (ring_env\<lparr>memblock_res := -5\<rparr>) ring_zero 0x2000) = -5"
  using ringbuf_init_resources [of "ring_env\<lparr>memblock_res := -5\<rparr>" ring_zero "0x2000"
    "fst (ringbuf_init (ring_env\<lparr>memblock_res := -5\<rparr>) ring_zero 0x2000)"
    "snd (ringbuf_init (ring_env\<lparr>memblock_res := -5\<rparr>) ring_zero 0x2000)"]
  by (simp add: ring_env_def ring_zero_def ringbuf_init_def)

end
