(* ===== verification/NetLogging.thy ===== *)
theory NetLogging
  imports RingBuf
begin

text \<open>
  The kernel module of PrincessLog (\<open>NetLoggingMgr/kernel_module/src/main.c\<close>): the two debug
  output callbacks that fill the ring buffer, the network thread that drains it as a state
  machine over the answers of the kernel, and the configuration and start-up code.
\<close>

unbundle bit_operations_syntax

section \<open>The callbacks that produce log bytes\<close>

definition UserDebugPrintfCallback :: "ringbuf \<Rightarrow> u8 \<Rightarrow> (ringbuf \<times> int) option" where
  "UserDebugPrintfCallback rb c = do { (rb, _) \<leftarrow> ringbuf_put_clobber rb [c] 1; Some (rb, 0) }"

text \<open>
  \<open>vsnprintf (buf, n, fmt, args)\<close> of the C library, for the text that \<open>fmt\<close> and \<open>args\<close> expand
  to (\<open>None\<close>: an encoding error): the buffer gets at most \<open>n - 1\<close> characters and a NUL, the
  result is the length of the whole text.
\<close>

definition vsnprintf :: "nat \<Rightarrow> u8 list option \<Rightarrow> int \<times> u8 list" where
  "vsnprintf n txt = (case txt of None \<Rightarrow> (-1, []) | Some t \<Rightarrow> (int (length t), take (n - 1) t @ [0]))"

definition KernelDebugPrintfCallback :: "ringbuf \<Rightarrow> u8 list option \<Rightarrow> (ringbuf \<times> int) option" where
  "KernelDebugPrintfCallback rb txt =
    (let buf_size = 0x400;
         (len, buf) = vsnprintf (nat buf_size) txt;
         len = (if len < 0 then 0 else len);
         len = (if len \<ge> buf_size then buf_size - 1 else len)
     in do { (rb, _) \<leftarrow> ringbuf_put_clobber rb buf len; Some (rb, 0) })"

section \<open>The network thread\<close>

text \<open>
  The program points of \<open>net_thread\<close> and of \<open>net_connect\<close>, which it calls. At each point the
  thread makes one kernel call, whose result is the argument \<open>r\<close> of the step: the wait of
  \<open>ringbuf_get_wait\<close>, the socket, the result of the connection, the number of bytes sent.
\<close>

datatype net_pc =
    NTop        \<comment> \<open>\<open>while (net_thread_run)\<close>\<close>
  | NWait       \<comment> \<open>\<open>ringbuf_get_wait\<close> without a timeout\<close>
  | NSocket     \<comment> \<open>label \<open>socket\<close> of \<open>net_connect\<close>\<close>
  | NConnect    \<comment> \<open>\<open>ksceNetConnect\<close>\<close>
  | NSend       \<comment> \<open>label \<open>send\<close>\<close>
  | NRecv       \<comment> \<open>\<open>ringbuf_get_wait\<close> with a timeout of one second\<close>
  | NExit

record log_sys =
  lrb :: ringbuf
  lrun :: int               \<comment> \<open>\<open>net_thread_run\<close>\<close>
  lpc :: net_pc
  lbuf :: "u8 list"         \<comment> \<open>\<open>buf[0 .. received_len)\<close>\<close>
  lsock :: int              \<comment> \<open>\<open>net_sock\<close>\<close>
  lopen :: "int list"       \<comment> \<open>the sockets that are open\<close>
  produced :: "u8 list"     \<comment> \<open>history: what the callbacks were given\<close>
  consumed :: "u8 list"     \<comment> \<open>history: what the thread took from the ring buffer\<close>
  sent :: "u8 list"         \<comment> \<open>history: what the network accepted\<close>
  dropped :: nat            \<comment> \<open>history: bytes of partial sends that were given up\<close>
  clobbered :: nat          \<comment> \<open>history: bytes overwritten in a full ring buffer\<close>

definition net_close :: "log_sys \<Rightarrow> log_sys" where
  "net_close s = s\<lparr>lopen := remove1 (lsock s) (lopen s)\<rparr>"

definition net_connect_step :: "log_sys \<Rightarrow> int \<Rightarrow> log_sys" where
  "net_connect_step s r = (case lpc s of
     NSocket \<Rightarrow> (let s = s\<lparr>lsock := r\<rparr> in
       if r < 0 then net_close s
       else s\<lparr>lopen := r # lopen s, lpc := NConnect\<rparr>)
   | NConnect \<Rightarrow> (if r = 0 then s\<lparr>lpc := NSend\<rparr> else (net_close s)\<lparr>lpc := NSocket\<rparr>)
   | _ \<Rightarrow> s)"

definition net_thread_step :: "log_sys \<Rightarrow> int \<Rightarrow> log_sys option" where
  "net_thread_step s r = (case lpc s of
     NTop \<Rightarrow> Some (s\<lparr>lpc := (if lrun s \<noteq> 0 then NWait else NExit)\<rparr>)
   | NWait \<Rightarrow> do {
       (rb, out) \<leftarrow> ringbuf_get_wait (lrb s) 0x400 r;
       let s = s\<lparr>lrb := rb, lbuf := out, consumed := consumed s @ out\<rparr>;
       Some (s\<lparr>lpc := (if length out = 0 then NTop else NSocket)\<rparr>) }
   | NSend \<Rightarrow>
       (let s = s\<lparr>sent := sent s @ take (nat r) (lbuf s)\<rparr> in
        if r < 0 then Some ((net_close s)\<lparr>lpc := NSocket\<rparr>)
        else Some (s\<lparr>dropped := dropped s + (length (lbuf s) - nat r), lpc := NRecv\<rparr>))
   | NRecv \<Rightarrow> do {
       (rb, out) \<leftarrow> ringbuf_get_wait (lrb s) 0x400 r;
       let s = s\<lparr>lrb := rb, lbuf := out, consumed := consumed s @ out\<rparr>;
       Some (if length out > 0 then s\<lparr>lpc := NSend\<rparr> else (net_close s)\<lparr>lpc := NTop\<rparr>) }
   | NExit \<Rightarrow> Some s
   | _ \<Rightarrow> Some (net_connect_step s r))"

section \<open>The whole logger: producers and the network thread, interleaved\<close>

text \<open>\<open>Stop\<close> is what \<open>NetLoggingMgrFinish\<close> does to the thread: it resets \<open>net_thread_run\<close>.\<close>

datatype log_event = Putchar u8 | Printf "u8 list option" | Net int | Stop

definition printed :: "u8 list option \<Rightarrow> u8 list" where
  "printed txt = (case txt of None \<Rightarrow> [] | Some t \<Rightarrow> take 0x3FF t)"

text \<open>The history of a callback that is given the bytes \<open>ys\<close> and leaves the ring buffer \<open>rb\<close>.\<close>

definition produce :: "log_sys \<Rightarrow> ringbuf \<Rightarrow> u8 list \<Rightarrow> log_sys" where
  "produce s rb ys = s\<lparr>lrb := rb, produced := produced s @ ys,
     clobbered := clobbered s + (length (contents (lrb s)) + length ys - rb_cap (lrb s))\<rparr>"

definition log_step :: "log_sys \<Rightarrow> log_event \<Rightarrow> log_sys option" where
  "log_step s e = (case e of
     Putchar c \<Rightarrow> do { (rb, _) \<leftarrow> UserDebugPrintfCallback (lrb s) c;
       Some (produce s rb [c]) }
   | Printf txt \<Rightarrow> do { (rb, _) \<leftarrow> KernelDebugPrintfCallback (lrb s) txt;
       Some (produce s rb (printed txt)) }
   | Net r \<Rightarrow> net_thread_step s r
   | Stop \<Rightarrow> Some (s\<lparr>lrun := 0\<rparr>))"

fun log_run :: "log_sys \<Rightarrow> log_event list \<Rightarrow> log_sys option" where
  "log_run s [] = Some s"
| "log_run s (e # es) = do { s' \<leftarrow> log_step s e; log_run s' es }"

definition log_init :: "ringbuf \<Rightarrow> log_sys" where
  "log_init rb = \<lparr>lrb = rb, lrun = 1, lpc = NTop, lbuf = [], lsock = 0, lopen = [],
     produced = [], consumed = [], sent = [], dropped = 0, clobbered = 0\<rparr>"

text \<open>What the thread holds and has not handed to the network yet.\<close>

definition in_flight :: "log_sys \<Rightarrow> u8 list" where
  "in_flight s = (if lpc s \<in> {NSocket, NConnect, NSend} then lbuf s else [])"

definition log_inv :: "log_sys \<Rightarrow> bool" where
  "log_inv s \<longleftrightarrow> rb_wf (lrb s) \<and> signalled (lrb s) \<and>
     subseq (consumed s @ contents (lrb s)) (produced s) \<and> suffix (contents (lrb s)) (produced s) \<and>
     subseq (sent s @ in_flight s) (consumed s) \<and>
     length (consumed s) = length (sent s @ in_flight s) + dropped s \<and>
     length (produced s) = length (consumed s) + length (contents (lrb s)) + clobbered s \<and>
     lopen s = (if lpc s \<in> {NConnect, NSend, NRecv} then [lsock s] else [])"

lemma user_callback_law:
  assumes "rb_wf rb"
  shows "\<exists>rb'. UserDebugPrintfCallback rb c = Some (rb', 0) \<and> rb_wf rb' \<and> same_outside rb rb' \<and>
    contents rb' = keep_last (rb_cap rb) (contents rb @ [c]) \<and> (signalled rb \<longrightarrow> signalled rb')"
  using ringbuf_put_clobber_law [OF assms, of 1 "[c]"]
  by (auto simp: UserDebugPrintfCallback_def)

lemma kernel_callback_law:
  assumes "rb_wf rb"
  shows "\<exists>rb'. KernelDebugPrintfCallback rb txt = Some (rb', 0) \<and> rb_wf rb' \<and> same_outside rb rb' \<and>
    contents rb' = keep_last (rb_cap rb) (contents rb @ printed txt) \<and> (signalled rb \<longrightarrow> signalled rb')"
proof -
  define len where "len = (let l = fst (vsnprintf 0x400 txt); l = (if l < 0 then 0 else l) in
    if l \<ge> 0x400 then 0x3FF else l)"
  define buf where "buf = snd (vsnprintf 0x400 txt)"
  have cb: "KernelDebugPrintfCallback rb txt =
      do { (rb, _) \<leftarrow> ringbuf_put_clobber rb buf len; Some (rb, 0) }"
    by (simp add: KernelDebugPrintfCallback_def len_def buf_def Let_def split_beta)
  have "nat len \<le> length buf" "take (nat len) buf = printed txt"
    by (auto simp: len_def buf_def vsnprintf_def printed_def Let_def split: option.splits)
  then show ?thesis
    using ringbuf_put_clobber_law [OF assms, of len buf] by (auto simp: cb)
qed

lemma subseq_append_produce:
  assumes "subseq (cs @ xs) ps" "suffix xs ps"
  shows "subseq (cs @ keep_last n (xs @ ys)) (ps @ ys)" "suffix (keep_last n (xs @ ys)) (ps @ ys)"
proof -
  have suf: "suffix (keep_last n zs) zs" for zs :: "'a list"
    by (simp add: keep_last_def suffix_drop)
  have "subseq (cs @ keep_last n (xs @ ys)) (cs @ (xs @ ys))"
    using suf [of "xs @ ys"] by (simp add: suffix_imp_subseq subseq_append')
  also have "subseq (cs @ xs @ ys) (ps @ ys)"
    using assms(1) by (simp flip: append_assoc)
  finally show "subseq (cs @ keep_last n (xs @ ys)) (ps @ ys)" .
  show "suffix (keep_last n (xs @ ys)) (ps @ ys)"
    using suf [of "xs @ ys"] assms(2) by (meson suffix_order.trans same_suffix_suffix)
qed


lemma log_inv_get_wait:
  assumes "rb_wf (lrb s)" "signalled (lrb s)"
  obtains rb' out where "ringbuf_get_wait (lrb s) sz r = Some (rb', out)" "rb_wf rb'" "signalled rb'"
    "same_outside (lrb s) rb'" "contents (lrb s) = out @ contents rb'"
proof -
  obtain rb' where "ringbuf_get_wait (lrb s) sz r = Some (rb', if r < 0 then [] else take (nat sz) (contents (lrb s)))"
      "rb_wf rb'" "signalled rb'" "same_outside (lrb s) rb'"
      "contents rb' = (if r < 0 then contents (lrb s) else drop (nat sz) (contents (lrb s)))"
    using ringbuf_get_wait_law [OF assms, of sz r] by auto
  then show ?thesis by (intro that) auto
qed

lemma subseq_snoc_both: "subseq xs ys \<Longrightarrow> subseq (xs @ zs) (ys @ zs)"
  by simp

lemma subseq_drop_tail: "subseq (xs @ zs) ys \<Longrightarrow> subseq (xs @ take n zs) ys"
  by (metis append_take_drop_id append_assoc subseq_order.trans subseq_append' list_emb_append2 
      prefix_imp_subseq prefixI)

lemma take_drop_length: "length zs = length (take n zs) + (length zs - n)"
  by simp

lemma net_step_inv:
  assumes "log_inv s"
  shows "\<exists>s'. net_thread_step s r = Some s' \<and> log_inv s' \<and> produced s' = produced s \<and>
    same_outside (lrb s) (lrb s')"
proof -
  have wf: "rb_wf (lrb s)" "signalled (lrb s)" using assms by (simp_all add: log_inv_def)
  obtain rb' out where g: "ringbuf_get_wait (lrb s) 0x400 r = Some (rb', out)" "rb_wf rb'" "signalled rb'"
      "same_outside (lrb s) rb'" "contents (lrb s) = out @ contents rb'"
    using wf by (rule log_inv_get_wait)
  have so: "same_outside (lrb s) (lrb s)" by (simp add: same_outside_def)
  have suf: "suffix (contents rb') (produced s)"
    using assms g(5) by (auto simp: log_inv_def suffix_def)
  show ?thesis
  proof (cases "lpc s")
    case NTop
    then show ?thesis using assms so by (auto simp: net_thread_step_def log_inv_def in_flight_def)
  next
    case NWait
    then show ?thesis using assms g suf
      by (auto simp: net_thread_step_def log_inv_def in_flight_def Let_def subseq_snoc_both)
  next
    case NSocket
    then show ?thesis using assms so
      by (auto simp: net_thread_step_def net_connect_step_def net_close_def log_inv_def in_flight_def Let_def)
  next
    case NConnect
    then show ?thesis using assms so
      by (auto simp: net_thread_step_def net_connect_step_def net_close_def log_inv_def in_flight_def Let_def)
  next
    case NSend
    then show ?thesis using assms so subseq_drop_tail [of "sent s" "lbuf s" "consumed s" "nat r"]
      by (auto simp: net_thread_step_def net_close_def log_inv_def in_flight_def Let_def)
  next
    case NRecv
    then show ?thesis using assms g suf
      by (auto simp: net_thread_step_def net_close_def log_inv_def in_flight_def Let_def subseq_snoc_both)
  next
    case NExit
    then show ?thesis using assms so by (auto simp: net_thread_step_def)
  qed
qed

lemma lrb_produce [simp]: "lrb (produce s rb ys) = rb"
  by (simp add: produce_def)

lemma produce_inv:
  assumes "log_inv s" "rb_wf rb'" "signalled (lrb s) \<longrightarrow> signalled rb'"
    "contents rb' = keep_last (rb_cap (lrb s)) (contents (lrb s) @ ys)"
  shows "log_inv (produce s rb' ys)"
  using assms subseq_append_produce [of "consumed s" "contents (lrb s)" "produced s" "rb_cap (lrb s)" ys]
  by (auto simp: log_inv_def in_flight_def produce_def split: if_splits)

lemma log_step_inv:
  assumes "log_inv s"
  shows "\<exists>s'. log_step s e = Some s' \<and> log_inv s' \<and> same_outside (lrb s) (lrb s')"
proof (cases e)
  case (Putchar c)
  obtain rb' where "UserDebugPrintfCallback (lrb s) c = Some (rb', 0)" "rb_wf rb'"
      "same_outside (lrb s) rb'" "contents rb' = keep_last (rb_cap (lrb s)) (contents (lrb s) @ [c])"
      "signalled (lrb s) \<longrightarrow> signalled rb'"
    using user_callback_law [of "lrb s" c] assms by (auto simp: log_inv_def)
  then show ?thesis using produce_inv [OF assms] Putchar by (simp add: log_step_def)
next
  case (Printf t)
  obtain rb' where "KernelDebugPrintfCallback (lrb s) t = Some (rb', 0)" "rb_wf rb'"
      "same_outside (lrb s) rb'" "contents rb' = keep_last (rb_cap (lrb s)) (contents (lrb s) @ printed t)"
      "signalled (lrb s) \<longrightarrow> signalled rb'"
    using kernel_callback_law [of "lrb s" t] assms by (auto simp: log_inv_def)
  then show ?thesis using produce_inv [OF assms] Printf by (simp add: log_step_def)
next
  case (Net r)
  then show ?thesis using net_step_inv [OF assms, of r] by (auto simp: log_step_def)
next
  case Stop
  then show ?thesis using assms by (auto simp: log_step_def log_inv_def in_flight_def same_outside_def)
qed

lemma log_run_inv:
  assumes "log_inv s"
  shows "\<exists>s'. log_run s es = Some s' \<and> log_inv s' \<and> same_outside (lrb s) (lrb s')"
  using assms
proof (induction es arbitrary: s)
  case Nil
  then show ?case by (simp add: same_outside_def)
next
  case (Cons e es)
  obtain s1 where s1: "log_step s e = Some s1" "log_inv s1" "same_outside (lrb s) (lrb s1)"
    using log_step_inv [OF Cons.prems] by blast
  from Cons.IH [OF s1(2)] show ?case using s1 same_outside_trans by auto
qed

lemma log_init_inv:
  "rb_wf rb \<Longrightarrow> signalled rb \<Longrightarrow> contents rb = [] \<Longrightarrow> log_inv (log_init rb)"
  by (simp add: log_inv_def log_init_def in_flight_def)

lemma log_inv_stream:
  assumes "log_inv s"
  shows "subseq (sent s @ in_flight s @ contents (lrb s)) (produced s)"
    "length (produced s) = length (sent s @ in_flight s @ contents (lrb s)) + dropped s + clobbered s"
proof -
  have i: "subseq (sent s @ in_flight s) (consumed s)" "subseq (consumed s @ contents (lrb s)) (produced s)"
    using assms by (simp_all add: log_inv_def)
  then have "subseq ((sent s @ in_flight s) @ contents (lrb s)) (consumed s @ contents (lrb s))"
    by (simp only: subseq_append)
  with i(2) show "subseq (sent s @ in_flight s @ contents (lrb s)) (produced s)"
    by (metis append_assoc subseq_order.trans)
  show "length (produced s) = length (sent s @ in_flight s @ contents (lrb s)) + dropped s + clobbered s"
    using assms by (simp add: log_inv_def)
qed

section \<open>Properties\<close>

text \<open>
  C7. The log stream of PrincessLog: from a fresh ring buffer, under every interleaving of the two
  callbacks, the network thread and a request to stop, and for all answers of the network, no
  step faults; what the network accepted, then what the thread holds, then what the ring buffer
  holds is a subsequence of what was printed, with the missing bytes counted exactly by the bytes
  clobbered in a full buffer and those of partial sends (so it is all of it, in order, when there
  were none); pending bytes always keep the event flag of the reader set.
\<close>

theorem log_stream:
  assumes "rb_wf rb" "signalled rb" "contents rb = []"
  shows "\<exists>s. log_run (log_init rb) es = Some s \<and>
    subseq (sent s @ in_flight s @ contents (lrb s)) (produced s) \<and>
    length (produced s) = length (sent s @ in_flight s @ contents (lrb s)) + dropped s + clobbered s \<and>
    (dropped s = 0 \<and> clobbered s = 0 \<longrightarrow> sent s @ in_flight s @ contents (lrb s) = produced s) \<and>
    (contents (lrb s) \<noteq> [] \<longrightarrow> evf_bits (lrb s) AND RINGBUF_EVF_NON_EMPTY \<noteq> 0)"
proof -
  obtain s where s: "log_run (log_init rb) es = Some s" "log_inv s"
    using log_run_inv [OF log_init_inv [OF assms], of es] by blast
  from log_inv_stream [OF s(2)] s show ?thesis
    by (auto simp: log_inv_def signalled_def intro: subseq_same_length)
qed

text \<open>A buffer of one page as \<open>ringbuf_init\<close> leaves it.\<close>

definition ring_fresh :: ringbuf where
  "ring_fresh = fst (ringbuf_init ring_env ring_zero 0x1000)"

lemma ring_fresh_ok: "rb_wf ring_fresh \<and> signalled ring_fresh \<and> contents ring_fresh = []"
  using ringbuf_init_ok [of ring_env "0x1000" ring_zero ring_fresh 0]
  by (simp add: ring_fresh_def ring_env_def ring_zero_def ringbuf_init_def)

theorem log_stream_witness:
  "\<exists>s. log_run (log_init ring_fresh) [Net 0, Printf (Some [0x48, 0x69]), Net 0, Net 5, Net 0, Net (-1)] = Some s \<and>
    subseq (sent s @ in_flight s @ contents (lrb s)) (produced s)"
  using log_stream [of ring_fresh "[Net 0, Printf (Some [0x48, 0x69]), Net 0, Net 5, Net 0, Net (-1)]"] ring_fresh_ok
  by auto

text \<open>
  Sockets of the network thread: in every reachable state exactly the socket the thread is
  using is open, between a successful \<open>ksceNetSocket\<close> and the matching close; no retry, failed
  connection, failed send or shut-down leaks one. The kernel memory outside of the ring buffer's
  block and the mutex are untouched by the whole run.
\<close>

lemma log_sockets:
  assumes "rb_wf rb" "signalled rb" "contents rb = []"
  shows "\<exists>s. log_run (log_init rb) es = Some s \<and>
    lopen s = (if lpc s \<in> {NConnect, NSend, NRecv} then [lsock s] else []) \<and> same_outside rb (lrb s)"
proof -
  obtain s where s: "log_run (log_init rb) es = Some s" "log_inv s" "same_outside (lrb (log_init rb)) (lrb s)"
    using log_run_inv [OF log_init_inv [OF assms], of es] by blast
  then show ?thesis by (auto simp: log_inv_def log_init_def)
qed

lemma log_sockets_witness:
  "\<exists>s. log_run (log_init ring_fresh) [Net 0, Putchar 7, Net 0, Net 5, Net (-3), Net 6, Stop] = Some s \<and>
    lopen s = (if lpc s \<in> {NConnect, NSend, NRecv} then [lsock s] else [])"
  using log_sockets [of ring_fresh "[Net 0, Putchar 7, Net 0, Net 5, Net (-3), Net 6, Stop]"] ring_fresh_ok
  by auto

end
