(* ===== verification/NetManager.thy ===== *)
theory NetManager
  imports NetLogging
begin

text \<open>
  Configuration, start-up and shut-down of the PrincessLog kernel module
  (\<open>NetLoggingMgr/kernel_module/src/main.c\<close>). What the kernel answers to each call is an
  argument; the state is the module's static variables and what it has registered.
\<close>

unbundle bit_operations_syntax

section \<open>State\<close>

record nlm_config =
  cfg_magic :: u32
  cfg_IPv4 :: u32
  cfg_flags :: u32
  cfg_port :: u16

record nlm =
  nflags :: u32              \<comment> \<open>\<open>NetLoggingMgrFlags\<close>\<close>
  thread_run :: int          \<comment> \<open>\<open>net_thread_run\<close>\<close>
  thread_uid :: int          \<comment> \<open>\<open>net_thread_uid\<close>\<close>
  config :: nlm_config       \<comment> \<open>\<open>NetLoggingMgrConfig\<close>\<close>
  sin_len :: nat
  sin_family :: int
  sin_addr :: u32
  sin_port :: u16
  qaf_hook :: int            \<comment> \<open>\<open>hook_uid[0]\<close>\<close>
  rbuf :: ringbuf
  dbg_handler :: bool        \<comment> \<open>\<open>KernelDebugPrintfCallback\<close> is registered\<close>
  put_handler :: bool        \<comment> \<open>\<open>UserDebugPrintfCallback\<close> is registered\<close>
  hooks :: "int list"        \<comment> \<open>taiHEN hooks that are installed\<close>
  threads :: "int list"      \<comment> \<open>threads that exist\<close>
  files :: "int list"        \<comment> \<open>file descriptors that are open\<close>

definition NLM_BIT_INIT :: u32 where "NLM_BIT_INIT = 1"
definition NLM_BIT_DELAY_NET_THREAD :: u32 where "NLM_BIT_DELAY_NET_THREAD = 2"
definition NLM_BIT_CONFIG_LOADED :: u32 where "NLM_BIT_CONFIG_LOADED = 4"
definition NLM_CONFIG_FLAGS_BIT_QAF_DEBUG_PRINTF :: u32 where "NLM_CONFIG_FLAGS_BIT_QAF_DEBUG_PRINTF = 1"
definition RINGBUF_LEN :: int where "RINGBUF_LEN = 0x2000"
definition DEFAULT_PORT :: u16 where "DEFAULT_PORT = 8080"

text \<open>\<open>{'N', 'L', 'M', '\0'}\<close>, and the word it makes in the first field of the configuration.\<close>

definition nlm_magic :: "u8 list" where "nlm_magic = [0x4E, 0x4C, 0x4D, 0]"

definition has_magic :: "nlm_config \<Rightarrow> bool" where
  "has_magic c \<longleftrightarrow> bytes32 (cfg_magic c) = nlm_magic"

section \<open>Configuration\<close>

definition My_ksceNetInetPton :: "u8 \<Rightarrow> u8 \<Rightarrow> u8 \<Rightarrow> u8 \<Rightarrow> u32" where
  "My_ksceNetInetPton ip1 ip2 ip3 ip4 =
    (let ip = 0; ip = ip + push_bit 0 (ucast ip1); ip = ip + push_bit 8 (ucast ip2);
         ip = ip + push_bit 16 (ucast ip3); ip = ip + push_bit 24 (ucast ip4) in ip)"

definition SceQafMgrForDriver_382C71E8_patch :: "nlm \<Rightarrow> u32" where
  "SceQafMgrForDriver_382C71E8_patch s = cfg_flags (config s) AND NLM_CONFIG_FLAGS_BIT_QAF_DEBUG_PRINTF"

definition set_server :: "(u16 \<Rightarrow> u16) \<Rightarrow> nlm \<Rightarrow> nlm" where
  "set_server htons s = s\<lparr>sin_addr := cfg_IPv4 (config s),
     sin_port := htons (if cfg_port (config s) \<noteq> 0 then cfg_port (config s) else DEFAULT_PORT)\<rparr>"

text \<open>
  The user's memory is read twice: \<open>u1\<close> is the result and the bytes of the first copy, \<open>u2\<close> the
  result and what the second copy left in \<open>NetLoggingMgrConfig\<close>. \<open>illegal\<close> stands for
  \<open>SCE_KERNEL_ERROR_ILLEGAL_TYPE\<close>, \<open>htons\<close> for \<open>ksceNetHtons\<close>.
\<close>

definition NetLoggingMgrUpdateConfig ::
    "int \<Rightarrow> (u16 \<Rightarrow> u16) \<Rightarrow> int \<times> u8 list \<Rightarrow> int \<times> nlm_config \<Rightarrow> nlm \<Rightarrow> nlm \<times> int" where
  "NetLoggingMgrUpdateConfig illegal htons u1 u2 s =
    (if fst u1 < 0 then (s, fst u1)
     else if take 4 (snd u1) \<noteq> nlm_magic then (s, illegal)
     else let s = s\<lparr>config := snd u2\<rparr> in
       if fst u2 < 0 then (s, fst u2) else (set_server htons s, 0))"

definition NetLoggingMgrReadConfig :: "int \<Rightarrow> nlm \<Rightarrow> int \<times> nlm_config option" where
  "NetLoggingMgrReadConfig res s = (res, if res < 0 then None else Some (config s))"

text \<open>The size of the configuration in the file: three words, a half word and padding.\<close>

definition sizeof_config :: int where "sizeof_config = 16"

definition NetLoggingMgrLoadConfigForKernel ::
    "(u16 \<Rightarrow> u16) \<Rightarrow> int \<Rightarrow> int \<times> nlm_config \<Rightarrow> nlm \<Rightarrow> nlm \<times> int" where
  "NetLoggingMgrLoadConfigForKernel htons fd rd s =
    (let s = s\<lparr>sin_len := 16, sin_family := 2\<rparr>;
         (s, res) =
           (if fd < 0 then (s, fd)
            else let s = s\<lparr>files := fd # files s, config := snd rd\<rparr> in
              if fst rd \<noteq> sizeof_config then (s, -1)
              else if \<not> has_magic (config s) then (s, 0)
              else ((set_server htons s)\<lparr>nflags := nflags s OR NLM_BIT_CONFIG_LOADED\<rparr>, 0));
         s = (if fd > 0 then s\<lparr>files := remove1 fd (files s)\<rparr> else s)
     in (s, res))"

section \<open>Start-up\<close>

record nlm_env =
  e_htons :: "u16 \<Rightarrow> u16"
  e_open :: int
  e_read :: "int \<times> nlm_config"
  e_ring :: init_env
  e_export :: "u32 \<Rightarrow> u32 \<Rightarrow> int"   \<comment> \<open>\<open>module_get_export_func\<close> for a library and a function NID\<close>
  e_hook :: int
  e_disable :: int
  e_shell_pid :: int
  e_thread :: int

definition export_missing :: "nlm_env \<Rightarrow> (u32 \<times> u32) list \<Rightarrow> bool" where
  "export_missing k nids \<longleftrightarrow> list_all (\<lambda>(lib, f). e_export k lib f < 0) nids"

definition required_exports :: "(u32 \<times> u32) list list" where
  "required_exports =
    [[(0xC445FA63, 0x97CF7B4E), (0x92C9FFC2, 0xB72C75A4)],
     [(0xC445FA63, 0xD269F915), (0x92C9FFC2, 0xDAA90093)],
     [(0x88C17370, 0xE6115A72), (0x13D793B7, 0x22546577)],
     [(0x88C17370, 0x10067B7B), (0x13D793B7, 0x88AD6D0C)],
     [(0x88C17370, 0xE783518C), (0x13D793B7, 0x8D474850)],
     [(0x88C17370, 0xF857CDD6), (0x13D793B7, 0xA465A31A)],
     [(0x2ED7F97A, 0x05093E7B)]]"

text \<open>The part of \<open>NetLoggingMgrInit\<close> after the exports are found.\<close>

definition init_handlers :: "nlm_env \<Rightarrow> nlm \<Rightarrow> nlm \<times> int" where
  "init_handlers k s =
    (let s = s\<lparr>qaf_hook := e_hook k, hooks := (if e_hook k > 0 then e_hook k # hooks s else hooks s)\<rparr> in
     if e_disable k < 0 then (s, e_disable k) else
     let s = s\<lparr>dbg_handler := True, put_handler := True\<rparr>;
         s = (if e_shell_pid k < 0 then s\<lparr>nflags := nflags s OR NLM_BIT_DELAY_NET_THREAD\<rparr> else s);
         s = s\<lparr>thread_uid := e_thread k\<rparr>
     in if thread_uid s < 0 then (s, thread_uid s)
        else (s\<lparr>thread_run := 1, threads := e_thread k # threads s\<rparr>, 0))"

definition NetLoggingMgrInit :: "nlm_env \<Rightarrow> nlm \<Rightarrow> nlm \<times> int" where
  "NetLoggingMgrInit k s =
    (let s = s\<lparr>qaf_hook := 0\<rparr>;
         (s, ret) =
           (if nflags s AND NLM_BIT_INIT \<noteq> 0 then (s, 1)
            else let (s, ret) = NetLoggingMgrLoadConfigForKernel (e_htons k) (e_open k) (e_read k) s in
              if ret < 0 then (s, ret)
              else let (rb, ret) = ringbuf_init (e_ring k) (rbuf s) RINGBUF_LEN; s = s\<lparr>rbuf := rb\<rparr> in
                if ret < 0 then (s, ret)
                else if list_ex (export_missing k) required_exports then (s, -1)
                else init_handlers k s)
     in (s\<lparr>nflags := nflags s OR NLM_BIT_INIT\<rparr>, ret))"

text \<open>
  \<open>ret\<close> is never assigned on the way through the shut-down: \<open>None\<close> is that indeterminate value.
\<close>

definition NetLoggingMgrFinish :: "nlm \<Rightarrow> nlm \<times> int option" where
  "NetLoggingMgrFinish s =
    (if nflags s AND NLM_BIT_INIT = 0 then (s, Some 1)
     else let s = (if thread_run s \<noteq> 0 then s\<lparr>thread_run := 0\<rparr> else s);
          s = (if thread_uid s > 0 then s\<lparr>threads := remove1 (thread_uid s) (threads s), thread_uid := 0\<rparr> else s);
          s = (if qaf_hook s > 0 then s\<lparr>hooks := remove1 (qaf_hook s) (hooks s)\<rparr> else s);
          s = s\<lparr>dbg_handler := False\<rparr>;
          s = s\<lparr>put_handler := False\<rparr>;
          s = s\<lparr>rbuf := fst (ringbuf_term (rbuf s))\<rparr>
       in (s\<lparr>nflags := nflags s AND NOT NLM_BIT_INIT\<rparr>, None))"

text \<open>\<open>module_start\<close>: holding L at boot skips the logger; a failing start is not reported.\<close>

definition SCE_CTRL_LTRIGGER :: u32 where "SCE_CTRL_LTRIGGER = 0x100"

definition module_start :: "nlm_env \<Rightarrow> u32 \<Rightarrow> nlm \<Rightarrow> nlm" where
  "module_start k buttons s =
    (if buttons AND SCE_CTRL_LTRIGGER \<noteq> 0 then s else fst (NetLoggingMgrInit k s))"

section \<open>Lemmas\<close>

lemma LoadConfig_frame:
  assumes "NetLoggingMgrLoadConfigForKernel htons fd rd s = (s', r)"
  shows "rbuf s' = rbuf s" "hooks s' = hooks s" "threads s' = threads s" "qaf_hook s' = qaf_hook s"
    "dbg_handler s' = dbg_handler s" "put_handler s' = put_handler s" "thread_uid s' = thread_uid s"
    "thread_run s' = thread_run s" "fd \<noteq> 0 \<Longrightarrow> files s' = files s"
    "nflags s' = nflags s \<or> nflags s' = nflags s OR NLM_BIT_CONFIG_LOADED"
  using assms by (auto simp: NetLoggingMgrLoadConfigForKernel_def Let_def set_server_def split: if_splits)

lemmas init_bits = NLM_BIT_INIT_def NLM_BIT_DELAY_NET_THREAD_def NLM_BIT_CONFIG_LOADED_def

text \<open>What start-up and shut-down acquire and release.\<close>

definition nlm_idle :: "nlm \<Rightarrow> bool" where
  "nlm_idle s \<longleftrightarrow> kobjs (rbuf s) = [] \<and> hooks s = [] \<and> threads s = [] \<and> files s = [] \<and>
     \<not> dbg_handler s \<and> \<not> put_handler s \<and> thread_run s = 0 \<and> thread_uid s = 0"

lemma init_bit_set: "(x OR NLM_BIT_INIT) AND NLM_BIT_INIT \<noteq> 0"
  by (simp add: init_bits word_bw_comms bit.conj_disj_distrib2)

text \<open>The acquired part of the state while the module is up, however far the start went.\<close>

definition nlm_owned :: "nlm \<Rightarrow> bool" where
  "nlm_owned s \<longleftrightarrow> kobjs (fst (ringbuf_term (rbuf s))) = [] \<and> files s = [] \<and>
     hooks s = (if qaf_hook s > 0 then [qaf_hook s] else []) \<and>
     threads s = (if thread_uid s > 0 then [thread_uid s] else []) \<and>
     (thread_run s = 0 \<or> thread_uid s > 0)"

lemma init_handlers_owned:
  assumes "init_handlers k s = (s', r)" "e_thread k \<noteq> 0"
    "kobjs (fst (ringbuf_term (rbuf s))) = []" "files s = []" "hooks s = []" "threads s = []" "thread_run s = 0" "thread_uid s = 0"
  shows "nlm_owned s' \<and> rbuf s' = rbuf s"
proof (cases "e_disable k < 0")
  case True
  then show ?thesis using assms by (auto simp: init_handlers_def nlm_owned_def Let_def)
next
  case False
  then show ?thesis using assms
    by (cases "e_thread k < 0"; cases "e_shell_pid k < 0") (auto simp: init_handlers_def nlm_owned_def Let_def)
qed

lemma term_of_idle: "kobjs rb = [] \<Longrightarrow> kobjs (fst (ringbuf_term rb)) = []"
  by (simp add: ringbuf_term_def)

text \<open>How far a start-up gets: the configuration, the ring buffer, the exports, the handlers.\<close>

lemma Init_stages:
  assumes "NetLoggingMgrInit k s = (s', r)" "nflags s AND NLM_BIT_INIT = 0"
  obtains s1 r1 rb r2 s3 r3 t where
    "NetLoggingMgrLoadConfigForKernel (e_htons k) (e_open k) (e_read k) (s\<lparr>qaf_hook := 0\<rparr>) = (s1, r1)"
    "ringbuf_init (e_ring k) (rbuf s1) RINGBUF_LEN = (rb, r2)"
    "init_handlers k (s1\<lparr>rbuf := rb\<rparr>) = (s3, r3)"
    "s' = t\<lparr>nflags := nflags t OR NLM_BIT_INIT\<rparr>"
    "t = s1 \<or> t = s1\<lparr>rbuf := rb\<rparr> \<or> t = s3 \<and> \<not> r2 < 0"
proof -
  obtain s1 r1 where l: "NetLoggingMgrLoadConfigForKernel (e_htons k) (e_open k) (e_read k) (s\<lparr>qaf_hook := 0\<rparr>) = (s1, r1)"
    by fastforce
  obtain rb r2 where ri: "ringbuf_init (e_ring k) (rbuf s1) RINGBUF_LEN = (rb, r2)" by fastforce
  obtain s3 r3 where ih: "init_handlers k (s1\<lparr>rbuf := rb\<rparr>) = (s3, r3)" by fastforce
  define t where "t = (if r1 < 0 then s1
    else if r2 < 0 \<or> list_ex (export_missing k) required_exports then s1\<lparr>rbuf := rb\<rparr> else s3)"
  have "s' = t\<lparr>nflags := nflags t OR NLM_BIT_INIT\<rparr>"
    using assms by (simp add: NetLoggingMgrInit_def l ri ih t_def Let_def split: if_splits)
  then show ?thesis using that l ri ih by (auto simp: t_def split: if_splits)
qed

lemma Init_owned:
  assumes "nlm_idle s" "nflags s AND NLM_BIT_INIT = 0" "e_thread k \<noteq> 0" "e_open k \<noteq> 0"
    "NetLoggingMgrInit k s = (s', r)"
  shows "nlm_owned s' \<and> nflags s' AND NLM_BIT_INIT \<noteq> 0"
proof -
  obtain s1 r1 rb r2 s3 r3 t where
    l: "NetLoggingMgrLoadConfigForKernel (e_htons k) (e_open k) (e_read k) (s\<lparr>qaf_hook := 0\<rparr>) = (s1, r1)"
    and ri: "ringbuf_init (e_ring k) (rbuf s1) RINGBUF_LEN = (rb, r2)"
    and ih: "init_handlers k (s1\<lparr>rbuf := rb\<rparr>) = (s3, r3)"
    and t: "s' = t\<lparr>nflags := nflags t OR NLM_BIT_INIT\<rparr>" "t = s1 \<or> t = s1\<lparr>rbuf := rb\<rparr> \<or> t = s3 \<and> \<not> r2 < 0"
    using assms(5,2) by (rule Init_stages)
  note fr = LoadConfig_frame [OF l]
  have idle: "kobjs (rbuf s) = []" "hooks s = []" "threads s = []" "files s = []" "thread_run s = 0" "thread_uid s = 0"
    using assms(1) by (simp_all add: nlm_idle_def)
  have term0: "kobjs (fst (ringbuf_term (rbuf s1))) = []"
    using fr(1) idle(1) by (simp add: term_of_idle)
  have termrb: "kobjs (fst (ringbuf_term rb)) = []"
    using ringbuf_init_fail [OF ri] ringbuf_init_term [OF ri] fr(1) idle(1) term_of_idle [of rb]
    by (cases "r2 < 0") simp_all
  have "nlm_owned s3"
    using init_handlers_owned [OF ih assms(3)] termrb fr idle assms(4) by simp
  moreover have "nlm_owned s1" "nlm_owned (s1\<lparr>rbuf := rb\<rparr>)"
    using term0 termrb fr idle assms(4) by (simp_all add: nlm_owned_def)
  ultimately have "nlm_owned t" using t(2) by blast
  then show ?thesis using t(1) init_bit_set by (simp add: nlm_owned_def)
qed

lemma Finish_releases:
  assumes "nlm_owned s" "nflags s AND NLM_BIT_INIT \<noteq> 0" "NetLoggingMgrFinish s = (s', r)"
  shows "kobjs (rbuf s') = [] \<and> hooks s' = [] \<and> threads s' = [] \<and> files s' = [] \<and> \<not> dbg_handler s' \<and>
    \<not> put_handler s' \<and> thread_run s' = 0 \<and> nflags s' AND NLM_BIT_INIT = 0 \<and> r = None"
  using assms by (auto simp: NetLoggingMgrFinish_def nlm_owned_def Let_def init_bits word_bw_assocs split: if_splits)

lemma init_handlers_together:
  assumes "init_handlers k s = (s', r)" "\<not> dbg_handler s" "\<not> put_handler s"
  shows "rbuf s' = rbuf s \<and> dbg_handler s' = put_handler s'"
  using assms by (auto simp: init_handlers_def Let_def split: if_splits)

lemma Init_handlers:
  assumes "NetLoggingMgrInit k s = (s', r)" "nflags s AND NLM_BIT_INIT = 0" "\<not> dbg_handler s" "\<not> put_handler s"
    "dbg_handler s' \<or> put_handler s'"
  shows "dbg_handler s' \<and> put_handler s' \<and> (\<exists>rb. ringbuf_init (e_ring k) rb RINGBUF_LEN = (rbuf s', 0))"
proof -
  obtain s1 r1 rb r2 s3 r3 t where
    l: "NetLoggingMgrLoadConfigForKernel (e_htons k) (e_open k) (e_read k) (s\<lparr>qaf_hook := 0\<rparr>) = (s1, r1)"
    and ri: "ringbuf_init (e_ring k) (rbuf s1) RINGBUF_LEN = (rb, r2)"
    and ih: "init_handlers k (s1\<lparr>rbuf := rb\<rparr>) = (s3, r3)"
    and t: "s' = t\<lparr>nflags := nflags t OR NLM_BIT_INIT\<rparr>" "t = s1 \<or> t = s1\<lparr>rbuf := rb\<rparr> \<or> t = s3 \<and> \<not> r2 < 0"
    using assms(1,2) by (rule Init_stages)
  have no: "\<not> dbg_handler s1" "\<not> put_handler s1" using LoadConfig_frame [OF l] assms by simp_all
  with t assms(5) have "t = s3" "\<not> r2 < 0" by auto
  moreover have "r2 < 0 \<or> r2 = 0" using ri by (auto simp: ringbuf_init_def Let_def split: if_splits)
  ultimately show ?thesis
    using init_handlers_together [OF ih] no t(1) assms(5) ri by auto
qed

section \<open>Properties\<close>

definition nlm_zero :: nlm where
  "nlm_zero = \<lparr>nflags = 0, thread_run = 0, thread_uid = 0,
     config = \<lparr>cfg_magic = 0, cfg_IPv4 = 0, cfg_flags = 0, cfg_port = 0\<rparr>, sin_len = 0, sin_family = 0,
     sin_addr = 0, sin_port = 0, qaf_hook = 0, rbuf = ring_zero, dbg_handler = False, put_handler = False,
     hooks = [], threads = [], files = []\<rparr>"

definition nlm_env_ok :: nlm_env where
  "nlm_env_ok = \<lparr>e_htons = (\<lambda>p. push_bit 8 p OR drop_bit 8 p), e_open = 3,
     e_read = (16, \<lparr>cfg_magic = 0x4D4C4E, cfg_IPv4 = 0x0100A8C0, cfg_flags = 1, cfg_port = 0\<rparr>),
     e_ring = ring_env, e_export = (\<lambda>_ _. 0), e_hook = 21, e_disable = 0, e_shell_pid = -1, e_thread = 31\<rparr>"



text \<open>
  Order of the start-up: the two debug callbacks, which write to the ring buffer, are only ever
  registered together and after the ring buffer was set up, so with the page-aligned block the
  kernel grants every callback finds a well-formed buffer, of capacity \<open>0x1FFF\<close> or \<open>0xFFF\<close>.
\<close>

lemma Init_handlers_safe:
  assumes "NetLoggingMgrInit k s = (s', r)" "nflags s AND NLM_BIT_INIT = 0" "\<not> dbg_handler s" "\<not> put_handler s"
    and "unat (memblock_base (e_ring k)) mod 0x1000 = 0" "unat (memblock_base (e_ring k)) + 0x2000 < 2 ^ 32"
    and "dbg_handler s' \<or> put_handler s'"
  shows "dbg_handler s' \<and> put_handler s' \<and> rb_wf (rbuf s') \<and> contents (rbuf s') = [] \<and>
    (\<exists>rb. KernelDebugPrintfCallback (rbuf s') t = Some (rb, 0) \<and>
       contents rb = keep_last (rb_cap (rbuf s')) (printed t))"
proof -
  obtain rb where h: "dbg_handler s'" "put_handler s'" "ringbuf_init (e_ring k) rb RINGBUF_LEN = (rbuf s', 0)"
    using Init_handlers [OF assms(1-4,7)] by blast
  have k: "evf_res (e_ring k) \<ge> 0" "mtx_res (e_ring k) \<ge> 0" "memblock_res (e_ring k) \<ge> 0"
    using h(3) by (auto simp: ringbuf_init_def Let_def split: if_splits)
  have "rb_wf (rbuf s') \<and> contents (rbuf s') = []"
    using ringbuf_init_ok [OF k _ assms(6) page_coprime [OF assms(5)], of rb "rbuf s'" 0] h(3)
    by (simp add: RINGBUF_LEN_def)
  then show ?thesis using h kernel_callback_law [of "rbuf s'" t] by auto
qed

lemma Init_handlers_safe_witness:
  "rb_wf (rbuf (fst (NetLoggingMgrInit nlm_env_ok nlm_zero)))"
  using Init_handlers_safe [of nlm_env_ok nlm_zero "fst (NetLoggingMgrInit nlm_env_ok nlm_zero)"
    "snd (NetLoggingMgrInit nlm_env_ok nlm_zero)" None]
  by (simp add: RINGBUF_LEN_def nlm_env_ok_def nlm_zero_def ring_env_def ring_zero_def NetLoggingMgrInit_def
    NetLoggingMgrLoadConfigForKernel_def ringbuf_init_def init_handlers_def has_magic_def nlm_magic_def
    set_server_def sizeof_config_def bytes32_def export_missing_def required_exports_def Let_def split: if_splits)

text \<open>
  \<open>NetLoggingMgrUpdateConfig\<close>: a failing first copy or a wrong magic changes nothing; a failing
  second copy may change the stored configuration but never the server the thread connects to;
  on success the server is the configured address and the configured port, 8080 if it is 0.
\<close>

lemma UpdateConfig_spec:
  assumes "NetLoggingMgrUpdateConfig illegal htons u1 u2 s = (s', r)" "illegal < 0"
  shows "(fst u1 < 0 \<or> take 4 (snd u1) \<noteq> nlm_magic \<longrightarrow> s' = s \<and> r < 0) \<and>
    (r < 0 \<longrightarrow> sin_addr s' = sin_addr s \<and> sin_port s' = sin_port s) \<and>
    (r = 0 \<longleftrightarrow> \<not> fst u1 < 0 \<and> take 4 (snd u1) = nlm_magic \<and> \<not> fst u2 < 0) \<and>
    (r = 0 \<longrightarrow> config s' = snd u2 \<and> sin_addr s' = cfg_IPv4 (snd u2) \<and>
       sin_port s' = htons (if cfg_port (snd u2) = 0 then 8080 else cfg_port (snd u2)))"
  using assms by (auto simp: NetLoggingMgrUpdateConfig_def set_server_def DEFAULT_PORT_def Let_def split: if_splits)

lemma UpdateConfig_spec_witness:
  "sin_port (fst (NetLoggingMgrUpdateConfig (-1) id (0, [0x4E, 0x4C, 0x4D, 0])
     (0, \<lparr>cfg_magic = 0x4D4C4E, cfg_IPv4 = 1, cfg_flags = 0, cfg_port = 0\<rparr>) nlm_zero)) = 8080"
  using UpdateConfig_spec [of "-1" id "(0, [0x4E, 0x4C, 0x4D, 0])"
    "(0, \<lparr>cfg_magic = 0x4D4C4E, cfg_IPv4 = 1, cfg_flags = 0, cfg_port = 0\<rparr>)" nlm_zero
    "fst (NetLoggingMgrUpdateConfig (-1) id (0, [0x4E, 0x4C, 0x4D, 0])
     (0, \<lparr>cfg_magic = 0x4D4C4E, cfg_IPv4 = 1, cfg_flags = 0, cfg_port = 0\<rparr>) nlm_zero)"
    "snd (NetLoggingMgrUpdateConfig (-1) id (0, [0x4E, 0x4C, 0x4D, 0])
     (0, \<lparr>cfg_magic = 0x4D4C4E, cfg_IPv4 = 1, cfg_flags = 0, cfg_port = 0\<rparr>) nlm_zero)"]
  by (simp add: nlm_magic_def)

text \<open>
  \<open>My_ksceNetInetPton\<close>: the four bytes of the address lie in memory in the order in which they
  were given (network order); the additions of the code never carry.
\<close>

lemma InetPton_bytes:
  "bytes32 (My_ksceNetInetPton a b c d) = [a, b, c, d]"
proof -
  have "My_ksceNetInetPton a b c d = join32 a b c d"
    unfolding My_ksceNetInetPton_def join32_def Let_def
    by (simp add: disjunctive_add bit_simps u8_bit_high or.assoc)
  then show ?thesis by (simp add: bytes32_join32)
qed

end
