(* ===== verification/UsbLogging.thy ===== *)
theory UsbLogging
  imports NetLogging
begin

text \<open>
  PSMLogUSB (\<open>src/main.c\<close>), the logger that drains the same ring buffer into the USB serial
  driver: its thread as a state machine over the answers of the kernel, the two hooks of the
  mass storage driver that share an event flag with it, and the start and stop of the module.
  The debug callbacks of the file are those of PrincessLog, line for line.
\<close>

unbundle bit_operations_syntax

section \<open>State\<close>

definition SERIAL_BUSY :: u32 where "SERIAL_BUSY = 0"
definition SERIAL_READY :: u32 where "SERIAL_READY = 1"
definition SERIAL_STOP :: u32 where "SERIAL_STOP = 2"

datatype usb_pc =
    UTop        \<comment> \<open>\<open>while (g_usb_running)\<close>\<close>
  | UWait       \<comment> \<open>\<open>ringbuf_get_wait\<close> without a timeout\<close>
  | UStatus     \<comment> \<open>label \<open>connect\<close>\<close>
  | UWaitStop   \<comment> \<open>\<open>ksceKernelWaitEventFlag\<close> for \<open>SERIAL_STOP\<close>\<close>
  | USend       \<comment> \<open>label \<open>send\<close>\<close>
  | USending    \<comment> \<open>\<open>sceUsbSerialSendForDriver\<close>\<close>
  | URecv       \<comment> \<open>\<open>ringbuf_get_wait\<close> with a timeout of one second\<close>
  | UExit

datatype usb_call = SerialStart | SerialSetup int | SerialReset | SerialClose | UdcdStop int | SerialSend "u8 list"

record usb_sys =
  urb :: ringbuf
  urun :: int                  \<comment> \<open>\<open>g_usb_running\<close>\<close>
  upc :: usb_pc
  ubuf :: "u8 list"            \<comment> \<open>\<open>buf[0 .. received_len)\<close>\<close>
  uret :: u32                  \<comment> \<open>\<open>ret\<close>\<close>
  uflag :: u32                 \<comment> \<open>bits of the event flag \<open>g_usb_flag_uid\<close>\<close>
  ucalls :: "usb_call list"    \<comment> \<open>history: the calls to the USB drivers\<close>
  uproduced :: "u8 list"       \<comment> \<open>history, as for the network logger\<close>
  uconsumed :: "u8 list"
  usent :: "u8 list"           \<comment> \<open>history: what the driver took\<close>
  ucut :: nat                  \<comment> \<open>history: bytes that it did not take in sends that succeeded\<close>
  uclobbered :: nat

definition flag_set :: "u32 \<Rightarrow> usb_sys \<Rightarrow> usb_sys" where
  "flag_set bits s = s\<lparr>uflag := uflag s OR bits\<rparr>"

text \<open>\<open>ksceKernelClearEventFlag\<close> keeps the bits of its argument, as \<open>ringbuf.c\<close> relies on.\<close>

definition flag_clear :: "u32 \<Rightarrow> usb_sys \<Rightarrow> usb_sys" where
  "flag_clear bits s = s\<lparr>uflag := uflag s AND bits\<rparr>"

definition ucall :: "usb_call \<Rightarrow> usb_sys \<Rightarrow> usb_sys" where
  "ucall c s = s\<lparr>ucalls := ucalls s @ [c]\<rparr>"

text \<open>
  \<open>ksceKernelWaitEventFlag (uid, bits, SCE_EVENT_WAITCLEAR, NULL, 0)\<close>: \<open>None\<close> while it blocks; a
  failing wait (\<open>r < 0\<close>) returns at once. What a satisfied wait leaves of the flag is the
  kernel's, the argument \<open>wclr\<close>.
\<close>

definition flag_wait :: "(u32 \<Rightarrow> u32 \<Rightarrow> u32) \<Rightarrow> u32 \<Rightarrow> int \<Rightarrow> usb_sys \<Rightarrow> usb_sys option" where
  "flag_wait wclr bits r s =
     (if r < 0 then Some s
      else if uflag s AND bits = bits then Some (s\<lparr>uflag := wclr (uflag s) bits\<rparr>) else None)"

section \<open>The thread\<close>

definition usb_get :: "usb_sys \<Rightarrow> int \<Rightarrow> usb_sys option" where
  "usb_get s r = do { (rb, out) \<leftarrow> ringbuf_get_wait (urb s) 0x400 r;
     Some (s\<lparr>urb := rb, ubuf := out, uconsumed := uconsumed s @ out\<rparr>) }"

text \<open>
  One step of the thread; \<open>r\<close> is what the call returns. A send that succeeds returns how many bytes the driver took;
  the thread goes on as if it had taken all of them.
\<close>

definition usb_thread_step :: "(u32 \<Rightarrow> u32 \<Rightarrow> u32) \<Rightarrow> usb_sys \<Rightarrow> int \<Rightarrow> usb_sys option" where
  "usb_thread_step wclr s r = (case upc s of
     UTop \<Rightarrow> Some (s\<lparr>upc := (if urun s \<noteq> 0 then UWait else UExit)\<rparr>)
   | UWait \<Rightarrow> do { s \<leftarrow> usb_get s r; Some (s\<lparr>uret := 0, upc := UStatus\<rparr>) }
   | UStatus \<Rightarrow>
       (let s = s\<lparr>uret := word_of_int r\<rparr> in
        Some (s\<lparr>upc := (if uret s \<noteq> 0x80244401
          then (if uret s = 1 then USend else if uret s = 0 then UStatus else UWaitStop)
          else UWaitStop)\<rparr>))
   | UWaitStop \<Rightarrow> (case flag_wait wclr SERIAL_STOP r s of
        None \<Rightarrow> Some s
      | Some s \<Rightarrow>
         (let s = ucall (SerialSetup 1) (ucall SerialStart s);
              s = (if uret s = 0x80244403 then ucall (SerialSetup 1) (ucall SerialReset s) else s);
              s = flag_set SERIAL_READY s
          in Some (s\<lparr>upc := USend\<rparr>)))
   | USend \<Rightarrow>
       (if length (ubuf s) = 0 then Some (s\<lparr>upc := UTop\<rparr>)
        else Some ((flag_clear SERIAL_READY s)\<lparr>upc := USending\<rparr>))
   | USending \<Rightarrow>
       (let s = ucall (SerialSend (ubuf s)) s in
        if r < 0 then Some ((flag_set SERIAL_STOP s)\<lparr>upc := UStatus\<rparr>)
        else Some (s\<lparr>usent := usent s @ take (nat r) (ubuf s), ucut := ucut s + (length (ubuf s) - nat r), upc := URecv\<rparr>))
   | URecv \<Rightarrow> do { s \<leftarrow> usb_get s r;
        let s = flag_set SERIAL_READY s;
        Some (s\<lparr>upc := (if length (ubuf s) > 0 then USend else UTop)\<rparr>) }
   | UExit \<Rightarrow> Some s)"

section \<open>The hooks\<close>

definition cute_girls_dying :: "usb_sys \<Rightarrow> usb_sys" where
  "cute_girls_dying s = ucall SerialClose (ucall SerialReset s)"

definition SceUsbMtpForDriver_6FC97594_patched :: int where
  "SceUsbMtpForDriver_6FC97594_patched = 0"

definition sceUsbstorVStorStart_patched :: "(u32 \<Rightarrow> u32 \<Rightarrow> u32) \<Rightarrow> usb_sys \<Rightarrow> int \<Rightarrow> usb_sys option" where
  "sceUsbstorVStorStart_patched wclr s r = do {
     s \<leftarrow> flag_wait wclr SERIAL_READY r s;
     Some (ucall (UdcdStop 2) (cute_girls_dying s)) }"

definition sceUsbstorVStorStop_patched :: "usb_sys \<Rightarrow> usb_sys" where
  "sceUsbstorVStorStop_patched s = flag_set SERIAL_STOP (ucall (UdcdStop 2) s)"

section \<open>The whole logger\<close>

datatype usb_event = UPutchar u8 | UPrintf "u8 list option" | Usb int | VStorStart int | VStorStop | UStop

definition uproduce :: "usb_sys \<Rightarrow> ringbuf \<Rightarrow> u8 list \<Rightarrow> usb_sys" where
  "uproduce s rb ys = s\<lparr>urb := rb, uproduced := uproduced s @ ys,
     uclobbered := uclobbered s + (length (contents (urb s)) + length ys - rb_cap (urb s))\<rparr>"

definition usb_step :: "(u32 \<Rightarrow> u32 \<Rightarrow> u32) \<Rightarrow> usb_sys \<Rightarrow> usb_event \<Rightarrow> usb_sys option" where
  "usb_step wclr s e = (case e of
     UPutchar c \<Rightarrow> do { (rb, _) \<leftarrow> UserDebugPrintfCallback (urb s) c; Some (uproduce s rb [c]) }
   | UPrintf t \<Rightarrow> do { (rb, _) \<leftarrow> KernelDebugPrintfCallback (urb s) t; Some (uproduce s rb (printed t)) }
   | Usb r \<Rightarrow> usb_thread_step wclr s r
   | VStorStart r \<Rightarrow> Some (case sceUsbstorVStorStart_patched wclr s r of Some s' \<Rightarrow> s' | None \<Rightarrow> s)
   | VStorStop \<Rightarrow> Some (sceUsbstorVStorStop_patched s)
   | UStop \<Rightarrow> Some (s\<lparr>urun := 0\<rparr>))"

fun usb_run :: "(u32 \<Rightarrow> u32 \<Rightarrow> u32) \<Rightarrow> usb_sys \<Rightarrow> usb_event list \<Rightarrow> usb_sys option" where
  "usb_run wclr s [] = Some s"
| "usb_run wclr s (e # es) = do { s' \<leftarrow> usb_step wclr s e; usb_run wclr s' es }"

definition usb_init :: "ringbuf \<Rightarrow> usb_sys" where
  "usb_init rb = \<lparr>urb = rb, urun = 1, upc = UTop, ubuf = [], uret = 0, uflag = SERIAL_STOP, ucalls = [],
     uproduced = [], uconsumed = [], usent = [], ucut = 0, uclobbered = 0\<rparr>"

section \<open>The invariant\<close>

definition uin_flight :: "usb_sys \<Rightarrow> u8 list" where
  "uin_flight s = (if upc s \<in> {UStatus, UWaitStop, USend, USending} then ubuf s else [])"

definition usb_inv :: "usb_sys \<Rightarrow> bool" where
  "usb_inv s \<longleftrightarrow> rb_wf (urb s) \<and> signalled (urb s) \<and>
     subseq (uconsumed s @ contents (urb s)) (uproduced s) \<and> suffix (contents (urb s)) (uproduced s) \<and>
     subseq (usent s @ uin_flight s) (uconsumed s) \<and> length (uconsumed s) = length (usent s @ uin_flight s) + ucut s \<and>
     length (uproduced s) = length (uconsumed s) + length (contents (urb s)) + uclobbered s"

lemma usb_get_law:
  assumes "rb_wf (urb s)" "signalled (urb s)"
  obtains rb' out where "usb_get s r = Some (s\<lparr>urb := rb', ubuf := out, uconsumed := uconsumed s @ out\<rparr>)"
    "rb_wf rb'" "signalled rb'" "contents (urb s) = out @ contents rb'"
proof -
  obtain rb' where "ringbuf_get_wait (urb s) 0x400 r = Some (rb', if r < 0 then [] else take (nat 0x400) (contents (urb s)))"
      "rb_wf rb'" "signalled rb'"
      "contents rb' = (if r < 0 then contents (urb s) else drop (nat 0x400) (contents (urb s)))"
    using ringbuf_get_wait_law [OF assms, of "0x400" r] by auto
  then show ?thesis
    by (intro that) (auto simp: usb_get_def)
qed

lemmas usb_prims = flag_set_def flag_clear_def ucall_def flag_wait_def cute_girls_dying_def

lemma usb_thread_inv:
  assumes "usb_inv s"
  shows "\<exists>s'. usb_thread_step wclr s r = Some s' \<and> usb_inv s'"
proof -
  have wf: "rb_wf (urb s)" "signalled (urb s)" using assms by (simp_all add: usb_inv_def)
  obtain rb' out where g: "usb_get s r = Some (s\<lparr>urb := rb', ubuf := out, uconsumed := uconsumed s @ out\<rparr>)"
      "rb_wf rb'" "signalled rb'" "contents (urb s) = out @ contents rb'"
    using wf by (rule usb_get_law)
  have suf: "suffix (contents rb') (uproduced s)"
    using assms g(4) by (auto simp: usb_inv_def suffix_def)
  show ?thesis
  proof (cases "upc s")
    case UWait
    then show ?thesis using assms g suf by (auto simp: usb_thread_step_def usb_inv_def uin_flight_def)
  next
    case URecv
    then show ?thesis using assms g suf
      by (auto simp: usb_thread_step_def usb_inv_def uin_flight_def usb_prims Let_def)
  next
    case UWaitStop
    then show ?thesis using assms
      by (auto simp: usb_thread_step_def usb_inv_def uin_flight_def usb_prims Let_def)
  next
    case USending
    have "subseq (usent s @ take (nat r) (ubuf s)) (usent s @ ubuf s)"
      by (simp add: subseq_append' prefix_imp_subseq take_is_prefix)
    then show ?thesis using assms USending
      by (auto simp: usb_thread_step_def usb_inv_def uin_flight_def usb_prims Let_def intro: subseq_order.trans)
  qed (use assms in \<open>auto simp: usb_thread_step_def usb_inv_def uin_flight_def usb_prims Let_def\<close>)
qed

lemma urb_uproduce [simp]: "urb (uproduce s rb ys) = rb"
  by (simp add: uproduce_def)

lemma uproduce_inv:
  assumes "usb_inv s" "rb_wf rb'" "signalled (urb s) \<longrightarrow> signalled rb'"
    "contents rb' = keep_last (rb_cap (urb s)) (contents (urb s) @ ys)"
  shows "usb_inv (uproduce s rb' ys)"
  using assms subseq_append_produce [of "uconsumed s" "contents (urb s)" "uproduced s" "rb_cap (urb s)" ys]
  by (auto simp: usb_inv_def uin_flight_def uproduce_def split: if_splits)

lemma usb_step_inv:
  assumes "usb_inv s"
  shows "\<exists>s'. usb_step wclr s e = Some s' \<and> usb_inv s'"
proof (cases e)
  case (UPutchar c)
  then show ?thesis using user_callback_law [of "urb s" c] uproduce_inv [OF assms] assms
    by (fastforce simp: usb_step_def usb_inv_def)
next
  case (UPrintf t)
  then show ?thesis using kernel_callback_law [of "urb s" t] uproduce_inv [OF assms] assms
    by (fastforce simp: usb_step_def usb_inv_def)
next
  case (Usb r)
  then show ?thesis using usb_thread_inv [OF assms] by (simp add: usb_step_def)
next
  case (VStorStart r)
  then show ?thesis using assms
    by (auto simp: usb_step_def sceUsbstorVStorStart_patched_def usb_prims usb_inv_def uin_flight_def split: option.splits)
next
  case VStorStop
  then show ?thesis using assms
    by (auto simp: usb_step_def sceUsbstorVStorStop_patched_def usb_prims usb_inv_def uin_flight_def)
next
  case UStop
  then show ?thesis using assms by (auto simp: usb_step_def usb_inv_def uin_flight_def)
qed

lemma usb_run_inv: "usb_inv s \<Longrightarrow> \<exists>s'. usb_run wclr s es = Some s' \<and> usb_inv s'"
proof (induction es arbitrary: s)
  case (Cons e es)
  then show ?case using usb_step_inv [OF Cons.prems, of wclr e] by auto
qed simp

section \<open>Start and stop of the module\<close>

record usb_module =
  m_sys :: usb_sys
  m_hooks :: "int list"        \<comment> \<open>hooks that are installed\<close>
  m_hook :: "int list"         \<comment> \<open>\<open>hook[0 .. HOOKS_NUM)\<close>\<close>
  m_thread :: int              \<comment> \<open>\<open>g_usb_thread_uid\<close>\<close>
  m_threads :: "int list"      \<comment> \<open>threads that exist\<close>
  m_dbg :: bool                \<comment> \<open>\<open>KernelDebugPrintfCallback\<close> is registered\<close>
  m_put :: bool                \<comment> \<open>\<open>UserDebugPrintfCallback\<close> is registered\<close>

text \<open>
  What the kernel answers to \<open>module_start\<close>: hooks, ring buffer, thread. The banner and the
  results of the symbol look-ups are printed through the callback that was just registered;
  their texts are the argument \<open>texts\<close>.
\<close>

fun kprint_all :: "ringbuf \<Rightarrow> u8 list option list \<Rightarrow> ringbuf option" where
  "kprint_all rb [] = Some rb"
| "kprint_all rb (t # ts) = do { (rb, _) \<leftarrow> KernelDebugPrintfCallback rb t; kprint_all rb ts }"

definition usb_module_start ::
    "init_env \<Rightarrow> int list \<Rightarrow> int \<Rightarrow> u8 list option list \<Rightarrow> usb_module \<Rightarrow> usb_module option" where
  "usb_module_start k hk th texts m =
    (let sys = (m_sys m)\<lparr>uflag := SERIAL_STOP\<rparr>;
         m = m\<lparr>m_hook := hk, m_hooks := filter (\<lambda>h. h \<ge> 0) hk @ m_hooks m\<rparr>;
         (rb, _) = ringbuf_init k (urb sys) 0x2000;
         m = m\<lparr>m_dbg := True, m_put := True\<rparr>
     in do {
       rb \<leftarrow> kprint_all rb texts;
       Some (m\<lparr>m_sys := sys\<lparr>urb := rb\<rparr>, m_thread := th,
               m_threads := (if th < 0 then m_threads m else th # m_threads m)\<rparr>) })"

definition usb_module_stop :: "usb_module \<Rightarrow> usb_module" where
  "usb_module_stop m =
    (let m = m\<lparr>m_dbg := False\<rparr>;
         m = m\<lparr>m_put := False\<rparr>;
         m = (if urun (m_sys m) \<noteq> 0 then m\<lparr>m_sys := (m_sys m)\<lparr>urun := 0\<rparr>\<rparr> else m);
         m = (if m_thread m > 0 then m\<lparr>m_threads := remove1 (m_thread m) (m_threads m), m_thread := 0\<rparr> else m);
         sys = (m_sys m)\<lparr>urb := fst (ringbuf_term (urb (m_sys m)))\<rparr>;
         sys = cute_girls_dying sys
     in m\<lparr>m_sys := sys, m_hooks := fold remove1 (m_hook m) (m_hooks m)\<rparr>)"

lemma callback_without_buffer:
  assumes "buf_len rb = 0" "printed t \<noteq> []"
  shows "KernelDebugPrintfCallback rb t = None"
proof -
  obtain cs where t: "t = Some cs" "cs \<noteq> []" using assms(2) by (cases t) (auto simp: printed_def)
  define len where "len = (if int (length cs) \<ge> 0x400 then 0x3FF else int (length cs))"
  have "len > 0" using t by (auto simp: len_def)
  moreover have "put_clobber (lock_mutex rb) c = None" for c
    using assms(1) by (simp add: put_clobber_def is_full_def idx_def lock_mutex_def)
  ultimately have "ringbuf_put_clobber rb (take 0x3FF cs @ [0]) len = None"
    using t by (cases cs) (simp_all add: ringbuf_put_clobber_def)
  then show ?thesis by (auto simp: KernelDebugPrintfCallback_def vsnprintf_def t len_def Let_def split: if_splits)
qed

lemma kprint_all_ok:
  assumes "rb_wf rb" "signalled rb"
  shows "\<exists>rb'. kprint_all rb ts = Some rb' \<and> rb_wf rb' \<and> signalled rb' \<and> same_outside rb rb' \<and>
    contents rb' = keep_last (rb_cap rb) (contents rb @ concat (map printed ts))"
  using assms
proof (induction ts arbitrary: rb)
  case Nil
  then show ?case using wf_bound [of rb] by (simp add: same_outside_def keep_last_id)
next
  case (Cons t ts)
  obtain rb1 where rb1: "KernelDebugPrintfCallback rb t = Some (rb1, 0)" "rb_wf rb1" "same_outside rb rb1"
      "contents rb1 = keep_last (rb_cap rb) (contents rb @ printed t)" "signalled rb1"
    using kernel_callback_law [OF Cons.prems(1), of t] Cons.prems(2) by auto
  from Cons.IH [OF rb1(2,5)] show ?case
    using rb1 same_outside_trans [OF rb1(3)] same_outside_cap [OF rb1(3)]
    by (auto simp: keep_last_append)
qed

section \<open>Properties\<close>

text \<open>
  C40. The log stream of PSMLogUSB: under every interleaving of the callbacks, the USB thread, the
  two mass storage hooks and a request to stop, for all answers of the drivers, no step faults;
  what the driver took, then what the thread holds, then the bytes still pending in the ring buffer
  is a subsequence of what was printed, short of it by exactly two kinds of bytes: those clobbered in
  a full buffer and those that a send which succeeded did not take. So a send that fails loses
  nothing, and a short one loses its rest.
\<close>

theorem usb_stream:
  assumes "rb_wf rb" "signalled rb" "contents rb = []"
  shows "\<exists>s. usb_run wclr (usb_init rb) es = Some s \<and>
    subseq (usent s @ uin_flight s @ contents (urb s)) (uproduced s) \<and>
    length (uproduced s) = length (usent s @ uin_flight s @ contents (urb s)) + uclobbered s + ucut s \<and>
    (uclobbered s = 0 \<and> ucut s = 0 \<longrightarrow> usent s @ uin_flight s @ contents (urb s) = uproduced s)"
proof -
  have "usb_inv (usb_init rb)" using assms by (simp add: usb_inv_def usb_init_def uin_flight_def)
  then obtain s where s: "usb_run wclr (usb_init rb) es = Some s" "usb_inv s" using usb_run_inv by blast
  have "subseq ((usent s @ uin_flight s) @ contents (urb s)) (uconsumed s @ contents (urb s))"
    using s(2) by (simp only: usb_inv_def subseq_append)
  then have sub: "subseq (usent s @ uin_flight s @ contents (urb s)) (uproduced s)"
    using s(2) by (auto simp: usb_inv_def intro: subseq_order.trans)
  then show ?thesis using s by (auto simp: usb_inv_def intro: subseq_same_length)
qed

theorem usb_stream_witness:
  "\<exists>s. usb_run (\<lambda>f b. f AND NOT b) (usb_init ring_fresh)
      [Usb 0, UPutchar 65, Usb 0, Usb 0x80244401, Usb 0, Usb 0, Usb (-1), Usb 1, Usb 0, Usb 0] = Some s \<and>
    length (uproduced s) = length (usent s @ uin_flight s @ contents (urb s)) + uclobbered s + ucut s"
  using usb_stream [of ring_fresh "\<lambda>f b. f AND NOT b"
    "[Usb 0, UPutchar 65, Usb 0, Usb 0x80244401, Usb 0, Usb 0, Usb (-1), Usb 1, Usb 0, Usb 0]"] ring_fresh_ok
  by auto

text \<open>
  The ready flag of PSMLogUSB does not guard the send: the thread announces a send with
  \<open>ksceKernelClearEventFlag (uid, SERIAL_READY)\<close>, a call that keeps the bits of its argument. So
  outside of its own wait the thread never clears \<open>SERIAL_READY\<close>, it is \<open>SERIAL_STOP\<close> that is
  lost before a send, and when the flag was ready the mass storage hook finds it ready in the
  middle of the send and closes the serial device there.
\<close>

lemma usb_ready_not_cleared:
  assumes "uflag s AND SERIAL_READY = SERIAL_READY" "upc s = USend" "ubuf s \<noteq> []"
  shows "\<exists>s1 s2. usb_thread_step wclr s r = Some s1 \<and> upc s1 = USending \<and>
    uflag s1 AND SERIAL_READY = SERIAL_READY \<and> uflag s1 AND SERIAL_STOP = 0 \<and>
    sceUsbstorVStorStart_patched wclr s1 r' = Some s2 \<and> upc s2 = USending \<and>
    ucalls s2 = ucalls s @ [SerialReset, SerialClose, UdcdStop 2]"
  using assms
  by (simp add: usb_thread_step_def sceUsbstorVStorStart_patched_def usb_prims SERIAL_READY_def SERIAL_STOP_def
      word_bw_assocs)

lemma usb_ready_not_cleared_witness:
  "\<exists>s1. usb_thread_step (\<lambda>f b. 0) ((usb_init ring_fresh)\<lparr>upc := USend, ubuf := [65], uflag := 3\<rparr>) 0 = Some s1 \<and>
    uflag s1 AND SERIAL_STOP = 0"
  using usb_ready_not_cleared [of "(usb_init ring_fresh)\<lparr>upc := USend, ubuf := [65], uflag := 3\<rparr>" "\<lambda>f b. 0" 0 0]
  by (auto simp: SERIAL_READY_def)

text \<open>
  The start of PSMLogUSB ignores the result of \<open>ringbuf_init\<close>: when an allocation fails (the
  buffer's length is still 0) the first text it prints through its new callback divides by zero;
  when it succeeds on a page-aligned block every text is logged, the last \<open>rb_cap\<close> bytes kept.
\<close>

lemma usb_start_unchecked:
  assumes "ringbuf_init k (urb (m_sys m)) 0x2000 = (rb, r)" "printed t \<noteq> []"
    and "unat (memblock_base k) mod 0x1000 = 0" "unat (memblock_base k) + 0x2000 < 2 ^ 32"
    and "buf_len (urb (m_sys m)) = 0"
  shows "(r < 0 \<longrightarrow> usb_module_start k hk th (t # ts) m = None) \<and>
    (\<not> r < 0 \<longrightarrow> (\<exists>m'. usb_module_start k hk th (t # ts) m = Some m' \<and>
       rb_wf (urb (m_sys m')) \<and>
       contents (urb (m_sys m')) = keep_last (rb_cap rb) (concat (map printed (t # ts)))))"
proof (intro conjI impI)
  have init: "ringbuf_init k (urb (m_sys m)) (int 0x2000) = (rb, r)" using assms(1) by simp
  {
    assume "r < 0"
    then have "buf_len rb = 0"
      using assms(1,5) by (auto simp: ringbuf_init_def Let_def split: if_splits)
    then show "usb_module_start k hk th (t # ts) m = None"
      using callback_without_buffer [OF _ assms(2)] assms(1) by (simp add: usb_module_start_def)
  next
    assume "\<not> r < 0"
    then have k: "evf_res k \<ge> 0" "mtx_res k \<ge> 0" "memblock_res k \<ge> 0"
      using assms(1) by (auto simp: ringbuf_init_def Let_def split: if_splits)
    from ringbuf_init_ok [OF k _ assms(4) page_coprime [OF assms(3)] init]
    have ok: "rb_wf rb" "signalled rb" "contents rb = []" by simp_all
    from kprint_all_ok [OF ok(1,2), of "t # ts"] obtain rb' where
      "kprint_all rb (t # ts) = Some rb'" "rb_wf rb'"
      "contents rb' = keep_last (rb_cap rb) (concat (map printed (t # ts)))"
      using ok(3) by auto
    then show "\<exists>m'. usb_module_start k hk th (t # ts) m = Some m' \<and> rb_wf (urb (m_sys m')) \<and>
        contents (urb (m_sys m')) = keep_last (rb_cap rb) (concat (map printed (t # ts)))"
      using assms(1) by (simp add: usb_module_start_def Let_def del: kprint_all.simps)
  }
qed

definition usb_module_zero :: usb_module where
  "usb_module_zero = \<lparr>m_sys = usb_init ring_zero, m_hooks = [], m_hook = [], m_thread = -1,
     m_threads = [], m_dbg = False, m_put = False\<rparr>"

lemma usb_start_unchecked_witness:
  "usb_module_start (ring_env\<lparr>mtx_res := -1\<rparr>) [1, 2, 3] 9 [Some [10]] usb_module_zero = None"
  using usb_start_unchecked [of "ring_env\<lparr>mtx_res := -1\<rparr>" usb_module_zero
      "fst (ringbuf_init (ring_env\<lparr>mtx_res := -1\<rparr>) ring_zero 0x2000)"
      "snd (ringbuf_init (ring_env\<lparr>mtx_res := -1\<rparr>) ring_zero 0x2000)" "Some [10]" "[1, 2, 3]" 9 "[]"]
  by (simp add: usb_module_zero_def usb_init_def ring_env_def ring_zero_def printed_def ringbuf_init_def)

end
