(* ===== verification/Sha256.thy ===== *)
theory Sha256
  imports Vita_Prelude
begin

text \<open>
  The SHA-256 of the ELF injector and of FAGDec (\<open>sha256.c\<close>, \<open>sha256.h\<close>): the context as a
  record, the macros and every function of the file, the function of FIPS 180-4 as the abstract
  specification, and the proof that hashing a message in any number of chunks computes it.
\<close>

unbundle bit_operations_syntax

section \<open>State\<close>

record sha256_ctx =
  cdata :: "u8 list"
  datalen :: u32
  bitlen0 :: u32
  bitlen1 :: u32
  cstate :: "u32 list"

definition DBL_INT_ADD :: "u32 \<Rightarrow> u32 \<Rightarrow> u32 \<Rightarrow> u32 \<times> u32" where
  "DBL_INT_ADD a b c = (let b = (if a > 0xffffffff - c then b + 1 else b) in (a + c, b))"

section \<open>The macros\<close>

definition ROTRIGHT :: "u32 \<Rightarrow> nat \<Rightarrow> u32" where
  "ROTRIGHT a b = drop_bit b a OR push_bit (32 - b) a"

definition CH :: "u32 \<Rightarrow> u32 \<Rightarrow> u32 \<Rightarrow> u32" where
  "CH x y z = (x AND y) XOR (NOT x AND z)"

definition MAJ :: "u32 \<Rightarrow> u32 \<Rightarrow> u32 \<Rightarrow> u32" where
  "MAJ x y z = (x AND y) XOR (x AND z) XOR (y AND z)"

definition EP0 :: "u32 \<Rightarrow> u32" where
  "EP0 x = ROTRIGHT x 2 XOR ROTRIGHT x 13 XOR ROTRIGHT x 22"

definition EP1 :: "u32 \<Rightarrow> u32" where
  "EP1 x = ROTRIGHT x 6 XOR ROTRIGHT x 11 XOR ROTRIGHT x 25"

definition SIG0 :: "u32 \<Rightarrow> u32" where
  "SIG0 x = ROTRIGHT x 7 XOR ROTRIGHT x 18 XOR drop_bit 3 x"

definition SIG1 :: "u32 \<Rightarrow> u32" where
  "SIG1 x = ROTRIGHT x 17 XOR ROTRIGHT x 19 XOR drop_bit 10 x"

definition sha_k :: "u32 list" where
  "sha_k = concat [
   [0x428a2f98, 0x71374491, 0xb5c0fbcf, 0xe9b5dba5, 0x3956c25b, 0x59f111f1, 0x923f82a4, 0xab1c5ed5],
   [0xd807aa98, 0x12835b01, 0x243185be, 0x550c7dc3, 0x72be5d74, 0x80deb1fe, 0x9bdc06a7, 0xc19bf174],
   [0xe49b69c1, 0xefbe4786, 0x0fc19dc6, 0x240ca1cc, 0x2de92c6f, 0x4a7484aa, 0x5cb0a9dc, 0x76f988da],
   [0x983e5152, 0xa831c66d, 0xb00327c8, 0xbf597fc7, 0xc6e00bf3, 0xd5a79147, 0x06ca6351, 0x14292967],
   [0x27b70a85, 0x2e1b2138, 0x4d2c6dfc, 0x53380d13, 0x650a7354, 0x766a0abb, 0x81c2c92e, 0x92722c85],
   [0xa2bfe8a1, 0xa81a664b, 0xc24b8b70, 0xc76c51a3, 0xd192e819, 0xd6990624, 0xf40e3585, 0x106aa070],
   [0x19a4c116, 0x1e376c08, 0x2748774c, 0x34b0bcb5, 0x391c0cb3, 0x4ed8aa4a, 0x5b9cca4f, 0x682e6ff3],
   [0x748f82ee, 0x78a5636f, 0x84c87814, 0x8cc70208, 0x90befffa, 0xa4506ceb, 0xbef9a3f7, 0xc67178f2]]"

section \<open>The functions\<close>

definition be_word :: "u8 list \<Rightarrow> nat \<Rightarrow> u32" where
  "be_word d j = push_bit 24 (ucast (d ! j)) OR push_bit 16 (ucast (d ! (j + 1)))
     OR push_bit 8 (ucast (d ! (j + 2))) OR ucast (d ! (j + 3))"

text \<open>The two loops that fill \<open>m[64]\<close>; no element is read before it is written.\<close>

definition sha_load :: "u8 list \<Rightarrow> u32 list" where
  "sha_load d = fold (\<lambda>i m. m[i := be_word d (4 * i)]) [0..<16] (replicate 64 0)"

definition sha_extend :: "u32 list \<Rightarrow> u32 list" where
  "sha_extend m = fold (\<lambda>i m. m[i := SIG1 (m ! (i - 2)) + m ! (i - 7) + SIG0 (m ! (i - 15)) + m ! (i - 16)])
     [16..<64] m"

type_synonym sha_regs = "u32 \<times> u32 \<times> u32 \<times> u32 \<times> u32 \<times> u32 \<times> u32 \<times> u32"

definition sha_round :: "u32 list \<Rightarrow> nat \<Rightarrow> sha_regs \<Rightarrow> sha_regs" where
  "sha_round m i r = (case r of (a, b, c, d, e, f, g, h) \<Rightarrow>
     let t1 = h + EP1 e + CH e f g + sha_k ! i + m ! i;
         t2 = EP0 a + MAJ a b c
     in (t1 + t2, a, b, c, d + t1, e, f, g))"

definition sha256_transform :: "sha256_ctx \<Rightarrow> u8 list \<Rightarrow> sha256_ctx" where
  "sha256_transform ctx data =
    (let m = sha_extend (sha_load data); s = cstate ctx;
         (a, b, c, d, e, f, g, h) =
           fold (sha_round m) [0..<64] (s ! 0, s ! 1, s ! 2, s ! 3, s ! 4, s ! 5, s ! 6, s ! 7)
     in ctx\<lparr>cstate := [s ! 0 + a, s ! 1 + b, s ! 2 + c, s ! 3 + d, s ! 4 + e, s ! 5 + f, s ! 6 + g, s ! 7 + h]\<rparr>)"

definition sha256_init :: "sha256_ctx \<Rightarrow> sha256_ctx" where
  "sha256_init ctx = ctx\<lparr>datalen := 0, bitlen0 := 0, bitlen1 := 0,
     cstate := [0x6a09e667, 0xbb67ae85, 0x3c6ef372, 0xa54ff53a, 0x510e527f, 0x9b05688c, 0x1f83d9ab, 0x5be0cd19]\<rparr>"

text \<open>Writing outside of the 64-byte buffer, or reading outside of the caller's, is a fault.\<close>

definition sha_add_bits :: "sha256_ctx \<Rightarrow> u32 \<Rightarrow> sha256_ctx" where
  "sha_add_bits ctx c =
    (let (b0, b1) = DBL_INT_ADD (bitlen0 ctx) (bitlen1 ctx) c in ctx\<lparr>bitlen0 := b0, bitlen1 := b1\<rparr>)"

definition sha256_byte :: "sha256_ctx \<Rightarrow> u8 \<Rightarrow> sha256_ctx option" where
  "sha256_byte ctx x =
    (if unat (datalen ctx) < length (cdata ctx)
     then (let ctx = ctx\<lparr>cdata := (cdata ctx)[unat (datalen ctx) := x], datalen := datalen ctx + 1\<rparr>
       in Some (if datalen ctx = 64
            then (sha_add_bits (sha256_transform ctx (cdata ctx)) 512)\<lparr>datalen := 0\<rparr>
            else ctx))
     else None)"

fun sha_bytes :: "sha256_ctx \<Rightarrow> u8 list \<Rightarrow> sha256_ctx option" where
  "sha_bytes ctx [] = Some ctx"
| "sha_bytes ctx (x # xs) = do { ctx \<leftarrow> sha256_byte ctx x; sha_bytes ctx xs }"

definition sha256_update :: "sha256_ctx \<Rightarrow> u8 list \<Rightarrow> u32 \<Rightarrow> sha256_ctx option" where
  "sha256_update ctx data len =
    (if unat len \<le> length data then sha_bytes ctx (take (unat len) data) else None)"

definition sha_pad :: "sha256_ctx \<Rightarrow> sha256_ctx" where
  "sha_pad ctx = (let i = unat (datalen ctx) in
     if i < 56 then ctx\<lparr>cdata := put_bytes (cdata ctx) i (0x80 # replicate (55 - i) 0)\<rparr>
     else let ctx = ctx\<lparr>cdata := put_bytes (cdata ctx) i (0x80 # replicate (63 - i) 0)\<rparr>;
              ctx = sha256_transform ctx (cdata ctx)
          in ctx\<lparr>cdata := put_bytes (cdata ctx) 0 (replicate 56 0)\<rparr>)"

definition sha_put_bitlen :: "sha256_ctx \<Rightarrow> sha256_ctx" where
  "sha_put_bitlen ctx = ctx\<lparr>cdata := (cdata ctx)
     [63 := ucast (bitlen0 ctx), 62 := ucast (drop_bit 8 (bitlen0 ctx)),
      61 := ucast (drop_bit 16 (bitlen0 ctx)), 60 := ucast (drop_bit 24 (bitlen0 ctx)),
      59 := ucast (bitlen1 ctx), 58 := ucast (drop_bit 8 (bitlen1 ctx)),
      57 := ucast (drop_bit 16 (bitlen1 ctx)), 56 := ucast (drop_bit 24 (bitlen1 ctx))]\<rparr>"

definition sha_output_byte :: "u32 list \<Rightarrow> nat \<Rightarrow> u8 list \<Rightarrow> u8 list" where
  "sha_output_byte st i hash =
    fold (\<lambda>j hash. hash[i + 4 * j := ucast (drop_bit (24 - i * 8) (st ! j) AND 0xff)]) [0..<8] hash"

definition sha_output :: "u32 list \<Rightarrow> u8 list \<Rightarrow> u8 list" where
  "sha_output st hash = fold (sha_output_byte st) [0..<4] hash"

definition sha256_final :: "sha256_ctx \<Rightarrow> u8 list \<Rightarrow> (sha256_ctx \<times> u8 list) option" where
  "sha256_final ctx hash =
    (if unat (datalen ctx) < length (cdata ctx) \<and> length (cdata ctx) = 64 \<and> length hash \<ge> 32
     then let ctx = sha_pad ctx;
              ctx = sha_add_bits ctx (datalen ctx * 8);
              ctx = sha_put_bitlen ctx;
              ctx = sha256_transform ctx (cdata ctx)
          in Some (ctx, sha_output (cstate ctx) hash)
     else None)"

fun sha_updates :: "sha256_ctx \<Rightarrow> (u8 list \<times> nat) list \<Rightarrow> sha256_ctx option" where
  "sha_updates ctx [] = Some ctx"
| "sha_updates ctx ((addr, len) # xs) = do { ctx \<leftarrow> sha256_update ctx addr (of_nat len); sha_updates ctx xs }"

definition sha256_vector :: "sha256_ctx \<Rightarrow> (u8 list \<times> nat) list \<Rightarrow> u8 list \<Rightarrow> u8 list option" where
  "sha256_vector ctx elems mac = do {
     ctx \<leftarrow> sha_updates (sha256_init ctx) elems;
     (_, mac) \<leftarrow> sha256_final ctx mac;
     Some mac }"

section \<open>The function of FIPS 180-4\<close>

definition fips_Ch :: "u32 \<Rightarrow> u32 \<Rightarrow> u32 \<Rightarrow> u32" where
  "fips_Ch x y z = (x AND y) XOR (NOT x AND z)"

definition fips_Maj :: "u32 \<Rightarrow> u32 \<Rightarrow> u32 \<Rightarrow> u32" where
  "fips_Maj x y z = (x AND y) XOR (x AND z) XOR (y AND z)"

definition fips_Sigma0 :: "u32 \<Rightarrow> u32" where
  "fips_Sigma0 x = word_rotr 2 x XOR word_rotr 13 x XOR word_rotr 22 x"

definition fips_Sigma1 :: "u32 \<Rightarrow> u32" where
  "fips_Sigma1 x = word_rotr 6 x XOR word_rotr 11 x XOR word_rotr 25 x"

definition fips_sigma0 :: "u32 \<Rightarrow> u32" where
  "fips_sigma0 x = word_rotr 7 x XOR word_rotr 18 x XOR drop_bit 3 x"

definition fips_sigma1 :: "u32 \<Rightarrow> u32" where
  "fips_sigma1 x = word_rotr 17 x XOR word_rotr 19 x XOR drop_bit 10 x"

definition be32_of :: "u8 list \<Rightarrow> u32" where
  "be32_of bs = foldl (\<lambda>w b. push_bit 8 w OR ucast b) 0 bs"

text \<open>The message schedule as the standard gives it, a recursion on the index.\<close>

function fips_W :: "u8 list \<Rightarrow> nat \<Rightarrow> u32" where
  "fips_W b t = (if t < 16 then be32_of (take 4 (drop (4 * t) b))
     else fips_sigma1 (fips_W b (t - 2)) + fips_W b (t - 7) + fips_sigma0 (fips_W b (t - 15)) + fips_W b (t - 16))"
  by pat_completeness auto
termination by (relation "measure snd") auto

declare fips_W.simps [simp del]

fun fips_rounds :: "u8 list \<Rightarrow> nat \<Rightarrow> sha_regs \<Rightarrow> sha_regs" where
  "fips_rounds blk 0 r = r"
| "fips_rounds blk (Suc t) r = (case fips_rounds blk t r of (a, b, c, d, e, f, g, h) \<Rightarrow>
     let T1 = h + fips_Sigma1 e + fips_Ch e f g + sha_k ! t + fips_W blk t;
         T2 = fips_Sigma0 a + fips_Maj a b c
     in (T1 + T2, a, b, c, d + T1, e, f, g))"

definition regs_of :: "u32 list \<Rightarrow> sha_regs" where
  "regs_of s = (s ! 0, s ! 1, s ! 2, s ! 3, s ! 4, s ! 5, s ! 6, s ! 7)"

definition list_of_regs :: "sha_regs \<Rightarrow> u32 list" where
  "list_of_regs r = (case r of (a, b, c, d, e, f, g, h) \<Rightarrow> [a, b, c, d, e, f, g, h])"

definition fips_compress :: "u32 list \<Rightarrow> u8 list \<Rightarrow> u32 list" where
  "fips_compress H blk = map2 (+) H (list_of_regs (fips_rounds blk 64 (regs_of H)))"

function fips_blocks :: "u32 list \<Rightarrow> u8 list \<Rightarrow> u32 list" where
  "fips_blocks H bs = (if length bs < 64 then H else fips_blocks (fips_compress H (take 64 bs)) (drop 64 bs))"
  by pat_completeness auto
termination by (relation "measure (length \<circ> snd)") auto

declare fips_blocks.simps [simp del]

definition be64 :: "u64 \<Rightarrow> u8 list" where
  "be64 w = map (\<lambda>i. ucast (drop_bit (56 - 8 * i) w)) [0..<8]"

definition be32 :: "u32 \<Rightarrow> u8 list" where
  "be32 w = map (\<lambda>i. ucast (drop_bit (24 - 8 * i) w)) [0..<4]"

definition fips_pad :: "u8 list \<Rightarrow> u8 list" where
  "fips_pad msg = msg @ 0x80 # replicate ((119 - length msg mod 64) mod 64) 0 @ be64 (of_nat (8 * length msg))"

definition fips_H0 :: "u32 list" where
  "fips_H0 = [0x6a09e667, 0xbb67ae85, 0x3c6ef372, 0xa54ff53a, 0x510e527f, 0x9b05688c, 0x1f83d9ab, 0x5be0cd19]"

definition fips_sha256 :: "u8 list \<Rightarrow> u8 list" where
  "fips_sha256 msg = concat (map be32 (fips_blocks fips_H0 (fips_pad msg)))"

section \<open>The compression function\<close>

lemma ROTRIGHT_rotr:
  assumes "0 < n" "n < 32"
  shows "ROTRIGHT x n = word_rotr n x"
proof (rule bit_word_eqI)
  fix i assume "i < LENGTH(32)"
  moreover have "\<not> bit x j" if "32 \<le> j" for j using that bit_imp_le_length [of x j] by auto
  moreover have "(i + n) mod 32 = (if i + n < 32 then i + n else i + n - 32)"
    using \<open>i < LENGTH(32)\<close> assms by (auto simp: le_mod_geq)
  ultimately show "bit (ROTRIGHT x n) i \<longleftrightarrow> bit (word_rotr n x) i"
    using assms by (cases "i + n < 32") (auto simp: ROTRIGHT_def bit_simps add.commute [of n i])
qed

lemmas sha_macros =
  CH_def MAJ_def EP0_def EP1_def SIG0_def SIG1_def fips_Ch_def fips_Maj_def
  fips_Sigma0_def fips_Sigma1_def fips_sigma0_def fips_sigma1_def

lemma macros_fips:
  "CH = fips_Ch" "MAJ = fips_Maj" "EP0 = fips_Sigma0" "EP1 = fips_Sigma1" "SIG0 = fips_sigma0" "SIG1 = fips_sigma1"
  by (auto simp: fun_eq_iff sha_macros ROTRIGHT_rotr)

lemma be_word_be32_of:
  assumes "j + 4 \<le> length d"
  shows "be_word d j = be32_of (take 4 (drop j d))"
proof -
  have "take 4 (drop j d) = [d ! j, d ! (j + 1), d ! (j + 2), d ! (j + 3)]"
    using assms by (simp add: take_Suc_conv_app_nth numeral_eq_Suc add.commute)
  then show ?thesis
    by (simp add: be_word_def be32_of_def push_bit_or ac_simps)
qed

lemma fold_upd_nth:
  assumes "n \<le> length m"
  shows "length (fold (\<lambda>i m. m[i := f i]) [0..<n] m) = length m \<and>
    (\<forall>t<length m. fold (\<lambda>i m. m[i := f i]) [0..<n] m ! t = (if t < n then f t else m ! t))"
  using assms by (induction n) (auto simp: nth_list_update less_Suc_eq)

lemma sha_load_nth:
  assumes "length d = 64"
  shows "length (sha_load d) = 64" "t < 16 \<Longrightarrow> sha_load d ! t = fips_W d t"
proof -
  note f = fold_upd_nth [of 16 "replicate 64 0" "\<lambda>i. be_word d (4 * i)"]
  show "length (sha_load d) = 64" using f by (simp add: sha_load_def)
  assume t: "t < 16"
  with f have "sha_load d ! t = be_word d (4 * t)" by (simp add: sha_load_def)
  with t assms show "sha_load d ! t = fips_W d t"
    by (simp add: be_word_be32_of fips_W.simps [of d t])
qed

definition extend_step :: "nat \<Rightarrow> u32 list \<Rightarrow> u32 list" where
  "extend_step i m = m[i := SIG1 (m ! (i - 2)) + m ! (i - 7) + SIG0 (m ! (i - 15)) + m ! (i - 16)]"

lemma sha_extend_nth:
  assumes "length d = 64"
  shows "length (sha_extend (sha_load d)) = 64" "t < 64 \<Longrightarrow> sha_extend (sha_load d) ! t = fips_W d t"
proof -
  have ext: "k \<le> 64 \<longrightarrow> length (fold extend_step [16..<k] (sha_load d)) = 64 \<and>
      (\<forall>t<k. fold extend_step [16..<k] (sha_load d) ! t = fips_W d t)" if "16 \<le> k" for k
    using that
  proof (induction k rule: nat_induct_at_least)
    case base
    then show ?case using sha_load_nth [OF assms] by simp
  next
    case (Suc k)
    show ?case
    proof
      assume k: "Suc k \<le> 64"
      let ?m = "fold extend_step [16..<k] (sha_load d)"
      have IH: "length ?m = 64" "\<And>t. t < k \<Longrightarrow> ?m ! t = fips_W d t" using Suc k by auto
      have "fold extend_step [16..<Suc k] (sha_load d) = extend_step k ?m" using Suc(1) by simp
      moreover have "extend_step k ?m ! t = fips_W d t" if "t < Suc k" for t
        using that IH k Suc(1) fips_W.simps [of d k]
        by (auto simp: extend_step_def nth_list_update less_Suc_eq macros_fips)
      ultimately show "length (fold extend_step [16..<Suc k] (sha_load d)) = 64 \<and>
          (\<forall>t<Suc k. fold extend_step [16..<Suc k] (sha_load d) ! t = fips_W d t)"
        using IH(1) by (simp add: extend_step_def)
    qed
  qed
  have eq: "sha_extend = fold extend_step [16..<64]"
    by (rule HOL.ext) (simp only: sha_extend_def extend_step_def [abs_def])
  show "length (sha_extend (sha_load d)) = 64" "t < 64 \<Longrightarrow> sha_extend (sha_load d) ! t = fips_W d t"
    using ext [of 64] unfolding eq by (simp_all del: upt_rec_numeral)
qed

lemma sha_rounds_fips:
  assumes "length d = 64" "n \<le> 64"
  shows "fold (sha_round (sha_extend (sha_load d))) [0..<n] r = fips_rounds d n r"
  using assms(2)
proof (induction n)
  case (Suc n)
  then show ?case
    by (simp add: sha_round_def macros_fips sha_extend_nth(2) [OF assms(1)])
qed simp

lemma transform_fips:
  assumes "length d = 64" "length (cstate ctx) = 8"
  shows "sha256_transform ctx d = ctx\<lparr>cstate := fips_compress (cstate ctx) d\<rparr>"
proof -
  obtain s0 s1 s2 s3 s4 s5 s6 s7 where s: "cstate ctx = [s0, s1, s2, s3, s4, s5, s6, s7]"
    using assms(2) by (auto simp: length_Suc_conv numeral_eq_Suc)
  have regs: "regs_of (cstate ctx) = (s0, s1, s2, s3, s4, s5, s6, s7)" by (simp add: regs_of_def s)
  have sums: "(case R of (a, b, c, d, e, f, g, h) \<Rightarrow>
      ctx\<lparr>cstate := [s0 + a, s1 + b, s2 + c, s3 + d, s4 + e, s5 + f, s6 + g, s7 + h]\<rparr>)
      = ctx\<lparr>cstate := map2 (+) (cstate ctx) (list_of_regs R)\<rparr>" for R
    by (simp add: list_of_regs_def s split: prod.split)
  show ?thesis
    unfolding fips_compress_def regs sums [symmetric] sha_rounds_fips [OF assms(1) order_refl, symmetric]
    by (simp add: sha256_transform_def s Let_def del: upt_rec_numeral)
qed

lemma length_list_of_regs [simp]: "length (list_of_regs r) = 8"
  by (simp add: list_of_regs_def split: prod.split)

lemma length_compress [simp]: "length (fips_compress H d) = min (length H) 8"
  by (simp add: fips_compress_def)

section \<open>Blocks and the bit count\<close>

lemma fips_blocks_one: "length b = 64 \<Longrightarrow> fips_blocks H b = fips_compress H b"
  by (simp add: fips_blocks.simps [of H b] fips_blocks.simps [of _ "[]"])

lemma fips_blocks_append:
  "64 dvd length xs \<Longrightarrow> fips_blocks H (xs @ ys) = fips_blocks (fips_blocks H xs) ys"
proof (induction H xs rule: fips_blocks.induct)
  case (1 H xs)
  show ?case
  proof (cases "xs = []")
    case True
    then show ?thesis by (simp add: fips_blocks.simps [of H "[]"])
  next
    case False
    with 1(2) have le: "64 \<le> length xs" by (auto dest!: dvd_imp_le)
    then have "64 dvd length (drop 64 xs)" using 1(2) by simp
    with 1(1) le show ?thesis
      by (simp add: fips_blocks.simps [of H xs] fips_blocks.simps [of H "xs @ ys"])
  qed
qed

lemma length_fips_blocks [simp]: "length H = 8 \<Longrightarrow> length (fips_blocks H bs) = 8"
  by (induction H bs rule: fips_blocks.induct) (simp add: fips_blocks.simps)

definition bits64 :: "sha256_ctx \<Rightarrow> u64" where
  "bits64 ctx = ucast (bitlen1 ctx) * 2 ^ 32 + ucast (bitlen0 ctx)"

lemma ucast_carry:
  fixes a c :: u32
  shows "(ucast (a + c) :: u64) + (if a > 0xffffffff - c then 2 ^ 32 else 0) = ucast a + ucast c"
proof -
  have lt: "unat a < 2 ^ 32" "unat c < 2 ^ 32"
    using unsigned_less [of a, where ?'a = nat] unsigned_less [of c, where ?'a = nat] by simp_all
  have "unat (0xffffffff - c) = 0xffffffff - unat c"
    using unat_sub [of c "0xffffffff"] lt(2) by (simp add: word_le_nat_alt)
  then have cmp: "a > 0xffffffff - c \<longleftrightarrow> 2 ^ 32 \<le> unat a + unat c"
    using lt by (auto simp: word_less_nat_alt)
  have "unat (a + c) + (if a > 0xffffffff - c then 2 ^ 32 else 0) = unat a + unat c"
    using lt unfolding cmp by (simp add: unat_plus_if')
  from arg_cong [OF this, of "of_nat :: nat \<Rightarrow> u64"] show ?thesis by (simp split: if_splits)
qed

lemma ucast_succ_high:
  fixes b :: u32
  shows "(ucast (b + 1) :: u64) * 2 ^ 32 = (ucast b + 1) * 2 ^ 32"
proof (cases "b + 1 = 0")
  case True
  then have "b = - 1" by (simp add: eq_neg_iff_add_eq_0)
  then show ?thesis by (simp add: unsigned_minus_1_eq_mask mask_eq_exp_minus_1)
next
  case False
  then have "unat (b + 1) = unat b + 1" using unatSuc [of b] by (simp add: add.commute)
  from arg_cong [OF this, of "of_nat :: nat \<Rightarrow> u64"] show ?thesis by simp
qed

lemma bits64_add: "bits64 (sha_add_bits ctx c) = bits64 ctx + ucast c"
  using ucast_carry [of "bitlen0 ctx" c] ucast_succ_high [of "bitlen1 ctx"]
  by (auto simp: bits64_def sha_add_bits_def DBL_INT_ADD_def Let_def algebra_simps split: if_splits)

section \<open>Hashing in chunks\<close>

text \<open>The context after the message \<open>pre @ rest\<close>: whole blocks \<open>pre\<close> hashed, \<open>rest\<close> buffered.\<close>

definition sha_inv :: "sha256_ctx \<Rightarrow> u8 list \<Rightarrow> u8 list \<Rightarrow> bool" where
  "sha_inv ctx pre rest \<longleftrightarrow> 64 dvd length pre \<and> length rest < 64 \<and> length (cdata ctx) = 64 \<and>
     datalen ctx = of_nat (length rest) \<and> take (length rest) (cdata ctx) = rest \<and>
     cstate ctx = fips_blocks fips_H0 pre \<and> bits64 ctx = of_nat (8 * length pre)"

lemma length_fips_H0 [simp]: "length fips_H0 = 8"
  by (simp add: fips_H0_def)

lemma bits64_upd [simp]:
  "bits64 (ctx\<lparr>cdata := d\<rparr>) = bits64 ctx" "bits64 (ctx\<lparr>datalen := n\<rparr>) = bits64 ctx"
  "bits64 (ctx\<lparr>cstate := st\<rparr>) = bits64 ctx"
  by (simp_all add: bits64_def)

lemma sha_add_bits_frame [simp]:
  "cdata (sha_add_bits ctx c) = cdata ctx" "datalen (sha_add_bits ctx c) = datalen ctx"
  "cstate (sha_add_bits ctx c) = cstate ctx"
  by (simp_all add: sha_add_bits_def Let_def split: prod.split)

lemma sha_init_inv: "length (cdata ctx) = 64 \<Longrightarrow> sha_inv (sha256_init ctx) [] []"
  by (simp add: sha_inv_def sha256_init_def bits64_def fips_H0_def fips_blocks.simps [of _ "[]"])

lemma sha_byte_inv:
  assumes "sha_inv ctx pre rest"
  shows "\<exists>ctx' pre' rest'. sha256_byte ctx x = Some ctx' \<and> sha_inv ctx' pre' rest' \<and>
    pre' @ rest' = (pre @ rest) @ [x]"
proof -
  have i: "64 dvd length pre" "length rest < 64" "length (cdata ctx) = 64"
      "datalen ctx = of_nat (length rest)" "take (length rest) (cdata ctx) = rest"
      "cstate ctx = fips_blocks fips_H0 pre" "bits64 ctx = of_nat (8 * length pre)"
    using assms by (simp_all add: sha_inv_def)
  have n: "unat (datalen ctx) = length rest" using i(2,4) by (simp add: unat_of_nat)
  define c1 where "c1 = ctx\<lparr>cdata := (cdata ctx)[length rest := x], datalen := datalen ctx + 1\<rparr>"
  have d1: "take (Suc (length rest)) (cdata c1) = rest @ [x]" "length (cdata c1) = 64"
    using i by (simp_all add: c1_def take_Suc_conv_app_nth take_update_swap)
  have dl: "datalen c1 = of_nat (Suc (length rest))" using i(4) by (simp add: c1_def add.commute)
  have st: "cstate c1 = fips_blocks fips_H0 pre" "bits64 c1 = of_nat (8 * length pre)" using i by (simp_all add: c1_def)
  have byte: "sha256_byte ctx x = Some (if datalen c1 = 64
      then (sha_add_bits (sha256_transform c1 (cdata c1)) 512)\<lparr>datalen := 0\<rparr> else c1)"
    using i(2,3) n by (simp add: sha256_byte_def c1_def Let_def)
  show ?thesis
  proof (cases "Suc (length rest) = 64")
    case True
    define c2 where "c2 = (sha_add_bits (sha256_transform c1 (cdata c1)) 512)\<lparr>datalen := 0\<rparr>"
    have t: "sha256_transform c1 (cdata c1) = c1\<lparr>cstate := fips_compress (cstate c1) (cdata c1)\<rparr>"
      using d1(2) st(1) by (intro transform_fips) simp_all
    have blk: "cdata c1 = rest @ [x]" using d1 True by simp
    have "fips_blocks fips_H0 (pre @ rest @ [x]) = fips_compress (fips_blocks fips_H0 pre) (rest @ [x])"
      using True i(1) by (simp add: fips_blocks_append fips_blocks_one)
    then have "sha_inv c2 (pre @ rest @ [x]) []"
      using i(1) True blk st by (simp add: sha_inv_def c2_def t [unfolded blk] bits64_add)
    moreover have "sha256_byte ctx x = Some c2"
      using dl True by (simp add: byte c2_def)
    ultimately show ?thesis by (intro exI [of _ c2] exI [of _ "pre @ rest @ [x]"] exI [of _ "[]"]) simp
  next
    case False
    then have "unat (datalen c1) \<noteq> 64" using dl i(2) by (simp add: unat_of_nat del: of_nat_Suc)
    then have "sha256_byte ctx x = Some c1" by (auto simp: byte)
    moreover have "sha_inv c1 pre (rest @ [x])"
      using i(1,2) False d1 dl st by (simp add: sha_inv_def)
    ultimately show ?thesis by (intro exI [of _ c1] exI [of _ pre] exI [of _ "rest @ [x]"]) simp
  qed
qed

lemma sha_bytes_inv:
  assumes "sha_inv ctx pre rest"
  shows "\<exists>ctx' pre' rest'. sha_bytes ctx xs = Some ctx' \<and> sha_inv ctx' pre' rest' \<and>
    pre' @ rest' = (pre @ rest) @ xs"
  using assms
proof (induction xs arbitrary: ctx pre rest)
  case Nil
  then show ?case by auto
next
  case (Cons x xs)
  obtain c p r where c: "sha256_byte ctx x = Some c" "sha_inv c p r" "p @ r = (pre @ rest) @ [x]"
    using sha_byte_inv [OF Cons.prems] by blast
  from Cons.IH [OF c(2)] show ?case using c by auto
qed

text \<open>A chunk as the callers give it: a length of less than \<open>2 ^ 32\<close>, within the memory.\<close>

definition chunk_ok :: "u8 list \<times> nat \<Rightarrow> bool" where
  "chunk_ok e \<longleftrightarrow> snd e < 2 ^ 32 \<and> snd e \<le> length (fst e)"

definition chunk_bytes :: "u8 list \<times> nat \<Rightarrow> u8 list" where
  "chunk_bytes e = take (snd e) (fst e)"

lemma sha_updates_inv:
  assumes "sha_inv ctx pre rest" "list_all chunk_ok es"
  shows "\<exists>ctx' pre' rest'. sha_updates ctx es = Some ctx' \<and> sha_inv ctx' pre' rest' \<and>
    pre' @ rest' = (pre @ rest) @ concat (map chunk_bytes es)"
  using assms
proof (induction es arbitrary: ctx pre rest)
  case Nil
  then show ?case by auto
next
  case (Cons e es)
  obtain addr len where e: "e = (addr, len)" by (cases e)
  with Cons.prems have len: "len < 2 ^ 32" "len \<le> length addr" by (simp_all add: chunk_ok_def)
  then have u: "sha256_update ctx addr (of_nat len) = sha_bytes ctx (take len addr)"
    by (simp add: sha256_update_def unat_of_nat)
  obtain c p r where c: "sha_bytes ctx (take len addr) = Some c" "sha_inv c p r" "p @ r = (pre @ rest) @ take len addr"
    using sha_bytes_inv [OF Cons.prems(1)] by blast
  from Cons.IH [OF c(2)] Cons.prems show ?case using c u e by (auto simp: chunk_bytes_def)
qed

section \<open>The end of the message\<close>

lemma output_inner:
  assumes "i < 4" "4 * n \<le> length h"
  shows "length (fold (\<lambda>j h. h[i + 4 * j := f j]) [0..<n] h) = length h \<and>
    (\<forall>p<length h. fold (\<lambda>j h. h[i + 4 * j := f j]) [0..<n] h ! p =
       (if p mod 4 = i \<and> p div 4 < n then f (p div 4) else h ! p))"
  using assms(2)
proof (induction n)
  case (Suc n)
  have "i + 4 * n = p \<longleftrightarrow> p mod 4 = i \<and> p div 4 = n" for p
    using assms(1) by auto
  with Suc show ?case using assms(1) by (auto simp: nth_list_update less_Suc_eq)
qed simp

lemma output_outer:
  assumes "32 \<le> length h" "m \<le> 4"
  shows "length (fold (sha_output_byte st) [0..<m] h) = length h \<and>
    (\<forall>p<length h. fold (sha_output_byte st) [0..<m] h ! p =
       (if p mod 4 < m \<and> p < 32 then ucast (drop_bit (24 - p mod 4 * 8) (st ! (p div 4)) AND 0xff) else h ! p))"
  using assms(2)
proof (induction m)
  case (Suc m)
  let ?h = "fold (sha_output_byte st) [0..<m] h"
  have IH: "length ?h = length h" "\<And>p. p < length h \<Longrightarrow> ?h ! p =
       (if p mod 4 < m \<and> p < 32 then ucast (drop_bit (24 - p mod 4 * 8) (st ! (p div 4)) AND 0xff) else h ! p)"
    using Suc by simp_all
  have "p div 4 < 8 \<longleftrightarrow> p < 32" for p :: nat by auto
  with output_inner [of m 8 ?h "\<lambda>j. ucast (drop_bit (24 - m * 8) (st ! j) AND 0xff)", folded sha_output_byte_def]
  show ?case using Suc.prems assms(1) IH by (auto simp: less_Suc_eq)
qed simp

lemma concat_nth_div:
  assumes "\<And>x. x \<in> set xs \<Longrightarrow> length x = 4" "p < 4 * length xs"
  shows "concat xs ! p = xs ! (p div 4) ! (p mod 4)"
  using assms
proof (induction xs arbitrary: p)
  case (Cons x xs)
  show ?case
  proof (cases "p < 4")
    case True
    then show ?thesis using Cons.prems by (simp add: nth_append)
  next
    case False
    then obtain q where p: "p = q + 4" by (metis add.commute le_add_diff_inverse not_le)
    then have "concat xs ! q = xs ! (q div 4) ! (q mod 4)" using Cons by auto
    moreover have "(q + 4) div 4 = Suc (q div 4)" by simp
    ultimately show ?thesis using p Cons.prems(1) [of x] by (simp add: nth_append del: div_add_self2)
  qed
qed simp

lemma length_be32 [simp]: "length (be32 w) = 4"
  by (simp add: be32_def)

lemma length_concat_be32 [simp]: "length (concat (map be32 st)) = 4 * length st"
  by (induction st) simp_all

lemma low_byte: "ucast (w AND 0xff :: u32) = (ucast w :: u8)"
proof -
  have "(0xff :: u32) = mask 8" by (simp add: mask_eq_exp_minus_1)
  show ?thesis unfolding \<open>0xff = mask 8\<close> by (intro bit_word_eqI) (simp add: bit_simps)
qed

lemma sha_output_be32:
  assumes "length st = 8" "length hash \<ge> 32"
  shows "sha_output st hash = concat (map be32 st) @ drop 32 hash"
proof (rule nth_equalityI)
  note o = output_outer [OF assms(2) order_refl, of st, folded sha_output_def]
  show "length (sha_output st hash) = length (concat (map be32 st) @ drop 32 hash)"
    using o assms by simp
  fix p assume "p < length (sha_output st hash)"
  then have p: "p < length hash" using o by simp
  show "sha_output st hash ! p = (concat (map be32 st) @ drop 32 hash) ! p"
  proof (cases "p < 32")
    case True
    then have "p div 4 < 8" by simp
    then have "concat (map be32 st) ! p = be32 (st ! (p div 4)) ! (p mod 4)"
      using True assms(1) by (subst concat_nth_div) auto
    then show ?thesis
      using o p True assms by (simp add: nth_append be32_def low_byte mult.commute)
  next
    case False
    then show ?thesis using o p assms by (simp add: nth_append)
  qed
qed

lemma be64_halves:
  "be64 (ucast (b1 :: u32) * 2 ^ 32 + ucast (b0 :: u32)) =
    [ucast (drop_bit 24 b1), ucast (drop_bit 16 b1), ucast (drop_bit 8 b1), ucast b1,
     ucast (drop_bit 24 b0), ucast (drop_bit 16 b0), ucast (drop_bit 8 b0), ucast b0]"
proof -
  have hi: "\<not> bit b1 n" "\<not> bit b0 n" if "32 \<le> n" for n
    using that bit_imp_le_length [of b1 n] bit_imp_le_length [of b0 n] by auto
  have "ucast b1 * 2 ^ 32 + ucast b0 = (push_bit 32 (ucast b1) OR ucast b0 :: u64)"
    unfolding push_bit_eq_mult [symmetric]
    by (rule disjunctive_add_eq_or) (auto intro!: bit_word_eqI simp: bit_simps hi)
  then show ?thesis
    by (auto simp: be64_def upt_rec bit_simps hi intro!: bit_word_eqI)
qed

lemma put_bitlen_data:
  assumes "length (cdata ctx) = 64"
  shows "cdata (sha_put_bitlen ctx) = take 56 (cdata ctx) @ be64 (bits64 ctx)"
proof -
  obtain xs ys where d: "cdata ctx = xs @ ys" "length xs = 56" "length ys = 8"
    using assms that [of "take 56 (cdata ctx)" "drop 56 (cdata ctx)"] by simp
  obtain y0 y1 y2 y3 y4 y5 y6 y7 where ys: "ys = [y0, y1, y2, y3, y4, y5, y6, y7]"
    using d(3) by (auto simp: length_Suc_conv numeral_eq_Suc)
  show ?thesis
    by (simp add: sha_put_bitlen_def bits64_def be64_halves [simplified] d(1,2) ys list_update_append)
qed

lemma sha_pad_fips:
  assumes "sha_inv ctx pre rest"
  shows "\<exists>P. 64 dvd length P \<and> length (cdata (sha_pad ctx)) = 64 \<and> datalen (sha_pad ctx) = datalen ctx \<and>
    bits64 (sha_pad ctx) = bits64 ctx \<and> cstate (sha_pad ctx) = fips_blocks fips_H0 P \<and>
    P @ take 56 (cdata (sha_pad ctx)) =
      (pre @ rest) @ 0x80 # replicate ((119 - length (pre @ rest) mod 64) mod 64) 0"
proof -
  have i: "64 dvd length pre" "length rest < 64" "length (cdata ctx) = 64"
      "datalen ctx = of_nat (length rest)" "take (length rest) (cdata ctx) = rest"
      "cstate ctx = fips_blocks fips_H0 pre"
    using assms by (simp_all add: sha_inv_def)
  have n: "unat (datalen ctx) = length rest" using i(2,4) by (simp add: unat_of_nat)
  have m: "length (pre @ rest) mod 64 = length rest" using i(1,2) by (auto simp: mod_add_left_eq dvd_def)
  show ?thesis
  proof (cases "length rest < 56")
    case True
    then have "(119 - length rest) mod 64 = 55 - length rest" by (auto simp: le_mod_geq)
    moreover have "56 - length rest = Suc (55 - length rest)" using True by simp
    ultimately show ?thesis
      using i True n m by (intro exI [of _ pre]) (simp add: sha_pad_def put_bytes_def)
  next
    case False
    define blk where "blk = rest @ 0x80 # replicate (63 - length rest) (0 :: u8)"
    have blk: "put_bytes (cdata ctx) (length rest) (0x80 # replicate (63 - length rest) 0) = blk" "length blk = 64"
      using i False by (simp_all add: put_bytes_def blk_def)
    have z: "replicate (63 - length rest) 0 @ replicate 56 (0 :: u8) = replicate ((119 - length rest) mod 64) 0"
      using False i(2) by (simp add: replicate_add [symmetric])
    have "sha256_transform (ctx\<lparr>cdata := blk\<rparr>) blk = ctx\<lparr>cdata := blk, cstate := fips_blocks fips_H0 (pre @ blk)\<rparr>"
      using transform_fips [of blk "ctx\<lparr>cdata := blk\<rparr>"] blk(2) i(1,6)
      by (simp add: fips_blocks_append fips_blocks_one)
    then have "sha_pad ctx = ctx\<lparr>cdata := put_bytes blk 0 (replicate 56 0), cstate := fips_blocks fips_H0 (pre @ blk)\<rparr>"
      using False by (simp add: sha_pad_def n blk(1) Let_def)
    then show ?thesis
      using i(1) blk(2) z m
      by (intro exI [of _ "pre @ blk"]) (simp add: put_bytes_def, simp add: blk_def)
  qed
qed

lemma sha_final_fips:
  assumes "sha_inv ctx pre rest" "length hash \<ge> 32"
  shows "\<exists>ctx'. sha256_final ctx hash = Some (ctx', fips_sha256 (pre @ rest) @ drop 32 hash)"
proof -
  have i: "length rest < 64" "length (cdata ctx) = 64" "datalen ctx = of_nat (length rest)"
      "bits64 ctx = of_nat (8 * length pre)"
    using assms(1) by (simp_all add: sha_inv_def)
  have n: "unat (datalen ctx) = length rest" using i(1,3) by (simp add: unat_of_nat)
  obtain P where P: "64 dvd length P" "length (cdata (sha_pad ctx)) = 64" "datalen (sha_pad ctx) = datalen ctx"
      "bits64 (sha_pad ctx) = bits64 ctx" "cstate (sha_pad ctx) = fips_blocks fips_H0 P"
      "P @ take 56 (cdata (sha_pad ctx)) = (pre @ rest) @ 0x80 # replicate ((119 - length (pre @ rest) mod 64) mod 64) 0"
    using sha_pad_fips [OF assms(1)] by blast
  define c2 where "c2 = sha_add_bits (sha_pad ctx) (datalen (sha_pad ctx) * 8)"
  define c3 where "c3 = sha_put_bitlen c2"
  have "unat (datalen ctx * 8) = 8 * length rest"
    using i(1) n by (simp add: unat_word_ariths)
  from arg_cong [OF this, of "of_nat :: nat \<Rightarrow> u64"]
  have "ucast (datalen ctx * 8) = (of_nat (8 * length rest) :: u64)" by simp
  then have bits: "bits64 c2 = of_nat (8 * length (pre @ rest))"
    using P(3,4) i(4) by (simp add: c2_def bits64_add)
  have len2: "length (cdata c2) = 64" using P(2) by (simp add: c2_def)
  have d3: "cdata c3 = take 56 (cdata (sha_pad ctx)) @ be64 (of_nat (8 * length (pre @ rest)))"
    using put_bitlen_data [OF len2] bits by (simp add: c3_def c2_def)
  then have pad: "fips_pad (pre @ rest) = P @ cdata c3"
    using P(6) by (simp add: fips_pad_def)
  have len3: "length (cdata c3) = 64" using len2 by (simp add: c3_def sha_put_bitlen_def)
  have st3: "cstate c3 = fips_blocks fips_H0 P" using P(5) by (simp add: c3_def c2_def sha_put_bitlen_def)
  have "sha256_transform c3 (cdata c3) = c3\<lparr>cstate := fips_blocks fips_H0 (fips_pad (pre @ rest))\<rparr>"
    using transform_fips [OF len3] st3 P(1) len3 by (simp add: pad fips_blocks_append fips_blocks_one)
  then show ?thesis
    using i(1,2) n assms(2)
    by (simp add: sha256_final_def Let_def sha_output_be32 fips_sha256_def flip: c2_def c3_def)
qed

section \<open>Properties\<close>

text \<open>
  C9. SHA-256: from any context, however the message is cut into chunks (each shorter than
  \<open>2 ^ 32\<close> bytes and inside the caller's memory), \<open>sha256_vector\<close> writes the digest that
  FIPS 180-4 defines of the whole message to the first 32 bytes of the output and nothing else;
  no access leaves the 64-byte buffer, and the double-word bit count is right modulo \<open>2 ^ 64\<close>.
\<close>

theorem sha256_vector_fips:
  assumes "length (cdata ctx) = 64" "list_all chunk_ok elems" "length mac \<ge> 32"
  shows "sha256_vector ctx elems mac = Some (fips_sha256 (concat (map chunk_bytes elems)) @ drop 32 mac)"
proof -
  obtain c p r where c: "sha_updates (sha256_init ctx) elems = Some c" "sha_inv c p r"
      "p @ r = concat (map chunk_bytes elems)"
    using sha_updates_inv [OF sha_init_inv [OF assms(1)] assms(2)] by auto
  then show ?thesis using sha_final_fips [OF c(2) assms(3)] by (auto simp: sha256_vector_def)
qed

definition sha_ctx_zero :: sha256_ctx where
  "sha_ctx_zero = \<lparr>cdata = replicate 64 0, datalen = 0, bitlen0 = 0, bitlen1 = 0, cstate = []\<rparr>"

theorem sha256_vector_fips_witness:
  "sha256_vector sha_ctx_zero [([0x61, 0x62], 2), ([0x63, 0], 1)] (replicate 32 0)
    = Some (fips_sha256 [0x61, 0x62, 0x63])"
  using sha256_vector_fips [of sha_ctx_zero "[([0x61, 0x62], 2), ([0x63, 0], 1)]" "replicate 32 0"]
  by (simp add: sha_ctx_zero_def chunk_ok_def chunk_bytes_def)

definition first_primes :: "nat list" where
  "first_primes = [2, 3, 5, 7, 11, 13, 17, 19, 23, 29, 31, 37, 41, 43, 47, 53, 59, 61, 67, 71, 73, 79, 83,
    89, 97, 101, 103, 107, 109, 113, 127, 131, 137, 139, 149, 151, 157, 163, 167, 173, 179,
    181, 191, 193, 197, 199, 211, 223, 227, 229, 233, 239, 241, 251, 257, 263, 269, 271, 277,
    281, 283, 293, 307, 311]"

text \<open>\<open>k\<close> is the first 32 bits of the fractional part of the \<open>e\<close>-th root of \<open>p\<close>.\<close>

definition frac_root :: "nat \<Rightarrow> u32 \<Rightarrow> nat \<Rightarrow> bool" where
  "frac_root e k p \<longleftrightarrow> (let c = length (filter (\<lambda>n. n ^ e \<le> p) [1, 2, 3, 4, 5, 6]) * 2 ^ 32 + unat k
     in c ^ e \<le> p * 2 ^ (32 * e) \<and> p * 2 ^ (32 * e) < (c + 1) ^ e)"

text \<open>
  The constants of SHA-256 are those of the standard: the table of round constants holds the
  first 32 bits of the fractional parts of the cube roots of the first 64 primes, and the initial
  state those of the square roots of the first eight.
\<close>

lemma sha256_constants:
  "list_all2 (frac_root 3) sha_k first_primes \<and>
   list_all2 (frac_root 2) (cstate (sha256_init ctx)) (take 8 first_primes)"
  by (simp add: sha_k_def first_primes_def frac_root_def sha256_init_def)

end
