(* ===== verification/Relocate.thy ===== *)
theory Relocate
  imports Vita_Prelude
begin

text \<open>
  The SCE ELF relocations of the decompiler (\<open>vitadecompiler-mod/src/relocate.c\<close>,
  \<open>relocate.h\<close>): the macros that take a relocation entry apart, the encoders of the ARM and
  Thumb-2 instructions as the switch has them, the bounds-checked write, and the loop over the
  table. The decoders of the instruction set manual are the specification of the encoders.
\<close>

unbundle bit_operations_syntax

section \<open>The entry macros\<close>

definition SCE_RELOC_SHORT_OFFSET :: "u32 \<Rightarrow> u32 \<Rightarrow> u32" where
  "SCE_RELOC_SHORT_OFFSET opt1 opt2 = drop_bit 20 opt1 OR push_bit 12 (opt2 AND 0x3FF)"

definition SCE_RELOC_SHORT_ADDEND :: "u32 \<Rightarrow> u32" where
  "SCE_RELOC_SHORT_ADDEND opt2 = drop_bit 10 opt2"

definition SCE_RELOC_IS_SHORT :: "u32 \<Rightarrow> bool" where
  "SCE_RELOC_IS_SHORT t \<longleftrightarrow> t AND 0xF \<noteq> 0"

definition SCE_RELOC_CODE :: "u32 \<Rightarrow> u32" where
  "SCE_RELOC_CODE t = drop_bit 8 t AND 0xFF"

definition SCE_RELOC_SYMSEG :: "u32 \<Rightarrow> u32" where
  "SCE_RELOC_SYMSEG t = drop_bit 4 t AND 0xF"

definition SCE_RELOC_DATSEG :: "u32 \<Rightarrow> u32" where
  "SCE_RELOC_DATSEG t = drop_bit 16 t AND 0xF"

section \<open>State\<close>

record elf32_phdr =
  p_vaddr :: u32
  p_memsz :: u32

text \<open>\<open>value\<close> is the local variable of \<open>uvl_relocate\<close>, \<open>None\<close> before it is first assigned.\<close>

record rel_state =
  data_seg :: "u8 list"
  text_seg :: "u8 list"
  rvalue :: "u32 option"

record rel_entry =
  r_code :: u32
  r_offset :: u32
  r_addend :: u32
  r_symseg :: nat
  r_datseg :: nat

definition read_entry :: "u8 list \<Rightarrow> u32 \<Rightarrow> (rel_entry \<times> u32) option" where
  "read_entry rs pos = do {
     t \<leftarrow> rd32 rs (unat pos);
     (off, add, pos') \<leftarrow>
       (if SCE_RELOC_IS_SHORT t then do {
          o2 \<leftarrow> rd32 rs (unat pos + 4);
          Some (SCE_RELOC_SHORT_OFFSET t o2, SCE_RELOC_SHORT_ADDEND o2, pos + 8) }
        else do {
          a \<leftarrow> rd32 rs (unat pos + 4);
          f \<leftarrow> rd32 rs (unat pos + 8);
          Some (f, a, pos + 12) });
     Some (\<lparr>r_code = SCE_RELOC_CODE t, r_offset = off, r_addend = add,
            r_symseg = unat (SCE_RELOC_SYMSEG t), r_datseg = unat (SCE_RELOC_DATSEG t)\<rparr>, pos') }"

section \<open>Writing to a segment\<close>

text \<open>
  The sum \<open>offset + size\<close> is of 32 bits. \<open>None\<close>: the copy leaves the segment's memory.
\<close>

definition uvl_segment_write :: "elf32_phdr \<Rightarrow> u32 \<Rightarrow> u32 \<Rightarrow> u32 \<Rightarrow> u8 list \<Rightarrow> (u8 list \<times> int) option" where
  "uvl_segment_write seg offset value sz d =
    (if offset + sz > p_memsz seg then Some (d, -1)
     else do { d \<leftarrow> wr32 d (unat offset) value; Some (d, 0) })"

section \<open>The encoders\<close>

definition v4bx_value :: "u32 \<Rightarrow> u32" where
  "v4bx_value insn = (insn AND 0xf000000f) OR 0x01a0f000"

definition out_of_range :: "u32 \<Rightarrow> u32 \<Rightarrow> u32 \<Rightarrow> bool" where
  "out_of_range offset lo hi \<longleftrightarrow> sint offset \<le> sint lo \<or> sint offset \<ge> sint hi"

definition thm_call_value :: "u16 \<Rightarrow> u16 \<Rightarrow> u32 \<Rightarrow> u32" where
  "thm_call_value up lo offset =
    (let upper = ucast up :: u32; lower = ucast lo :: u32;
         sign = signed_drop_bit 24 offset AND 1;
         j1 = sign XOR (NOT (signed_drop_bit 23 offset) AND 1);
         j2 = sign XOR (NOT (signed_drop_bit 22 offset) AND 1);
         upper = ucast (ucast ((upper AND 0xf800) OR push_bit 10 sign OR (signed_drop_bit 12 offset AND 0x03ff)) :: u16);
         lower = ucast (ucast ((lower AND 0xd000) OR push_bit 13 j1 OR push_bit 11 j2
                   OR (signed_drop_bit 1 offset AND 0x07ff)) :: u16)
     in push_bit 16 lower OR upper)"

definition call_value :: "u32 \<Rightarrow> u32 \<Rightarrow> u32" where
  "call_value insn offset =
    (let offset = signed_drop_bit 2 offset AND 0x00ffffff in (insn AND 0xff000000) OR offset)"

definition prel31_value :: "u32 \<Rightarrow> u32" where
  "prel31_value offset = offset AND 0x7fffffff"

definition mov_value :: "bool \<Rightarrow> u32 \<Rightarrow> u32 \<Rightarrow> u32" where
  "mov_value movt insn offset =
    (let offset = (if movt then signed_drop_bit 16 offset else offset)
     in (insn AND 0xfff0f000) OR (push_bit 4 (offset AND 0xf000) OR (offset AND 0x0fff)))"

definition thm_mov_value :: "bool \<Rightarrow> u16 \<Rightarrow> u16 \<Rightarrow> u32 \<Rightarrow> u32" where
  "thm_mov_value movt up lo offset =
    (let upper = ucast up :: u32; lower = ucast lo :: u32;
         offset = (if movt then signed_drop_bit 16 offset else offset);
         upper = ucast (ucast ((upper AND 0xfbf0) OR drop_bit 12 (offset AND 0xf000)
                   OR drop_bit 1 (offset AND 0x0800)) :: u16);
         lower = ucast (ucast ((lower AND 0x8f00) OR push_bit 4 (offset AND 0x0700)
                   OR (offset AND 0x00ff)) :: u16)
     in push_bit 16 lower OR upper)"

section \<open>One relocation\<close>

text \<open>
  The switch: \<open>Some v\<close> when it falls through to the write with \<open>value = v\<close>, \<open>None\<close> when it
  continues with the next entry; the outer option is a read outside of the segment. An access at
  \<open>curr_data_seg + loc - p_vaddr\<close> is at the distance of the two 32-bit values.
\<close>

definition seg_pos :: "u32 \<Rightarrow> u32 \<Rightarrow> nat option" where
  "seg_pos loc vaddr = (if uint vaddr \<le> uint loc then Some (nat (uint loc - uint vaddr)) else None)"

definition reloc_switch ::
    "u32 \<Rightarrow> u32 \<Rightarrow> u32 \<Rightarrow> u32 \<Rightarrow> nat option \<Rightarrow> u8 list \<Rightarrow> u32 option \<Rightarrow> u32 option option option" where
  "reloc_switch code addend symval loc ps d value =
    (if code = 40 then do { p \<leftarrow> ps; i \<leftarrow> rd32 d p; Some (Some (Some (v4bx_value i))) }
     else if code = 2 \<or> code = 38 then Some (Some (Some (addend + symval)))
     else if code = 3 \<or> code = 41 then Some (Some (Some (addend + symval - loc)))
     else if code = 10 then do {
       p \<leftarrow> ps; up \<leftarrow> rd16 d p; lo \<leftarrow> rd16 d (p + 2);
       let offset = addend + symval - loc;
       if out_of_range offset 0xff000000 0x01000000 then Some (Some value)
       else Some (Some (Some (thm_call_value up lo offset))) }
     else if code = 28 \<or> code = 29 then
       (let offset = addend + symval - loc in
        if out_of_range offset 0xfe000000 0x02000000 then Some (Some value)
        else do { p \<leftarrow> ps; i \<leftarrow> rd32 d p; Some (Some (Some (call_value i offset))) })
     else if code = 42 then Some (Some (Some (prel31_value (addend + symval - loc))))
     else if code = 43 \<or> code = 44 then do {
       p \<leftarrow> ps; i \<leftarrow> rd32 d p; Some (Some (Some (mov_value (code = 44) i (symval + addend)))) }
     else if code = 47 \<or> code = 48 then do {
       p \<leftarrow> ps; up \<leftarrow> rd16 d p; lo \<leftarrow> rd16 d (p + 2);
       Some (Some (Some (thm_mov_value (code = 48) up lo (addend + symval)))) }
     else Some None)"

definition cur_seg :: "rel_state \<Rightarrow> nat \<Rightarrow> u8 list" where
  "cur_seg s datseg = (if datseg \<noteq> 0 then data_seg s else text_seg s)"

definition set_cur_seg :: "rel_state \<Rightarrow> nat \<Rightarrow> u8 list \<Rightarrow> rel_state" where
  "set_cur_seg s datseg d = (if datseg \<noteq> 0 then s\<lparr>data_seg := d\<rparr> else s\<lparr>text_seg := d\<rparr>)"

text \<open>
  One iteration after the entry is read. \<open>None\<close>: an access out of bounds (of the program headers
  or of a segment), or a write of the variable \<open>value\<close> before it was ever assigned.
\<close>

definition relocate_entry :: "u32 \<Rightarrow> elf32_phdr list \<Rightarrow> rel_state \<Rightarrow> rel_entry \<Rightarrow> rel_state option" where
  "relocate_entry sz segs s e = do {
     symval \<leftarrow> (if r_symseg e = 15 then Some 0
       else if r_symseg e < length segs then Some (p_vaddr (segs ! r_symseg e)) else None);
     seg \<leftarrow> (if r_datseg e < length segs then Some (segs ! r_datseg e) else None);
     let loc = p_vaddr seg + r_offset e;
     if r_offset e > sz then Some s
     else do {
       w \<leftarrow> reloc_switch (r_code e) (r_addend e) symval loc (seg_pos loc (p_vaddr seg))
              (cur_seg s (r_datseg e)) (rvalue s);
       (case w of
          None \<Rightarrow> Some s
        | Some v \<Rightarrow> do {
            v \<leftarrow> v;
            (d, _) \<leftarrow> uvl_segment_write seg (r_offset e) v 4 (cur_seg s (r_datseg e));
            Some ((set_cur_seg s (r_datseg e) d)\<lparr>rvalue := Some v\<rparr>) }) } }"

section \<open>The loop\<close>

partial_function (option) relocate_loop ::
    "u8 list \<Rightarrow> u32 \<Rightarrow> elf32_phdr list \<Rightarrow> u32 \<Rightarrow> rel_state \<Rightarrow> rel_state option" where
  "relocate_loop rs sz segs pos s =
    (if pos < sz then
       Option.bind (read_entry rs pos) (\<lambda>(e, pos').
         Option.bind (relocate_entry sz segs s e) (\<lambda>s'. relocate_loop rs sz segs pos' s'))
     else Some s)"

definition uvl_relocate :: "u8 list \<Rightarrow> u32 \<Rightarrow> elf32_phdr list \<Rightarrow> u8 list \<Rightarrow> u8 list \<Rightarrow> (u8 list \<times> u8 list \<times> int) option" where
  "uvl_relocate rs sz segs dseg tseg = do {
     s \<leftarrow> relocate_loop rs sz segs 0 \<lparr>data_seg = dseg, text_seg = tseg, rvalue = None\<rparr>;
     Some (data_seg s, text_seg s, 0) }"

section \<open>Bits of the masks\<close>

text \<open>
  The masks of the code as sets of bit positions (of the integer literal: the simplifier reads a
  bit of a word literal there).
\<close>

lemma bit_masks:
  "bit (0xf800::int) n \<longleftrightarrow> 11 \<le> n \<and> n \<le> 15"
  "bit (0xd000::int) n \<longleftrightarrow> n = 12 \<or> n = 14 \<or> n = 15"
  "bit (0x3ff::int) n \<longleftrightarrow> n < 10"
  "bit (0x7ff::int) n \<longleftrightarrow> n < 11"
  "bit (0xff::int) n \<longleftrightarrow> n < 8"
  "bit (0xf::int) n \<longleftrightarrow> n < 4"
  "bit (0xfff::int) n \<longleftrightarrow> n < 12"
  "bit (0xf000::int) n \<longleftrightarrow> 12 \<le> n \<and> n \<le> 15"
  "bit (0x800::int) n \<longleftrightarrow> n = 11"
  "bit (0x700::int) n \<longleftrightarrow> 8 \<le> n \<and> n \<le> 10"
  "bit (0x8f00::int) n \<longleftrightarrow> 8 \<le> n \<and> n \<le> 11 \<or> n = 15"
  "bit (0xfbf0::int) n \<longleftrightarrow> 4 \<le> n \<and> n \<le> 9 \<or> 11 \<le> n \<and> n \<le> 15"
  "bit (0xffffff::int) n \<longleftrightarrow> n < 24"
  "bit (0xff000000::int) n \<longleftrightarrow> 24 \<le> n \<and> n \<le> 31"
  "bit (0x7fffffff::int) n \<longleftrightarrow> n < 31"
  "bit (0xfff0f000::int) n \<longleftrightarrow> 12 \<le> n \<and> n \<le> 15 \<or> 20 \<le> n \<and> n \<le> 31"
  "bit (0xf000000f::int) n \<longleftrightarrow> n < 4 \<or> 28 \<le> n \<and> n \<le> 31"
  "bit (0x0ffffff0::int) n \<longleftrightarrow> 4 \<le> n \<and> n \<le> 27"
  "bit (0x01a0f000::int) n \<longleftrightarrow> 12 \<le> n \<and> n \<le> 15 \<or> n = 21 \<or> n = 23 \<or> n = 24"
  "bit (0xf0000::int) n \<longleftrightarrow> 16 \<le> n \<and> n \<le> 19"
  "bit (0x7000::int) n \<longleftrightarrow> 12 \<le> n \<and> n \<le> 14"
  "bit (0x400::int) n \<longleftrightarrow> n = 10"
  "bit (0x3ff000::int) n \<longleftrightarrow> 12 \<le> n \<and> n \<le> 21"
proof -
  have c: "(0xf800::int) = push_bit 11 (mask 5)" "(0x3ff::int) = mask 10" "(0x7ff::int) = mask 11"
    "(0xd000::int) = push_bit 14 (mask 2) OR push_bit 12 (mask 1)" "(0xff::int) = mask 8" "(0xf::int) = mask 4"
    "(0xfff::int) = mask 12" "(0xf000::int) = push_bit 12 (mask 4)" "(0x800::int) = push_bit 11 (mask 1)"
    "(0x700::int) = push_bit 8 (mask 3)" "(0x8f00::int) = push_bit 8 (mask 4) OR push_bit 15 (mask 1)"
    "(0xfbf0::int) = push_bit 4 (mask 6) OR push_bit 11 (mask 5)" "(0xffffff::int) = mask 24"
    "(0xff000000::int) = push_bit 24 (mask 8)" "(0x7fffffff::int) = mask 31"
    "(0xfff0f000::int) = push_bit 12 (mask 4) OR push_bit 20 (mask 12)"
    "(0xf000000f::int) = mask 4 OR push_bit 28 (mask 4)" "(0x0ffffff0::int) = push_bit 4 (mask 24)"
    "(0x01a0f000::int) = push_bit 12 (mask 4) OR push_bit 21 (mask 1) OR push_bit 23 (mask 2)"
    "(0xf0000::int) = push_bit 16 (mask 4)" "(0x7000::int) = push_bit 12 (mask 3)" "(0x400::int) = push_bit 10 (mask 1)"
    "(0x3ff000::int) = push_bit 12 (mask 10)"
    by (simp_all add: mask_eq_exp_minus_1 push_bit_eq_mult)
  note b = bit_push_bit_iff bit_mask_iff bit_or_iff
  show "bit (0xf800::int) n \<longleftrightarrow> 11 \<le> n \<and> n \<le> 15" unfolding c b by auto
  show "bit (0xd000::int) n \<longleftrightarrow> n = 12 \<or> n = 14 \<or> n = 15" unfolding c b by auto
  show "bit (0x3ff::int) n \<longleftrightarrow> n < 10" unfolding c b by auto
  show "bit (0x7ff::int) n \<longleftrightarrow> n < 11" unfolding c b by auto
  show "bit (0xff::int) n \<longleftrightarrow> n < 8" unfolding c b by auto
  show "bit (0xf::int) n \<longleftrightarrow> n < 4" unfolding c b by auto
  show "bit (0xfff::int) n \<longleftrightarrow> n < 12" unfolding c b by auto
  show "bit (0xf000::int) n \<longleftrightarrow> 12 \<le> n \<and> n \<le> 15" unfolding c b by auto
  show "bit (0x800::int) n \<longleftrightarrow> n = 11" unfolding c b by auto
  show "bit (0x700::int) n \<longleftrightarrow> 8 \<le> n \<and> n \<le> 10" unfolding c b by auto
  show "bit (0x8f00::int) n \<longleftrightarrow> 8 \<le> n \<and> n \<le> 11 \<or> n = 15" unfolding c b by auto
  show "bit (0xfbf0::int) n \<longleftrightarrow> 4 \<le> n \<and> n \<le> 9 \<or> 11 \<le> n \<and> n \<le> 15" unfolding c b by auto
  show "bit (0xffffff::int) n \<longleftrightarrow> n < 24" unfolding c b by auto
  show "bit (0xff000000::int) n \<longleftrightarrow> 24 \<le> n \<and> n \<le> 31" unfolding c b by auto
  show "bit (0x7fffffff::int) n \<longleftrightarrow> n < 31" unfolding c b by auto
  show "bit (0xfff0f000::int) n \<longleftrightarrow> 12 \<le> n \<and> n \<le> 15 \<or> 20 \<le> n \<and> n \<le> 31" unfolding c b by auto
  show "bit (0xf000000f::int) n \<longleftrightarrow> n < 4 \<or> 28 \<le> n \<and> n \<le> 31" unfolding c b by auto
  show "bit (0x0ffffff0::int) n \<longleftrightarrow> 4 \<le> n \<and> n \<le> 27" unfolding c b by auto
  show "bit (0x01a0f000::int) n \<longleftrightarrow> 12 \<le> n \<and> n \<le> 15 \<or> n = 21 \<or> n = 23 \<or> n = 24" unfolding c b by auto
  show "bit (0xf0000::int) n \<longleftrightarrow> 16 \<le> n \<and> n \<le> 19" unfolding c b by auto
  show "bit (0x7000::int) n \<longleftrightarrow> 12 \<le> n \<and> n \<le> 14" unfolding c b by auto
  show "bit (0x400::int) n \<longleftrightarrow> n = 10" unfolding c b by auto
  show "bit (0x3ff000::int) n \<longleftrightarrow> 12 \<le> n \<and> n \<le> 21" unfolding c b by auto
qed

lemma signed_range_bits:
  fixes w :: u32
  assumes "- (2 ^ k) \<le> sint w" "sint w < 2 ^ k" "k \<le> n" "n < 32"
  shows "bit w n = bit w k"
proof -
  have "signed_take_bit k (sint w) = sint w" using assms by (simp add: signed_take_bit_int_eq_self_iff)
  then have "bit (sint w) n = bit (sint w) (min k n)"
    using bit_signed_take_bit_iff [of k "sint w" n] by simp
  then show ?thesis using assms by (simp add: bit_sint_iff min_def)
qed

lemma and_1_bit: "x AND 1 = (of_bool (bit x 0) :: 'a::len word)"
  by (auto intro!: bit_word_eqI simp: bit_simps)

lemma bit_twice: "bit (a * 2 :: 'a::len word) n \<longleftrightarrow> n < LENGTH('a) \<and> n \<noteq> 0 \<and> bit a (n - 1)"
  using bit_double_iff [of a n] by (simp add: mult.commute)

lemma bit_quad: "bit (a * 4 :: 'a::len word) n \<longleftrightarrow> n < LENGTH('a) \<and> 2 \<le> n \<and> bit a (n - 2)"
  using bit_push_bit_iff [of 2 a n] by (auto simp: push_bit_eq_mult)

section \<open>What the instructions mean\<close>

text \<open>
  The branch target offset of Thumb-2 \<open>BL\<close>, the offset of ARM \<open>B\<close> and \<open>BL\<close>, and the 16-bit
  immediates of \<open>MOVW\<close> and \<open>MOVT\<close> in both sets, as the ARM architecture manual decodes them.
\<close>

definition thm_bl_offset :: "u16 \<Rightarrow> u16 \<Rightarrow> u32" where
  "thm_bl_offset up lo =
    (let S = bit up 10; I1 = (bit lo 13 = S); I2 = (bit lo 11 = S)
     in scast (push_bit 24 (of_bool S) OR push_bit 23 (of_bool I1) OR push_bit 22 (of_bool I2)
          OR push_bit 12 (ucast (take_bit 10 up)) OR push_bit 1 (ucast (take_bit 11 lo)) :: 25 word))"

definition arm_b_offset :: "u32 \<Rightarrow> u32" where
  "arm_b_offset insn = scast (push_bit 2 (ucast (take_bit 24 insn)) :: 26 word)"

definition arm_mov_imm :: "u32 \<Rightarrow> u16" where
  "arm_mov_imm insn = push_bit 12 (ucast (take_bit 4 (drop_bit 16 insn))) OR ucast (take_bit 12 insn)"

definition thm_mov_imm :: "u16 \<Rightarrow> u16 \<Rightarrow> u16" where
  "thm_mov_imm up lo = push_bit 12 (take_bit 4 up) OR push_bit 11 (of_bool (bit up 10))
     OR push_bit 8 (take_bit 3 (drop_bit 12 lo)) OR take_bit 8 lo"

lemma bits_of_thm_call:
  "n < 16 \<Longrightarrow> bit (thm_call_value up lo off) n =
    (if n < 10 then bit off (n + 12) else if n = 10 then bit off 24 else bit up n)"
  "n < 16 \<Longrightarrow> bit (thm_call_value up lo off) (16 + n) = (if n < 11 then bit off (n + 1) else
     if n = 11 then bit off 22 = bit off 24 else if n = 13 then bit off 23 = bit off 24 else bit lo n)"
  by (auto simp: thm_call_value_def Let_def bit_masks and_1_bit bit_simps add.commute)

lemma bit_thm_bl_offset:
  "n < 32 \<Longrightarrow> bit (thm_bl_offset up lo) n =
    (if n \<ge> 24 then bit up 10 else if n = 23 then bit lo 13 = bit up 10
     else if n = 22 then bit lo 11 = bit up 10
     else if n \<ge> 12 then bit up (n - 12) else n \<ge> 1 \<and> bit lo (n - 1))"
  unfolding thm_bl_offset_def Let_def
  by (cases "24 \<le> n") (auto simp: bit_simps bit_twice min_def)

lemma thm_call_decode:
  assumes "\<not> out_of_range off 0xff000000 0x01000000" "even off" "v = thm_call_value up lo off"
  shows "thm_bl_offset (ucast v) (ucast (drop_bit 16 v)) = off"
proof (rule bit_word_eqI)
  fix n assume "n < LENGTH(32)"
  then have n: "n < 32" by simp
  have s: "\<And>n. 24 \<le> n \<Longrightarrow> n < 32 \<Longrightarrow> bit off n = bit off 24"
    using assms(1) by (intro signed_range_bits [of 24]) (auto simp: out_of_range_def)
  have z: "\<not> bit off 0" using assms(2) by (simp add: bit_0)
  note b = bits_of_thm_call [of _ up lo off]
  have lo: "bit (thm_call_value up lo off) 27 \<longleftrightarrow> bit off 22 = bit off 24"
      "bit (thm_call_value up lo off) 29 \<longleftrightarrow> bit off 23 = bit off 24"
    using b(2) [of 11] b(2) [of 13] by simp_all
  have c: "bit (thm_call_value up lo off) (15 + n) = bit off n" if "1 \<le> n" "n < 12"
    using b(2) [of "n - 1"] that by auto
  show "bit (thm_bl_offset (ucast v) (ucast (drop_bit 16 v))) n = bit off n"
    using n s [of n] z by (cases "n = 0") (auto simp: bit_thm_bl_offset bit_simps assms(3) b(1) lo c)
qed

lemma thm_call_keeps:
  assumes "v = thm_call_value up lo off"
  shows "(ucast v :: u16) AND 0xf800 = up AND 0xf800" "(ucast (drop_bit 16 v) :: u16) AND 0xd000 = lo AND 0xd000"
  by (rule bit_word_eqI; auto simp: bit_simps bit_masks assms bits_of_thm_call)+

lemma call_decode:
  assumes "\<not> out_of_range off 0xfe000000 0x02000000" "4 dvd uint off"
  shows "arm_b_offset (call_value insn off) = off" "call_value insn off AND 0xff000000 = insn AND 0xff000000"
proof -
  have s: "\<And>n. 25 \<le> n \<Longrightarrow> n < 32 \<Longrightarrow> bit off n = bit off 25"
    using assms(1) by (intro signed_range_bits [of 25]) (auto simp: out_of_range_def)
  have "take_bit 2 (uint off) = 0" using assms(2) by (simp add: take_bit_eq_mod)
  then have "\<not> bit (take_bit 2 (uint off)) n" for n by simp
  then have z: "\<not> bit off n" if "n < 2" for n
    using that by (auto simp: bit_simps dest: spec [of _ n])
  have c: "bit (call_value insn off) n \<longleftrightarrow> (if n < 24 then bit off (n + 2) else bit insn n)" if "n < 32" for n
    using that by (auto simp: call_value_def bit_simps bit_masks)
  have d: "bit (arm_b_offset i) n \<longleftrightarrow> (if n \<ge> 25 then bit i 23 else 2 \<le> n \<and> bit i (n - 2))" if "n < 32" for i n
    using that by (cases "25 \<le> n") (auto simp: arm_b_offset_def bit_simps bit_quad min_def)
  show "arm_b_offset (call_value insn off) = off"
  proof (rule bit_word_eqI)
    fix n assume "n < LENGTH(32)"
    then have n: "n < 32" by simp
    show "bit (arm_b_offset (call_value insn off)) n = bit off n"
    proof (cases "n < 2")
      case False
      then have "n - 2 + 2 = n" "n - 2 < 32" using n by simp_all
      then show ?thesis using s [of n] False n by (auto simp: c d simp del: add_2_eq_Suc')
    qed (use z n in \<open>simp add: d\<close>)
  qed
  show "call_value insn off AND 0xff000000 = insn AND 0xff000000"
    by (rule bit_word_eqI) (auto simp: call_value_def bit_simps bit_masks)
qed

lemma bits_of_mov:
  "n < 32 \<Longrightarrow> bit (mov_value movt insn off) n =
    (if n < 12 then bit off (if movt then n + 16 else n)
     else if 16 \<le> n \<and> n \<le> 19 then bit off (if movt then n + 12 else n - 4) else bit insn n)"
  by (cases movt) (auto simp: mov_value_def Let_def bit_simps bit_masks add.commute min_def)

lemma mov_decode:
  "arm_mov_imm (mov_value movt insn off) = (if movt then ucast (drop_bit 16 off) else ucast off)"
  "mov_value movt insn off AND 0xfff0f000 = insn AND 0xfff0f000"
  by (rule bit_word_eqI; auto simp: arm_mov_imm_def bits_of_mov bit_simps bit_masks add.commute)+

lemma bits_of_thm_mov:
  "n < 16 \<Longrightarrow> bit (thm_mov_value movt up lo off) n =
    (if n < 4 then bit off (n + (if movt then 28 else 12))
     else if n = 10 then bit off (if movt then 27 else 11) else bit up n)"
  "n < 16 \<Longrightarrow> bit (thm_mov_value movt up lo off) (16 + n) =
    (if n < 8 then bit off (if movt then n + 16 else n)
     else if 12 \<le> n \<and> n \<le> 14 then bit off (if movt then n + 12 else n - 4) else bit lo n)"
  by (cases movt; auto simp: thm_mov_value_def Let_def bit_simps bit_masks add.commute min_def)+

lemma bit_thm_mov_imm:
  "n < 16 \<Longrightarrow> bit (thm_mov_imm up lo) n =
    (if n < 8 then bit lo n else if n < 11 then bit lo (n + 4) else if n = 11 then bit up 10 else bit up (n - 12))"
  by (auto simp: thm_mov_imm_def bit_simps add.commute)

lemma thm_mov_decode:
  assumes "v = thm_mov_value movt up lo off"
  shows "thm_mov_imm (ucast v) (ucast (drop_bit 16 v)) = (if movt then ucast (drop_bit 16 off) else ucast off)"
    "(ucast v :: u16) AND 0xfbf0 = up AND 0xfbf0" "(ucast (drop_bit 16 v) :: u16) AND 0x8f00 = lo AND 0x8f00"
proof -
  note b = bits_of_thm_mov [of _ movt up lo off]
  have u: "bit (ucast v :: u16) n = (n < 16 \<and> bit (thm_mov_value movt up lo off) n)" for n
    by (auto simp: assms bit_simps)
  have l: "bit (ucast (drop_bit 16 v) :: u16) n = (n < 16 \<and> bit (thm_mov_value movt up lo off) (16 + n))" for n
    by (auto simp: assms bit_simps)
  show "thm_mov_imm (ucast v) (ucast (drop_bit 16 v)) = (if movt then ucast (drop_bit 16 off) else ucast off)"
  proof (rule bit_word_eqI)
    fix n assume "n < LENGTH(16)"
    then consider "n < 8" | "8 \<le> n" "n < 11" | "n = 11" | "12 \<le> n" "n < 16" by fastforce
    then show "bit (thm_mov_imm (ucast v) (ucast (drop_bit 16 v))) n =
        bit ((if movt then ucast (drop_bit 16 off) else ucast off) :: u16) n"
    proof cases
      case 1
      then show ?thesis using b(2) [of n] by (simp add: bit_thm_mov_imm assms bit_simps add.commute)
    next
      case 2
      then show ?thesis using b(2) [of "n + 4"] by (simp add: bit_thm_mov_imm assms bit_simps add.commute)
    next
      case 3
      then show ?thesis using b(1) [of 10] by (simp add: bit_thm_mov_imm assms bit_simps)
    next
      case 4
      then have "n - 12 < 4" by simp
      with 4 show ?thesis using b(1) [of "n - 12"] by (simp add: bit_thm_mov_imm assms bit_simps add.commute)
    qed
  qed
  show "(ucast v :: u16) AND 0xfbf0 = up AND 0xfbf0"
    by (rule bit_word_eqI) (auto simp: bit_and_iff bit_masks u b)
  show "(ucast (drop_bit 16 v) :: u16) AND 0x8f00 = lo AND 0x8f00"
    by (rule bit_word_eqI) (auto simp: bit_and_iff bit_masks l b)
qed

lemma v4bx_decode:
  "v4bx_value insn AND 0xf000000f = insn AND 0xf000000f" "v4bx_value insn AND 0x0ffffff0 = 0x01a0f000"
  by (rule bit_word_eqI; auto simp: v4bx_value_def bit_simps bit_masks)+

section \<open>The table\<close>

text \<open>The two encodings of an entry, with the free bits of the type word as an argument.\<close>

definition entry_ok :: "rel_entry \<Rightarrow> bool" where
  "entry_ok e \<longleftrightarrow> r_code e < 256 \<and> r_symseg e < 16 \<and> r_datseg e < 16"

definition type_word :: "u32 \<Rightarrow> rel_entry \<Rightarrow> u32" where
  "type_word low e = low OR push_bit 4 (of_nat (r_symseg e)) OR push_bit 8 (r_code e) OR push_bit 16 (of_nat (r_datseg e))"

datatype enc_entry = Short rel_entry | Long rel_entry

fun enc_ok :: "enc_entry \<Rightarrow> bool" where
  "enc_ok (Short e) = (entry_ok e \<and> r_offset e < 2 ^ 22 \<and> r_addend e < 2 ^ 22)"
| "enc_ok (Long e) = entry_ok e"

fun enc_bytes :: "enc_entry \<Rightarrow> u8 list" where
  "enc_bytes (Short e) = bytes32 (type_word 1 e OR push_bit 20 (r_offset e))
     @ bytes32 (take_bit 10 (drop_bit 12 (r_offset e)) OR push_bit 10 (r_addend e))"
| "enc_bytes (Long e) = bytes32 (type_word 0 e) @ bytes32 (r_addend e) @ bytes32 (r_offset e)"

fun enc_val :: "enc_entry \<Rightarrow> rel_entry" where
  "enc_val (Short e) = e"
| "enc_val (Long e) = e"

lemma small_word_bits:
  fixes w :: u32
  assumes "w < 2 ^ k" "k < 32" "bit w n"
  shows "n < k"
proof (rule ccontr)
  assume "\<not> n < k"
  have "(2 :: nat) ^ k < 2 ^ 32" using assms(2) by (rule power_strict_increasing) simp
  then have "unat ((2 :: u32) ^ k) = 2 ^ k"
    using assms(2) unat_of_nat [where ?'a = 32, of "2 ^ k"] by simp
  then have "unat w < 2 ^ k" using assms(1) by (simp add: word_less_nat_alt)
  then have "take_bit k (unat w) = unat w" by (simp add: take_bit_nat_eq_self)
  then have "take_bit k w = w" by (metis unsigned_take_bit_eq word_unat_eq_iff)
  then show False using assms(3) \<open>\<not> n < k\<close> by (metis bit_take_bit_iff)
qed

lemma of_nat_small_bits:
  assumes "m < 16" "bit (of_nat m :: u32) n"
  shows "n < 4"
  using assms small_word_bits [of "of_nat m" 4 n] by (simp add: word_less_nat_alt unat_of_nat)

lemma type_word_fields:
  assumes "entry_ok e" "low < 16"
  shows "SCE_RELOC_SYMSEG (type_word low e OR push_bit 20 x) = of_nat (r_symseg e)"
    "SCE_RELOC_CODE (type_word low e OR push_bit 20 x) = r_code e"
    "SCE_RELOC_DATSEG (type_word low e OR push_bit 20 x) = of_nat (r_datseg e)"
    "SCE_RELOC_IS_SHORT (type_word low e OR push_bit 20 x) = (low \<noteq> 0)"
    "drop_bit 20 (type_word low e OR push_bit 20 x) = drop_bit 20 (push_bit 20 x)"
proof -
  define sy da co where "sy = (of_nat (r_symseg e) :: u32)" and "da = (of_nat (r_datseg e) :: u32)"
    and "co = r_code e"
  have b: "bit low n \<Longrightarrow> n < 4" "bit co n \<Longrightarrow> n < 8" "bit sy n \<Longrightarrow> n < 4" "bit da n \<Longrightarrow> n < 4" for n
    using small_word_bits [of low 4 n] small_word_bits [of co 8 n] of_nat_small_bits [of _ n] assms
    by (auto simp: entry_ok_def sy_def da_def co_def)
  note t = type_word_def [of low e, folded sy_def da_def co_def]
  show "SCE_RELOC_SYMSEG (type_word low e OR push_bit 20 x) = of_nat (r_symseg e)"
    unfolding sy_def [symmetric] t SCE_RELOC_SYMSEG_def
    by (rule bit_word_eqI) (auto simp: bit_simps bit_masks dest: b)
  show "SCE_RELOC_CODE (type_word low e OR push_bit 20 x) = r_code e"
    unfolding co_def [symmetric] t SCE_RELOC_CODE_def
    by (rule bit_word_eqI) (auto simp: bit_simps bit_masks dest: b)
  show "SCE_RELOC_DATSEG (type_word low e OR push_bit 20 x) = of_nat (r_datseg e)"
    unfolding da_def [symmetric] t SCE_RELOC_DATSEG_def
    by (rule bit_word_eqI) (auto simp: bit_simps bit_masks dest: b)
  have "(type_word low e OR push_bit 20 x) AND 0xF = low"
    unfolding t by (rule bit_word_eqI) (auto simp: bit_simps bit_masks dest: b)
  then show "SCE_RELOC_IS_SHORT (type_word low e OR push_bit 20 x) = (low \<noteq> 0)"
    by (simp add: SCE_RELOC_IS_SHORT_def)
  show "drop_bit 20 (type_word low e OR push_bit 20 x) = drop_bit 20 (push_bit 20 x)"
    unfolding t by (rule bit_word_eqI) (auto simp: bit_simps bit_masks dest: b)
qed

lemma short_fields:
  assumes "entry_ok e" "r_offset e < 2 ^ 22" "r_addend e < 2 ^ 22"
  defines "o2 \<equiv> take_bit 10 (drop_bit 12 (r_offset e)) OR push_bit 10 (r_addend e)"
  shows "SCE_RELOC_SHORT_OFFSET (type_word 1 e OR push_bit 20 (r_offset e)) o2 = r_offset e"
    "SCE_RELOC_SHORT_ADDEND o2 = r_addend e"
proof -
  have b: "bit (r_offset e) n \<Longrightarrow> n < 22" "bit (r_addend e) n \<Longrightarrow> n < 22" for n
    using small_word_bits [of _ 22 n] assms(2,3) by auto
  have t: "drop_bit 20 (type_word 1 e OR push_bit 20 (r_offset e)) = drop_bit 20 (push_bit 20 (r_offset e))"
    by (rule type_word_fields(5)) (use assms(1) in simp_all)
  show "SCE_RELOC_SHORT_OFFSET (type_word 1 e OR push_bit 20 (r_offset e)) o2 = r_offset e"
    unfolding SCE_RELOC_SHORT_OFFSET_def o2_def t
    by (rule bit_word_eqI) (auto simp: bit_simps bit_masks dest: b)
  show "SCE_RELOC_SHORT_ADDEND o2 = r_addend e"
    unfolding o2_def SCE_RELOC_SHORT_ADDEND_def
    by (rule bit_word_eqI) (auto simp: bit_simps bit_masks dest: b)
qed

lemma rd32_append:
  assumes "length xs = n"
  shows "rd32 (xs @ bytes32 w @ ys) n = Some w"
  using assms by (simp add: rd32_def bytes32_def nth_append join32_bytes32)

lemma rd32_at:
  assumes "drop n bs = bytes32 w @ ys"
  shows "rd32 bs n = Some w"
proof -
  have "n \<le> length bs" using arg_cong [OF assms, of length] by simp
  then have "bs = take n bs @ bytes32 w @ ys" "length (take n bs) = n"
    using assms by (metis append_take_drop_id, simp)
  then show ?thesis using rd32_append by metis
qed

lemma length_enc_pos: "8 \<le> length (enc_bytes e)"
  by (cases e) simp_all

lemma read_entry_enc:
  assumes "drop (unat pos) bs = enc_bytes e @ ys" "enc_ok e"
  shows "read_entry bs pos = Some (enc_val e, pos + of_nat (length (enc_bytes e)))"
proof (cases e)
  case (Short x)
  note a = assms(1) [unfolded Short enc_bytes.simps append_assoc]
  have t: "rd32 bs (unat pos) = Some (type_word 1 x OR push_bit 20 (r_offset x))"
    using a by (rule rd32_at)
  have "drop (unat pos + 4) bs = drop 4 (drop (unat pos) bs)" by (simp add: add.commute)
  also have "\<dots> = bytes32 (take_bit 10 (drop_bit 12 (r_offset x)) OR push_bit 10 (r_addend x)) @ ys"
    unfolding a by simp
  finally have o2: "rd32 bs (unat pos + 4) = Some (take_bit 10 (drop_bit 12 (r_offset x)) OR push_bit 10 (r_addend x))"
    by (rule rd32_at)
  have ok: "entry_ok x" "r_offset x < 2 ^ 22" "r_addend x < 2 ^ 22" using assms(2) by (simp_all add: Short)
  show ?thesis
    using ok type_word_fields [OF ok(1), of 1 "r_offset x"] short_fields [OF ok]
    by (simp add: read_entry_def t o2 Short entry_ok_def unat_of_nat)
next
  case (Long x)
  note a = assms(1) [unfolded Long enc_bytes.simps append_assoc]
  have t: "rd32 bs (unat pos) = Some (type_word 0 x)" using a by (rule rd32_at)
  have "drop (unat pos + 4) bs = drop 4 (drop (unat pos) bs)" by (simp add: add.commute)
  also have "\<dots> = bytes32 (r_addend x) @ bytes32 (r_offset x) @ ys" unfolding a by simp
  finally have ad: "rd32 bs (unat pos + 4) = Some (r_addend x)" by (rule rd32_at)
  have "drop (unat pos + 8) bs = drop 8 (drop (unat pos) bs)" by (simp add: add.commute)
  also have "\<dots> = bytes32 (r_offset x) @ ys" unfolding a by (simp add: bytes32_def)
  finally have off: "rd32 bs (unat pos + 8) = Some (r_offset x)" by (rule rd32_at)
  have ok: "entry_ok x" using assms(2) by (simp add: Long)
  show ?thesis
    using ok type_word_fields [OF ok, of 0 0]
    by (simp add: read_entry_def t ad off Long entry_ok_def unat_of_nat)
qed

text \<open>The meaning of a table: its entries one after the other.\<close>

fun relocate_all :: "u32 \<Rightarrow> elf32_phdr list \<Rightarrow> rel_state \<Rightarrow> rel_entry list \<Rightarrow> rel_state option" where
  "relocate_all sz segs s [] = Some s"
| "relocate_all sz segs s (e # es) = do { s' \<leftarrow> relocate_entry sz segs s e; relocate_all sz segs s' es }"

lemma relocate_loop_table:
  assumes "list_all enc_ok es" "bs = pre @ concat (map enc_bytes es)" "length bs < 2 ^ 32"
  shows "relocate_loop bs (of_nat (length bs)) segs (of_nat (length pre)) s
    = relocate_all (of_nat (length bs)) segs s (map enc_val es)"
  using assms
proof (induction es arbitrary: pre s)
  case Nil
  then show ?case by (simp add: relocate_loop.simps)
next
  case (Cons e es)
  let ?pos = "of_nat (length pre) :: u32" and ?sz = "of_nat (length bs) :: u32"
  have len: "length pre + length (enc_bytes e) \<le> length bs" "8 \<le> length (enc_bytes e)"
    using Cons.prems(2) length_enc_pos [of e] by simp_all
  then have lt: "?pos < ?sz" using Cons.prems(3) by (simp add: word_less_nat_alt unat_of_nat)
  have un: "unat ?pos = length pre" using len Cons.prems(3) by (simp add: unat_of_nat)
  have "drop (unat ?pos) bs = enc_bytes e @ concat (map enc_bytes es)"
    using Cons.prems(2) un by simp
  with read_entry_enc Cons.prems(1)
  have rd: "read_entry bs ?pos = Some (enc_val e, of_nat (length (pre @ enc_bytes e)))" by fastforce
  have "relocate_loop bs ?sz segs (of_nat (length (pre @ enc_bytes e)))
      = (\<lambda>s'. relocate_all ?sz segs s' (map enc_val es))"
    by (rule ext, rule Cons.IH) (use Cons.prems in simp_all)
  then show ?case using lt rd by (simp add: relocate_loop.simps [of bs ?sz segs ?pos s])
qed

section \<open>The effect of one entry\<close>

definition sym_value :: "elf32_phdr list \<Rightarrow> nat \<Rightarrow> u32" where
  "sym_value segs i = (if i = 15 then 0 else p_vaddr (segs ! i))"

text \<open>An entry whose place lies in its segment, with the program headers it names.\<close>

definition entry_in_place :: "u32 \<Rightarrow> elf32_phdr list \<Rightarrow> rel_state \<Rightarrow> rel_entry \<Rightarrow> bool" where
  "entry_in_place sz segs s e \<longleftrightarrow> r_datseg e < length segs \<and> (r_symseg e = 15 \<or> r_symseg e < length segs) \<and>
     length (cur_seg s (r_datseg e)) = unat (p_memsz (segs ! r_datseg e)) \<and>
     unat (p_vaddr (segs ! r_datseg e)) + unat (r_offset e) < 2 ^ 32 \<and>
     unat (r_offset e) + 4 \<le> length (cur_seg s (r_datseg e)) \<and> r_offset e \<le> sz"

definition reloc_codes :: "u32 set" where
  "reloc_codes = {2, 3, 10, 28, 29, 38, 40, 41, 42, 43, 44, 47, 48}"

text \<open>Branch offsets that the instruction can hold.\<close>

definition branch_ok :: "u32 \<Rightarrow> u32 \<Rightarrow> bool" where
  "branch_ok code off \<longleftrightarrow> (code = 10 \<longrightarrow> \<not> out_of_range off 0xff000000 0x01000000 \<and> even off) \<and>
     (code \<in> {28, 29} \<longrightarrow> \<not> out_of_range off 0xfe000000 0x02000000 \<and> 4 dvd uint off)"

text \<open>
  What the relocated word \<open>w\<close> at the place \<open>P\<close> stands for, where the word was \<open>i\<close>, with \<open>X\<close> the symbol plus
  addend: the value in its immediate fields, and which bits of \<open>i\<close> it keeps (the opcode, the condition, the
  registers). The 31-bit offset is that of the manual where it is in range; bit 31 is cleared.
\<close>

definition upper_half :: "u32 \<Rightarrow> u16" where "upper_half w = ucast w"
definition lower_half :: "u32 \<Rightarrow> u16" where "lower_half w = ucast (drop_bit 16 w)"

definition reloc_means :: "u32 \<Rightarrow> u32 \<Rightarrow> u32 \<Rightarrow> u32 \<Rightarrow> u32 \<Rightarrow> bool" where
  "reloc_means code i w X P \<longleftrightarrow>
     (code \<in> {2, 38} \<longrightarrow> w = X) \<and>
     (code \<in> {3, 41} \<longrightarrow> w = X - P) \<and>
     (code = 42 \<longrightarrow> w = (X - P) AND 0x7fffffff \<and>
        (- (2 ^ 30) \<le> sint (X - P) \<and> sint (X - P) < 2 ^ 30 \<longrightarrow> signed_take_bit 30 w = X - P)) \<and>
     (code = 10 \<longrightarrow> thm_bl_offset (upper_half w) (lower_half w) = X - P \<and>
        upper_half w AND 0xf800 = upper_half i AND 0xf800 \<and> lower_half w AND 0xd000 = lower_half i AND 0xd000) \<and>
     (code \<in> {28, 29} \<longrightarrow> arm_b_offset w = X - P \<and> w AND 0xff000000 = i AND 0xff000000) \<and>
     (code \<in> {43, 44} \<longrightarrow> arm_mov_imm w = (if code = 44 then ucast (drop_bit 16 X) else ucast X) \<and>
        w AND 0xfff0f000 = i AND 0xfff0f000) \<and>
     (code \<in> {47, 48} \<longrightarrow> thm_mov_imm (upper_half w) (lower_half w) = (if code = 48 then ucast (drop_bit 16 X) else ucast X) \<and>
        upper_half w AND 0xfbf0 = upper_half i AND 0xfbf0 \<and> lower_half w AND 0x8f00 = lower_half i AND 0x8f00) \<and>
     (code = 40 \<longrightarrow> w AND 0x0ffffff0 = 0x01a0f000 \<and> w AND 0xf000000f = i AND 0xf000000f)"

lemma prel31_decode:
  fixes off :: u32
  assumes "- (2 ^ 30) \<le> sint off" "sint off < 2 ^ 30"
  shows "signed_take_bit 30 (off AND 0x7fffffff) = off"
proof (rule bit_word_eqI)
  fix n assume "n < LENGTH(32)"
  then have n: "n < 32" by simp
  have s: "30 \<le> n \<Longrightarrow> bit off n = bit off 30" using signed_range_bits [of 30 off n] assms n by simp
  show "bit (signed_take_bit 30 (off AND 0x7fffffff)) n = bit off n"
    using s n by (cases "n < 30") (auto simp: bit_simps bit_masks min_def)
qed

lemma rd16_halves:
  assumes "rd32 d p = Some i"
  shows "rd16 d p = Some (upper_half i)" "rd16 d (p + 2) = Some (lower_half i)"
proof -
  have i: "p + 3 < length d" "i = join32 (d ! p) (d ! (p + 1)) (d ! (p + 2)) (d ! (p + 3))"
    using assms by (auto simp: rd32_def split: if_splits)
  show "rd16 d p = Some (upper_half i)" "rd16 d (p + 2) = Some (lower_half i)"
    using i(1) unfolding i(2) by (auto simp: rd16_def upper_half_def lower_half_def join32_def u8_bit_high bit_simps numeral_3_eq_3 dest: bit_imp_le_length intro!: bit_word_eqI)
qed

lemma switch_means:
  assumes "code \<in> reloc_codes" "branch_ok code (X - P)" "X = A + S" "p + 4 \<le> length d"
  obtains i v where "rd32 d p = Some i" "reloc_switch code A S P (Some p) d value = Some (Some (Some v))" "reloc_means code i v X P"
proof -
  obtain i where i: "rd32 d p = Some i" using assms(4) by (simp add: rd32_def)
  note halves = rd16_halves [OF i]
  have "X = S + A" using assms(3) by (simp add: add.commute)
  consider "code \<in> {2, 3, 38, 41}" | "code = 42" | "code = 10" | "code \<in> {28, 29}" | "code = 40" | "code \<in> {43, 44}" | "code \<in> {47, 48}"
    using assms(1) by (auto simp: reloc_codes_def)
  then show ?thesis
  proof cases
    case 1
    then show ?thesis using that i assms(3) by (auto simp: reloc_switch_def reloc_means_def)
  next
    case 2
    then show ?thesis using that [OF i] assms(3) prel31_decode [of "X - P"]
      by (auto simp: reloc_switch_def reloc_means_def prel31_value_def)
  next
    case 3
    define v where "v = thm_call_value (upper_half i) (lower_half i) (X - P)"
    have "thm_bl_offset (upper_half v) (lower_half v) = X - P"
      unfolding upper_half_def lower_half_def using assms(2) 3 v_def by (intro thm_call_decode) (auto simp: branch_ok_def)
    moreover have "upper_half v AND 0xf800 = upper_half i AND 0xf800" "lower_half v AND 0xd000 = lower_half i AND 0xd000"
      using thm_call_keeps [OF v_def] by (simp_all only: upper_half_def [of v] lower_half_def [of v])
    moreover have "reloc_switch code A S P (Some p) d value = Some (Some (Some v))"
      using 3 assms(2,3) halves by (simp add: reloc_switch_def branch_ok_def v_def)
    ultimately show ?thesis using that [OF i, of v] 3 by (simp add: reloc_means_def)
  next
    case 4
    have "\<not> out_of_range (X - P) 0xfe000000 0x02000000" "4 dvd uint (X - P)" using 4 assms(2) by (auto simp: branch_ok_def)
    from call_decode [OF this, of i] show ?thesis
      using that [OF i, of "call_value i (X - P)"] 4 assms(2,3) i by (auto simp: reloc_switch_def reloc_means_def branch_ok_def)
  next
    case 5
    then show ?thesis using that [OF i, of "v4bx_value i"] v4bx_decode [of i] i
      by (simp add: reloc_switch_def reloc_means_def)
  next
    case 6
    then show ?thesis using that [OF i, of "mov_value (code = 44) i X"] mov_decode [of "code = 44" i X] i \<open>X = S + A\<close>
      by (auto simp: reloc_switch_def reloc_means_def)
  next
    case 7
    define v where "v = thm_mov_value (code = 48) (upper_half i) (lower_half i) X"
    note d = thm_mov_decode [OF v_def, folded upper_half_def [of v] lower_half_def [of v]]
    have "reloc_switch code A S P (Some p) d value = Some (Some (Some v))"
      using 7 assms(3) halves by (auto simp: reloc_switch_def v_def)
    then show ?thesis using that [OF i, of v] 7 d by (auto simp: reloc_means_def)
  qed
qed

lemma place_in_segment:
  assumes "unat v + unat (off :: u32) < 2 ^ 32"
  shows "seg_pos (v + off) v = Some (unat off)"
proof -
  have "unat (v + off) = unat v + unat off" using assms by (simp add: unat_plus_if')
  then have "uint (v + off) = uint v + uint off" by (metis of_nat_add uint_nat)
  then show ?thesis by (simp add: seg_pos_def)
qed

lemma segment_write_in:
  assumes "length d = unat (p_memsz seg)" "unat off + 4 \<le> length d"
  shows "uvl_segment_write seg off v 4 d = Some (put_bytes d (unat off) (bytes32 v), 0)"
proof -
  have "unat (off + 4) = unat off + 4"
    using assms unsigned_less [of "p_memsz seg", where ?'a = nat] by (simp add: unat_plus_if')
  then have "\<not> off + 4 > p_memsz seg" using assms by (simp add: word_less_nat_alt)
  then show ?thesis using assms(2) by (simp add: uvl_segment_write_def wr32_def)
qed

text \<open>The relocated word, and the bytes that stay.\<close>

definition entry_effect :: "elf32_phdr list \<Rightarrow> rel_state \<Rightarrow> rel_entry \<Rightarrow> rel_state \<Rightarrow> bool" where
  "entry_effect segs s e s' \<longleftrightarrow>
     (let d = cur_seg s (r_datseg e); d' = cur_seg s' (r_datseg e); o' = unat (r_offset e) in
      (\<exists>i w. rd32 d o' = Some i \<and> rd32 d' o' = Some w \<and>
        reloc_means (r_code e) i w (sym_value segs (r_symseg e) + r_addend e) (p_vaddr (segs ! r_datseg e) + r_offset e)) \<and>
      length d' = length d \<and> (\<forall>i<length d. i < o' \<or> o' + 4 \<le> i \<longrightarrow> d' ! i = d ! i) \<and>
      (if r_datseg e \<noteq> 0 then text_seg s' = text_seg s else data_seg s' = data_seg s))"

lemma relocate_entry_law:
  assumes "entry_in_place sz segs s e" "r_code e \<in> reloc_codes"
    "branch_ok (r_code e) (sym_value segs (r_symseg e) + r_addend e - (p_vaddr (segs ! r_datseg e) + r_offset e))"
  shows "\<exists>s'. relocate_entry sz segs s e = Some s' \<and> entry_effect segs s e s'"
proof -
  let ?seg = "segs ! r_datseg e" and ?d = "cur_seg s (r_datseg e)" and ?S = "sym_value segs (r_symseg e)"
    and ?o = "unat (r_offset e)"
  have ip: "r_datseg e < length segs" "r_symseg e = 15 \<or> r_symseg e < length segs" "length ?d = unat (p_memsz ?seg)"
      "unat (p_vaddr ?seg) + ?o < 2 ^ 32" "?o + 4 \<le> length ?d" "\<not> r_offset e > sz"
    using assms(1) by (auto simp: entry_in_place_def)
  obtain i v where v: "rd32 ?d ?o = Some i" "reloc_switch (r_code e) (r_addend e) ?S (p_vaddr ?seg + r_offset e) (Some ?o) ?d (rvalue s)
      = Some (Some (Some v))" "reloc_means (r_code e) i v (?S + r_addend e) (p_vaddr ?seg + r_offset e)"
    using switch_means [OF assms(2,3) add.commute ip(5)] by blast
  let ?d' = "put_bytes ?d ?o (bytes32 v)"
  let ?s' = "(set_cur_seg s (r_datseg e) ?d')\<lparr>rvalue := Some v\<rparr>"
  have "relocate_entry sz segs s e = Some ?s'"
    using ip(1,2,6) v(2) segment_write_in [OF ip(3,5)]
    by (auto simp: relocate_entry_def Let_def place_in_segment [OF ip(4)] sym_value_def)
  moreover have "cur_seg ?s' (r_datseg e) = ?d'" by (simp add: cur_seg_def set_cur_seg_def)
  moreover have "rd32 ?d' ?o = Some v"
    using ip(5) by (intro rd32_wr32 [of ?d]) (simp add: wr32_def)
  moreover have "?d' ! i = ?d ! i" if "i < length ?d" "i < ?o \<or> ?o + 4 \<le> i" for i
    using that ip(5) by (intro put_bytes_nth_outside) simp_all
  ultimately show ?thesis
    using v(1,3) ip(5) by (auto simp: entry_effect_def Let_def set_cur_seg_def)
qed

section \<open>Properties\<close>

text \<open>
  The relocation table: for every list of entries in either encoding (the short one for 22-bit
  offsets and addends), \<open>uvl_relocate\<close> over its bytes terminates and performs exactly those
  entries, in order, with the fields that were encoded.
\<close>

lemma relocate_table:
  assumes "list_all enc_ok es" "rs = concat (map enc_bytes es)" "length rs < 2 ^ 32"
  shows "uvl_relocate rs (of_nat (length rs)) segs d t =
    do { s \<leftarrow> relocate_all (of_nat (length rs)) segs \<lparr>data_seg = d, text_seg = t, rvalue = None\<rparr> (map enc_val es);
         Some (data_seg s, text_seg s, 0) }"
  using relocate_loop_table [of es rs "[]" segs] assms by (simp add: uvl_relocate_def)

definition abs_entry :: rel_entry where
  "abs_entry = \<lparr>r_code = 2, r_offset = 4, r_addend = 0x20, r_symseg = 1, r_datseg = 1\<rparr>"

lemma relocate_table_witness:
  "uvl_relocate (concat (map enc_bytes [Short abs_entry, Long abs_entry])) 20 [\<lparr>p_vaddr = 0, p_memsz = 8\<rparr>] [1, 2] [3]
    = do { s \<leftarrow> relocate_all 20 [\<lparr>p_vaddr = 0, p_memsz = 8\<rparr>] \<lparr>data_seg = [1, 2], text_seg = [3], rvalue = None\<rparr>
             (map enc_val [Short abs_entry, Long abs_entry]);
         Some (data_seg s, text_seg s, 0) }"
proof -
  have "length (concat (map enc_bytes [Short abs_entry, Long abs_entry])) = 20" by simp
  moreover have "list_all enc_ok [Short abs_entry, Long abs_entry]" by (simp add: abs_entry_def entry_ok_def)
  ultimately show ?thesis
    using relocate_table [OF _ refl, of "[Short abs_entry, Long abs_entry]" "[\<lparr>p_vaddr = 0, p_memsz = 8\<rparr>]" "[1, 2]" "[3]"]
    by (simp only: of_nat_numeral) simp
qed



text \<open>
  A branch out of range is reported and then written all the same: the place gets the value the
  previous relocation computed, and as the first write of the run it would be of an uninitialised
  variable.
\<close>

lemma relocate_out_of_range_stale:
  assumes "entry_in_place sz segs s e" "r_code e \<in> {28, 29}"
    "out_of_range (r_addend e + sym_value segs (r_symseg e) - (p_vaddr (segs ! r_datseg e) + r_offset e)) 0xfe000000 0x02000000"
  shows "relocate_entry sz segs s e = (case rvalue s of None \<Rightarrow> None
    | Some v \<Rightarrow> Some (set_cur_seg s (r_datseg e)
        (put_bytes (cur_seg s (r_datseg e)) (unat (r_offset e)) (bytes32 v))))"
proof -
  have ip: "r_datseg e < length segs" "r_symseg e = 15 \<or> r_symseg e < length segs"
      "length (cur_seg s (r_datseg e)) = unat (p_memsz (segs ! r_datseg e))"
      "unat (r_offset e) + 4 \<le> length (cur_seg s (r_datseg e))" "\<not> r_offset e > sz"
    using assms(1) by (auto simp: entry_in_place_def)
  have same: "rvalue s = Some v \<Longrightarrow> (set_cur_seg s (r_datseg e) d)\<lparr>rvalue := Some v\<rparr> = set_cur_seg s (r_datseg e) d" for v d
    by (simp add: set_cur_seg_def)
  have sw: "reloc_switch (r_code e) (r_addend e) (sym_value segs (r_symseg e))
      (p_vaddr (segs ! r_datseg e) + r_offset e) ps d (rvalue s) = Some (Some (rvalue s))" for ps d
    using assms(2,3) by (auto simp: reloc_switch_def Let_def)
  have sy: "(if r_symseg e = 15 then Some 0 else if r_symseg e < length segs then Some (p_vaddr (segs ! r_symseg e)) else None)
      = Some (sym_value segs (r_symseg e))"
    using ip(2) by (auto simp: sym_value_def)
  show ?thesis
    unfolding relocate_entry_def sy
    using ip(1,5) segment_write_in [OF ip(3,4)] same by (simp add: sw Let_def split: option.split)
qed

lemma relocate_out_of_range_stale_witness:
  "relocate_entry 100 [\<lparr>p_vaddr = 0x81000000, p_memsz = 4\<rparr>]
      \<lparr>data_seg = [], text_seg = [1, 2, 3, 0xEB], rvalue = Some 0xDEADBEEF\<rparr>
      \<lparr>r_code = 28, r_offset = 0, r_addend = 0x40000000, r_symseg = 0, r_datseg = 0\<rparr>
    = Some \<lparr>data_seg = [], text_seg = [0xEF, 0xBE, 0xAD, 0xDE], rvalue = Some 0xDEADBEEF\<rparr>"
  using relocate_out_of_range_stale [of 100 "[\<lparr>p_vaddr = 0x81000000, p_memsz = 4\<rparr>]"
      "\<lparr>data_seg = [], text_seg = [1, 2, 3, 0xEB], rvalue = Some 0xDEADBEEF\<rparr>"
      "\<lparr>r_code = 28, r_offset = 0, r_addend = 0x40000000, r_symseg = 0, r_datseg = 0\<rparr>"]
  by (simp add: entry_in_place_def cur_seg_def set_cur_seg_def out_of_range_def sym_value_def put_bytes_def bytes32_def)

text \<open>
  The bounds check of \<open>uvl_segment_write\<close>: on a segment of \<open>p_memsz\<close> bytes it writes exactly the
  four bytes at the offset when they are inside, refuses with -1 and no change when they are not;
  only for the last four offsets of the address space, where \<open>offset + size\<close> wraps to at most 3,
  does a write outside of the segment get through.
\<close>

lemma segment_write_bounds:
  assumes "length d = unat (p_memsz seg)"
  shows "uvl_segment_write seg off v 4 d =
    (if unat off + 4 \<le> length d then Some (put_bytes d (unat off) (bytes32 v), 0)
     else if unat off + 4 < 2 ^ 32 \<or> length d < unat off + 4 - 2 ^ 32 then Some (d, -1)
     else None)"
proof -
  have lt: "length d < 2 ^ 32" "unat off < 2 ^ 32"
    using assms unsigned_less [of "p_memsz seg", where ?'a = nat] unsigned_less [of off, where ?'a = nat] by simp_all
  have add: "unat (off + 4) = (if unat off + 4 < 2 ^ 32 then unat off + 4 else unat off + 4 - 2 ^ 32)"
    by (simp add: unat_plus_if')
  have cmp: "off + 4 > p_memsz seg \<longleftrightarrow> length d < unat (off + 4)" using assms by (simp add: word_less_nat_alt)
  show ?thesis
  proof (cases "unat off + 4 \<le> length d")
    case True
    then show ?thesis using segment_write_in [OF assms True] by simp
  next
    case False
    show ?thesis
    proof (cases "unat off + 4 < 2 ^ 32")
      case True
      then show ?thesis using False by (simp add: uvl_segment_write_def cmp add)
    next
      case wrap: False
      then have "\<not> unat off + 3 < length d" using lt(1) by linarith
      then show ?thesis using False wrap by (simp add: uvl_segment_write_def cmp add wr32_def del: One_nat_def)
    qed
  qed
qed

lemma segment_write_bounds_witness:
  "uvl_segment_write \<lparr>p_vaddr = 0, p_memsz = 8\<rparr> 0xFFFFFFFE 0 4 (replicate 8 0) = None \<and>
   uvl_segment_write \<lparr>p_vaddr = 0, p_memsz = 8\<rparr> 5 0 4 (replicate 8 0) = Some (replicate 8 0, -1)"
  using segment_write_bounds [of "replicate 8 0" "\<lparr>p_vaddr = 0, p_memsz = 8\<rparr>" "0xFFFFFFFE" 0]
    segment_write_bounds [of "replicate 8 0" "\<lparr>p_vaddr = 0, p_memsz = 8\<rparr>" 5 0]
  by simp

end
