(* ===== verification/Arzl.thy ===== *)
theory Arzl
  imports Vita_Prelude
begin

text \<open>
  The ARZL decompressor (\<open>unarzl/src/unarzl.c\<close>): a context-mixing range decoder over a table of
  3240 bit probabilities that drives an LZ77 copy, the branch filter \<open>arzl_deobfuscate\<close> that
  undoes the conversion of Thumb-2 calls, and the driver \<open>unarzl\<close>. The decompiled control flow is
  kept; the pieces the source repeats in line (a bit, a number) are one definition each.
\<close>

unbundle bit_operations_syntax

section \<open>State\<close>

text \<open>
  The variables of \<open>arzl_decompress\<close>: range and code (\<open>v10\<close>, \<open>v7\<close>), the input pointer as an
  offset (\<open>input_1\<close>), the table \<open>v109\<close>, the output buffer with the pointer \<open>v8\<close> as an offset, the
  history \<open>v11\<close> and the last byte \<open>v9\<close>.
\<close>

record arzl =
  rng :: u32
  code :: u32
  inp :: nat
  tab :: "u8 list"
  outb :: "u8 list"
  outp :: nat
  hist :: nat
  lastb :: nat

text \<open>
  The constants of one run: the input, the address of the output buffer (the contexts depend on
  the low bits of the output pointer), and the shift \<open>v6\<close> of the literal context.
\<close>

record arzl_cfg =
  input :: "u8 list"
  obase :: u64
  lshift :: nat

text \<open>
  Accesses that the C code would make outside of its buffers; the model stops there. The C code goes on: \<open>InputEnd\<close> is a
  read behind the input, \<open>TableIndex\<close> an access to the stack beside \<open>v109\<close> or a table of constants, of which nothing is
  known; \<open>OutputIndex\<close> would be an access outside of the output buffer.
\<close>

datatype arzl_fault = InputEnd | TableIndex | OutputIndex

section \<open>The range decoder\<close>

definition arzl_normalize :: "arzl_cfg \<Rightarrow> arzl \<Rightarrow> arzl_fault + arzl" where
  "arzl_normalize k s =
    (if drop_bit 24 (rng s) = 0
     then (if inp s + 5 < length (input k)
       then Inr (s\<lparr>rng := push_bit 8 (rng s),
                   code := ucast (input k ! (inp s + 5)) + push_bit 8 (code s), inp := inp s + 1\<rparr>)
       else Inl InputEnd)
     else Inr s)"

text \<open>
  One bit with the probability \<open>v109[a]\<close>, which moves by its \<open>2 ^ - sh\<close>-th part: \<open>sh = 3\<close> with
  the increment 31 for the trees of literals and distances, \<open>sh = 4\<close> with 15 elsewhere.
\<close>

definition arzl_bit :: "arzl_cfg \<Rightarrow> nat \<Rightarrow> u8 \<Rightarrow> nat \<Rightarrow> arzl \<Rightarrow> arzl_fault + (nat \<times> arzl)" where
  "arzl_bit k sh up a s =
    (if a < length (tab s)
     then let p = tab s ! a in
       ebind (arzl_normalize k s) (\<lambda>s.
         let bound = ucast p * drop_bit 8 (rng s); q = p - drop_bit sh p in
         if bound \<le> code s
         then Inr (0, s\<lparr>rng := rng s - bound, code := code s - bound, tab := (tab s)[a := q]\<rparr>)
         else Inr (1, s\<lparr>rng := bound, tab := (tab s)[a := q + up]\<rparr>))
     else Inl TableIndex)"

text \<open>\<open>n\<close> bits of equal probability, without a step of the input in between.\<close>

fun arzl_direct :: "nat \<Rightarrow> nat \<Rightarrow> arzl \<Rightarrow> nat \<times> arzl" where
  "arzl_direct 0 v s = (v, s)"
| "arzl_direct (Suc n) v s =
    (let s = s\<lparr>rng := drop_bit 1 (rng s)\<rparr> in
     if code s < rng s then arzl_direct n (1 + 2 * v) s
     else arzl_direct n (2 * v) (s\<lparr>code := code s - rng s\<rparr>))"

section \<open>Literals\<close>

text \<open>\<open>v9 = j + 1\<close> is the node of the tree; the bits go on while it is at most 255.\<close>

function arzl_literal_bits :: "arzl_cfg \<Rightarrow> nat \<Rightarrow> nat \<Rightarrow> arzl \<Rightarrow> arzl_fault + (nat \<times> arzl)" where
  "arzl_literal_bits k b j s =
    ebind (arzl_bit k 3 31 (b + j) s) (\<lambda>(bit, s).
      let v9 = 2 * (j + 1) + bit in
      if v9 \<le> 255 then arzl_literal_bits k b (v9 - 1) s else Inr (v9, s))"
  by pat_completeness auto
termination by (relation "measure (\<lambda>(k, b, j, s). 256 - j)") auto

declare arzl_literal_bits.simps [simp del]

definition arzl_literal :: "arzl_cfg \<Rightarrow> arzl \<Rightarrow> arzl_fault + arzl" where
  "arzl_literal k s =
    (let addr = obase k + of_nat (outp s);
         v12 = (of_nat (lastb s) AND 0xFFFFF8FF) OR push_bit 8 (ucast (addr AND 7)) :: u32;
         b = 255 * unat (drop_bit (lshift k) v12 AND 7)
     in ebind (arzl_literal_bits k b 0 s) (\<lambda>(v9, s). Inr (s\<lparr>lastb := v9\<rparr>)))"

text \<open>\<open>*i = v9\<close> and \<open>v8 = i + 1\<close>.\<close>

definition arzl_emit :: "arzl \<Rightarrow> arzl_fault + arzl" where
  "arzl_emit s = (if outp s < length (outb s)
     then Inr (s\<lparr>outb := (outb s)[outp s := of_nat (lastb s)], outp := outp s + 1\<rparr>)
     else Inl OutputIndex)"

section \<open>Lengths and distances\<close>

text \<open>The unary prefix: \<open>v28\<close> from -1, at most seven bits; \<open>r\<close> of them are left.\<close>

fun arzl_prefix :: "arzl_cfg \<Rightarrow> nat \<Rightarrow> arzl \<Rightarrow> arzl_fault + (int \<times> arzl)" where
  "arzl_prefix k 0 s = Inr (6, s)"
| "arzl_prefix k (Suc r) s =
    ebind (arzl_bit k 4 15 (hist s + 2928 + 8 * (6 - r)) s) (\<lambda>(bit, s).
      if bit = 1 then (if r = 0 then Inr (6, s) else arzl_prefix k r s)
      else Inr (5 - int r, s))"

definition arzl_low_bits :: "arzl_cfg \<Rightarrow> nat \<Rightarrow> nat \<Rightarrow> nat \<Rightarrow> arzl \<Rightarrow> arzl_fault + (nat \<times> arzl)" where
  "arzl_low_bits k a m v s =
    (if m \<noteq> 0 then
       ebind (arzl_bit k 4 15 (a + 8) s) (\<lambda>(bit, s).
         let v = 2 * v + bit in
         if m \<noteq> 1 then ebind (arzl_bit k 4 15 (a + 16) s) (\<lambda>(bit, s). Inr (2 * v + bit, s))
         else Inr (v, s))
     else Inr (v, s))"

definition arzl_mid_bits :: "arzl_cfg \<Rightarrow> nat \<Rightarrow> nat \<Rightarrow> nat \<Rightarrow> nat \<Rightarrow> arzl \<Rightarrow> arzl_fault + (nat \<times> arzl)" where
  "arzl_mid_bits k a m v v41 s =
    (if m \<noteq> 3 then
       ebind (arzl_bit k 4 15 a s) (\<lambda>(bit, s).
         let v = v41 + bit in
         if m \<noteq> 4 then ebind (arzl_normalize k s) (\<lambda>s. Inr (arzl_direct (m - 4) v s))
         else Inr (v, s))
     else Inr (v, s))"

definition arzl_number :: "arzl_cfg \<Rightarrow> nat \<Rightarrow> nat \<Rightarrow> arzl \<Rightarrow> arzl_fault + (nat \<times> arzl)" where
  "arzl_number k a m s =
    ebind (arzl_bit k 4 15 a s) (\<lambda>(bit, s).
      let v41 = (if bit = 0 then 4 else 6); v = (if bit = 0 then 2 else 3) in
      ebind (if m \<ge> 3
             then ebind (arzl_mid_bits k a m v v41 s) (\<lambda>(v, s).
               ebind (arzl_bit k 4 15 (a + 24) s) (\<lambda>(bit, s). Inr (2 * v + bit, s)))
             else Inr (v, s))
        (\<lambda>(v, s). arzl_low_bits k a m v s))"

definition arzl_length :: "arzl_cfg \<Rightarrow> nat \<Rightarrow> arzl \<Rightarrow> arzl_fault + (nat \<times> arzl)" where
  "arzl_length k v28 s =
    (let addr = obase k + of_nat (outp s);
         i = (32 * of_nat v28) OR (8 * (push_bit v28 (ucast addr) AND 3)) OR (of_nat (hist s) AND 7) :: u32
     in arzl_number k (unat i + 2984) v28 s)"

text \<open>
  The tree of the distance slot: \<open>v61 = 8 * (j + 1)\<close>, the base \<open>v34\<close> relative to the table (it may
  be -1 there), the limit \<open>v105\<close> in units of 8.
\<close>

function arzl_slot_bits :: "arzl_cfg \<Rightarrow> int \<Rightarrow> nat \<Rightarrow> nat \<Rightarrow> arzl \<Rightarrow> arzl_fault + (nat \<times> arzl)" where
  "arzl_slot_bits k v34 lim j s =
    (let a = v34 + 8 * (int j + 1) + 2033 in
     if a < 0 then Inl TableIndex else
     ebind (arzl_bit k 3 31 (nat a) s) (\<lambda>(bit, s).
       let v61 = 2 * (j + 1) + bit in
       if v61 < lim then arzl_slot_bits k v34 lim (v61 - 1) s else Inr (v61 - lim, s)))"
  by pat_completeness auto
termination by (relation "measure (\<lambda>(k, v34, lim, j, s). lim - j)") auto

declare arzl_slot_bits.simps [simp del]

definition arzl_distance :: "arzl_cfg \<Rightarrow> int \<Rightarrow> nat \<Rightarrow> nat \<Rightarrow> arzl \<Rightarrow> arzl_fault + (nat \<times> arzl)" where
  "arzl_distance k v28 len slot s =
    (if slot \<noteq> 0 then
       let v67 = (if len > 2 then 1 else 0) :: u32;
           i = (8 * (push_bit (slot - 1) v67 AND 3)) OR (32 * of_nat (slot - 1)) OR (word_of_int v28 AND 7) :: u32
       in ebind (arzl_number k (unat i + 2344) (slot - 1) s) (\<lambda>(v, s). Inr (v - 1, s))
     else Inr (0, s))"

section \<open>The copy of a match\<close>

text \<open>\<open>v95\<close> runs to \<open>v96\<close>; the byte after the last one stays in \<open>v9\<close> and is written by the loop head.\<close>

fun arzl_copy :: "nat \<Rightarrow> nat \<Rightarrow> arzl \<Rightarrow> arzl_fault + arzl" where
  "arzl_copy 0 dist s = Inr s"
| "arzl_copy (Suc n) dist s =
    ebind (arzl_emit s) (\<lambda>s.
      if outp s < dist + 1 \<or> length (outb s) \<le> outp s - (dist + 1) then Inl OutputIndex
      else arzl_copy n dist (s\<lparr>lastb := unat (outb s ! (outp s - (dist + 1)))\<rparr>))"

datatype arzl_result = Done nat nat | Error u32

datatype arzl_match = Matched arzl | Stopped arzl_result

definition arzl_copy_match :: "nat \<Rightarrow> nat \<Rightarrow> arzl \<Rightarrow> arzl_fault + arzl_match" where
  "arzl_copy_match len dist s =
    (if outp s \<le> dist then Inr (Stopped (Error 0x80560200))
     else if \<not> outp s + len < length (outb s) then Inr (Stopped (Error 0x80560201))
     else ebind (arzl_copy len dist (s\<lparr>lastb := unat (outb s ! (outp s - (dist + 1)))\<rparr>))
       (\<lambda>s. Inr (Matched (s\<lparr>hist := 7\<rparr>))))"

definition arzl_match :: "arzl_cfg \<Rightarrow> arzl \<Rightarrow> arzl_fault + arzl_match" where
  "arzl_match k s =
    ebind (arzl_prefix k 7 s) (\<lambda>(v28, s).
      ebind (if v28 = -1 then Inr (1, s) else arzl_length k (nat v28) s) (\<lambda>(len, s).
        if v28 \<noteq> -1 \<and> len = 255 then Inr (Stopped (Done (outp s) (inp s + 5)))
        else
          let (v34, lim) = (if v28 = -1 \<or> len = 2 then (v28 + 248, 8) else (v28, 32)) in
          ebind (arzl_slot_bits k v34 lim 0 s) (\<lambda>(slot, s).
            ebind (arzl_distance k v28 len slot s) (\<lambda>(dist, s).
              arzl_copy_match len dist s))))"

section \<open>The main loop\<close>

text \<open>The output position never moves back: what the termination of the loop rests on.\<close>

definition same_out :: "arzl \<Rightarrow> arzl \<Rightarrow> bool" where
  "same_out s s' \<longleftrightarrow> length (outb s') = length (outb s) \<and> outp s' = outp s"

definition adv_out :: "arzl \<Rightarrow> arzl \<Rightarrow> bool" where
  "adv_out s s' \<longleftrightarrow> length (outb s') = length (outb s) \<and> outp s \<le> outp s'"

lemma normalize_out: "arzl_normalize k s = Inr s' \<Longrightarrow> same_out s s'"
  by (auto simp: arzl_normalize_def same_out_def split: if_splits)

lemma bit_out: "arzl_bit k sh up a s = Inr (b, s') \<Longrightarrow> same_out s s'"
  by (auto simp: arzl_bit_def arzl_normalize_def same_out_def ebind_Inr Let_def split: if_splits)

lemma direct_out: "arzl_direct n v s = (w, s') \<Longrightarrow> same_out s s'"
  by (induction n v s rule: arzl_direct.induct) (auto simp: same_out_def Let_def split: if_splits)

lemma same_out_trans [trans]: "same_out a b \<Longrightarrow> same_out b c \<Longrightarrow> same_out a c"
  by (simp add: same_out_def)

lemma literal_bits_out: "arzl_literal_bits k b j s = Inr (v, s') \<Longrightarrow> same_out s s'"
proof (induction k b j s rule: arzl_literal_bits.induct)
  case (1 k b j s)
  from 1(2) obtain bt s1 where a: "arzl_bit k 3 31 (b + j) s = Inr (bt, s1)"
      "(if 2 * (j + 1) + bt \<le> 255 then arzl_literal_bits k b (2 * (j + 1) + bt - 1) s1
        else Inr (2 * (j + 1) + bt, s1)) = Inr (v, s')"
    by (simp only: arzl_literal_bits.simps [of k b j s] ebind_Inr Let_def split_paired_Ex prod.case) blast
  then show ?case using bit_out [OF a(1)] 1(1) [OF a(1) refl refl] same_out_trans
    by (auto split: if_splits)
qed

lemma literal_out: "arzl_literal k s = Inr s' \<Longrightarrow> same_out s s'"
  unfolding arzl_literal_def Let_def
  by (auto simp: ebind_Inr same_out_def dest!: literal_bits_out)

lemma prefix_out: "arzl_prefix k r s = Inr (v, s') \<Longrightarrow> same_out s s'"
proof (induction r arbitrary: s)
  case (Suc r)
  then show ?case by (auto simp: ebind_Inr split: if_splits dest!: bit_out intro: same_out_trans)
qed (simp add: same_out_def)

lemma number_out: "arzl_number k a m s = Inr (v, s') \<Longrightarrow> same_out s s'"
proof -
  have low: "arzl_low_bits k a m v s = Inr (w, s') \<Longrightarrow> same_out s s'" for v s w s'
    unfolding arzl_low_bits_def Let_def
    by (auto simp: ebind_Inr same_out_def split: if_splits dest!: bit_out)
  have mid: "arzl_mid_bits k a m v u s = Inr (w, s') \<Longrightarrow> same_out s s'" for v u s w s'
    unfolding arzl_mid_bits_def Let_def
    by (auto simp: ebind_Inr same_out_def split: if_splits dest!: bit_out normalize_out direct_out)
  show "arzl_number k a m s = Inr (v, s') \<Longrightarrow> same_out s s'"
    unfolding arzl_number_def Let_def
    by (auto simp: ebind_Inr same_out_def split: if_splits dest!: bit_out mid low)
qed

lemma slot_bits_out: "arzl_slot_bits k v34 lim j s = Inr (v, s') \<Longrightarrow> same_out s s'"
proof (induction k v34 lim j s rule: arzl_slot_bits.induct)
  case (1 k v34 lim j s)
  let ?a = "v34 + 8 * (int j + 1) + 2033"
  from 1(2) obtain bt s1 where a: "\<not> ?a < 0" "arzl_bit k 3 31 (nat ?a) s = Inr (bt, s1)"
      "(if 2 * (j + 1) + bt < lim then arzl_slot_bits k v34 lim (2 * (j + 1) + bt - 1) s1
        else Inr (2 * (j + 1) + bt - lim, s1)) = Inr (v, s')"
    by (auto simp: arzl_slot_bits.simps [of k v34 lim j s] ebind_Inr Let_def split: if_splits)
  then show ?case using bit_out [OF a(2)] 1(1) [OF refl a(1,2) refl refl] same_out_trans
    by (auto split: if_splits)
qed

lemma emit_out: "arzl_emit s = Inr s' \<Longrightarrow> length (outb s') = length (outb s) \<and> outp s' = outp s + 1 \<and> outp s < length (outb s)"
  by (auto simp: arzl_emit_def split: if_splits)

lemma copy_out: "arzl_copy n d s = Inr s' \<Longrightarrow> adv_out s s'"
proof (induction n arbitrary: s)
  case (Suc n)
  then show ?case by (fastforce simp: ebind_Inr adv_out_def split: if_splits dest!: emit_out)
qed (simp add: adv_out_def)

lemma copy_match_out: "arzl_copy_match len d s = Inr (Matched s') \<Longrightarrow> adv_out s s'"
  by (auto simp: arzl_copy_match_def ebind_Inr adv_out_def split: if_splits dest!: copy_out)

lemma match_out:
  assumes "arzl_match k s = Inr (Matched s')"
  shows "adv_out s s'"
proof -
  have len: "arzl_length k v s1 = Inr (l, s2) \<Longrightarrow> same_out s1 s2" for v s1 l s2
    by (auto simp: arzl_length_def Let_def dest: number_out)
  have dist: "arzl_distance k v l sl s1 = Inr (d, s2) \<Longrightarrow> same_out s1 s2" for v l sl s1 d s2
    by (auto simp: arzl_distance_def Let_def ebind_Inr same_out_def split: if_splits dest!: number_out)
  obtain v28 s1 where a: "arzl_prefix k 7 s = Inr (v28, s1)" and b: "ebind (if v28 = -1 then Inr (1, s1) else arzl_length k (nat v28) s1) (\<lambda>(len, s).
        if v28 \<noteq> -1 \<and> len = 255 then Inr (Stopped (Done (outp s) (inp s + 5)))
        else let (v34, lim) = (if v28 = -1 \<or> len = 2 then (v28 + 248, 8) else (v28, 32)) in
          ebind (arzl_slot_bits k v34 lim 0 s) (\<lambda>(slot, s).
            ebind (arzl_distance k v28 len slot s) (\<lambda>(dist, s). arzl_copy_match len dist s))) = Inr (Matched s')"
    using assms by (auto simp: arzl_match_def ebind_Inr)
  obtain l s2 where c: "(if v28 = -1 then Inr (1, s1) else arzl_length k (nat v28) s1) = Inr (l, s2)"
    and d: "(let (v34, lim) = (if v28 = -1 \<or> l = 2 then (v28 + 248, 8) else (v28, 32)) in
          ebind (arzl_slot_bits k v34 lim 0 s2) (\<lambda>(slot, s).
            ebind (arzl_distance k v28 l slot s) (\<lambda>(dist, s). arzl_copy_match l dist s))) = Inr (Matched s')"
    using b by (auto simp: ebind_Inr split: if_splits)
  obtain v34 lim where e: "(if v28 = -1 \<or> l = 2 then (v28 + 248, 8) else (v28, 32)) = (v34, lim :: nat)" by fastforce
  from d [unfolded e] obtain sl s3 dd s4 where "arzl_slot_bits k v34 lim 0 s2 = Inr (sl, s3)"
      "arzl_distance k v28 l sl s3 = Inr (dd, s4)" "arzl_copy_match l dd s4 = Inr (Matched s')"
    by (auto simp: ebind_Inr)
  with a c slot_bits_out dist copy_match_out have "same_out s s1" "same_out s2 s3" "same_out s3 s4" "adv_out s4 s'"
    by (auto dest: prefix_out)
  moreover have "same_out s1 s2" using c len by (auto simp: same_out_def split: if_splits)
  ultimately show ?thesis by (simp add: same_out_def adv_out_def)
qed

text \<open>
  \<open>True\<close>: the head of the outer loop, where the next literal is decoded; \<open>False\<close>: the head of the
  inner one, which writes the pending byte and decodes the match flag.
\<close>

function arzl_loop :: "arzl_cfg \<Rightarrow> bool \<Rightarrow> arzl \<Rightarrow> arzl_fault + (arzl \<times> arzl_result)" where
  "arzl_loop k True s =
    (if outp s = length (outb s) then Inr (s, Error 0x80560201)
     else ebind (arzl_literal k s) (arzl_loop k False))"
| "arzl_loop k False s =
    ebind (arzl_emit s) (\<lambda>s1.
      ebind (arzl_bit k 4 15 (hist s1 + 2920) s1) (\<lambda>(bit, s2).
        if bit = 0 then arzl_loop k True (s2\<lparr>hist := hist s2 - 1\<rparr>)
        else ebind (arzl_match k s2) (\<lambda>r.
          case r of Stopped x \<Rightarrow> Inr (s2, x) | Matched s3 \<Rightarrow> arzl_loop k False s3)))"
  by pat_completeness auto
termination
  by (relation "measure (\<lambda>(k, lit, s). 2 * (length (outb s) - outp s) + (if lit then 1 else 0))")
    (auto simp: same_out_def adv_out_def dest!: literal_out emit_out bit_out match_out)

declare arzl_loop.simps [simp del]

definition be32_at :: "u8 list \<Rightarrow> nat \<Rightarrow> u32" where
  "be32_at bs i = push_bit 24 (ucast (bs ! i)) OR push_bit 16 (ucast (bs ! (i + 1)))
     OR push_bit 8 (ucast (bs ! (i + 2))) OR ucast (bs ! (i + 3))"

definition arzl_start :: "u8 list \<Rightarrow> u8 list \<Rightarrow> arzl" where
  "arzl_start buffer inb = \<lparr>rng = -1, code = be32_at inb 1, inp = 0,
     tab = replicate 3240 (16 * (8 - (drop_bit 3 (inb ! 0) AND 3)) AND 0xF0),
     outb = buffer, outp = 0, hist = 0, lastb = 0\<rparr>"

text \<open>The result with the output buffer; \<open>base\<close> is the address of \<open>buffer\<close>. A run that indexes outside of the tables is
  followed up to that access only.\<close>

definition arzl_decompress :: "u64 \<Rightarrow> u8 list \<Rightarrow> u8 list \<Rightarrow> arzl_fault + (u8 list \<times> arzl_result)" where
  "arzl_decompress base buffer inb =
    (if length inb < 5 then Inl InputEnd
     else if inb ! 0 AND 0x80 = 0 then
       ebind (arzl_loop \<lparr>input = inb, obase = base, lshift = unat (inb ! 0 AND 7)\<rparr> True (arzl_start buffer inb))
         (\<lambda>(s, r). Inr (outb s, r))
     else let n = unat (be32_at inb 1) in
       if length buffer < n then Inr (buffer, Error 0x80560201)
       else if length inb < n + 5 then Inl InputEnd
       else Inr (put_bytes buffer 0 (take n (drop 5 inb)), Done n (n + 5)))"

section \<open>What one decoding step leaves alone\<close>

text \<open>
  A step of the decoder reads at most \<open>n\<close> further bytes of the input, all of them inside it, and
  changes nothing but range, code, input position and table entries.
\<close>

definition dstep :: "arzl_cfg \<Rightarrow> nat \<Rightarrow> arzl \<Rightarrow> arzl \<Rightarrow> bool" where
  "dstep k n s s' \<longleftrightarrow> outb s' = outb s \<and> outp s' = outp s \<and> hist s' = hist s \<and>
     length (tab s') = length (tab s) \<and> inp s \<le> inp s' \<and> inp s' \<le> inp s + n \<and>
     (inp s + 5 \<le> length (input k) \<longrightarrow> inp s' + 5 \<le> length (input k))"

lemma dstep_refl: "dstep k n s s"
  by (simp add: dstep_def)

lemma dstep_trans: "dstep k m s1 s2 \<Longrightarrow> dstep k n s2 s3 \<Longrightarrow> dstep k (m + n) s1 s3"
  by (auto simp: dstep_def)

lemma dstep_mono: "dstep k m s1 s2 \<Longrightarrow> m \<le> n \<Longrightarrow> dstep k n s1 s2"
  by (auto simp: dstep_def)

lemma dstep_tab: "dstep k m s1 s2 \<Longrightarrow> length (tab s2) = length (tab s1)"
  by (simp add: dstep_def)

lemma normalize_runs: "runs {InputEnd} (dstep k 1 s) (arzl_normalize k s)"
  by (auto simp: arzl_normalize_def dstep_def)

lemma bit_runs:
  assumes "a < length (tab s)"
  shows "runs {InputEnd} (\<lambda>(b, s'). b \<le> 1 \<and> dstep k 1 s s') (arzl_bit k sh up a s)"
  unfolding arzl_bit_def Let_def if_P [OF assms]
  by (rule runs_ebind [OF normalize_runs]) (auto simp: dstep_def)

lemma direct_step: "dstep k 0 s (snd (arzl_direct n v s))"
  by (induction n v s rule: arzl_direct.induct) (auto simp: dstep_def Let_def)

lemma direct_range: "fst (arzl_direct n v s) \<in> {v * 2 ^ n..<(v + 1) * 2 ^ n}"
proof (induction n v s rule: arzl_direct.induct)
  case (2 n v s)
  let ?s = "s\<lparr>rng := drop_bit 1 (rng s)\<rparr>"
  have d: "{(2 * v + b) * 2 ^ n..<(2 * v + b + 1) * 2 ^ n} \<subseteq> {v * 2 ^ Suc n..<(v + 1) * 2 ^ Suc n}" if "b \<le> 1" for b
  proof -
    have "(2 * v + b) * 2 ^ n \<ge> v * 2 ^ Suc n" by (simp add: algebra_simps)
    moreover have "(2 * v + b + 1) * 2 ^ n \<le> (v + 1) * 2 ^ Suc n" using that by (cases b) (simp_all add: algebra_simps)
    ultimately show ?thesis by auto
  qed
  show ?case
  proof (cases "code ?s < rng ?s")
    case True
    then have "arzl_direct (Suc n) v s = arzl_direct n (1 + 2 * v) ?s" by (simp add: Let_def)
    then show ?thesis using 2(1) [OF refl True] d [of 1] by (auto simp: add.commute)
  next
    case False
    then have "arzl_direct (Suc n) v s = arzl_direct n (2 * v) (?s\<lparr>code := code ?s - rng ?s\<rparr>)" by (simp add: Let_def)
    then show ?thesis using 2(2) [OF refl False] d [of 0] by auto
  qed
qed simp

lemma literal_bits_runs:
  assumes "b + 255 \<le> length (tab s)" "j < 255" "2 ^ (8 - n) \<le> j + 1" "n \<le> 8" "0 < n"
  shows "runs {InputEnd} (\<lambda>(v, s'). 256 \<le> v \<and> v \<le> 511 \<and> dstep k n s s') (arzl_literal_bits k b j s)"
  using assms
proof (induction n arbitrary: j s)
  case (Suc n)
  show ?case
    unfolding arzl_literal_bits.simps [of k b j s]
  proof (rule runs_ebind [OF bit_runs])
    show "b + j < length (tab s)" using Suc.prems by simp
    fix x :: "nat \<times> arzl"
    assume x: "case x of (bt, s') \<Rightarrow> bt \<le> 1 \<and> dstep k 1 s s'"
    obtain bt s1 where [simp]: "x = (bt, s1)" by (cases x)
    let ?v = "2 * (j + 1) + bt"
    have pw: "2 ^ (8 - n) \<le> ?v" if "n > 0"
    proof -
      have "8 - n = Suc (8 - Suc n)" using Suc.prems(4) by simp
      then show ?thesis using Suc.prems(3) by simp
    qed
    show "runs {InputEnd} (\<lambda>(v, s'). 256 \<le> v \<and> v \<le> 511 \<and> dstep k (Suc n) s s')
      (case x of (bt, s) \<Rightarrow> let v9 = 2 * (j + 1) + bt in
         if v9 \<le> 255 then arzl_literal_bits k b (v9 - 1) s else Inr (v9, s))"
    proof (cases "?v \<le> 255")
      case True
      have "n > 0"
      proof (rule ccontr)
        assume "\<not> 0 < n"
        then show False using Suc.prems(3) True by simp
      qed
      have "runs {InputEnd} (\<lambda>(v, s'). 256 \<le> v \<and> v \<le> 511 \<and> dstep k n s1 s') (arzl_literal_bits k b (?v - 1) s1)"
        by (rule Suc.IH) (use Suc.prems x True pw [OF \<open>n > 0\<close>] \<open>n > 0\<close> dstep_tab [of k 1 s s1] in auto)
      then show ?thesis using True x dstep_trans [of k 1 s s1 n]
        by (auto elim!: runs_mono)
    next
      case False
      then show ?thesis using x Suc.prems(2) by (auto intro: dstep_mono)
    qed
  qed
qed simp

lemma slot_bits_runs:
  assumes "v34 + 8 * 2 ^ e + 2033 \<le> int (length (tab s))" "-1 \<le> v34" "j + 1 < 2 ^ e" "2 ^ (e - n) \<le> j + 1" "n \<le> e" "0 < n"
  shows "runs {InputEnd} (\<lambda>(v, s'). v < 2 ^ e \<and> dstep k n s s') (arzl_slot_bits k v34 (2 ^ e) j s)"
  using assms
proof (induction n arbitrary: j s)
  case (Suc n)
  let ?a = "v34 + 8 * (int j + 1) + 2033"
  have j: "int j + 1 < 2 ^ e"
    using Suc.prems(3) of_nat_less_iff [where ?'a = int, of "j + 1" "2 ^ e"] by (simp add: add.commute)
  then have "?a < v34 + 8 * 2 ^ e + 2033" by simp
  also have "\<dots> \<le> int (length (tab s))" using Suc.prems(1) by simp
  finally have "?a < int (length (tab s))" .
  moreover have "0 \<le> ?a" using Suc.prems(2) by simp
  ultimately have a: "nat ?a < length (tab s)" "\<not> ?a < 0" by simp_all
  show ?case
    unfolding arzl_slot_bits.simps [of k v34 "2 ^ e" j s] Let_def if_not_P [OF a(2)]
  proof (rule runs_ebind [OF bit_runs [OF a(1)]])
    fix x :: "nat \<times> arzl"
    assume x: "case x of (bt, s') \<Rightarrow> bt \<le> 1 \<and> dstep k 1 s s'"
    obtain bt s1 where [simp]: "x = (bt, s1)" by (cases x)
    let ?v = "2 * (j + 1) + bt"
    show "runs {InputEnd} (\<lambda>(v, s'). v < 2 ^ e \<and> dstep k (Suc n) s s')
      (case x of (bt, s) \<Rightarrow> if 2 * (j + 1) + bt < 2 ^ e then arzl_slot_bits k v34 (2 ^ e) (2 * (j + 1) + bt - 1) s
         else Inr (2 * (j + 1) + bt - 2 ^ e, s))"
    proof (cases "?v < 2 ^ e")
      case True
      have "2 ^ Suc (e - Suc n) \<le> ?v" using Suc.prems(4) by simp
      moreover have "Suc (e - Suc n) = e - n" using Suc.prems(5) by simp
      ultimately have pw: "2 ^ (e - n) \<le> ?v" by simp
      with True have "n > 0" by (cases n) auto
      have "runs {InputEnd} (\<lambda>(v, s'). v < 2 ^ e \<and> dstep k n s1 s') (arzl_slot_bits k v34 (2 ^ e) (?v - 1) s1)"
        by (rule Suc.IH) (use Suc.prems x True pw \<open>n > 0\<close> dstep_tab [of k 1 s s1] in auto)
      then show ?thesis using True x dstep_trans [of k 1 s s1 n] by (auto elim!: runs_mono)
    next
      case False
      then show ?thesis using x Suc.prems(3) by (auto intro: dstep_mono)
    qed
  qed
qed simp

lemma prefix_runs:
  assumes "length (tab s) = 3240" "hist s \<le> 7" "r \<le> 7"
  shows "runs {InputEnd} (\<lambda>(v, s'). -1 \<le> v \<and> v \<le> 6 \<and> dstep k r s s') (arzl_prefix k r s)"
  using assms
proof (induction r arbitrary: s)
  case 0
  then show ?case by (simp add: dstep_refl)
next
  case (Suc r)
  show ?case
    unfolding arzl_prefix.simps
  proof (rule runs_ebind [OF bit_runs])
    show "hist s + 2928 + 8 * (6 - r) < length (tab s)" using Suc.prems by simp
    fix x :: "nat \<times> arzl"
    assume x: "case x of (bt, s') \<Rightarrow> bt \<le> 1 \<and> dstep k 1 s s'"
    obtain bt s1 where [simp]: "x = (bt, s1)" by (cases x)
    have "runs {InputEnd} (\<lambda>(v, s'). -1 \<le> v \<and> v \<le> 6 \<and> dstep k r s1 s') (arzl_prefix k r s1)"
      using Suc x by (intro Suc.IH) (auto simp: dstep_def)
    then show "runs {InputEnd} (\<lambda>(v, s'). -1 \<le> v \<and> v \<le> 6 \<and> dstep k (Suc r) s s')
      (case x of (bt, s) \<Rightarrow> if bt = 1 then if r = 0 then Inr (6, s) else arzl_prefix k r s else Inr (5 - int r, s))"
      using x Suc.prems(3) dstep_trans [of k 1 s s1 r] dstep_mono [of k 1 s s1 "Suc r"]
      by (auto elim!: runs_mono)
  qed
qed

section \<open>The numbers\<close>

lemma bit_runs':
  assumes "a < 3240" "length (tab s0) = 3240" "dstep k m s0 s"
  shows "runs {InputEnd} (\<lambda>(b, s'). b \<le> 1 \<and> dstep k (Suc m) s0 s') (arzl_bit k sh up a s)"
  using bit_runs [of a s k sh up] assms dstep_trans [of k m s0 s 1] by (auto simp: dstep_tab elim!: runs_mono)

lemma low_bits_runs:
  assumes "a + 24 < 3240" "length (tab s0) = 3240" "dstep k n s0 s"
    "v \<in> {2 ^ (m + 1 - min m 2)..<2 ^ (m + 2 - min m 2)}"
  shows "runs {InputEnd} (\<lambda>(v, s'). 2 ^ (m + 1) \<le> v \<and> v < 2 ^ (m + 2) \<and> dstep k (n + 2) s0 s') (arzl_low_bits k a m v s)"
proof -
  consider "m = 0" | "m = 1" | "m \<ge> 2" by linarith
  then show ?thesis
  proof cases
    case 1
    then show ?thesis using assms by (auto simp: arzl_low_bits_def intro: dstep_mono)
  next
    case 2
    show ?thesis
      unfolding arzl_low_bits_def Let_def 2
      by simp (rule runs_ebind [OF bit_runs' [OF _ assms(2,3)]], use assms 2 in \<open>auto elim!: dstep_mono\<close>)
  next
    case 3
    then obtain q where q: "m = q + 2" by (metis add.commute le_Suc_ex)
    have v: "2 ^ (q + 1) \<le> v" "v < 2 ^ (q + 2)" using assms(4) by (simp_all add: q)
    have snd: "runs {InputEnd} (\<lambda>(v, s'). 2 ^ (q + 3) \<le> v \<and> v < 2 ^ (q + 4) \<and> dstep k (n + 2) s0 s')
        (ebind (arzl_bit k 4 15 (a + 16) s1) (\<lambda>(b', s). Inr (2 * (2 * v + b) + b', s)))"
      if "b \<le> 1" "dstep k (Suc n) s0 s1" for b s1
      by (rule runs_ebind [OF bit_runs' [OF _ assms(2) that(2)]]) (use assms(1) v that(1) in \<open>auto simp: power_add\<close>)
    have eq: "arzl_low_bits k a m v s = ebind (arzl_bit k 4 15 (a + 8) s) (\<lambda>(b, s).
        ebind (arzl_bit k 4 15 (a + 16) s) (\<lambda>(b', s). Inr (2 * (2 * v + b) + b', s)))"
      using 3 by (simp add: arzl_low_bits_def Let_def)
    have m: "m + 1 = q + 3" "m + 2 = q + 4" using q by simp_all
    show ?thesis
      unfolding eq m
    proof (rule runs_ebind [OF bit_runs' [OF _ assms(2,3)]])
      show "a + 8 < 3240" using assms(1) by simp
      fix x :: "nat \<times> arzl"
      assume "case x of (b, s') \<Rightarrow> b \<le> 1 \<and> dstep k (Suc n) s0 s'"
      then show "runs {InputEnd} (\<lambda>(v, s'). 2 ^ (q + 3) \<le> v \<and> v < 2 ^ (q + 4) \<and> dstep k (n + 2) s0 s')
        (case x of (b, s) \<Rightarrow> ebind (arzl_bit k 4 15 (a + 16) s) (\<lambda>(b', s). Inr (2 * (2 * v + b) + b', s)))"
        using snd by (cases x) simp
    qed
  qed
qed

lemma mid_bits_runs:
  assumes "a + 24 < 3240" "length (tab s0) = 3240" "dstep k n s0 s" "3 \<le> m" "v \<in> {2, 3}" "v41 = 2 * v"
  shows "runs {InputEnd} (\<lambda>(v, s'). 2 ^ (m - 2) \<le> v \<and> v < 2 ^ (m - 1) \<and> dstep k (n + 2) s0 s') (arzl_mid_bits k a m v v41 s)"
proof (cases "m = 3")
  case True
  then show ?thesis using assms by (auto simp: arzl_mid_bits_def elim!: dstep_mono)
next
  case False
  obtain q where q: "m = q + 4" using False assms(4) that [of "m - 4"] by simp
  have eq: "arzl_mid_bits k a m v v41 s = ebind (arzl_bit k 4 15 a s) (\<lambda>(b, s).
      if q \<noteq> 0 then ebind (arzl_normalize k s) (\<lambda>s. Inr (arzl_direct q (v41 + b) s)) else Inr (v41 + b, s))"
  proof -
    have "m - 4 = q" "(m \<noteq> 4) = (q \<noteq> 0)" "(m \<noteq> 3) = True" using q by auto
    then show ?thesis by (simp only: arzl_mid_bits_def Let_def if_True)
  qed
  have m: "m - 2 = q + 2" "m - 1 = q + 3" using q by simp_all
  show ?thesis
    unfolding eq m
  proof (rule runs_ebind [OF bit_runs' [OF _ assms(2,3)]])
    show "a < 3240" using assms(1) by simp
    fix x :: "nat \<times> arzl"
    assume x: "case x of (b, s') \<Rightarrow> b \<le> 1 \<and> dstep k (Suc n) s0 s'"
    obtain b s1 where [simp]: "x = (b, s1)" by (cases x)
    have vb: "4 \<le> v41 + b" "v41 + b < 8" using assms(5,6) x by auto
    show "runs {InputEnd} (\<lambda>(v, s'). 2 ^ (q + 2) \<le> v \<and> v < 2 ^ (q + 3) \<and> dstep k (n + 2) s0 s')
      (case x of (b, s) \<Rightarrow> if q \<noteq> 0 then ebind (arzl_normalize k s) (\<lambda>s. Inr (arzl_direct q (v41 + b) s))
        else Inr (v41 + b, s))"
    proof (cases "q = 0")
      case True
      then show ?thesis using vb x by (auto elim!: dstep_mono)
    next
      case False
      have "2 ^ (q + 2) \<le> fst (arzl_direct q (v41 + b) s') \<and> fst (arzl_direct q (v41 + b) s') < 2 ^ (q + 3)" for s'
      proof -
        have "4 * 2 ^ q \<le> (v41 + b) * 2 ^ q" "(v41 + b + 1) * 2 ^ q \<le> 8 * 2 ^ q" using vb by simp_all
        note le = this
        have "(v41 + b) * 2 ^ q \<le> fst (arzl_direct q (v41 + b) s')"
            "fst (arzl_direct q (v41 + b) s') < (v41 + b + 1) * 2 ^ q"
          using direct_range [of q "v41 + b" s'] by (simp_all only: atLeastLessThan_iff)
        from order_trans [OF le(1) this(1)] less_le_trans [OF this(2) le(2)]
        show ?thesis by (simp add: power_add mult.commute)
      qed
      moreover have "dstep k (n + 2) s0 (snd (arzl_direct q (v41 + b) s'))" if "dstep k 1 s1 s'" for s'
        using x dstep_trans [OF dstep_trans [OF _ that] direct_step] by (simp add: numeral_2_eq_2)
      ultimately show ?thesis
        using False by (auto intro!: runs_ebind [OF normalize_runs] simp: case_prod_beta)
    qed
  qed
qed

lemma number_runs:
  assumes "a + 24 < 3240" "length (tab s) = 3240"
  shows "runs {InputEnd} (\<lambda>(v, s'). 2 ^ (m + 1) \<le> v \<and> v < 2 ^ (m + 2) \<and> dstep k 6 s s') (arzl_number k a m s)"
  unfolding arzl_number_def
proof (rule runs_ebind [OF bit_runs' [OF _ assms(2) dstep_refl [of k 0]]])
  show "a < 3240" using assms(1) by simp
  fix x :: "nat \<times> arzl"
  assume x: "case x of (b, s') \<Rightarrow> b \<le> 1 \<and> dstep k (Suc 0) s s'"
  obtain b s1 where [simp]: "x = (b, s1)" by (cases x)
  define v v41 :: nat where "v = (if b = 0 then 2 else 3)" and "v41 = (if b = 0 then 4 else 6)"
  have v: "v \<in> {2, 3}" "v41 = 2 * v" by (auto simp: v_def v41_def)
  have mid: "runs {InputEnd} (\<lambda>(v, s'). v \<in> {2 ^ (m + 1 - min m 2)..<2 ^ (m + 2 - min m 2)} \<and> dstep k 4 s s')
     (if m \<ge> 3 then ebind (arzl_mid_bits k a m v v41 s1) (\<lambda>(v, s).
        ebind (arzl_bit k 4 15 (a + 24) s) (\<lambda>(bit, s). Inr (2 * v + bit, s))) else Inr (v, s1))"
  proof (cases "m \<ge> 3")
    case True
    then obtain q where q: "m = q + 3" by (metis add.commute le_Suc_ex)
    have "runs {InputEnd} (\<lambda>(v, s'). 2 ^ (q + 2) \<le> v \<and> v < 2 ^ (q + 3) \<and> dstep k 4 s s')
        (ebind (arzl_mid_bits k a m v v41 s1) (\<lambda>(v, s).
          ebind (arzl_bit k 4 15 (a + 24) s) (\<lambda>(bit, s). Inr (2 * v + bit, s))))"
    proof (rule runs_ebind [OF mid_bits_runs [OF assms(1,2) _ True v]])
      show "dstep k 1 s s1" using x by simp
      fix y :: "nat \<times> arzl"
      assume y: "case y of (w, s') \<Rightarrow> 2 ^ (m - 2) \<le> w \<and> w < 2 ^ (m - 1) \<and> dstep k (1 + 2) s s'"
      obtain w s2 where [simp]: "y = (w, s2)" by (cases y)
      have w: "2 ^ (q + 1) \<le> w" "w < 2 ^ (q + 2)" "dstep k 3 s s2" using y q by (simp_all add: numeral_3_eq_3)
      show "runs {InputEnd} (\<lambda>(v, s'). 2 ^ (q + 2) \<le> v \<and> v < 2 ^ (q + 3) \<and> dstep k 4 s s')
        (case y of (v, s) \<Rightarrow> ebind (arzl_bit k 4 15 (a + 24) s) (\<lambda>(bit, s). Inr (2 * v + bit, s)))"
        by simp (rule runs_ebind [OF bit_runs' [OF assms(1,2) w(3)]], use w in \<open>auto simp: power_add\<close>)
    qed
    moreover have "m + 1 - min m 2 = q + 2" "m + 2 - min m 2 = q + 3" using q by simp_all
    ultimately show ?thesis using True by (simp add: add.commute)
  next
    case False
    then have "m = 0 \<or> m = 1 \<or> m = 2" by auto
    then show ?thesis using v x by (auto elim!: dstep_mono)
  qed
  show "runs {InputEnd} (\<lambda>(v, s'). 2 ^ (m + 1) \<le> v \<and> v < 2 ^ (m + 2) \<and> dstep k 6 s s')
     (case x of (bt, s) \<Rightarrow> let v41 = (if bt = 0 then 4 else 6); v = (if bt = 0 then 2 else 3) in
      ebind (if m \<ge> 3 then ebind (arzl_mid_bits k a m v v41 s) (\<lambda>(v, s).
               ebind (arzl_bit k 4 15 (a + 24) s) (\<lambda>(bit, s). Inr (2 * v + bit, s)))
             else Inr (v, s))
        (\<lambda>(v, s). arzl_low_bits k a m v s))"
    unfolding \<open>x = (b, s1)\<close> prod.case Let_def v_def [symmetric] v41_def [symmetric]
    using low_bits_runs [OF assms, of k 4] by (intro runs_ebind [OF mid]) (auto simp: numeral_eq_Suc)
qed

section \<open>Memory safety\<close>

lemma literal_runs:
  assumes "length (tab s) = 3240"
  shows "runs {InputEnd} (\<lambda>s'. dstep k 8 s s') (arzl_literal k s)"
proof -
  have "unat (w AND 7 :: u32) \<le> 7" for w
    using word_and_le1 [of w 7] by (simp add: word_le_nat_alt)
  then have "255 * unat (w AND 7 :: u32) + 255 \<le> 255 * 7 + 255" for w
    by (intro add_right_mono mult_le_mono2)
  then have b: "255 * unat (w AND 7 :: u32) + 255 \<le> length (tab s)" for w
    by (rule order_trans) (simp add: assms)
  show ?thesis
    unfolding arzl_literal_def Let_def
    by (rule runs_ebind [OF literal_bits_runs [OF b, of 0 8]]) (auto simp: dstep_def)
qed

lemma unat_or_bounds:
  fixes a b :: "'a::len word"
  shows "unat (a OR b) \<le> unat a + unat b" "unat a \<le> unat (a OR b)" "unat b \<le> unat (a OR b)"
proof -
  have "uint a + uint b = (uint a AND uint b) + (uint a OR uint b)" by (simp add: plus_and_or)
  moreover have "0 \<le> (uint a AND uint b)" by simp
  ultimately have "uint (a OR b) \<le> uint a + uint b" by (simp add: unsigned_or_eq)
  then show "unat (a OR b) \<le> unat a + unat b" unfolding uint_nat by linarith
  show "unat a \<le> unat (a OR b)" "unat b \<le> unat (a OR b)"
    using le_word_or1 le_word_or2 by (simp_all add: word_le_nat_alt)
qed

lemma unat_and_bound: "unat (w AND c) \<le> unat (c :: 'a::len word)"
  using word_and_le1 [of w c] by (simp add: word_le_nat_alt)

lemma context_index:
  fixes x y w :: u32
  assumes "m < 32" "w = (if m = 27 then 0 else w)"
  defines "i \<equiv> (8 * (w AND 3)) OR (32 * of_nat m) OR (y AND 7)"
  shows "32 * m \<le> unat i" "m \<le> 27 \<Longrightarrow> unat i \<le> 871" "m \<le> 6 \<Longrightarrow> unat i \<le> 223"
proof -
  have w: "unat (w AND 3) \<le> 3" using unat_and_bound [of w 3] by simp
  then have "unat (8 * (w AND 3)) = 8 * unat (w AND 3)" by (simp add: unat_word_ariths)
  moreover have "w AND 3 = 0" if "m = 27" using assms(2) that by simp
  ultimately have a: "unat (8 * (w AND 3)) \<le> (if m = 27 then 0 else 24)" using w by simp
  have b: "unat (32 * of_nat m :: u32) = 32 * m" using assms(1) by (simp add: unat_word_ariths unat_of_nat)
  have c: "unat (y AND 7) \<le> 7" using unat_and_bound [of y 7] by simp
  have hi: "unat i \<le> (if m = 27 then 0 else 24) + 32 * m + 7"
    using a b c unat_or_bounds(1) [of "8 * (w AND 3)" "(32 * of_nat m) OR (y AND 7)"]
      unat_or_bounds(1) [of "32 * of_nat m" "y AND 7"] unfolding i_def by linarith
  show "32 * m \<le> unat i"
    using unat_or_bounds(3) [of "(32 * of_nat m) OR (y AND 7)" "8 * (w AND 3)"]
      unat_or_bounds(2) [of "32 * of_nat m" "y AND 7"] b unfolding i_def by linarith
  show "m \<le> 27 \<Longrightarrow> unat i \<le> 871" using hi by (cases "m = 27") auto
  show "m \<le> 6 \<Longrightarrow> unat i \<le> 223" using hi by (cases "m = 27") auto
qed

lemma length_runs:
  assumes "length (tab s) = 3240" "v28 \<le> 6"
  shows "runs {InputEnd} (\<lambda>(v, s'). 2 \<le> v \<and> dstep k 6 s s') (arzl_length k v28 s)"
proof -
  define w :: u32 where "w = push_bit v28 (ucast (obase k + of_nat (outp s)))"
  define i :: u32 where "i = (8 * (w AND 3)) OR (32 * of_nat v28) OR (of_nat (hist s) AND 7)"
  have "unat i \<le> 223"
    using context_index(3) [of v28 w "of_nat (hist s)"] assms(2) by (simp add: i_def)
  then have "unat i + 2984 + 24 < 3240" by simp
  have "arzl_length k v28 s = arzl_number k (unat i + 2984) v28 s"
    by (simp add: arzl_length_def w_def i_def Let_def ac_simps)
  then show ?thesis
    using number_runs [OF \<open>unat i + 2984 + 24 < 3240\<close> assms(1), where k = k and m = v28]
    by (auto elim!: runs_mono intro: order_trans [of 2 "2 * 2 ^ v28"])
qed

lemma distance_runs:
  assumes "length (tab s) = 3240"
  shows "slot \<le> 28 \<Longrightarrow> runs {InputEnd} (\<lambda>(v, s'). dstep k 6 s s') (arzl_distance k v28 len slot s)"
    "29 \<le> slot \<Longrightarrow> slot \<le> 32 \<Longrightarrow> arzl_distance k v28 len slot s = Inl TableIndex"
proof -
  define w :: u32 where "w = push_bit (slot - 1) (if len > 2 then 1 else 0)"
  define i :: u32 where "i = (8 * (w AND 3)) OR (32 * of_nat (slot - 1)) OR (word_of_int v28 AND 7)"
  have eq: "arzl_distance k v28 len slot s = ebind (arzl_number k (unat i + 2344) (slot - 1) s) (\<lambda>(v, s). Inr (v - 1, s))"
    if "slot \<noteq> 0"
    using that by (simp add: arzl_distance_def Let_def w_def i_def)
  have w27: "8 * (w AND 3) = 8 * ((if slot - 1 = 27 then 0 else w) AND 3)" by (simp add: w_def)
  have ii: "i = (8 * ((if slot - 1 = 27 then 0 else w) AND 3)) OR (32 * of_nat (slot - 1)) OR (word_of_int v28 AND 7)"
    unfolding i_def w27 ..
  note ix = context_index [of "slot - 1" "if slot - 1 = 27 then 0 else w" "word_of_int v28", folded ii]
  show "runs {InputEnd} (\<lambda>(v, s'). dstep k 6 s s') (arzl_distance k v28 len slot s)" if "slot \<le> 28"
  proof (cases "slot = 0")
    case True
    then show ?thesis by (simp add: arzl_distance_def dstep_refl)
  next
    case False
    have "unat i \<le> 871" using ix(2) that False by simp
    then have a: "unat i + 2344 + 24 < 3240" by simp
    show ?thesis
      unfolding eq [OF False] by (rule runs_ebind [OF number_runs [OF a assms]]) auto
  qed
  show "arzl_distance k v28 len slot s = Inl TableIndex" if "29 \<le> slot" "slot \<le> 32"
  proof -
    have "32 * (slot - 1) \<le> unat i" using ix(1) that by simp
    then have "\<not> unat i + 2344 < length (tab s)" using that assms by simp
    then show ?thesis using that by (simp add: eq arzl_number_def arzl_bit_def)
  qed
qed

text \<open>
  The invariant of the main loop: in the inner loop there is room for the pending byte.
\<close>

definition arzl_ok :: "arzl_cfg \<Rightarrow> bool \<Rightarrow> arzl \<Rightarrow> bool" where
  "arzl_ok k lit s \<longleftrightarrow> length (tab s) = 3240 \<and> hist s \<le> 7 \<and> inp s + 5 \<le> length (input k) \<and>
     outp s \<le> length (outb s) \<and> (\<not> lit \<longrightarrow> outp s < length (outb s))"

lemma dstep_ok: "dstep k n s s' \<Longrightarrow> arzl_ok k lit s \<Longrightarrow> arzl_ok k lit s'"
  by (auto simp: dstep_def arzl_ok_def)

lemma copy_runs:
  assumes "dist < outp s" "outp s + n \<le> length (outb s)"
  shows "runs {} (\<lambda>s'. length (outb s') = length (outb s) \<and> outp s' = outp s + n \<and> tab s' = tab s \<and>
    inp s' = inp s) (arzl_copy n dist s)"
  using assms
proof (induction n arbitrary: s)
  case (Suc n)
  let ?s1 = "s\<lparr>outb := (outb s)[outp s := of_nat (lastb s)], outp := outp s + 1\<rparr>"
  have e: "arzl_emit s = Inr ?s1" using Suc.prems by (simp add: arzl_emit_def)
  have b: "\<not> (outp ?s1 < dist + 1 \<or> length (outb ?s1) \<le> outp ?s1 - (dist + 1))" using Suc.prems by auto
  have "runs {} (\<lambda>s'. length (outb s') = length (outb s) \<and> outp s' = outp s + Suc n \<and> tab s' = tab s \<and> inp s' = inp s)
      (arzl_copy n dist (?s1\<lparr>lastb := x\<rparr>))" for x
    using Suc.IH [of "?s1\<lparr>lastb := x\<rparr>"] Suc.prems by (auto elim!: runs_mono)
  then show ?case unfolding arzl_copy.simps e ebind_simps if_not_P [OF b] .
qed simp

definition match_ok :: "arzl_cfg \<Rightarrow> arzl \<Rightarrow> arzl_match \<Rightarrow> bool" where
  "match_ok k s r = (case r of Matched s' \<Rightarrow> arzl_ok k False s' \<and> length (outb s') = length (outb s)
     | Stopped (Done n e) \<Rightarrow> n = outp s \<and> e \<le> length (input k)
     | Stopped (Error c) \<Rightarrow> c \<in> {0x80560200, 0x80560201})"

lemma copy_match_runs:
  assumes "arzl_ok k lit s"
  shows "runs {} (match_ok k s) (arzl_copy_match len dist s)"
proof -
  consider "outp s \<le> dist" | "dist < outp s" "\<not> outp s + len < length (outb s)"
    | "dist < outp s" "outp s + len < length (outb s)" by linarith
  then show ?thesis
  proof cases
    case 3
    then show ?thesis
      unfolding arzl_copy_match_def
      using assms copy_runs [of dist "s\<lparr>lastb := x\<rparr>" len for x]
      by (auto intro!: runs_ebind simp: match_ok_def arzl_ok_def)
  qed (auto simp: arzl_copy_match_def match_ok_def)
qed

lemma match_runs:
  assumes "arzl_ok k lit s"
  shows "runs {InputEnd, TableIndex} (match_ok k s) (arzl_match k s)"
proof -
  have t: "length (tab s) = 3240" "hist s \<le> 7" using assms by (simp_all add: arzl_ok_def)
  have after: "runs {InputEnd, TableIndex} (match_ok k s)
      (ebind (arzl_slot_bits k v34 (2 ^ e) 0 s2) (\<lambda>(slot, s).
        ebind (arzl_distance k v28 len slot s) (\<lambda>(dist, s). arzl_copy_match len dist s)))"
    if "dstep k n s s2" "-1 \<le> v34" "v34 + 8 * 2 ^ e + 2033 \<le> 3240" "e \<le> 5" "0 < e" for n s2 v34 e v28 len
  proof -
    have t2: "length (tab s2) = 3240" using that(1) t(1) by (simp add: dstep_def)
    have sl: "runs {InputEnd, TableIndex} (\<lambda>(v, s'). v < 2 ^ e \<and> dstep k e s2 s') (arzl_slot_bits k v34 (2 ^ e) 0 s2)"
      using slot_bits_runs [of v34 e s2 0 e k] that t2 one_less_power [of "2 :: nat" e]
      by (auto elim!: runs_mono)
    show ?thesis
    proof (rule runs_ebind [OF sl])
      fix x :: "nat \<times> arzl"
      assume x: "case x of (v, s') \<Rightarrow> v < 2 ^ e \<and> dstep k e s2 s'"
      obtain slot s3 where [simp]: "x = (slot, s3)" by (cases x)
      have "(2 :: nat) ^ e \<le> 2 ^ 5" using that(4) by (intro power_increasing) auto
      then have slot: "slot < 32" using x by simp
      have s3: "dstep k (n + e) s s3" using x dstep_trans [OF that(1)] by simp
      then have t3: "length (tab s3) = 3240" using t by (simp add: dstep_def)
      have "runs {InputEnd, TableIndex} (\<lambda>(v, s'). dstep k 6 s3 s') (arzl_distance k v28 len slot s3)"
        using distance_runs [OF t3, of slot k v28 len] slot by (cases "slot \<le> 28") (auto elim!: runs_mono)
      then show "runs {InputEnd, TableIndex} (match_ok k s) (case x of (slot, s) \<Rightarrow>
          ebind (arzl_distance k v28 len slot s) (\<lambda>(dist, s). arzl_copy_match len dist s))"
      proof (simp, elim runs_ebind)
        fix y :: "nat \<times> arzl"
        assume y: "case y of (v, s') \<Rightarrow> dstep k 6 s3 s'"
        obtain d s4 where [simp]: "y = (d, s4)" by (cases y)
        have s4: "dstep k (n + e + 6) s s4" using y dstep_trans [OF s3] by simp
        have "match_ok k s4 = match_ok k s"
          using s4 by (auto simp: match_ok_def dstep_def fun_eq_iff split: arzl_match.split arzl_result.split)
        then show "runs {InputEnd, TableIndex} (match_ok k s) (case y of (dist, s) \<Rightarrow> arzl_copy_match len dist s)"
          using copy_match_runs [OF dstep_ok [OF s4 assms], of len d] by (auto elim!: runs_mono)
      qed
    qed
  qed
  show ?thesis
    unfolding arzl_match_def
  proof (rule runs_ebind)
    show "runs {InputEnd, TableIndex} (\<lambda>(v, s'). -1 \<le> v \<and> v \<le> 6 \<and> dstep k 7 s s') (arzl_prefix k 7 s)"
      using prefix_runs [OF t, of 7 k] by (auto elim!: runs_mono)
    fix x :: "int \<times> arzl"
    assume x: "case x of (v, s') \<Rightarrow> -1 \<le> v \<and> v \<le> 6 \<and> dstep k 7 s s'"
    obtain v28 s1 where [simp]: "x = (v28, s1)" by (cases x)
    have t1: "length (tab s1) = 3240" using x t by (simp add: dstep_def)
    have "nat v28 \<le> 6" using x by (simp add: nat_le_iff)
    then have len: "runs {InputEnd, TableIndex} (\<lambda>(l, s'). dstep k 6 s1 s')
        (if v28 = -1 then Inr (1, s1) else arzl_length k (nat v28) s1)"
      using length_runs [OF t1, of "nat v28" k] x by (auto elim!: runs_mono simp: dstep_refl)
    show "runs {InputEnd, TableIndex} (match_ok k s) (case x of (v28, s) \<Rightarrow>
      ebind (if v28 = -1 then Inr (1, s) else arzl_length k (nat v28) s) (\<lambda>(len, s).
        if v28 \<noteq> -1 \<and> len = 255 then Inr (Stopped (Done (outp s) (inp s + 5)))
        else
          let (v34, lim) = (if v28 = -1 \<or> len = 2 then (v28 + 248, 8) else (v28, 32)) in
          ebind (arzl_slot_bits k v34 lim 0 s) (\<lambda>(slot, s).
            ebind (arzl_distance k v28 len slot s) (\<lambda>(dist, s).
              arzl_copy_match len dist s))))"
      unfolding \<open>x = (v28, s1)\<close> prod.case
    proof (rule runs_ebind [OF len])
      fix y :: "nat \<times> arzl"
      assume y: "case y of (l, s') \<Rightarrow> dstep k 6 s1 s'"
      obtain l s2 where [simp]: "y = (l, s2)" by (cases y)
      have s2: "dstep k 13 s s2" using x y dstep_trans [of k 7 s s1 6 s2] by simp
      then have io: "outp s2 = outp s" "inp s2 + 5 \<le> length (input k)"
        using assms by (simp_all add: dstep_def arzl_ok_def)
      show "runs {InputEnd, TableIndex} (match_ok k s) (case y of (len, s) \<Rightarrow>
        if v28 \<noteq> -1 \<and> len = 255 then Inr (Stopped (Done (outp s) (inp s + 5)))
        else
          let (v34, lim) = (if v28 = -1 \<or> len = 2 then (v28 + 248, 8) else (v28, 32)) in
          ebind (arzl_slot_bits k v34 lim 0 s) (\<lambda>(slot, s).
            ebind (arzl_distance k v28 len slot s) (\<lambda>(dist, s).
              arzl_copy_match len dist s)))"
        using x io after [OF s2, of "v28 + 248" 3 v28 l] after [OF s2, of v28 5 v28 l]
        by (auto simp: match_ok_def)
    qed
  qed
qed

definition result_ok :: "arzl_cfg \<Rightarrow> nat \<Rightarrow> arzl \<times> arzl_result \<Rightarrow> bool" where
  "result_ok k n r \<longleftrightarrow> length (outb (fst r)) = n \<and> (case snd r of
     Done m e \<Rightarrow> m \<le> n \<and> e \<le> length (input k)
   | Error c \<Rightarrow> c \<in> {0x80560200, 0x80560201})"

lemma loop_runs:
  assumes "arzl_ok k lit s"
  shows "runs {InputEnd, TableIndex} (result_ok k (length (outb s))) (arzl_loop k lit s)"
  using assms
proof (induction k lit s rule: arzl_loop.induct)
  case (1 k s)
  show ?case
  proof (cases "outp s = length (outb s)")
    case True
    then show ?thesis by (simp add: arzl_loop.simps(1) [of k s] result_ok_def)
  next
    case False
    have lit: "runs {InputEnd, TableIndex} (dstep k 8 s) (arzl_literal k s)"
      using literal_runs [of s k] 1(2) by (auto simp: arzl_ok_def elim!: runs_mono)
    show ?thesis
      unfolding arzl_loop.simps(1) [of k s] if_not_P [OF False]
    proof (cases "arzl_literal k s")
      case (Inl f)
      then show "runs {InputEnd, TableIndex} (result_ok k (length (outb s))) (ebind (arzl_literal k s) (arzl_loop k False))"
        using lit by simp
    next
      case (Inr s1)
      then have d: "dstep k 8 s s1" using lit by simp
      then have "arzl_ok k False s1" using dstep_ok [OF d 1(2)] False by (auto simp: arzl_ok_def dstep_def)
      then show "runs {InputEnd, TableIndex} (result_ok k (length (outb s))) (ebind (arzl_literal k s) (arzl_loop k False))"
        using 1(1) [OF False Inr] d Inr by (simp add: dstep_def)
    qed
  qed
next
  case (2 k s)
  have "outp s < length (outb s)" using 2(3) by (simp add: arzl_ok_def)
  then obtain s1 where e: "arzl_emit s = Inr s1" by (simp add: arzl_emit_def)
  have ok1: "arzl_ok k True s1" "length (outb s1) = length (outb s)"
    using 2(3) e by (auto simp: arzl_emit_def arzl_ok_def split: if_splits)
  have bt: "runs {InputEnd, TableIndex} (\<lambda>(b, s'). dstep k 1 s1 s') (arzl_bit k 4 15 (hist s1 + 2920) s1)"
    using bit_runs [of "hist s1 + 2920" s1 k 4 15] ok1(1) by (auto simp: arzl_ok_def elim!: runs_mono)
  show ?case
  proof (cases "arzl_bit k 4 15 (hist s1 + 2920) s1")
    case (Inl f)
    then show ?thesis using bt e by (simp add: arzl_loop.simps(2) [of k s])
  next
    case (Inr x)
    obtain b s2 where x: "x = (b, s2)" by (cases x)
    have d: "dstep k 1 s1 s2" using bt Inr x by simp
    have ok2: "arzl_ok k True s2" "length (outb s2) = length (outb s)"
      using dstep_ok [OF d ok1(1)] d ok1(2) by (simp_all add: dstep_def)
    show ?thesis
    proof (cases "b = 0")
      case True
      have "arzl_ok k True (s2\<lparr>hist := hist s2 - 1\<rparr>)" using ok2(1) by (auto simp: arzl_ok_def)
      then show ?thesis
        using 2(1) [OF e Inr x [symmetric] True] True ok2(2) e Inr x by (simp add: arzl_loop.simps(2) [of k s])
    next
      case False
      have m: "runs {InputEnd, TableIndex} (match_ok k s2) (arzl_match k s2)" using match_runs [OF ok2(1)] .
      show ?thesis
      proof (cases "arzl_match k s2")
        case (Inl f)
        then show ?thesis using m False e Inr x by (simp add: arzl_loop.simps(2) [of k s])
      next
        case mr: (Inr r)
        show ?thesis
        proof (cases r)
          case (Matched s3)
          then have "arzl_ok k False s3" "length (outb s3) = length (outb s)"
            using m mr ok2(2) by (simp_all add: match_ok_def)
          then show ?thesis
            using 2(2) [OF e Inr x [symmetric] False mr Matched] False e Inr x mr Matched
            by (simp add: arzl_loop.simps(2) [of k s])
        next
          case (Stopped t)
          have "outp s2 \<le> length (outb s2)" using ok2(1) by (simp add: arzl_ok_def)
          then have "result_ok k (length (outb s)) (s2, t)"
            using m mr ok2(2) Stopped by (cases t) (auto simp: match_ok_def result_ok_def)
          then show ?thesis using False e Inr x mr Stopped by (simp add: arzl_loop.simps(2) [of k s])
        qed
      qed
    qed
  qed
qed

section \<open>The copy as an LZ77 match\<close>

text \<open>\<open>n\<close> bytes, each a copy of the one \<open>d + 1\<close> before it; source and target may overlap.\<close>

fun lz_extend :: "nat \<Rightarrow> nat \<Rightarrow> 'a list \<Rightarrow> 'a list" where
  "lz_extend 0 d xs = xs"
| "lz_extend (Suc n) d xs = lz_extend n d (xs @ [xs ! (length xs - (d + 1))])"

lemma length_lz_extend [simp]: "length (lz_extend n d xs) = length xs + n"
  by (induction n d xs rule: lz_extend.induct) simp_all

lemma lz_extend_snoc:
  "lz_extend (Suc n) d xs = lz_extend n d xs @ [lz_extend n d xs ! (length xs + n - (d + 1))]"
  by (induction n d xs rule: lz_extend.induct) simp_all

lemma copy_lz:
  assumes "dist < outp s" "outp s + n < length (outb s)" "lastb s = unat (outb s ! (outp s - (dist + 1)))"
  shows "\<exists>s'. arzl_copy n dist s = Inr s' \<and> outp s' = outp s + n \<and> length (outb s') = length (outb s) \<and>
    take (outp s') (outb s') = lz_extend n dist (take (outp s) (outb s)) \<and>
    drop (outp s') (outb s') = drop (outp s') (outb s) \<and>
    lastb s' = unat (outb s' ! (outp s' - (dist + 1)))"
  using assms
proof (induction n arbitrary: s)
  case (Suc n)
  let ?b = "(outb s)[outp s := outb s ! (outp s - (dist + 1))]"
  let ?s1 = "s\<lparr>outb := ?b, outp := outp s + 1\<rparr>"
  have e: "arzl_emit s = Inr ?s1" using Suc.prems by (simp add: arzl_emit_def)
  have b: "\<not> (outp ?s1 < dist + 1 \<or> length (outb ?s1) \<le> outp ?s1 - (dist + 1))" using Suc.prems by auto
  let ?s2 = "?s1\<lparr>lastb := unat (outb ?s1 ! (outp ?s1 - (dist + 1)))\<rparr>"
  have "take (outp ?s2) (outb ?s2) = take (outp s) (outb s) @ [outb s ! (outp s - (dist + 1))]"
    using Suc.prems by (simp add: take_Suc_conv_app_nth)
  also have "outb s ! (outp s - (dist + 1)) = take (outp s) (outb s) ! (outp s - (dist + 1))"
    using Suc.prems by simp
  finally have t: "lz_extend n dist (take (outp ?s2) (outb ?s2)) = lz_extend (Suc n) dist (take (outp s) (outb s))"
    using Suc.prems by simp
  have d: "drop (outp s + 1 + n) ?b = drop (outp s + 1 + n) (outb s)" by simp
  obtain s' where "arzl_copy n dist ?s2 = Inr s'" "outp s' = outp ?s2 + n" "length (outb s') = length (outb ?s2)"
      "take (outp s') (outb s') = lz_extend n dist (take (outp ?s2) (outb ?s2))"
      "drop (outp s') (outb s') = drop (outp s') (outb ?s2)" "lastb s' = unat (outb s' ! (outp s' - (dist + 1)))"
    using Suc.IH [of ?s2] Suc.prems by auto
  then show ?case
    unfolding arzl_copy.simps e ebind_simps if_not_P [OF b] t using d by (intro exI [of _ s']) simp
qed simp

section \<open>The branch filter\<close>

definition is_bl :: "u32 \<Rightarrow> bool" where
  "is_bl d \<longleftrightarrow> d AND 0xF800F800 = 0xF800F000"

definition is_movt :: "u32 \<Rightarrow> bool" where
  "is_movt d \<longleftrightarrow> d AND 0x8000FBF0 = 0x0000F2C0"

definition change_stride :: "u32 \<Rightarrow> u32" where
  "change_stride d = drop_bit 27 (d AND 0xF800F800)"

definition bl_field :: "u32 \<Rightarrow> u32" where
  "bl_field d = (drop_bit 16 d AND 0xFFC007FF) OR push_bit 11 (d AND 0x7FF)"

definition bl_word :: "u32 \<Rightarrow> u32" where
  "bl_word v = ((push_bit 16 (v AND 0x7FF) OR 0xF800F000) AND 0xFFFFF800) OR (drop_bit 11 v AND 0x7FF)"

definition movt_swap :: "u32 \<Rightarrow> u32" where
  "movt_swap d = (d AND 0xF0FFFFF0) OR push_bit 24 (d AND 0xF) OR (drop_bit 24 d AND 0xF)"

text \<open>
  The word to write back, if any, and the next position, for the word \<open>d\<close> at offset \<open>p\<close>. Version 1
  adds the offset, every other version subtracts it; version 2 also swaps the fields of \<open>MOVT\<close>.
\<close>

definition deob_word :: "int \<Rightarrow> nat \<Rightarrow> u32 \<Rightarrow> u32 option" where
  "deob_word ver p d =
    (if is_bl d then
       (if ver = 1 then Some (bl_word (bl_field d + of_nat ((p + 4) div 2)))
        else Some (bl_word (bl_field d - of_nat ((p + 4) div 2))))
     else if ver = 2 \<and> is_movt d then Some (movt_swap d)
     else None)"

definition deob_next :: "int \<Rightarrow> nat \<Rightarrow> u32 \<Rightarrow> nat" where
  "deob_next ver p d =
    (if deob_word ver p d = None \<and> change_stride d = 30 then p + 2 else p + 4)"

text \<open>
  \<open>len\<close> is the signed length; the buffer may be longer. \<open>None\<close> is an access behind the buffer.
\<close>

function deob_loop :: "int \<Rightarrow> int \<Rightarrow> nat \<Rightarrow> u8 list \<Rightarrow> u8 list option" where
  "deob_loop ver len p bs =
    (case rd32 bs p of None \<Rightarrow> None
     | Some d \<Rightarrow>
        let bs' = (case deob_word ver p d of None \<Rightarrow> bs | Some w \<Rightarrow> put_bytes bs p (bytes32 w));
            p' = deob_next ver p d
        in if len > int p' then deob_loop ver len p' bs' else Some bs')"
  by pat_completeness auto
termination
  by (relation "measure (\<lambda>(ver, len, p, bs). nat (len - int p))") (auto simp: deob_next_def split: if_splits)

declare deob_loop.simps [simp del]

definition arzl_deobfuscate :: "u8 list \<Rightarrow> int \<Rightarrow> int \<Rightarrow> (u8 list \<times> int) option" where
  "arzl_deobfuscate bs len ver =
    (if len \<noteq> 0 then map_option (\<lambda>bs. (bs, len)) (deob_loop ver len 0 bs) else Some (bs, len))"

section \<open>The driver\<close>

text \<open>
  \<open>realloc (outbuf, n)\<close> gives a block of \<open>n\<close> bytes at \<open>fst (alloc n)\<close> with the contents
  \<open>snd (alloc n)\<close>. \<open>None\<close>: the loop never ends.
\<close>

definition result_code :: "arzl_result \<Rightarrow> u32" where
  "result_code r = (case r of Done n _ \<Rightarrow> of_nat n | Error c \<Rightarrow> c)"

partial_function (option) unarzl_loop ::
    "(u32 \<Rightarrow> u64 \<times> u8 list) \<Rightarrow> u8 list \<Rightarrow> u32 \<Rightarrow> (arzl_fault + (u32 \<times> u8 list)) option" where
  "unarzl_loop alloc inb max_len =
    (case arzl_decompress (fst (alloc (max_len * 2))) (snd (alloc (max_len * 2))) (drop 4 inb) of
       Inl f \<Rightarrow> Some (Inl f)
     | Inr (buf, r) \<Rightarrow>
         (if result_code r = 0x80560201 then unarzl_loop alloc inb (max_len * 2)
          else Some (Inr (result_code r, buf))))"

text \<open>
  \<open>len < 0\<close> compares an unsigned value: that branch is never taken. The result is the new size and
  the buffer; the outer \<open>None\<close> also stands for an access of the filter behind the buffer.
\<close>

definition unarzl :: "(u32 \<Rightarrow> u64 \<times> u8 list) \<Rightarrow> u8 list \<Rightarrow> u32 \<Rightarrow> (arzl_fault + (u32 \<times> u8 list)) option" where
  "unarzl alloc inb sz = do {
     r \<leftarrow> unarzl_loop alloc inb sz;
     (case r of Inl f \<Rightarrow> Some (Inl f)
      | Inr (len, buf) \<Rightarrow> do {
          (buf, _) \<leftarrow> arzl_deobfuscate buf (sint len) 2;
          Some (Inr (len, buf)) }) }"

section \<open>The branch filter is invertible\<close>

lemma bit_bl_masks:
  "bit (0xF800F800::int) n \<longleftrightarrow> 11 \<le> n \<and> n \<le> 15 \<or> 27 \<le> n \<and> n \<le> 31"
  "bit (0xF800F000::int) n \<longleftrightarrow> 12 \<le> n \<and> n \<le> 15 \<or> 27 \<le> n \<and> n \<le> 31"
  "bit (0xFFC007FF::int) n \<longleftrightarrow> n \<le> 10 \<or> 22 \<le> n \<and> n \<le> 31"
  "bit (0x7FF::int) n \<longleftrightarrow> n \<le> 10"
  "bit (0xFFFFF800::int) n \<longleftrightarrow> 11 \<le> n \<and> n \<le> 31"
  "bit (0x7FF0000::int) n \<longleftrightarrow> 16 \<le> n \<and> n \<le> 26"
  "bit (0x3FF800::int) n \<longleftrightarrow> 11 \<le> n \<and> n \<le> 21"
proof -
  have c: "(0xF800F800::int) = push_bit 11 (mask 5) OR push_bit 27 (mask 5)"
    "(0xF800F000::int) = push_bit 12 (mask 4) OR push_bit 27 (mask 5)"
    "(0xFFC007FF::int) = mask 11 OR push_bit 22 (mask 10)" "(0x7FF::int) = mask 11"
    "(0xFFFFF800::int) = push_bit 11 (mask 21)" "(0x7FF0000::int) = push_bit 16 (mask 11)"
    "(0x3FF800::int) = push_bit 11 (mask 11)"
    by (simp_all add: mask_eq_exp_minus_1 push_bit_eq_mult)
  note b = bit_push_bit_iff bit_mask_iff bit_or_iff
  show "bit (0xF800F800::int) n \<longleftrightarrow> 11 \<le> n \<and> n \<le> 15 \<or> 27 \<le> n \<and> n \<le> 31" unfolding c b by auto
  show "bit (0xF800F000::int) n \<longleftrightarrow> 12 \<le> n \<and> n \<le> 15 \<or> 27 \<le> n \<and> n \<le> 31" unfolding c b by auto
  show "bit (0xFFC007FF::int) n \<longleftrightarrow> n \<le> 10 \<or> 22 \<le> n \<and> n \<le> 31" unfolding c b by auto
  show "bit (0x7FF::int) n \<longleftrightarrow> n \<le> 10" unfolding c b by auto
  show "bit (0xFFFFF800::int) n \<longleftrightarrow> 11 \<le> n \<and> n \<le> 31" unfolding c b by auto
  show "bit (0x7FF0000::int) n \<longleftrightarrow> 16 \<le> n \<and> n \<le> 26" unfolding c b by auto
  show "bit (0x3FF800::int) n \<longleftrightarrow> 11 \<le> n \<and> n \<le> 21" unfolding c b by auto
qed

lemma is_bl_bits:
  "is_bl d \<longleftrightarrow> (\<forall>n<32. (12 \<le> n \<and> n \<le> 15 \<or> 27 \<le> n) \<longrightarrow> bit d n) \<and> \<not> bit d 11"
proof -
  have "is_bl d \<longleftrightarrow> (\<forall>n<32. bit (d AND 0xF800F800) n = bit (0xF800F000 :: u32) n)"
    by (auto simp: is_bl_def intro: bit_word_eqI)
  also have "\<dots> \<longleftrightarrow> (\<forall>n<32. (bit d n \<and> (11 \<le> n \<and> n \<le> 15 \<or> 27 \<le> n \<and> n \<le> 31)) = (12 \<le> n \<and> n \<le> 15 \<or> 27 \<le> n \<and> n \<le> 31))"
    by (auto simp: bit_and_iff bit_bl_masks)
  also have "\<dots> \<longleftrightarrow> (\<forall>n<32. (12 \<le> n \<and> n \<le> 15 \<or> 27 \<le> n) \<longrightarrow> bit d n) \<and> \<not> bit d 11"
  proof
    assume a: "\<forall>n<32. (bit d n \<and> (11 \<le> n \<and> n \<le> 15 \<or> 27 \<le> n \<and> n \<le> 31)) = (12 \<le> n \<and> n \<le> 15 \<or> 27 \<le> n \<and> n \<le> 31)"
    have "\<not> bit d 11" using a [rule_format, of 11] by simp
    then show "(\<forall>n<32. (12 \<le> n \<and> n \<le> 15 \<or> 27 \<le> n) \<longrightarrow> bit d n) \<and> \<not> bit d 11" using a by auto
  next
    assume a: "(\<forall>n<32. (12 \<le> n \<and> n \<le> 15 \<or> 27 \<le> n) \<longrightarrow> bit d n) \<and> \<not> bit d 11"
    have "(bit d n \<and> (11 \<le> n \<and> n \<le> 15 \<or> 27 \<le> n \<and> n \<le> 31)) = (12 \<le> n \<and> n \<le> 15 \<or> 27 \<le> n \<and> n \<le> 31)"
      if "n < 32" for n using a that by (cases "n = 11") auto
    then show "\<forall>n<32. (bit d n \<and> (11 \<le> n \<and> n \<le> 15 \<or> 27 \<le> n \<and> n \<le> 31)) = (12 \<le> n \<and> n \<le> 15 \<or> 27 \<le> n \<and> n \<le> 31)"
      by blast
  qed
  finally show ?thesis .
qed

lemma bit_bl_word:
  "n < 32 \<Longrightarrow> bit (bl_word v) n \<longleftrightarrow> (if n \<le> 10 then bit v (n + 11) else if 16 \<le> n \<and> n \<le> 26 then bit v (n - 16) else n \<noteq> 11)"
  by (auto simp: bl_word_def bit_simps bit_bl_masks add.commute)

lemma bit_bl_field:
  "is_bl d \<Longrightarrow> n < 32 \<Longrightarrow> bit (bl_field d) n \<longleftrightarrow> (if n \<le> 10 then bit d (n + 16) else n \<le> 21 \<and> bit d (n - 11))"
  by (auto simp: bl_field_def bit_simps bit_bl_masks add.commute dest: bit_imp_le_length)

lemma is_bl_word: "is_bl (bl_word v)"
  by (auto simp: is_bl_bits bit_bl_word)

lemma bl_field_word: "bl_field (bl_word v) = take_bit 22 v"
  by (rule bit_word_eqI) (auto simp: bit_bl_field [OF is_bl_word] bit_bl_word bit_take_bit_iff)

lemma bl_word_take: "bl_word (take_bit 22 v) = bl_word v"
  by (rule bit_word_eqI) (auto simp: bit_bl_word bit_take_bit_iff)

lemma bl_word_field: "is_bl d \<Longrightarrow> bl_word (bl_field d) = d"
proof (rule bit_word_eqI)
  fix n assume d: "is_bl d" and n: "n < LENGTH(32)"
  consider "n \<le> 10" | "n = 11" | "16 \<le> n \<and> n \<le> 26" | "12 \<le> n \<and> n \<le> 15 \<or> 27 \<le> n" by linarith
  then show "bit (bl_word (bl_field d)) n = bit d n"
    by cases (use d n in \<open>auto simp: bit_bl_word bit_bl_field is_bl_bits split: if_splits\<close>)
qed

lemma bl_roundtrip:
  assumes "is_bl d"
  shows "bl_word (bl_field (bl_word (bl_field d + w)) - w) = d"
proof -
  have tb: "take_bit 22 (take_bit 22 x + y) = take_bit 22 (x + y)" for x y :: u32
  proof -
    have ints: "take_bit 22 (a + b) = take_bit 22 (take_bit 32 a + take_bit 32 b)" for a b :: int
      using take_bit_add [of 22 "take_bit 32 a" "take_bit 32 b"] take_bit_add [of 22 a b]
      by (simp add: take_bit_take_bit)
    have hom: "(ucast (a + b :: u32) :: 22 word) = ucast a + ucast b" for a b
      by transfer (simp add: ints [symmetric])
    have tk: "take_bit 22 a = (ucast (ucast a :: 22 word) :: u32)" for a :: u32
      by (rule bit_word_eqI) (auto simp: bit_simps)
    have id: "(ucast (take_bit 22 a) :: 22 word) = ucast a" for a :: u32
      by (rule bit_word_eqI) (auto simp: bit_simps)
    have "(ucast (take_bit 22 x + y) :: 22 word) = ucast (x + y)" unfolding hom id ..
    then show ?thesis unfolding tk [of "take_bit 22 x + y"] tk [of "x + y"] by simp
  qed
  have "take_bit 22 (take_bit 22 (bl_field d + w) - w) = take_bit 22 (bl_field d)"
    using tb [of "bl_field d + w" "- w"] by simp
  then have "bl_word (take_bit 22 (bl_field d + w) - w) = bl_word (bl_field d)"
    using bl_word_take [of "take_bit 22 (bl_field d + w) - w"] bl_word_take [of "bl_field d"] by simp
  then show ?thesis by (simp add: bl_field_word bl_word_field assms)
qed

lemma rd32_bit:
  assumes "rd32 bs p = Some d" "n < 32"
  shows "bit d n \<longleftrightarrow> bit (bs ! (p + n div 8)) (n mod 8)" "p + n div 8 < length bs"
proof -
  have d: "d = join32 (bs ! p) (bs ! (p + 1)) (bs ! (p + 2)) (bs ! (p + 3))" "p + 3 < length bs"
    using assms(1) by (auto simp: rd32_def split: if_splits)
  obtain q r where n: "n = 8 * q + r" "r < 8" "q < 4"
    using assms(2) that [of "n div 8" "n mod 8"] by simp
  then have qr: "n div 8 = q" "n mod 8 = r" by simp_all
  have q: "q = 0 \<or> q = 1 \<or> q = 2 \<or> q = 3" using n(3) by auto
  then have "bit d (8 * q + r) \<longleftrightarrow> bit (bs ! (p + q)) r"
    using n(2) unfolding d(1) join32_def by (elim disjE) (auto simp: bit_simps u8_bit_high)
  then show "bit d n \<longleftrightarrow> bit (bs ! (p + n div 8)) (n mod 8)" unfolding qr by (simp add: n(1))
  show "p + n div 8 < length bs" unfolding qr using q d(2) by auto
qed

lemma rd32_length: "rd32 bs p = Some d \<Longrightarrow> p + 3 < length bs"
  by (simp add: rd32_def split: if_splits)

text \<open>A pass from \<open>p\<close> on neither reads nor writes what lies before \<open>p\<close>.\<close>

lemma rd32_prefix: "length pre = p \<Longrightarrow> p \<le> q \<Longrightarrow> q \<le> length bs \<Longrightarrow> rd32 (pre @ drop p bs) q = rd32 bs q"
  by (auto simp: rd32_def nth_append)

lemma put_bytes_prefix:
  "length pre = p \<Longrightarrow> p \<le> q \<Longrightarrow> q + length xs \<le> length bs \<Longrightarrow>
    put_bytes (pre @ drop p bs) q xs = pre @ drop p (put_bytes bs q xs)"
  by (rule nth_equalityI) (auto simp: put_bytes_def nth_append min_def)

lemma deob_loop_frame:
  assumes "deob_loop ver len p bs = Some r"
  shows "length r = length bs \<and> take p r = take p bs \<and>
    (\<forall>pre p0. length pre = p0 \<longrightarrow> p0 \<le> p \<longrightarrow> deob_loop ver len p (pre @ drop p0 bs) = Some (pre @ drop p0 r))"
  using assms
proof (induction ver len p bs rule: deob_loop.induct)
  case (1 ver len p bs)
  obtain d where d: "rd32 bs p = Some d"
    using 1(2) by (auto simp: deob_loop.simps [of ver len p bs] split: option.splits)
  have lp: "p + 3 < length bs" using d by (rule rd32_length)
  define b1 where "b1 = (case deob_word ver p d of None \<Rightarrow> bs | Some w \<Rightarrow> put_bytes bs p (bytes32 w))"
  define p1 where "p1 = deob_next ver p d"
  have p1: "p \<le> p1" by (simp add: p1_def deob_next_def)
  have b1: "length b1 = length bs" "take p b1 = take p bs"
    using lp by (auto simp: b1_def put_bytes_def split: option.split)
  have ex: "deob_loop ver len p bs = (if len > int p1 then deob_loop ver len p1 b1 else Some b1)"
    by (simp add: deob_loop.simps [of ver len p bs] d b1_def p1_def Let_def)
  have pre: "deob_loop ver len p (pr @ drop p0 bs)
      = (if len > int p1 then deob_loop ver len p1 (pr @ drop p0 b1) else Some (pr @ drop p0 b1))"
    if "length pr = p0" "p0 \<le> p" for pr p0
  proof -
    have "rd32 (pr @ drop p0 bs) p = Some d" using that lp d by (simp add: rd32_prefix)
    moreover have "(case deob_word ver p d of None \<Rightarrow> pr @ drop p0 bs | Some w \<Rightarrow> put_bytes (pr @ drop p0 bs) p (bytes32 w))
        = pr @ drop p0 b1"
      using that lp by (auto simp: b1_def put_bytes_prefix split: option.split)
    ultimately show ?thesis
      by (simp add: deob_loop.simps [of ver len p "pr @ drop p0 bs"] p1_def Let_def)
  qed
  show ?case
  proof (cases "len > int p1")
    case True
    then have "deob_loop ver len p1 b1 = Some r" using ex 1(2) by simp
    with 1(1) [OF d b1_def p1_def] True
    have IH: "length r = length b1" "take p1 r = take p1 b1"
        "\<And>pr p0. length pr = p0 \<Longrightarrow> p0 \<le> p1 \<Longrightarrow> deob_loop ver len p1 (pr @ drop p0 b1) = Some (pr @ drop p0 r)"
      by auto
    have "take p r = take p (take p1 r)" using p1 by simp
    also have "\<dots> = take p bs" unfolding IH(2) using b1(2) p1 by simp
    finally show ?thesis using IH b1(1) pre True p1 by auto
  next
    case False
    then show ?thesis using ex 1(2) b1 pre by auto
  qed
qed

lemma bit_change_stride: "bit (change_stride d) n \<longleftrightarrow> n < 5 \<and> bit d (n + 27)"
  by (auto simp: change_stride_def bit_simps bit_bl_masks add.commute dest: bit_imp_le_length)

lemma stride_not_bl: "change_stride d = 30 \<Longrightarrow> \<not> bit d 27"
  using bit_change_stride [of d 0] by simp

lemma bl_bit_27: "is_bl d \<Longrightarrow> bit d 27"
  by (simp add: is_bl_bits)

lemma is_bl_mid: "is_bl d \<Longrightarrow> i < 5 \<Longrightarrow> bit d (i + 11) \<longleftrightarrow> i \<noteq> 0"
  unfolding is_bl_bits by (cases "i = 0") simp_all

lemma rd32_top5:
  assumes "rd32 bs p = Some d" "i < 5"
  shows "bit d (i + 11) \<longleftrightarrow> bit (bs ! (p + 1)) (i + 3)" "bit d (i + 27) \<longleftrightarrow> bit (bs ! (p + 3)) (i + 3)"
proof -
  have "(i + 11) div 8 = 1" "(i + 11) mod 8 = i + 3" "(i + 27) div 8 = 3" "(i + 27) mod 8 = i + 3" "i + 11 < 32" "i + 27 < 32"
    using assms(2) by presburger+
  then show "bit d (i + 11) \<longleftrightarrow> bit (bs ! (p + 1)) (i + 3)" "bit d (i + 27) \<longleftrightarrow> bit (bs ! (p + 3)) (i + 3)"
    using rd32_bit(1) [OF assms(1), of "i + 11"] rd32_bit(1) [OF assms(1), of "i + 27"] by metis+
qed

lemma rd32_take:
  assumes "take q r = take q bs" "p + 4 \<le> q" "length r = length bs"
  shows "rd32 r p = rd32 bs p"
proof -
  have "r ! i = bs ! i" if "i < q" for i
    using that assms(1) by (metis nth_take)
  then show ?thesis using assms(2,3) by (simp add: rd32_def)
qed

text \<open>The top five bits of the halfword where a pass starts survive it.\<close>

lemma deob_top:
  assumes "deob_loop ver len q bs = Some r" "ver \<noteq> 2" "i < 5"
  shows "bit (r ! (q + 1)) (i + 3) = bit (bs ! (q + 1)) (i + 3)"
proof -
  obtain d where d: "rd32 bs q = Some d"
    using assms(1) by (auto simp: deob_loop.simps [of ver len q bs] split: option.splits)
  have lq: "q + 3 < length bs" using d by (rule rd32_length)
  define b1 where "b1 = (case deob_word ver q d of None \<Rightarrow> bs | Some w \<Rightarrow> put_bytes bs q (bytes32 w))"
  have ex: "deob_loop ver len q bs = (if len > int (deob_next ver q d) then deob_loop ver len (deob_next ver q d) b1 else Some b1)"
    by (simp add: deob_loop.simps [of ver len q bs] d b1_def Let_def)
  have "take (deob_next ver q d) r = take (deob_next ver q d) b1"
    using ex assms(1) deob_loop_frame [of ver len "deob_next ver q d" b1 r] by (auto split: if_splits)
  moreover have "q + 1 < deob_next ver q d" by (simp add: deob_next_def)
  ultimately have r: "r ! (q + 1) = b1 ! (q + 1)" by (metis nth_take)
  show ?thesis
  proof (cases "is_bl d")
    case True
    have "\<exists>v. deob_word ver q d = Some (bl_word v)"
      using True assms(2) by (cases "ver = 1") (auto simp: deob_word_def)
    then obtain v where "deob_word ver q d = Some (bl_word v)" by blast
    then have "b1 ! (q + 1) = ucast (drop_bit 8 (bl_word v))"
      using lq put_bytes_nth [of q "bytes32 (bl_word v)" bs 1] by (simp add: b1_def bytes32_def)
    moreover have "bit (bs ! (q + 1)) (i + 3) = bit d (i + 11)"
      using rd32_top5(1) [OF d assms(3)] by blast
    moreover have "bit (bl_word v) (i + 11) = bit d (i + 11)"
      using is_bl_mid [OF True assms(3)] is_bl_mid [OF is_bl_word assms(3)] by simp
    ultimately show ?thesis using r assms(3) by (simp add: bit_simps add.commute)
  next
    case False
    then have "b1 = bs" using assms(2) by (simp add: b1_def deob_word_def)
    then show ?thesis using r by simp
  qed
qed

lemma deob_inverse:
  assumes "deob_loop ver len p bs = Some r" "ver = 1"
  shows "deob_loop 0 len p r = Some bs"
  using assms
proof (induction ver len p bs arbitrary: r rule: deob_loop.induct)
  case (1 ver len p bs)
  obtain d where d: "rd32 bs p = Some d"
    using 1(2) by (auto simp: deob_loop.simps [of ver len p bs] split: option.splits)
  have lp: "p + 3 < length bs" using d by (rule rd32_length)
  define b1 where "b1 = (case deob_word ver p d of None \<Rightarrow> bs | Some w \<Rightarrow> put_bytes bs p (bytes32 w))"
  define p1 where "p1 = deob_next ver p d"
  have ex: "deob_loop ver len p bs = (if len > int p1 then deob_loop ver len p1 b1 else Some b1)"
    by (simp add: deob_loop.simps [of ver len p bs] d b1_def p1_def Let_def)
  have lenb: "length b1 = length bs" using lp by (simp add: b1_def split: option.split)
  have fr: "take p1 r = take p1 b1" "length r = length bs"
    using ex 1(2) deob_loop_frame [of ver len p1 b1 r] lenb by (auto split: if_splits)
  have IH: "deob_loop 0 len p1 r = Some b1" if "len > int p1"
    using 1(1) [OF d b1_def p1_def that] ex 1(2,3) that by simp
  have rb: "r = b1" if "\<not> len > int p1" using ex 1(2) that by simp
  show ?case
  proof (cases "is_bl d")
    case True
    define w where "w = bl_word (bl_field d + of_nat ((p + 4) div 2))"
    have w: "deob_word ver p d = Some w" using True 1(3) by (simp add: deob_word_def w_def)
    have p1: "p1 = p + 4" by (simp add: p1_def deob_next_def w)
    have b1: "b1 = put_bytes bs p (bytes32 w)" by (simp add: b1_def w)
    have "rd32 r p = rd32 b1 p" using fr lenb p1 by (intro rd32_take [of p1]) simp_all
    also have "\<dots> = Some w" using lp by (intro rd32_wr32 [of bs]) (simp add: wr32_def b1)
    finally have rw: "rd32 r p = Some w" .
    have bk: "deob_word 0 p w = Some d"
      using is_bl_word bl_roundtrip [OF True] by (simp add: deob_word_def w_def)
    then have nx: "deob_next 0 p w = p1" by (simp add: deob_next_def p1)
    have "put_bytes r p (bytes32 d) = take p1 bs @ drop p1 r"
    proof -
      have "take p r = take p bs"
        using arg_cong [OF fr(1), of "take p"] p1 b1 lp by (simp add: put_bytes_def min_def)
      moreover have "take p1 bs = take p bs @ bytes32 d"
      proof -
        have "d = join32 (bs ! p) (bs ! (p + 1)) (bs ! (p + 2)) (bs ! (p + 3))"
          using d by (simp add: rd32_def split: if_splits)
        then have "bytes32 d = [bs ! p, bs ! (p + 1), bs ! (p + 2), bs ! (p + 3)]" by (simp add: bytes32_join32)
        then show ?thesis using lp p1 by (simp add: take_Suc_conv_app_nth numeral_eq_Suc)
      qed
      ultimately show ?thesis using p1 by (simp add: put_bytes_def)
    qed
    then have "deob_loop 0 len p r = (if len > int p1 then deob_loop 0 len p1 (take p1 bs @ drop p1 r)
        else Some (take p1 bs @ drop p1 r))"
      by (simp add: deob_loop.simps [of 0 len p r] rw bk nx Let_def)
    moreover have dr: "drop p1 b1 = drop p1 bs" using lp p1 by (simp add: b1 put_bytes_def)
    moreover have ln: "length (take p1 bs) = p1" using lp p1 by simp
    moreover have "deob_loop 0 len p1 (take p1 bs @ drop p1 r) = Some bs" if "len > int p1"
    proof -
      have "deob_loop 0 len p1 (take p1 bs @ drop p1 r) = Some (take p1 bs @ drop p1 b1)"
        using deob_loop_frame [OF IH [OF that]] ln by blast
      then show ?thesis by (simp add: dr)
    qed
    ultimately show ?thesis
      using rb by (cases "len > int p1") simp_all
  next
    case False
    then have w: "deob_word ver p d = None" using 1(3) by (simp add: deob_word_def)
    have b1: "b1 = bs" by (simp add: b1_def w)
    obtain e where e: "rd32 r p = Some e" using lp fr(2) by (simp add: rd32_def)
    have same: "\<not> is_bl e \<and> change_stride e = change_stride d"
    proof (cases "change_stride d = 30")
      case True
      have "p1 = p + 2" using True w by (simp add: p1_def deob_next_def)
      then have top: "bit (r ! (p + 3)) (i + 3) = bit (bs ! (p + 3)) (i + 3)" if "i < 5" for i
        using deob_top [of ver len p1 b1 r i] ex 1(2,3) rb that b1 by (cases "len > int p1") (auto simp: numeral_eq_Suc)
      have hi: "bit e (i + 27) = bit d (i + 27)" if "i < 5" for i
        using rd32_top5(2) [OF d that] rd32_top5(2) [OF e that] top [OF that] by blast
      then have "change_stride e = change_stride d" by (auto intro!: bit_word_eqI simp: bit_change_stride)
      moreover have "\<not> is_bl e" using hi [of 0] stride_not_bl [OF True] bl_bit_27 [of e] by auto
      ultimately show ?thesis by simp
    next
      case False
      then have "p1 = p + 4" by (simp add: p1_def deob_next_def)
      then have "rd32 r p = rd32 bs p" using fr b1 by (intro rd32_take [of p1]) simp_all
      then show ?thesis using e d \<open>\<not> is_bl d\<close> by simp
    qed
    then have "deob_word 0 p e = None" "deob_next 0 p e = p1"
      using w by (simp_all add: deob_word_def deob_next_def p1_def)
    then show ?thesis using IH rb b1 by (simp add: deob_loop.simps [of 0 len p r] e Let_def)
  qed
qed


section \<open>Totality of the filter and of the driver\<close>

lemma deob_loop_total:
  assumes "len + 3 \<le> int (length bs)" "int p < len \<or> p = 0 \<and> 4 \<le> length bs"
  shows "\<exists>r. deob_loop ver len p bs = Some r"
  using assms
proof (induction ver len p bs rule: deob_loop.induct)
  case (1 ver len p bs)
  have "p + 3 < length bs" using 1(2,3) by linarith
  then obtain d where d: "rd32 bs p = Some d" by (simp add: rd32_def)
  define b1 where "b1 = (case deob_word ver p d of None \<Rightarrow> bs | Some w \<Rightarrow> put_bytes bs p (bytes32 w))"
  define p1 where "p1 = deob_next ver p d"
  have "length b1 = length bs" using \<open>p + 3 < length bs\<close> by (simp add: b1_def split: option.split)
  then show ?case
    using 1(1) [OF d b1_def p1_def] 1(2) by (simp add: deob_loop.simps [of ver len p bs] d b1_def [symmetric] p1_def [symmetric])
qed

lemma unarzl_loop_unfold:
  "unarzl_loop alloc inb sz =
    (case arzl_decompress (fst (alloc (sz * 2))) (snd (alloc (sz * 2))) (drop 4 inb) of
       Inl f \<Rightarrow> Some (Inl f)
     | Inr (buf, r) \<Rightarrow>
         (if result_code r = 0x80560201 then unarzl_loop alloc inb (sz * 2)
          else Some (Inr (result_code r, buf))))"
  by (rule unarzl_loop.simps)

lemma decompress_no_room:
  assumes "5 \<le> length inb" "inb ! 0 AND 0x80 = 0 \<or> be32_at inb 1 \<noteq> 0"
  shows "arzl_decompress base [] inb = Inr ([], Error 0x80560201)"
  using assms by (auto simp: arzl_decompress_def arzl_start_def arzl_loop.simps Let_def unat_eq_0)

lemma unarzl_loop_stuck:
  assumes "unarzl_loop alloc inb sz = Some y"
  shows "sz = 0 \<longrightarrow> snd (alloc 0) = [] \<longrightarrow> 9 \<le> length inb \<longrightarrow>
    inb ! 4 AND 0x80 = 0 \<or> be32_at (drop 4 inb) 1 \<noteq> 0 \<longrightarrow> False"
proof (rule unarzl_loop.raw_induct [OF _ assms, where P = "\<lambda>alloc inb sz y. sz = 0 \<longrightarrow> snd (alloc 0) = [] \<longrightarrow>
    9 \<le> length inb \<longrightarrow> inb ! 4 AND 0x80 = 0 \<or> be32_at (drop 4 inb) 1 \<noteq> 0 \<longrightarrow> False"])
  fix rec and alloc :: "u32 \<Rightarrow> u64 \<times> u8 list" and inb :: "u8 list" and sz :: u32 and y
  assume IH: "\<And>alloc inb sz y. rec alloc inb sz = Some y \<Longrightarrow> sz = 0 \<longrightarrow> snd (alloc 0) = [] \<longrightarrow>
      9 \<le> length inb \<longrightarrow> inb ! 4 AND 0x80 = 0 \<or> be32_at (drop 4 inb) 1 \<noteq> 0 \<longrightarrow> False"
    and eq: "(case arzl_decompress (fst (alloc (sz * 2))) (snd (alloc (sz * 2))) (drop 4 inb) of
       Inl f \<Rightarrow> Some (Inl f)
     | Inr (buf, r) \<Rightarrow> (if result_code r = 0x80560201 then rec alloc inb (sz * 2) else Some (Inr (result_code r, buf)))) = Some y"
  show "sz = 0 \<longrightarrow> snd (alloc 0) = [] \<longrightarrow> 9 \<le> length inb \<longrightarrow>
      inb ! 4 AND 0x80 = 0 \<or> be32_at (drop 4 inb) 1 \<noteq> 0 \<longrightarrow> False"
  proof (intro impI)
    assume a: "sz = 0" "snd (alloc 0) = []" "9 \<le> length inb" "inb ! 4 AND 0x80 = 0 \<or> be32_at (drop 4 inb) 1 \<noteq> 0"
    have "arzl_decompress (fst (alloc 0)) [] (drop 4 inb) = Inr ([], Error 0x80560201)"
      using a by (intro decompress_no_room) simp_all
    then have "rec alloc inb 0 = Some y" using eq a by (simp add: result_code_def)
    then show False using IH [of alloc inb 0 y] a by blast
  qed
qed

lemma unarzl_loop_returns:
  assumes "\<forall>f. arzl_decompress (fst (alloc (sz * 2 ^ Suc n))) (snd (alloc (sz * 2 ^ Suc n))) (drop 4 inb) = Inr f \<longrightarrow>
    result_code (snd f) \<noteq> 0x80560201"
  shows "\<exists>y. unarzl_loop alloc inb sz = Some y"
  using assms
proof (induction n arbitrary: sz)
  case 0
  then show ?case by (subst unarzl_loop_unfold) (auto split: sum.splits)
next
  case (Suc n)
  have "\<exists>y. unarzl_loop alloc inb (sz * 2) = Some y"
    using Suc by (simp add: mult.assoc)
  then show ?case by (subst unarzl_loop_unfold) (auto split: sum.splits)
qed

section \<open>Evaluation of a concrete block\<close>

lemma ebind_weak_cong: "m = m' \<Longrightarrow> ebind m f = ebind m' f"
  by simp

lemma mask_24: "mask 24 = (0xFFFFFF :: u32)"
  by (simp add: mask_eq_exp_minus_1)

text \<open>Thirteen bits: a literal, a match flag, the shortest length and slot 1, whose distance is too long.\<close>

lemma far_match:
  "arzl_decompress 0 [0, 0, 0, 0] [0, 122, 113, 31, 72, 57, 203] = Inr ([133, 0, 0, 0], Error 0x80560200)"
proof -
  let ?k = "\<lparr>input = [0, 122, 113, 31, 72, 57, 203], obase = 0, lshift = 0\<rparr>"
  have "arzl_loop ?k True \<lparr>rng = -1, code = 2054233928, inp = 0, tab = replicate 3240 0x80, outb = [0, 0, 0, 0],
      outp = 0, hist = 0, lastb = 0\<rparr> =
    Inr (\<lparr>rng = 8388608, code = 7413704, inp = 0,
         tab = (replicate 3240 128) [0 := 143, Suc (Suc 0) := 112, 5 := 112, 11 := 112, 23 := 112,
            47 := 143, 96 := 112, 193 := 143, 2920 := 135],
         outb = [133, 0, 0, 0], outp = 1, hist = 0, lastb = 389\<rparr>, Error 0x80560200)"
    apply (simp add: arzl_loop.simps(1) arzl_literal_def Let_def cong: ebind_weak_cong)
    apply (simp add: arzl_literal_bits.simps arzl_bit_def arzl_normalize_def Let_def nth_list_update mask_24
      cong: ebind_weak_cong)
    apply (simp add: arzl_loop.simps(2) arzl_emit_def arzl_bit_def arzl_normalize_def Let_def nth_list_update mask_24
      cong: ebind_weak_cong)
    apply (simp add: arzl_match_def arzl_prefix.simps(2) [of _ 6, simplified] arzl_bit_def arzl_normalize_def Let_def
      nth_list_update mask_24 cong: ebind_weak_cong)
    apply (simp add: arzl_slot_bits.simps arzl_distance_def arzl_number_def arzl_low_bits_def arzl_copy_match_def
      arzl_bit_def arzl_normalize_def Let_def nth_list_update mask_24 cong: ebind_weak_cong)
    done
  then show ?thesis by (simp add: arzl_decompress_def arzl_start_def be32_at_def)
qed

section \<open>Properties\<close>

text \<open>C2. For every input and every output buffer, the run of the decompressor has one of three ends. It returns, with the buffer's
  length unchanged and either a size within the buffer and an end position within the input, or one of its two
  error codes; or it comes to a read behind the end of the input (\<open>InputEnd\<close>: the code checks no bound of the input); or it comes to
  an index outside of the probability tables (\<open>TableIndex\<close>: the C code then accesses the stack beside them, and nothing
  is claimed of what follows). Up to this end it never writes outside of the output buffer (there is no \<open>OutputIndex\<close>).\<close>

theorem arzl_decompress_safe:
  "runs {InputEnd, TableIndex} (\<lambda>(b', r). length b' = length buffer \<and>
      (case r of Done m e \<Rightarrow> m \<le> length buffer \<and> e \<le> length inb | Error c \<Rightarrow> c \<in> {0x80560200, 0x80560201}))
    (arzl_decompress base buffer inb)"
proof -
  let ?k = "\<lparr>input = inb, obase = base, lshift = unat (inb ! 0 AND 7)\<rparr>"
  have "arzl_ok ?k True (arzl_start buffer inb)" if "5 \<le> length inb"
    using that by (simp add: arzl_ok_def arzl_start_def)
  from loop_runs [OF this] have "runs {InputEnd, TableIndex} (result_ok ?k (length buffer))
      (arzl_loop ?k True (arzl_start buffer inb))" if "5 \<le> length inb"
    using that by (simp add: arzl_start_def)
  then show ?thesis
    unfolding arzl_decompress_def Let_def
    by (auto intro!: runs_ebind simp: result_ok_def not_less split: arzl_result.splits)
qed

text \<open>C6. Emitting the pending byte after a match has been copied appends to the output exactly the
  \<open>len + 1\<close> bytes of the LZ77 match at distance \<open>dist + 1\<close> (which may overlap what it writes), and
  leaves the rest of the buffer alone; a distance behind the start of the output is error
  0x80560200, a match that does not fit is 0x80560201, and neither writes a byte.\<close>

theorem arzl_match_is_lz77:
  "case arzl_copy_match len dist s of
     Inl _ \<Rightarrow> False
   | Inr (Stopped r) \<Rightarrow>
       r = Error (if outp s \<le> dist then 0x80560200 else 0x80560201) \<and> (outp s \<le> dist \<or> length (outb s) \<le> outp s + len)
   | Inr (Matched s1) \<Rightarrow>
       dist < outp s \<and> outp s + len < length (outb s) \<and>
       (\<exists>s2. arzl_emit s1 = Inr s2 \<and> outp s2 = outp s + len + 1 \<and>
         outb s2 = lz_extend (len + 1) dist (take (outp s) (outb s)) @ drop (outp s + len + 1) (outb s))"
proof (cases "outp s \<le> dist \<or> length (outb s) \<le> outp s + len")
  case True
  then show ?thesis by (auto simp: arzl_copy_match_def)
next
  case False
  then have b: "dist < outp s" "outp s + len < length (outb s)" by simp_all
  let ?s = "s\<lparr>lastb := unat (outb s ! (outp s - (dist + 1)))\<rparr>"
  let ?t = "take (outp s) (outb s)"
  obtain s' where s': "arzl_copy len dist ?s = Inr s'" "outp s' = outp s + len" "length (outb s') = length (outb s)"
      "take (outp s') (outb s') = lz_extend len dist ?t"
      "drop (outp s') (outb s') = drop (outp s') (outb s)" "lastb s' = unat (outb s' ! (outp s' - (dist + 1)))"
    using copy_lz [of dist ?s len] b by auto
  let ?s1 = "s'\<lparr>hist := 7\<rparr>"
  let ?c = "outb s' ! (outp s' - (dist + 1))"
  let ?s2 = "?s1\<lparr>outb := (outb s')[outp s' := ?c], outp := outp s' + 1\<rparr>"
  have "?c = lz_extend len dist ?t ! (outp s' - (dist + 1))"
    using b s'(2) unfolding s'(4) [symmetric] by simp
  then have "lz_extend (len + 1) dist ?t = take (outp s') (outb s') @ [?c]"
    using lz_extend_snoc [of len dist ?t] s'(2,4) b by (simp add: min_def)
  moreover have "drop (outp s' + 1) (outb s') = drop (outp s' + 1) (outb s)"
    using arg_cong [OF s'(5), of "drop 1"] by simp
  ultimately have "outb ?s2 = lz_extend (len + 1) dist ?t @ drop (outp s + len + 1) (outb s)"
    using s'(2,3) b by (simp add: upd_conv_take_nth_drop)
  moreover have "arzl_emit ?s1 = Inr ?s2" using s' b by (simp add: arzl_emit_def)
  moreover have "arzl_copy_match len dist s = Inr (Matched ?s1)" using b s'(1) by (simp add: arzl_copy_match_def)
  ultimately show ?thesis using b s'(2) by (auto intro!: exI [of _ ?s2])
qed

text \<open>The slots 0 to 28 index inside of the 3240-byte table of probabilities, whatever the range
  decoder returns; but the slot comes from 32 leaves, and each of the slots 29 to 31 reads and then
  updates bytes behind the table, so that a crafted input corrupts the stack.\<close>

lemma arzl_slot_bounds:
  assumes "length (tab s) = 3240"
  shows "if slot \<le> 28 then runs {InputEnd} (\<lambda>(v, s'). length (tab s') = 3240 \<and> outb s' = outb s) (arzl_distance k v28 len slot s)
    else slot \<le> 31 \<longrightarrow> arzl_distance k v28 len slot s = Inl TableIndex"
  using assms distance_runs [OF assms, of slot k v28 len] by (auto simp: dstep_def elim!: runs_mono)

lemma arzl_slot_bounds_witness:
  "arzl_distance \<lparr>input = [], obase = 0, lshift = 0\<rparr> 3 2 29
     \<lparr>rng = -1, code = 0, inp = 0, tab = replicate 3240 0x80, outb = [], outp = 0, hist = 0, lastb = 0\<rparr> = Inl TableIndex"
  using arzl_slot_bounds [where slot = 29 and len = 2 and k = "\<lparr>input = [], obase = 0, lshift = 0\<rparr>" and ?v28.0 = 3
      and s = "\<lparr>rng = -1, code = 0, inp = 0, tab = replicate 3240 0x80, outb = [], outp = 0, hist = 0, lastb = 0\<rparr>"] by simp

text \<open>A stored block is copied verbatim: with the header bit set, \<open>n\<close> the big-endian length and at
  least \<open>n\<close> bytes behind the five bytes of the header, the result is \<open>n\<close>, the end position is behind
  the data, and the buffer holds them with the rest unchanged.\<close>

lemma arzl_stored:
  assumes "hd hdr AND 0x80 \<noteq> 0" "length hdr = 5" "unat (be32_at hdr 1) = length body" "length body \<le> length buffer"
  shows "arzl_decompress base buffer (hdr @ body @ rest) =
    Inr (body @ drop (length body) buffer, Done (length body) (length body + 5))"
proof -
  have h: "hdr = [hdr ! 0, hdr ! 1, hdr ! 2, hdr ! 3, hdr ! 4]"
    using assms(2) by (intro nth_equalityI) (auto simp: less_Suc_eq numeral_eq_Suc)
  have "be32_at (hdr @ body @ rest) 1 = be32_at hdr 1" using assms(2) by (simp add: be32_at_def nth_append)
  moreover have "(hdr @ body @ rest) ! 0 AND 0x80 \<noteq> 0" using assms(1,2) by (cases hdr) auto
  moreover have "put_bytes buffer 0 body = body @ drop (length body) buffer" by (simp add: put_bytes_def)
  ultimately show ?thesis using assms(2-4) by (simp add: arzl_decompress_def Let_def)
qed

lemma arzl_stored_witness:
  "arzl_decompress 0 [9, 9, 9] ([0x80, 0, 0, 0, 2] @ [5, 6] @ [7]) = Inr ([5, 6] @ [9], Done 2 7)"
  using arzl_stored [of "[0x80, 0, 0, 0, 2]" "[5, 6]" "[9, 9, 9]" 0 "[7]"] by (simp add: be32_at_def)

text \<open>C8. The filter with version 1 is undone, over the same length, by the filter with version 0 (which
  no caller uses; version 2 differs from it by \<open>MOVT\<close>): every branch becomes what it was, and the
  scan, whose stride depends on what it has just rewritten, visits the same words.\<close>

theorem arzl_deobfuscate_inverse:
  assumes "arzl_deobfuscate bs len 1 = Some (r, n)"
  shows "arzl_deobfuscate r len 0 = Some (bs, n) \<and> length r = length bs \<and> n = len"
  using assms deob_inverse [of 1 len 0 bs r] deob_loop_frame [of 1 len 0 bs r]
  by (auto simp: arzl_deobfuscate_def split: if_splits)

theorem arzl_deobfuscate_inverse_witness:
  "arzl_deobfuscate [0, 240, 2, 248] 4 0 = Some ([0, 240, 0, 248], 4)"
proof -
  have "arzl_deobfuscate [0, 240, 0, 248] 4 1 = Some ([0, 240, 2, 248], 4)"
    by code_simp
  from arzl_deobfuscate_inverse [OF this] show ?thesis by simp
qed

text \<open>With three bytes of slack behind \<open>len\<close> the filter stays inside of the buffer, keeps its
  length and returns \<open>len\<close>; without slack it reads behind the end: a six-byte buffer of two
  ordinary halfword pairs is enough.\<close>

lemma arzl_deobfuscate_slack:
  assumes "len + 3 \<le> int (length bs)" "4 \<le> length bs"
  shows "\<exists>r. arzl_deobfuscate bs len ver = Some (r, len) \<and> length r = length bs"
  using deob_loop_total [of len bs 0 ver] deob_loop_frame [of ver len 0 bs] assms
  by (auto simp: arzl_deobfuscate_def)

lemma arzl_deobfuscate_slack_witness:
  "(\<exists>r. arzl_deobfuscate [0, 0, 0, 0, 0, 0, 0, 0, 0] 6 2 = Some (r, 6) \<and> length r = 9) \<and>
    arzl_deobfuscate [0, 0, 0, 0, 0, 0] 6 2 = None"
proof
  show "\<exists>r. arzl_deobfuscate [0, 0, 0, 0, 0, 0, 0, 0, 0] 6 2 = Some (r, 6) \<and> length r = 9"
  proof -
    have n: "length ([0, 0, 0, 0, 0, 0, 0, 0, 0] :: u8 list) = 9" by simp
    show ?thesis using arzl_deobfuscate_slack [of 6 "[0, 0, 0, 0, 0, 0, 0, 0, 0]" 2] unfolding n by simp
  qed
  show "arzl_deobfuscate [0, 0, 0, 0, 0, 0] 6 2 = None" by code_simp
qed

text \<open>The driver doubles the buffer until the output fits: it returns as soon as one of the sizes
  \<open>sz * 2 ^ (n + 1)\<close> (modulo \<open>2 ^ 32\<close>) is accepted; but the size wraps to zero, and from zero on
  no buffer is ever large enough: for any block that is compressed or has a positive stored length
  the loop does not end.\<close>

lemma unarzl_retry:
  assumes "snd (alloc 0) = []" "9 \<le> length inb" "inb ! 4 AND 0x80 = 0 \<or> be32_at (drop 4 inb) 1 \<noteq> 0"
  shows "unarzl_loop alloc inb 0 = None \<and>
    ((\<exists>n b r. arzl_decompress (fst (alloc (sz * 2 ^ Suc n))) (snd (alloc (sz * 2 ^ Suc n))) (drop 4 inb) = Inr (b, r) \<and>
        result_code r \<noteq> 0x80560201) \<longrightarrow> (\<exists>y. unarzl_loop alloc inb sz = Some y))"
proof (intro conjI impI)
  show "unarzl_loop alloc inb 0 = None"
    using assms unarzl_loop_stuck [of alloc inb 0] by (cases "unarzl_loop alloc inb 0") blast+
  assume "\<exists>n b r. arzl_decompress (fst (alloc (sz * 2 ^ Suc n))) (snd (alloc (sz * 2 ^ Suc n))) (drop 4 inb) = Inr (b, r) \<and>
      result_code r \<noteq> 0x80560201"
  then obtain n b r where "arzl_decompress (fst (alloc (sz * 2 ^ Suc n))) (snd (alloc (sz * 2 ^ Suc n))) (drop 4 inb) = Inr (b, r)"
      "result_code r \<noteq> 0x80560201" by blast
  then show "\<exists>y. unarzl_loop alloc inb sz = Some y" by (intro unarzl_loop_returns [of alloc sz n inb]) auto
qed

lemma unarzl_retry_witness:
  "unarzl_loop (\<lambda>n. (0, replicate (unat n) 0)) [0, 0, 0, 0, 0x80, 0, 0, 0, 3, 1, 2, 3] 0 = None \<and>
    (\<exists>y. unarzl_loop (\<lambda>n. (0, replicate (unat n) 0)) [0, 0, 0, 0, 0x80, 0, 0, 0, 3, 1, 2, 3] 1 = Some y)"
proof -
  let ?a = "\<lambda>n :: u32. (0, replicate (unat n) 0) :: u64 \<times> u8 list"
  let ?i = "[0, 0, 0, 0, 0x80, 0, 0, 0, 3, 1, 2, 3] :: u8 list"
  have e: "arzl_decompress 0 [0, 0, 0, 0] [0x80, 0, 0, 0, 3, 1, 2, 3] = Inr ([1, 2, 3, 0], Done 3 8)"
    by code_simp
  have fl: "replicate 4 (0 :: u8) = [0, 0, 0, 0]" by (simp add: numeral_eq_Suc)
  have "\<exists>n b r. arzl_decompress (fst (?a (1 * 2 ^ Suc n))) (snd (?a (1 * 2 ^ Suc n))) (drop 4 ?i) = Inr (b, r) \<and>
      result_code r \<noteq> 0x80560201"
    by (rule exI [of _ 1], simp add: fl e result_code_def)
  moreover have "snd (?a 0) = []" "9 \<le> length ?i" "?i ! 4 AND 0x80 = 0 \<or> be32_at (drop 4 ?i) 1 \<noteq> 0"
    by (simp_all add: be32_at_def)
  ultimately show ?thesis using unarzl_retry [of ?a ?i 1] by blast
qed

text \<open>A format error is not reported: when decompression stops with 0x80560200, \<open>len < 0\<close> compares
  an unsigned value, so \<open>unarzl\<close> does not free the buffer and return NULL but hands it back (with its
  first word filtered) with 0x80560200 as the size of the output.\<close>

lemma unarzl_error_unreported:
  assumes "arzl_decompress (fst (alloc (sz * 2))) (snd (alloc (sz * 2))) (drop 4 inb) = Inr (b, Error 0x80560200)"
    "4 \<le> length b"
  shows "\<exists>b'. unarzl alloc inb sz = Some (Inr (0x80560200, b')) \<and> drop 4 b' = drop 4 b"
proof -
  obtain d where d: "rd32 b 0 = Some d" using assms(2) by (auto simp: rd32_def)
  define b1 where "b1 = (case deob_word 2 0 d of None \<Rightarrow> b | Some w \<Rightarrow> put_bytes b 0 (bytes32 w))"
  have "drop 4 b1 = drop 4 b" using assms(2)
    by (auto simp: b1_def put_bytes_def bytes32_def numeral_eq_Suc split: option.split)
  moreover have "deob_loop 2 (sint (0x80560200 :: u32)) 0 b = Some b1"
    by (simp add: deob_loop.simps [of 2 _ 0 b] d b1_def Let_def)
  ultimately show ?thesis
    by (simp add: unarzl_def unarzl_loop_unfold [of alloc inb sz] assms(1) result_code_def arzl_deobfuscate_def)
qed

lemma unarzl_error_unreported_witness:
  "\<exists>b'. unarzl (\<lambda>n. (0, replicate (unat n) 0)) [65, 82, 90, 76, 0, 122, 113, 31, 72, 57, 203] 2
    = Some (Inr (0x80560200, b')) \<and> drop 4 b' = drop 4 [133, 0, 0, 0]"
proof (rule unarzl_error_unreported)
  have "replicate 4 (0 :: u8) = [0, 0, 0, 0]" by (simp add: numeral_eq_Suc)
  then show "arzl_decompress (fst ((\<lambda>n. (0, replicate (unat n) 0)) (2 * 2 :: u32))) (snd ((\<lambda>n. (0 :: u64, replicate (unat n) 0)) (2 * 2 :: u32)))
      (drop 4 [65, 82, 90, 76, 0, 122, 113, 31, 72, 57, 203]) = Inr ([133, 0, 0, 0], Error 0x80560200)"
    by (simp add: far_match)
qed simp

end
