(* ===== verification/C_Text.thy ===== *)
theory C_Text
  imports Vita_Prelude
begin

text \<open>
  What the components use of the C library's text functions: \<open>strtoul\<close> with base 0 and the number
  formats of \<open>printf\<close>. A C string is a \<open>string\<close> without a NUL character.
\<close>

section \<open>Reading a number\<close>

definition isspace :: "char \<Rightarrow> bool" where
  "isspace c \<longleftrightarrow> of_char c = (32 :: nat) \<or> of_char c \<in> {9..13 :: nat}"

definition digit_val :: "char \<Rightarrow> nat" where
  "digit_val c = (let n = of_char c in
     if 48 \<le> n \<and> n \<le> 57 then n - 48 else if 65 \<le> n \<and> n \<le> 90 then n - 55
     else if 97 \<le> n \<and> n \<le> 122 then n - 87 else 36)"

fun read_digits :: "nat \<Rightarrow> string \<Rightarrow> nat \<Rightarrow> nat \<times> string" where
  "read_digits base [] acc = (acc, [])"
| "read_digits base (c # s) acc =
    (if digit_val c < base then read_digits base s (acc * base + digit_val c) else (acc, c # s))"

fun skip_sign :: "string \<Rightarrow> bool \<times> string" where
  "skip_sign (c # s) = (if c = CHR ''-'' then (True, s) else if c = CHR ''+'' then (False, s) else (False, c # s))"
| "skip_sign [] = (False, [])"

definition base_of :: "string \<Rightarrow> nat \<times> string" where
  "base_of s =
    (if take 1 s = ''0'' then
       (if length s \<ge> 3 \<and> s ! 1 \<in> {CHR ''x'', CHR ''X''} \<and> digit_val (s ! 2) < 16 then (16, drop 2 s) else (8, s))
     else (10, s))"

text \<open>
  \<open>strtoul (s, &end, 0)\<close>: the value and what \<open>end\<close> points to. Without a digit \<open>end\<close> is the whole
  string; a value that does not fit is \<open>ULONG_MAX\<close>; a minus sign negates the unsigned value.
\<close>

definition strtoul0 :: "string \<Rightarrow> u64 \<times> string" where
  "strtoul0 s =
    (let (neg, s2) = skip_sign (dropWhile isspace s);
         (base, s3) = base_of s2;
         (v, r) = read_digits base s3 0
     in if r = s3 then (0, s)
        else (if v \<ge> 2 ^ 64 then - 1 else if neg then - of_nat v else of_nat v, r))"

text \<open>\<open>atoi\<close>, for numbers in the range of \<open>int\<close>.\<close>

definition atoi :: "string \<Rightarrow> int" where
  "atoi s = (let (neg, s2) = skip_sign (dropWhile isspace s); (v, r) = read_digits 10 s2 0
     in if neg then - int v else int v)"

section \<open>Writing a number\<close>

definition digit_char :: "nat \<Rightarrow> char" where
  "digit_char d = char_of (if d < 10 then 48 + d else 55 + d)"

fun dec :: "nat \<Rightarrow> string" where
  "dec n = (if n < 10 then [digit_char n] else dec (n div 10) @ [digit_char (n mod 10)])"

declare dec.simps [simp del]

definition dec_int :: "int \<Rightarrow> string" where
  "dec_int i = (if i < 0 then CHR ''-'' # dec (nat (- i)) else dec (nat i))"

text \<open>\<open>%d\<close> prints the low 32 bits of a \<open>size_t\<close> as a signed number.\<close>

definition fmt_d :: "u64 \<Rightarrow> string" where
  "fmt_d w = dec_int (sint (ucast w :: u32))"

fun hex :: "nat \<Rightarrow> string" where
  "hex n = (if n < 16 then [digit_char n] else hex (n div 16) @ [digit_char (n mod 16)])"

declare hex.simps [simp del]

text \<open>\<open>%x\<close>\<close>

definition hex_lower :: "nat \<Rightarrow> string" where
  "hex_lower n = map (\<lambda>c. let k = of_char c :: nat in if 65 \<le> k then char_of (k + 32) else c) (hex n)"

fun hex_pad :: "nat \<Rightarrow> nat \<Rightarrow> string" where
  "hex_pad 0 n = []"
| "hex_pad (Suc k) n = hex_pad k (n div 16) @ [digit_char (n mod 16)]"

section \<open>Copying\<close>

text \<open>\<open>strncpy\<close> into an array of \<open>n\<close> bytes: a shorter text is filled up with NULs, a longer one has no terminator.\<close>

definition strncpy :: "nat \<Rightarrow> string \<Rightarrow> string" where
  "strncpy n s = take n (s @ replicate n (CHR 0x00))"

section \<open>Facts\<close>

named_theorems text_simps "evaluation of the text functions"

lemma digit_val_char: "d < 16 \<Longrightarrow> digit_val (digit_char d) = d"
proof -
  assume d: "d < 16"
  then have "of_char (digit_char d) = (if d < 10 then 48 + d else 55 + d)"
    by (simp add: digit_char_def of_char_of)
  with d show ?thesis by (simp add: digit_val_def Let_def)
qed

lemma read_digits_app:
  assumes "\<And>c. c \<in> set xs \<Longrightarrow> digit_val c < base"
  shows "read_digits base (xs @ ys) acc = read_digits base ys (foldl (\<lambda>a c. a * base + digit_val c) acc xs)"
  using assms by (induction xs arbitrary: acc) auto

lemma read_digits_all:
  assumes "\<And>c. c \<in> set xs \<Longrightarrow> digit_val c < base"
  shows "read_digits base xs acc = (foldl (\<lambda>a c. a * base + digit_val c) acc xs, [])"
  using read_digits_app [OF assms, of xs "[]"] by simp

lemma read_digits_suffix: "\<exists>p. s = p @ snd (read_digits base s acc)"
proof (induction base s acc rule: read_digits.induct)
  case (2 base c s acc)
  then show ?case by (cases "digit_val c < base") (auto intro: exI [of _ "c # p" for p])
qed simp

lemma set_hex_pad: "c \<in> set (hex_pad k n) \<Longrightarrow> \<exists>d < 16. c = digit_char d"
proof (induction k n rule: hex_pad.induct)
  case (2 k n)
  then show ?case by (cases "c = digit_char (n mod 16)") (auto intro: exI [of _ "n mod 16"])
qed simp

lemma hex_pad_digits: "c \<in> set (hex_pad k n) \<Longrightarrow> digit_val c < 16"
  using set_hex_pad digit_val_char by fastforce

lemma foldl_hex_pad: "foldl (\<lambda>a c. a * 16 + digit_val c) acc (hex_pad k n) = acc * 16 ^ k + n mod 16 ^ k"
proof (induction k n arbitrary: acc rule: hex_pad.induct)
  case (2 k n)
  have "n mod 16 ^ Suc k = 16 * (n div 16 mod 16 ^ k) + n mod 16"
    by (simp add: mod_mult2_eq)
  then show ?case
    unfolding hex_pad.simps foldl_append 2 by (simp add: digit_val_char add_mult_distrib2)
qed simp

lemma hex_pad_Nil [simp]: "hex_pad k n = [] \<longleftrightarrow> k = 0"
  by (cases k) auto

text \<open>\<open>0x\<close> and eight digits of a 32-bit number are read back as that number.\<close>

lemma length_hex_pad [simp]: "length (hex_pad k n) = k"
  by (induction k n rule: hex_pad.induct) auto

lemma strtoul0_hex_pad:
  assumes "0 < k" "k \<le> 16" "n < 16 ^ k"
  shows "strtoul0 (''0x'' @ hex_pad k n) = (of_nat n, [])"
proof -
  let ?h = "hex_pad k n"
  have ne: "[] \<noteq> ?h" using assms(1) by (metis hex_pad_Nil neq0_conv)
  have "?h ! 0 \<in> set ?h" by (rule nth_mem) (use assms(1) in simp)
  then have "digit_val (?h ! 0) < 16" by (rule hex_pad_digits)
  then have b: "base_of (''0x'' @ ?h) = (16, ?h)"
    using assms(1) by (simp add: base_of_def)
  have sg: "skip_sign (dropWhile isspace (''0x'' @ ?h)) = (False, ''0x'' @ ?h)"
    by (simp add: isspace_def)
  have r: "read_digits 16 ?h 0 = (n mod 16 ^ k, [])"
    by (simp add: read_digits_all hex_pad_digits foldl_hex_pad)
  have "(16 :: nat) ^ k \<le> 16 ^ 16" using assms(2) by (intro power_increasing) simp_all
  then have "\<not> 2 ^ 64 \<le> n" using assms(3) by simp
  moreover have "n mod 16 ^ k = n" using assms(3) by simp
  ultimately show ?thesis
    using ne unfolding strtoul0_def sg b r Let_def prod.case by simp
qed

lemma strtoul0_hex: "strtoul0 (''0x'' @ hex_pad 8 (unat (w :: u32))) = (ucast w, [])"
  using strtoul0_hex_pad [of 8 "unat w"] unsigned_less [of w, where ?'a = nat] by (simp add: unsigned_ucast_eq)

lemma strtoul0_hex64: "strtoul0 (''0x'' @ hex_pad 16 (unat (w :: u64))) = (w, [])"
  using strtoul0_hex_pad [of 16 "unat w"] unsigned_less [of w, where ?'a = nat] by simp

text \<open>Decimal numbers: their digits, their length, and the number that they stand for.\<close>

lemma set_dec: "c \<in> set (dec n) \<Longrightarrow> \<exists>d < 10. c = digit_char d"
proof (induction n rule: dec.induct)
  case (1 n)
  show ?case
  proof (cases "n < 10")
    case True
    then show ?thesis using 1(2) by (auto simp: dec.simps [of n])
  next
    case False
    then have "c \<in> set (dec (n div 10)) \<or> c = digit_char (n mod 10)" using 1(2) by (auto simp: dec.simps [of n])
    then show ?thesis using 1(1) [OF False] by (auto intro: exI [of _ "n mod 10"])
  qed
qed

lemma dec_value: "foldl (\<lambda>a c. a * 10 + digit_val c) 0 (dec n) = n"
proof (induction n rule: dec.induct)
  case (1 n)
  show ?case
  proof (cases "n < 10")
    case True
    then show ?thesis by (simp add: dec.simps [of n] digit_val_char)
  next
    case False
    then show ?thesis using 1 [OF False] by (simp add: dec.simps [of n] digit_val_char)
  qed
qed

lemma dec_inj: "dec m = dec n \<longleftrightarrow> m = n"
  by (metis dec_value)

lemma length_dec: "n < 10 ^ Suc k \<Longrightarrow> length (dec n) \<le> Suc k"
proof (induction k arbitrary: n)
  case 0
  then show ?case by (simp add: dec.simps [of n])
next
  case (Suc k)
  then have "n div 10 < 10 ^ Suc k" by (simp add: less_mult_imp_div_less)
  then show ?case using Suc.IH [of "n div 10"] by (simp add: dec.simps [of n])
qed

lemma dash_notin_dec: "CHR ''-'' \<notin> set (dec n)"
proof
  assume "CHR ''-'' \<in> set (dec n)"
  then obtain d where d: "d < 10" "CHR ''-'' = digit_char d" using set_dec by blast
  have "digit_val (CHR ''-'') = d" unfolding d(2) by (rule digit_val_char) (use d in simp)
  then show False using d(1) by (simp add: digit_val_def)
qed

end
