(* ===== verification/YamlTree.thy ===== *)
theory YamlTree
  imports C_Text
begin

text \<open>
  \<open>import/yamltree.c\<close> and \<open>import/yamltreeutil.c\<close> (THGN and vitadecompiler-mod hold the same files):
  the tree of a YAML document, built by recursive descent over the events of libyaml with one event
  of lookahead. libyaml is not part of the sources: the parser is a parameter, the event that the
  \<open>n\<close>-th call of \<open>yaml_parser_parse\<close> delivers and the error it leaves in the parser.
\<close>

section \<open>Events and trees\<close>

datatype yaml_event_type =
    YAML_NO_EVENT | YAML_STREAM_START_EVENT | YAML_STREAM_END_EVENT | YAML_DOCUMENT_START_EVENT
  | YAML_DOCUMENT_END_EVENT | YAML_ALIAS_EVENT | YAML_SCALAR_EVENT | YAML_SEQUENCE_START_EVENT
  | YAML_SEQUENCE_END_EVENT | YAML_MAPPING_START_EVENT | YAML_MAPPING_END_EVENT

record yaml_event =
  etype :: yaml_event_type
  eline :: u64
  ecolumn :: u64
  evalue :: string
  elength :: u64

datatype yaml_error_type =
    YAML_NO_ERROR | YAML_MEMORY_ERROR | YAML_READER_ERROR | YAML_SCANNER_ERROR | YAML_PARSER_ERROR
  | YAML_COMPOSER_ERROR | YAML_WRITER_ERROR | YAML_EMITTER_ERROR | YAML_OTHER_ERROR int

record yaml_parser_error =
  perror :: yaml_error_type
  pproblem :: string
  pvalue :: int
  pline :: u64
  pcolumn :: u64

type_synonym yaml_parser = "nat \<Rightarrow> yaml_event \<times> yaml_parser_error"

record yaml_position =
  line :: u64
  column :: u64

datatype yaml_node =
    NODE_SCALAR (node_pos: yaml_position) string u64
  | NODE_MAPPING (node_pos: yaml_position) "(yaml_node \<times> yaml_node) list"
  | NODE_SEQUENCE (node_pos: yaml_position) "yaml_node list"

definition node_type_str :: "yaml_node \<Rightarrow> string" where
  "node_type_str n = (case n of NODE_MAPPING _ _ \<Rightarrow> ''mapping'' | NODE_SEQUENCE _ _ \<Rightarrow> ''sequence'' | NODE_SCALAR _ _ _ \<Rightarrow> ''scalar'')"

section \<open>Messages\<close>

text \<open>The text common to the error codes with a position: \<open>line %d, column %d\<close>.\<close>

definition at_mark :: "string \<Rightarrow> string \<Rightarrow> yaml_parser_error \<Rightarrow> string" where
  "at_mark kind problem e = ''libyaml: '' @ kind @ '' error: '' @ [CHR 0x27] @ problem @ [CHR 0x27] @ '' at line ''
     @ fmt_d (pline e) @ '', column '' @ fmt_d (pcolumn e) @ ''.''"

definition format_error_string :: "yaml_parser_error \<Rightarrow> string" where
  "format_error_string e = (case perror e of
     YAML_MEMORY_ERROR \<Rightarrow> ''libyaml: failed to allocate or reallocate a block of memory.''
   | YAML_READER_ERROR \<Rightarrow>
       if pvalue e \<noteq> -1
       then at_mark ''reader'' (pproblem e @ '':#'' @ hex (unat (word_of_int (pvalue e) :: u32))) e
       else at_mark ''reader'' (pproblem e) e
   | YAML_SCANNER_ERROR \<Rightarrow> at_mark ''scanner'' (pproblem e) e
   | YAML_PARSER_ERROR \<Rightarrow> at_mark ''parser'' (pproblem e) e
   | YAML_COMPOSER_ERROR \<Rightarrow> at_mark ''composer'' (pproblem e) e
   | YAML_WRITER_ERROR \<Rightarrow> at_mark ''writer'' (pproblem e) e
   | YAML_EMITTER_ERROR \<Rightarrow> at_mark ''emitter'' (pproblem e) e
   | YAML_NO_ERROR \<Rightarrow> ''unknown error code (0) from libyaml. possible memory corruption?''
   | YAML_OTHER_ERROR c \<Rightarrow> ''unknown error code ('' @ dec_int c @ '') from libyaml. possible memory corruption?'')"

definition event_to_string :: "yaml_event_type \<Rightarrow> string" where
  "event_to_string t = (case t of
     YAML_NO_EVENT \<Rightarrow> ''YAML_NO_EVENT'' | YAML_STREAM_START_EVENT \<Rightarrow> ''YAML_STREAM_START_EVENT''
   | YAML_STREAM_END_EVENT \<Rightarrow> ''YAML_STREAM_END_EVENT'' | YAML_DOCUMENT_START_EVENT \<Rightarrow> ''YAML_DOCUMENT_START_EVENT''
   | YAML_DOCUMENT_END_EVENT \<Rightarrow> ''YAML_DOCUMENT_END_EVENT'' | YAML_ALIAS_EVENT \<Rightarrow> ''YAML_ALIAS_EVENT''
   | YAML_SCALAR_EVENT \<Rightarrow> ''YAML_SCALAR_EVENT'' | YAML_SEQUENCE_START_EVENT \<Rightarrow> ''YAML_SEQUENCE_START_EVENT''
   | YAML_SEQUENCE_END_EVENT \<Rightarrow> ''YAML_SEQUENCE_END_EVENT'' | YAML_MAPPING_START_EVENT \<Rightarrow> ''YAML_MAPPING_START_EVENT''
   | YAML_MAPPING_END_EVENT \<Rightarrow> ''YAML_MAPPING_END_EVENT'')"

section \<open>The parser context\<close>

text \<open>\<open>calls\<close> counts the calls of \<open>yaml_parser_parse\<close> so far; \<open>problem\<close> is \<open>error->problem\<close>.\<close>

record parser_context =
  calls :: nat
  event :: yaml_event
  next_ev :: yaml_event
  problem :: "string option"

definition is_error_set :: "parser_context \<Rightarrow> bool" where
  "is_error_set c \<longleftrightarrow> problem c \<noteq> None"

definition set_error :: "yaml_parser_error \<Rightarrow> parser_context \<Rightarrow> bool \<times> parser_context" where
  "set_error e c = (if \<not> is_error_set c \<and> perror e \<noteq> YAML_NO_ERROR
     then (True, c\<lparr>problem := Some (format_error_string e)\<rparr>) else (False, c))"

text \<open>The flag is true for the return value -1.\<close>

definition process_event :: "yaml_parser \<Rightarrow> parser_context \<Rightarrow> bool \<times> parser_context" where
  "process_event yp c = (let (ev, e) = yp (calls c) in
     set_error e (c\<lparr>calls := calls c + 1, event := next_ev c, next_ev := ev\<rparr>))"

definition peek_next_event :: "parser_context \<Rightarrow> yaml_event_type" where
  "peek_next_event c = etype (next_ev c)"

definition next_event :: "yaml_parser \<Rightarrow> parser_context \<Rightarrow> yaml_event_type \<times> parser_context" where
  "next_event yp c = (let (failed, c') = process_event yp c in
     (if failed then YAML_NO_EVENT else etype (event c'), c'))"

definition event_pos :: "parser_context \<Rightarrow> yaml_position" where
  "event_pos c = \<lparr>line = eline (event c), column = ecolumn (event c)\<rparr>"

text \<open>\<open>strdup\<close> copies up to the first NUL.\<close>

definition process_scalar :: "parser_context \<Rightarrow> yaml_node" where
  "process_scalar c = NODE_SCALAR (event_pos c) (takeWhile (\<lambda>x. x \<noteq> CHR 0x00) (evalue (event c))) (elength (event c))"

section \<open>Recursive descent\<close>

text \<open>
  The first argument is fuel: each call and each turn of a loop takes one unit, and without fuel the
  result is \<open>None\<close>. Otherwise it is the node, or no node for NULL, and the context.
\<close>

definition close_node :: "yaml_parser \<Rightarrow> ('a \<Rightarrow> yaml_node) \<Rightarrow> ('a option \<times> parser_context) option
    \<Rightarrow> (yaml_node option \<times> parser_context) option" where
  "close_node yp mk r = (case r of
     None \<Rightarrow> None
   | Some (None, c) \<Rightarrow> Some (None, c)
   | Some (Some xs, c) \<Rightarrow> (let (failed, c') = process_event yp c in Some (if failed then None else Some (mk xs), c')))"

fun process_node :: "nat \<Rightarrow> yaml_parser \<Rightarrow> parser_context \<Rightarrow> (yaml_node option \<times> parser_context) option"
  and process_sequence :: "nat \<Rightarrow> yaml_parser \<Rightarrow> parser_context \<Rightarrow> yaml_node list
    \<Rightarrow> (yaml_node list option \<times> parser_context) option"
  and process_mapping :: "nat \<Rightarrow> yaml_parser \<Rightarrow> parser_context \<Rightarrow> (yaml_node \<times> yaml_node) list
    \<Rightarrow> ((yaml_node \<times> yaml_node) list option \<times> parser_context) option" where
  "process_node 0 yp c = None"
| "process_node (Suc f) yp c =
    (let (t, c) = next_event yp c in
     case t of
       YAML_ALIAS_EVENT \<Rightarrow>
         Some (None, c\<lparr>problem := Some ''yamltree: there is no support for aliases implemented.''\<rparr>)
     | YAML_SCALAR_EVENT \<Rightarrow> Some (Some (process_scalar c), c)
     | YAML_SEQUENCE_START_EVENT \<Rightarrow> close_node yp (NODE_SEQUENCE (event_pos c)) (process_sequence f yp c [])
     | YAML_MAPPING_START_EVENT \<Rightarrow> close_node yp (NODE_MAPPING (event_pos c)) (process_mapping f yp c [])
     | _ \<Rightarrow> Some (None, c))"
| "process_sequence 0 yp c nodes = None"
| "process_sequence (Suc f) yp c nodes =
    (if peek_next_event c \<noteq> YAML_SEQUENCE_END_EVENT then
       (case process_node f yp c of
          None \<Rightarrow> None
        | Some (None, c) \<Rightarrow> Some (None, c)
        | Some (Some n, c) \<Rightarrow> process_sequence f yp c (nodes @ [n]))
     else Some (Some nodes, c))"
| "process_mapping 0 yp c pairs = None"
| "process_mapping (Suc f) yp c pairs =
    (if peek_next_event c \<noteq> YAML_MAPPING_END_EVENT then
       (case process_node f yp c of
          None \<Rightarrow> None
        | Some (None, c) \<Rightarrow> Some (None, c)
        | Some (Some l, c) \<Rightarrow>
            (case process_node f yp c of
               None \<Rightarrow> None
             | Some (None, c) \<Rightarrow> Some (None, c)
             | Some (Some r, c) \<Rightarrow> process_mapping f yp c (pairs @ [(l, r)])))
     else Some (Some pairs, c))"

section \<open>Documents and streams\<close>

definition expecting :: "yaml_event_type \<Rightarrow> yaml_event \<Rightarrow> string" where
  "expecting t got = ''yamltree: expecting '' @ event_to_string t @ '' got '' @ [CHR 0x27]
     @ event_to_string (etype got) @ [CHR 0x27] @ ''.''"

definition complain :: "yaml_event_type \<Rightarrow> parser_context \<Rightarrow> parser_context" where
  "complain t c = (if is_error_set c then c else c\<lparr>problem := Some (expecting t (event c))\<rparr>)"

definition process_document :: "nat \<Rightarrow> yaml_parser \<Rightarrow> parser_context \<Rightarrow> (yaml_node option \<times> parser_context) option" where
  "process_document f yp c =
    (let (t, c) = next_event yp c in
     if t \<noteq> YAML_DOCUMENT_START_EVENT then Some (None, complain YAML_DOCUMENT_START_EVENT c)
     else case process_node f yp c of
       None \<Rightarrow> None
     | Some (None, c) \<Rightarrow> Some (None, c)
     | Some (Some doc, c) \<Rightarrow>
         (let (t, c) = next_event yp c in
          if t \<noteq> YAML_DOCUMENT_END_EVENT then Some (None, complain YAML_DOCUMENT_END_EVENT c)
          else Some (Some doc, c)))"

text \<open>The loop of \<open>parse_yaml_stream\<close>; the result is the tree's documents, or none for NULL, and \<open>problem\<close>.\<close>

fun stream_loop :: "nat \<Rightarrow> yaml_parser \<Rightarrow> parser_context \<Rightarrow> yaml_node list \<Rightarrow> (yaml_node list option \<times> string option) option" where
  "stream_loop 0 yp c docs = None"
| "stream_loop (Suc f) yp c docs =
    (let (t, c) = next_event yp c in
     if t = YAML_STREAM_END_EVENT then Some (Some docs, problem c)
     else if is_error_set c then Some (None, problem c)
     else case process_document f yp c of
       None \<Rightarrow> None
     | Some (None, c) \<Rightarrow> Some (None, problem c)
     | Some (Some d, c) \<Rightarrow> stream_loop f yp c (docs @ [d]))"

text \<open>\<open>junk\<close> is what the uninitialised \<open>next_event\<close> of the context holds.\<close>

definition parse_yaml_stream :: "nat \<Rightarrow> yaml_event \<Rightarrow> yaml_parser \<Rightarrow> (yaml_node list option \<times> string option) option" where
  "parse_yaml_stream f junk yp =
    (let (failed, c) = process_event yp \<lparr>calls = 0, event = junk, next_ev = junk, problem = None\<rparr> in
     if failed then Some (None, problem c)
     else if etype (next_ev c) \<noteq> YAML_STREAM_START_EVENT
       then Some (None, Some (expecting YAML_STREAM_START_EVENT (next_ev c)))
     else stream_loop f yp c [])"

section \<open>Helpers over nodes\<close>

definition is_scalar :: "yaml_node \<Rightarrow> bool" where
  "is_scalar n = (case n of NODE_SCALAR _ _ _ \<Rightarrow> True | _ \<Rightarrow> False)"

definition is_mapping :: "yaml_node \<Rightarrow> bool" where
  "is_mapping n = (case n of NODE_MAPPING _ _ \<Rightarrow> True | _ \<Rightarrow> False)"

definition is_sequence :: "yaml_node \<Rightarrow> bool" where
  "is_sequence n = (case n of NODE_SEQUENCE _ _ \<Rightarrow> True | _ \<Rightarrow> False)"

text \<open>The functor returns its code and the new state; a negative code ends the loop.\<close>

fun iterate_loop :: "('a \<Rightarrow> 's \<Rightarrow> int \<times> 's) \<Rightarrow> 'a list \<Rightarrow> 's \<Rightarrow> int \<times> 's" where
  "iterate_loop f [] s = (0, s)"
| "iterate_loop f (x # xs) s = (let (r, s) = f x s in if r < 0 then (-2, s) else iterate_loop f xs s)"

definition yaml_iterate_mapping :: "yaml_node \<Rightarrow> (yaml_node \<Rightarrow> yaml_node \<Rightarrow> 's \<Rightarrow> int \<times> 's) \<Rightarrow> 's \<Rightarrow> int \<times> 's" where
  "yaml_iterate_mapping n f s = (case n of NODE_MAPPING _ ps \<Rightarrow> iterate_loop (\<lambda>(l, r). f l r) ps s | _ \<Rightarrow> (-1, s))"

definition yaml_iterate_sequence :: "yaml_node \<Rightarrow> (yaml_node \<Rightarrow> 's \<Rightarrow> int \<times> 's) \<Rightarrow> 's \<Rightarrow> int \<times> 's" where
  "yaml_iterate_sequence n f s = (case n of NODE_SEQUENCE _ ns \<Rightarrow> iterate_loop f ns s | _ \<Rightarrow> (-1, s))"

text \<open>
  The second argument is the old value of what the pointer addresses. \<open>unsigned long\<close> has 64 bits, so
  the comparison of the truncated value with \<open>ULONG_MAX\<close> is never true.
\<close>

definition process_32bit_integer :: "yaml_node \<Rightarrow> u32 \<Rightarrow> int \<times> u32" where
  "process_32bit_integer n nid = (case n of
     NODE_SCALAR _ v _ \<Rightarrow>
       (let (r, rest) = strtoul0 v; res = ucast r :: u32 in
        if rest \<noteq> [] then (if (ucast res :: u64) = -1 then -2 else -3, nid) else (0, res))
   | _ \<Rightarrow> (-1, nid))"

definition process_boolean :: "yaml_node \<Rightarrow> u32 \<Rightarrow> int \<times> u32" where
  "process_boolean n b = (case n of
     NODE_SCALAR _ v _ \<Rightarrow> if v = ''true'' then (0, 1) else if v = ''false'' then (0, 0) else (-2, b)
   | _ \<Rightarrow> (-1, b))"

definition process_bool :: "yaml_node \<Rightarrow> bool \<Rightarrow> int \<times> bool" where
  "process_bool n b = (let (res, cast) = process_boolean n 0 in (res, if res = 0 then cast = 1 else b))"

definition process_string :: "yaml_node \<Rightarrow> string \<Rightarrow> int \<times> string" where
  "process_string n s = (case n of NODE_SCALAR _ v _ \<Rightarrow> (0, v) | _ \<Rightarrow> (-1, s))"

section \<open>The events of a tree\<close>

definition ev :: "yaml_event_type \<Rightarrow> yaml_position \<Rightarrow> yaml_event" where
  "ev t p = \<lparr>etype = t, eline = line p, ecolumn = column p, evalue = [], elength = 0\<rparr>"

text \<open>The closing events and those of the stream carry no data that the tree keeps.\<close>

fun events :: "yaml_node \<Rightarrow> yaml_event list" where
  "events (NODE_SCALAR p v n) = [(ev YAML_SCALAR_EVENT p)\<lparr>evalue := v, elength := n\<rparr>]"
| "events (NODE_SEQUENCE p ns) = ev YAML_SEQUENCE_START_EVENT p # concat (map events ns) @ [ev YAML_SEQUENCE_END_EVENT p]"
| "events (NODE_MAPPING p ps) = ev YAML_MAPPING_START_EVENT p
     # concat (map (\<lambda>lr. events (fst lr) @ events (snd lr)) ps) @ [ev YAML_MAPPING_END_EVENT p]"

fun clean :: "yaml_node \<Rightarrow> bool" where
  "clean (NODE_SCALAR p v n) \<longleftrightarrow> CHR 0x00 \<notin> set v"
| "clean (NODE_SEQUENCE p ns) \<longleftrightarrow> (\<forall>n \<in> set ns. clean n)"
| "clean (NODE_MAPPING p ps) \<longleftrightarrow> (\<forall>lr \<in> set ps. clean (fst lr) \<and> clean (snd lr))"

definition feeds :: "yaml_parser \<Rightarrow> parser_context \<Rightarrow> yaml_event list \<Rightarrow> bool" where
  "feeds yp c evs \<longleftrightarrow> problem c = None \<and> evs \<noteq> [] \<and> next_ev c = hd evs \<and>
     (\<forall>i. Suc i < length evs \<longrightarrow> fst (yp (calls c + i)) = evs ! Suc i \<and> perror (snd (yp (calls c + i))) = YAML_NO_ERROR)"

lemma feeds_step:
  assumes "feeds yp c (e # e' # rest)"
  shows "\<exists>c'. next_event yp c = (etype e, c') \<and> process_event yp c = (False, c') \<and> event c' = e \<and> feeds yp c' (e' # rest)"
proof -
  let ?c = "c\<lparr>calls := calls c + 1, event := next_ev c, next_ev := fst (yp (calls c))\<rparr>"
  have nx: "fst (yp (calls c + i)) = (e' # rest) ! i" "perror (snd (yp (calls c + i))) = YAML_NO_ERROR"
    if "i < Suc (length rest)" for i
    using assms that by (auto simp: feeds_def)
  have p: "problem c = None" "next_ev c = e" using assms by (simp_all add: feeds_def)
  have pe: "process_event yp c = (False, ?c)"
    using nx [of 0] p by (simp add: process_event_def set_error_def case_prod_beta)
  moreover have "feeds yp ?c (e' # rest)"
    using nx [of 0] nx [of "Suc i" for i] p by (auto simp: feeds_def)
  ultimately show ?thesis using p by (simp add: next_event_def)
qed

lemma feeds_peek: "feeds yp c (e # rest) \<Longrightarrow> peek_next_event c = etype e"
  by (simp add: feeds_def peek_next_event_def)

definition opens :: "yaml_event_type \<Rightarrow> bool" where
  "opens t \<longleftrightarrow> t = YAML_SCALAR_EVENT \<or> t = YAML_SEQUENCE_START_EVENT \<or> t = YAML_MAPPING_START_EVENT"

lemma events_head: "\<exists>e es. events n = e # es \<and> opens (etype e)"
  by (cases n) (auto simp: ev_def opens_def)

lemma etype_ev [simp]: "etype (ev t p) = t" "evalue (ev t p) = []" "eline (ev t p) = line p" "ecolumn (ev t p) = column p"
  by (simp_all add: ev_def)

text \<open>A node is rebuilt from its events; so are the children of a sequence and the pairs of a mapping.\<close>

definition rebuilds :: "yaml_parser \<Rightarrow> yaml_node \<Rightarrow> bool" where
  "rebuilds yp n \<longleftrightarrow> (\<forall>f c e rest. feeds yp c (events n @ e # rest) \<longrightarrow> length (events n) \<le> f \<longrightarrow>
     (\<exists>c'. process_node f yp c = Some (Some n, c') \<and> feeds yp c' (e # rest)))"

lemma sequence_rebuilds:
  assumes "\<forall>n \<in> set ns. rebuilds yp n" "feeds yp c (concat (map events ns) @ e # rest)" "etype e = YAML_SEQUENCE_END_EVENT"
    "length (concat (map events ns)) < f"
  shows "\<exists>c'. process_sequence f yp c acc = Some (Some (acc @ ns), c') \<and> feeds yp c' (e # rest)"
  using assms
proof (induction ns arbitrary: f c acc)
  case Nil
  then obtain g where "f = Suc g" by (cases f) auto
  then show ?case using Nil feeds_peek by auto
next
  case (Cons n ns)
  then obtain g where g: "f = Suc g" by (cases f) auto
  obtain h es where h: "events n = h # es" "opens (etype h)" using events_head by blast
  have fe: "feeds yp c (events n @ concat (map events ns) @ e # rest)" using Cons.prems(2) by simp
  obtain e2 r2 where e2: "concat (map events ns) @ e # rest = e2 # r2"
    by (cases "concat (map events ns)") auto
  have "feeds yp c (events n @ e2 # r2)" using fe e2 by simp
  moreover have "rebuilds yp n" "length (events n) \<le> g" using Cons.prems g by simp_all
  ultimately obtain c1 where c1: "process_node g yp c = Some (Some n, c1)" "feeds yp c1 (e2 # r2)"
    unfolding rebuilds_def by blast
  obtain c' where "process_sequence g yp c1 (acc @ [n]) = Some (Some ((acc @ [n]) @ ns), c')" "feeds yp c' (e # rest)"
    using Cons.IH [of c1 g "acc @ [n]"] Cons.prems c1(2) e2 g h(1) by auto
  moreover have "peek_next_event c \<noteq> YAML_SEQUENCE_END_EVENT"
    using fe h feeds_peek [of yp c h] by (auto simp: opens_def)
  ultimately show ?case using g c1(1) by simp
qed

lemma mapping_rebuilds:
  assumes "\<forall>lr \<in> set ps. rebuilds yp (fst lr) \<and> rebuilds yp (snd lr)"
    "feeds yp c (concat (map (\<lambda>lr. events (fst lr) @ events (snd lr)) ps) @ e # rest)" "etype e = YAML_MAPPING_END_EVENT"
    "length (concat (map (\<lambda>lr. events (fst lr) @ events (snd lr)) ps)) < f"
  shows "\<exists>c'. process_mapping f yp c acc = Some (Some (acc @ ps), c') \<and> feeds yp c' (e # rest)"
  using assms
proof (induction ps arbitrary: f c acc)
  case Nil
  then obtain g where "f = Suc g" by (cases f) auto
  then show ?case using Nil feeds_peek by auto
next
  case (Cons lr ps)
  let ?tl = "concat (map (\<lambda>lr. events (fst lr) @ events (snd lr)) ps)"
  obtain l r where [simp]: "lr = (l, r)" by (cases lr)
  obtain g where g: "f = Suc g" using Cons.prems by (cases f) auto
  obtain h es where h: "events l = h # es" "opens (etype h)" using events_head by blast
  obtain h2 es2 where h2: "events r = h2 # es2" using events_head by blast
  have fe: "feeds yp c (events l @ h2 # es2 @ ?tl @ e # rest)" using Cons.prems(2) h2 by simp
  have rb: "rebuilds yp l" "rebuilds yp r" "length (events l) \<le> g" "length (events r) \<le> g" using Cons.prems g by simp_all
  obtain c1 where c1: "process_node g yp c = Some (Some l, c1)" "feeds yp c1 (events r @ ?tl @ e # rest)"
    using rb fe h2 unfolding rebuilds_def by fastforce
  obtain e2 r2 where e2: "?tl @ e # rest = e2 # r2" by (cases ?tl) auto
  obtain c2 where c2: "process_node g yp c1 = Some (Some r, c2)" "feeds yp c2 (?tl @ e # rest)"
    using rb c1(2) e2 unfolding rebuilds_def by fastforce
  obtain c' where "process_mapping g yp c2 (acc @ [(l, r)]) = Some (Some ((acc @ [(l, r)]) @ ps), c')" "feeds yp c' (e # rest)"
    using Cons.IH [of c2 g "acc @ [(l, r)]"] Cons.prems c2(2) g h(1) by auto
  moreover have "peek_next_event c \<noteq> YAML_MAPPING_END_EVENT"
    using fe h feeds_peek [of yp c h] by (auto simp: opens_def)
  ultimately show ?case using g c1(1) c2(1) by simp
qed

lemma node_rebuilds: "clean n \<Longrightarrow> rebuilds yp n"
proof (induction n rule: events.induct)
  case (1 p v n)
  have tw: "takeWhile (\<lambda>x. x \<noteq> CHR 0x00) v = v" using 1 by (auto simp: takeWhile_eq_all_conv)
  show ?case unfolding rebuilds_def
  proof (intro allI impI)
    fix f c e rest
    assume a: "feeds yp c (events (NODE_SCALAR p v n) @ e # rest)" "length (events (NODE_SCALAR p v n)) \<le> f"
    obtain g where g: "f = Suc g" using a(2) by (cases f) auto
    obtain c1 where "next_event yp c = (YAML_SCALAR_EVENT, c1)" "event c1 = (ev YAML_SCALAR_EVENT p)\<lparr>evalue := v, elength := n\<rparr>"
        "feeds yp c1 (e # rest)"
      using feeds_step [of yp c "(ev YAML_SCALAR_EVENT p)\<lparr>evalue := v, elength := n\<rparr>" e rest] a(1) by auto
    then show "\<exists>c'. process_node f yp c = Some (Some (NODE_SCALAR p v n), c') \<and> feeds yp c' (e # rest)"
      using g tw by (simp add: process_scalar_def event_pos_def)
  qed
next
  case (2 p ns)
  show ?case unfolding rebuilds_def
  proof (intro allI impI)
    fix f c e rest
    assume a: "feeds yp c (events (NODE_SEQUENCE p ns) @ e # rest)" "length (events (NODE_SEQUENCE p ns)) \<le> f"
    obtain g where g: "f = Suc g" using a(2) by (cases f) auto
    let ?fin = "ev YAML_SEQUENCE_END_EVENT p"
    obtain h r where h: "concat (map events ns) @ ?fin # e # rest = h # r" by (cases "concat (map events ns)") auto
    obtain c1 where c1: "next_event yp c = (YAML_SEQUENCE_START_EVENT, c1)" "event c1 = ev YAML_SEQUENCE_START_EVENT p"
        "feeds yp c1 (concat (map events ns) @ ?fin # e # rest)"
      using feeds_step [of yp c "ev YAML_SEQUENCE_START_EVENT p" h r] a(1) h by auto
    obtain c2 where c2: "process_sequence g yp c1 [] = Some (Some ns, c2)" "feeds yp c2 (?fin # e # rest)"
      using sequence_rebuilds [of ns yp c1 ?fin "e # rest" g "[]"] 2 c1(3) a(2) g by auto
    obtain c3 where "process_event yp c2 = (False, c3)" "feeds yp c3 (e # rest)" using feeds_step [OF c2(2)] by blast
    then show "\<exists>c'. process_node f yp c = Some (Some (NODE_SEQUENCE p ns), c') \<and> feeds yp c' (e # rest)"
      using g c1(1,2) c2(1) by (simp add: close_node_def event_pos_def)
  qed
next
  case (3 p ps)
  let ?m = "concat (map (\<lambda>lr. events (fst lr) @ events (snd lr)) ps)"
  show ?case unfolding rebuilds_def
  proof (intro allI impI)
    fix f c e rest
    assume a: "feeds yp c (events (NODE_MAPPING p ps) @ e # rest)" "length (events (NODE_MAPPING p ps)) \<le> f"
    obtain g where g: "f = Suc g" using a(2) by (cases f) auto
    let ?fin = "ev YAML_MAPPING_END_EVENT p"
    obtain h r where h: "?m @ ?fin # e # rest = h # r" by (cases ?m) auto
    obtain c1 where c1: "next_event yp c = (YAML_MAPPING_START_EVENT, c1)" "event c1 = ev YAML_MAPPING_START_EVENT p"
        "feeds yp c1 (?m @ ?fin # e # rest)"
      using feeds_step [of yp c "ev YAML_MAPPING_START_EVENT p" h r] a(1) h by auto
    obtain c2 where c2: "process_mapping g yp c1 [] = Some (Some ps, c2)" "feeds yp c2 (?fin # e # rest)"
      using mapping_rebuilds [of ps yp c1 ?fin "e # rest" g "[]"] 3 c1(3) a(2) g by auto
    obtain c3 where "process_event yp c2 = (False, c3)" "feeds yp c3 (e # rest)" using feeds_step [OF c2(2)] by blast
    then show "\<exists>c'. process_node f yp c = Some (Some (NODE_MAPPING p ps), c') \<and> feeds yp c' (e # rest)"
      using g c1(1,2) c2(1) by (simp add: close_node_def event_pos_def)
  qed
qed

section \<open>Termination\<close>

text \<open>The lookahead is always the event of the last call.\<close>

definition ctx_ok :: "yaml_parser \<Rightarrow> parser_context \<Rightarrow> bool" where
  "ctx_ok yp c \<longleftrightarrow> 0 < calls c \<and> next_ev c = fst (yp (calls c - 1))"

definition ends :: "yaml_parser \<Rightarrow> nat \<Rightarrow> bool" where
  "ends yp N \<longleftrightarrow> (\<forall>n \<ge> N. etype (fst (yp n)) = YAML_NO_EVENT)"

lemma process_event_ok: "process_event yp c = (b, c') \<Longrightarrow> ctx_ok yp c' \<and> calls c' = calls c + 1 \<and> event c' = next_ev c"
  by (cases "yp (calls c)") (auto simp: process_event_def set_error_def ctx_ok_def split: if_splits)

lemma close_node_total:
  assumes "ctx_ok yp c"
  shows "\<exists>r' c'. close_node yp mk (Some (r, c)) = Some (r', c') \<and> ctx_ok yp c' \<and> calls c \<le> calls c'"
proof (cases r)
  case None
  then show ?thesis using assms by (simp add: close_node_def)
next
  case (Some xs)
  obtain b c2 where "process_event yp c = (b, c2)" by fastforce
  then show ?thesis using Some process_event_ok [of yp c b c2] by (simp add: close_node_def)
qed

lemma next_event_ok:
  assumes "next_event yp c = (t, c')" "ctx_ok yp c"
  shows "ctx_ok yp c' \<and> calls c' = calls c + 1 \<and> (t \<noteq> YAML_NO_EVENT \<longrightarrow> t = etype (fst (yp (calls c - 1))) \<and> t = etype (event c'))"
proof -
  obtain b c1 where pe: "process_event yp c = (b, c1)" by fastforce
  then have "t = (if b then YAML_NO_EVENT else etype (event c1))" "c' = c1"
    using assms(1) by (simp_all add: next_event_def)
  then show ?thesis
    using process_event_ok [OF pe] assms(2) by (cases b) (simp_all add: ctx_ok_def)
qed

lemma next_event_ends:
  assumes "next_event yp c = (t, c')" "ctx_ok yp c" "ends yp N" "t \<noteq> YAML_NO_EVENT"
  shows "calls c \<le> N"
proof (rule ccontr)
  assume "\<not> calls c \<le> N"
  then have "etype (fst (yp (calls c - 1))) = YAML_NO_EVENT" using assms(3) by (simp add: ends_def)
  then show False using next_event_ok [OF assms(1,2)] assms(4) by simp
qed

text \<open>\<open>gas N c\<close>: fuel that is enough for a node when the parser has no events from its call \<open>N\<close> on.\<close>

definition gas :: "nat \<Rightarrow> parser_context \<Rightarrow> nat" where
  "gas N c = 3 * (N + 1 - calls c) + 1"

lemma descent_total:
  assumes N: "ends yp N"
  shows "(ctx_ok yp c \<longrightarrow> gas N c \<le> f \<longrightarrow>
      (\<exists>r c'. process_node f yp c = Some (r, c') \<and> ctx_ok yp c' \<and> calls c < calls c' \<and> (N < calls c \<longrightarrow> r = None)))
    \<and> (ctx_ok yp c \<longrightarrow> gas N c < f \<longrightarrow>
      (\<exists>r c'. process_sequence f yp c ns = Some (r, c') \<and> ctx_ok yp c' \<and> calls c \<le> calls c'))
    \<and> (ctx_ok yp c \<longrightarrow> gas N c < f \<longrightarrow>
      (\<exists>r c'. process_mapping f yp c ps = Some (r, c') \<and> ctx_ok yp c' \<and> calls c \<le> calls c'))"
proof (induction f arbitrary: c ns ps)
  case 0
  then show ?case by (simp add: gas_def)
next
  case (Suc f)
  have node: "\<exists>r c'. process_node f yp c = Some (r, c') \<and> ctx_ok yp c' \<and> calls c < calls c' \<and> (N < calls c \<longrightarrow> r = None)"
    if "ctx_ok yp c" "gas N c \<le> f" for c using Suc.IH [of c] that by blast
  have sq: "\<exists>r c'. process_sequence f yp c ns = Some (r, c') \<and> ctx_ok yp c' \<and> calls c \<le> calls c'"
    if "ctx_ok yp c" "gas N c < f" for c ns using Suc.IH [of c] that by blast
  have mp: "\<exists>r c'. process_mapping f yp c ps = Some (r, c') \<and> ctx_ok yp c' \<and> calls c \<le> calls c'"
    if "ctx_ok yp c" "gas N c < f" for c ps using Suc.IH [of c] that by blast
  have less: "gas N c' < gas N c" if "calls c < calls c'" "calls c \<le> N" for c c' :: parser_context
    using that by (simp add: gas_def)
  show ?case
  proof (intro conjI impI)
    assume ok: "ctx_ok yp c" and g: "gas N c \<le> Suc f"
    obtain t c1 where ne: "next_event yp c = (t, c1)" by fastforce
    have c1: "ctx_ok yp c1" "calls c1 = calls c + 1" using next_event_ok [OF ne ok] by simp_all
    show "\<exists>r c'. process_node (Suc f) yp c = Some (r, c') \<and> ctx_ok yp c' \<and> calls c < calls c' \<and> (N < calls c \<longrightarrow> r = None)"
    proof (cases "t = YAML_NO_EVENT")
      case True
      then show ?thesis using c1 ne by simp
    next
      case False
      then have le: "calls c \<le> N" using next_event_ends [OF ne ok N] by simp
      then have "gas N c1 < f" using c1(2) g by (simp add: gas_def)
      then obtain r2 c2 r3 c3 where
        "process_sequence f yp c1 [] = Some (r2, c2)" "ctx_ok yp c2" "calls c1 \<le> calls c2"
        "process_mapping f yp c1 [] = Some (r3, c3)" "ctx_ok yp c3" "calls c1 \<le> calls c3"
        using sq [OF c1(1)] mp [OF c1(1)] by meson
      moreover have "ctx_ok yp (c1\<lparr>problem := x\<rparr>)" for x using c1(1) by (simp add: ctx_ok_def)
      ultimately show ?thesis
        using le c1 ne close_node_total [of yp c2 "NODE_SEQUENCE (event_pos c1)" r2]
          close_node_total [of yp c3 "NODE_MAPPING (event_pos c1)" r3]
        by (cases t) auto
    qed
  next
    assume ok: "ctx_ok yp c" and g: "gas N c < Suc f"
    obtain r c1 where c1: "process_node f yp c = Some (r, c1)" "ctx_ok yp c1" "calls c < calls c1" "N < calls c \<longrightarrow> r = None"
      using node [OF ok] g by auto
    show "\<exists>r c'. process_sequence (Suc f) yp c ns = Some (r, c') \<and> ctx_ok yp c' \<and> calls c \<le> calls c'"
    proof (cases r)
      case None
      then show ?thesis using ok c1 by auto
    next
      case (Some n)
      then have "gas N c1 < f" using less [of c c1] c1 g by simp
      then show ?thesis using ok c1 Some sq [of c1 "ns @ [n]"] by force
    qed
    show "\<exists>r c'. process_mapping (Suc f) yp c ps = Some (r, c') \<and> ctx_ok yp c' \<and> calls c \<le> calls c'"
    proof (cases r)
      case None
      then show ?thesis using ok c1 by auto
    next
      case (Some l)
      then have l1: "gas N c1 < f" using less [of c c1] c1 g by simp
      then obtain r2 c2 where c2: "process_node f yp c1 = Some (r2, c2)" "ctx_ok yp c2" "calls c1 < calls c2" "N < calls c1 \<longrightarrow> r2 = None"
        using node [OF c1(2)] by auto
      show ?thesis
      proof (cases r2)
        case None
        then show ?thesis using ok c1 c2 Some by auto
      next
        case (Some y)
        then have "gas N c2 < f" using less [of c1 c2] c2 l1 by simp
        then show ?thesis using ok c1 c2 Some \<open>r = Some l\<close> mp [of c2 "ps @ [(l, y)]"] by force
      qed
    qed
  qed
qed

text \<open>More fuel does not change a result.\<close>

lemma descent_more_fuel:
  "(process_node f yp c \<noteq> None \<longrightarrow> process_node (Suc f) yp c = process_node f yp c)
    \<and> (process_sequence f yp c ns \<noteq> None \<longrightarrow> process_sequence (Suc f) yp c ns = process_sequence f yp c ns)
    \<and> (process_mapping f yp c ps \<noteq> None \<longrightarrow> process_mapping (Suc f) yp c ps = process_mapping f yp c ps)"
proof (induction f arbitrary: c ns ps)
  case (Suc f)
  have n: "process_node (Suc f) yp c = process_node f yp c" if "process_node f yp c \<noteq> None" for c using Suc that by blast
  have s: "process_sequence (Suc f) yp c ns = process_sequence f yp c ns" if "process_sequence f yp c ns \<noteq> None" for c ns
    using Suc that by blast
  have m: "process_mapping (Suc f) yp c ps = process_mapping f yp c ps" if "process_mapping f yp c ps \<noteq> None" for c ps
    using Suc that by blast
  have cn: "close_node yp mk None = None" for mk :: "'x \<Rightarrow> yaml_node" by (simp add: close_node_def)
  show ?case
  proof (intro conjI impI)
    assume a: "process_node (Suc f) yp c \<noteq> None"
    obtain t c1 where ne: "next_event yp c = (t, c1)" by fastforce
    have "t = YAML_SEQUENCE_START_EVENT \<longrightarrow> process_sequence f yp c1 [] \<noteq> None"
      using a ne by (cases "process_sequence f yp c1 []") (auto simp: cn)
    moreover have "t = YAML_MAPPING_START_EVENT \<longrightarrow> process_mapping f yp c1 [] \<noteq> None"
      using a ne by (cases "process_mapping f yp c1 []") (auto simp: cn)
    ultimately show "process_node (Suc (Suc f)) yp c = process_node (Suc f) yp c"
      unfolding process_node.simps ne Let_def prod.case using s m by (cases t) simp_all
  next
    assume a: "process_sequence (Suc f) yp c ns \<noteq> None"
    show "process_sequence (Suc (Suc f)) yp c ns = process_sequence (Suc f) yp c ns"
    proof (cases "peek_next_event c = YAML_SEQUENCE_END_EVENT")
      case False
      then obtain r c1 where r: "process_node f yp c = Some (r, c1)" using a by (cases "process_node f yp c") auto
      then have "process_node (Suc f) yp c = Some (r, c1)" using n [of c] by simp
      then show ?thesis using False r a s by (cases r) (simp_all only: process_sequence.simps option.case prod.case if_True simp_thms)
    qed simp
  next
    assume a: "process_mapping (Suc f) yp c ps \<noteq> None"
    show "process_mapping (Suc (Suc f)) yp c ps = process_mapping (Suc f) yp c ps"
    proof (cases "peek_next_event c = YAML_MAPPING_END_EVENT")
      case False
      then obtain r c1 where r: "process_node f yp c = Some (r, c1)" using a by (cases "process_node f yp c") auto
      then have r': "process_node (Suc f) yp c = Some (r, c1)" using n [of c] by simp
      show ?thesis
      proof (cases r)
        case None
        then show ?thesis using False r r' by (simp only: process_mapping.simps option.case prod.case if_True simp_thms)
      next
        case (Some l)
        obtain r2 c2 where r2: "process_node f yp c1 = Some (r2, c2)"
          using a False r Some by (cases "process_node f yp c1") auto
        then have "process_node (Suc f) yp c1 = Some (r2, c2)" using n [of c1] by simp
        then show ?thesis using False r r' r2 a m Some
          by (cases r2) (simp_all only: process_mapping.simps option.case prod.case if_True simp_thms)
      qed
    qed simp
  qed
qed simp

lemma node_more_fuel: "process_node f yp c = Some r \<Longrightarrow> f \<le> f' \<Longrightarrow> process_node f' yp c = Some r"
proof (induction "f' - f" arbitrary: f')
  case (Suc k)
  then obtain g where "f' = Suc g" "k = g - f" "f \<le> g" by (cases f') auto
  then show ?case using Suc descent_more_fuel [of g yp c] by simp
qed simp

lemma document_more_fuel: "process_document f yp c = Some r \<Longrightarrow> f \<le> f' \<Longrightarrow> process_document f' yp c = Some r"
proof -
  assume a: "process_document f yp c = Some r" "f \<le> f'"
  obtain t c1 where ne: "next_event yp c = (t, c1)" by fastforce
  show "process_document f' yp c = Some r"
  proof (cases "t = YAML_DOCUMENT_START_EVENT")
    case True
    then obtain x where x: "process_node f yp c1 = Some x"
      using a(1) ne by (cases "process_node f yp c1") (auto simp: process_document_def)
    then show ?thesis using a node_more_fuel [OF x a(2)] ne True by (simp add: process_document_def)
  qed (use a(1) ne in \<open>simp add: process_document_def\<close>)
qed

lemma stream_more_fuel: "stream_loop f yp c docs = Some r \<Longrightarrow> f \<le> f' \<Longrightarrow> stream_loop f' yp c docs = Some r"
proof (induction f arbitrary: f' c docs)
  case (Suc f)
  then obtain g where g: "f' = Suc g" "f \<le> g" by (cases f') auto
  obtain t c1 where ne: "next_event yp c = (t, c1)" by fastforce
  show ?case
  proof (cases "t = YAML_STREAM_END_EVENT \<or> is_error_set c1")
    case True
    then show ?thesis using Suc.prems(1) g ne by (auto split: if_splits)
  next
    case False
    then obtain d c2 where d: "process_document f yp c1 = Some (d, c2)"
      using Suc.prems(1) ne by (cases "process_document f yp c1") auto
    then have "process_document g yp c1 = Some (d, c2)" using document_more_fuel g by blast
    then show ?thesis using Suc.prems(1) Suc.IH [of c2 _ g] False ne d g by (cases d) simp_all
  qed
qed simp

lemma document_total:
  assumes "ends yp N" "ctx_ok yp c" "gas N c \<le> f"
  shows "\<exists>r c'. process_document f yp c = Some (r, c') \<and> ctx_ok yp c' \<and> calls c < calls c' \<and> (N < calls c \<longrightarrow> r = None)"
proof -
  obtain t c1 where ne: "next_event yp c = (t, c1)" by fastforce
  have c1: "ctx_ok yp c1" "calls c1 = calls c + 1" using next_event_ok [OF ne assms(2)] by simp_all
  show ?thesis
  proof (cases "t = YAML_DOCUMENT_START_EVENT")
    case False
    then show ?thesis using ne c1 by (simp add: process_document_def complain_def ctx_ok_def)
  next
    case True
    then have "calls c \<le> N" using next_event_ends [OF ne assms(2,1)] by simp
    moreover have "gas N c1 \<le> f" using c1 assms(3) by (simp add: gas_def)
    then obtain r c2 where c2: "process_node f yp c1 = Some (r, c2)" "ctx_ok yp c2" "calls c1 < calls c2"
      using descent_total [OF assms(1), of c1 f] c1(1) by blast
    obtain t2 c3 where ne2: "next_event yp c2 = (t2, c3)" by fastforce
    ultimately show ?thesis using next_event_ok [OF ne2 c2(2)] ne True c1 c2
      by (cases r) (auto simp: process_document_def complain_def ctx_ok_def)
  qed
qed

lemma stream_total:
  assumes "ends yp N" "ctx_ok yp c" "gas N c < f"
  shows "\<exists>r. stream_loop f yp c docs = Some r"
  using assms
proof (induction f arbitrary: c docs)
  case (Suc f)
  obtain t c1 where ne: "next_event yp c = (t, c1)" by fastforce
  have c1: "ctx_ok yp c1" "calls c1 = calls c + 1" using next_event_ok [OF ne Suc.prems(2)] by simp_all
  have "gas N c1 \<le> f" using c1(2) Suc.prems(3) by (simp add: gas_def)
  then obtain r c2 where d: "process_document f yp c1 = Some (r, c2)" "ctx_ok yp c2" "calls c1 < calls c2" "N < calls c1 \<longrightarrow> r = None"
    using document_total [OF Suc.prems(1) c1(1), of f] by blast
  show ?case
  proof (cases r)
    case None
    then show ?thesis using ne d by (simp add: Let_def)
  next
    case (Some n)
    then have "gas N c2 < f" using d c1(2) Suc.prems(3) by (simp add: gas_def)
    then obtain r' where "stream_loop f yp c2 (docs @ [n]) = Some r'" using Suc.IH [OF Suc.prems(1) d(2)] by blast
    then show ?thesis using ne d Some by simp
  qed
qed simp

section \<open>What a success says\<close>

text \<open>No operation that succeeds records a problem.\<close>

lemma process_event_quiet: "process_event yp c = (False, c') \<Longrightarrow> problem c = None \<Longrightarrow> problem c' = None"
  by (cases "yp (calls c)") (auto simp: process_event_def set_error_def split: if_splits)

lemma next_event_quiet:
  assumes "next_event yp c = (t, c')" "t \<noteq> YAML_NO_EVENT" "problem c = None"
  shows "problem c' = None"
proof -
  obtain b c1 where pe: "process_event yp c = (b, c1)" by fastforce
  then show ?thesis using assms process_event_quiet by (cases b) (auto simp: next_event_def)
qed

lemma close_quiet:
  assumes "close_node yp mk r = Some (Some n, c')" "\<And>xs c. r = Some (Some xs, c) \<Longrightarrow> problem c = None"
  shows "problem c' = None"
  using assms process_event_quiet unfolding close_node_def
  by (auto split: option.splits prod.splits if_splits)

lemma descent_quiet:
  "(process_node f yp c = Some (Some n, c') \<longrightarrow> problem c = None \<longrightarrow> problem c' = None)
    \<and> (process_sequence f yp c ns = Some (Some ns', c') \<longrightarrow> problem c = None \<longrightarrow> problem c' = None)
    \<and> (process_mapping f yp c ps = Some (Some ps', c') \<longrightarrow> problem c = None \<longrightarrow> problem c' = None)"
proof (induction f arbitrary: c c' n ns ns' ps ps')
  case (Suc f)
  have nq: "problem c' = None" if "process_node f yp c = Some (Some n, c')" "problem c = None" for n c c' using Suc that by blast
  have sq: "problem c' = None" if "process_sequence f yp c ns = Some (Some ns', c')" "problem c = None" for ns ns' c c'
    using Suc that by blast
  have mq: "problem c' = None" if "process_mapping f yp c ps = Some (Some ps', c')" "problem c = None" for ps ps' c c'
    using Suc that by blast
  show ?case
  proof (intro conjI impI)
    assume a: "process_node (Suc f) yp c = Some (Some n, c')" "problem c = None"
    obtain t c1 where ne: "next_event yp c = (t, c1)" by fastforce
    have q: "t \<noteq> YAML_NO_EVENT \<Longrightarrow> problem c1 = None" using next_event_quiet [OF ne _ a(2)] .
    show "problem c' = None"
    proof (cases t)
      case YAML_SEQUENCE_START_EVENT
      then have "close_node yp (NODE_SEQUENCE (event_pos c1)) (process_sequence f yp c1 []) = Some (Some n, c')"
        using a(1) ne by simp
      then show ?thesis
      proof (rule close_quiet)
        fix xs c2 assume "process_sequence f yp c1 [] = Some (Some xs, c2)"
        then show "problem c2 = None" by (rule sq) (use q YAML_SEQUENCE_START_EVENT in simp)
      qed
    next
      case YAML_MAPPING_START_EVENT
      then have "close_node yp (NODE_MAPPING (event_pos c1)) (process_mapping f yp c1 []) = Some (Some n, c')"
        using a(1) ne by simp
      then show ?thesis
      proof (rule close_quiet)
        fix xs c2 assume "process_mapping f yp c1 [] = Some (Some xs, c2)"
        then show "problem c2 = None" by (rule mq) (use q YAML_MAPPING_START_EVENT in simp)
      qed
    qed (use a(1) ne q in auto)
  next
    assume "process_sequence (Suc f) yp c ns = Some (Some ns', c')" "problem c = None"
    then show "problem c' = None" using nq sq by (auto split: if_splits option.splits)
  next
    assume "process_mapping (Suc f) yp c ps = Some (Some ps', c')" "problem c = None"
    then show "problem c' = None" using nq mq by (auto split: if_splits option.splits)
  qed
qed simp

lemma descent_ctx:
  "(process_node f yp c = Some (r, c') \<longrightarrow> ctx_ok yp c \<longrightarrow> ctx_ok yp c')
    \<and> (process_sequence f yp c ns = Some (rs, c') \<longrightarrow> ctx_ok yp c \<longrightarrow> ctx_ok yp c')
    \<and> (process_mapping f yp c ps = Some (rp, c') \<longrightarrow> ctx_ok yp c \<longrightarrow> ctx_ok yp c')"
proof (induction f arbitrary: c c' r ns rs ps rp)
  case (Suc f)
  have n: "ctx_ok yp c'" if "process_node f yp c = Some (n, c')" "ctx_ok yp c" for n c c' using Suc that by blast
  have s: "ctx_ok yp c'" if "process_sequence f yp c ns = Some (ns', c')" "ctx_ok yp c" for ns ns' c c'
    using Suc that by blast
  have m: "ctx_ok yp c'" if "process_mapping f yp c ps = Some (ps', c')" "ctx_ok yp c" for ps ps' c c'
    using Suc that by blast
  have cl: "ctx_ok yp c'" if "close_node yp mk x = Some (r, c')" "\<And>xs c. x = Some (xs, c) \<Longrightarrow> ctx_ok yp c"
    for mk :: "'x \<Rightarrow> yaml_node" and x r c'
    using that by (auto simp: close_node_def dest: process_event_ok split: option.splits prod.splits)
  show ?case
  proof (intro conjI impI)
    assume a: "process_node (Suc f) yp c = Some (r, c')" "ctx_ok yp c"
    obtain t c1 where ne: "next_event yp c = (t, c1)" by fastforce
    have c1: "ctx_ok yp c1" using next_event_ok [OF ne a(2)] by simp
    show "ctx_ok yp c'"
    proof (cases t)
      case YAML_SEQUENCE_START_EVENT
      then show ?thesis using a(1) ne c1 s
        by (auto simp: close_node_def dest: process_event_ok split: option.splits prod.splits)
    next
      case YAML_MAPPING_START_EVENT
      then show ?thesis using a(1) ne c1 m
        by (auto simp: close_node_def dest: process_event_ok split: option.splits prod.splits)
    qed (use a(1) ne c1 in \<open>auto simp: ctx_ok_def\<close>)
  next
    assume "process_sequence (Suc f) yp c ns = Some (rs, c')" "ctx_ok yp c"
    then show "ctx_ok yp c'" using n s by (auto split: if_splits option.splits)
  next
    assume "process_mapping (Suc f) yp c ps = Some (rp, c')" "ctx_ok yp c"
    then show "ctx_ok yp c'" using n m by (auto split: if_splits option.splits)
  qed
qed simp

text \<open>A document that was read ends with its end event, the one before the lookahead.\<close>

lemma document_ended:
  assumes "process_document f yp c = Some (Some d, c')" "ctx_ok yp c" "problem c = None"
  shows "ctx_ok yp c' \<and> problem c' = None \<and> 2 \<le> calls c' \<and> etype (fst (yp (calls c' - 2))) = YAML_DOCUMENT_END_EVENT
    \<and> etype (next_ev c) = YAML_DOCUMENT_START_EVENT"
proof -
  obtain t c1 where ne: "next_event yp c = (t, c1)" by fastforce
  have t: "t = YAML_DOCUMENT_START_EVENT" using assms(1) ne by (auto simp: process_document_def split: if_splits)
  obtain c2 where c2: "process_node f yp c1 = Some (Some d, c2)"
    and r: "(let (t, c) = next_event yp c2 in
          if t \<noteq> YAML_DOCUMENT_END_EVENT then Some (None, complain YAML_DOCUMENT_END_EVENT c)
          else Some (Some d, c)) = Some (Some d, c')"
    using assms(1) ne t by (auto simp: process_document_def Let_def split: option.splits prod.splits if_splits)
  have c1: "ctx_ok yp c1" "problem c1 = None" "etype (next_ev c) = YAML_DOCUMENT_START_EVENT"
    using next_event_ok [OF ne assms(2)] next_event_quiet [OF ne _ assms(3)] t assms(2) by (auto simp: ctx_ok_def)
  have "ctx_ok yp c2" "problem c2 = None"
    using c2 c1 descent_ctx [of f yp c1 "Some d" c2] descent_quiet [of f yp c1 d c2] by simp_all
  moreover obtain t2 c3 where ne2: "next_event yp c2 = (t2, c3)" by fastforce
  moreover have "t2 = YAML_DOCUMENT_END_EVENT" "c3 = c'" using r ne2 by (auto split: if_splits)
  ultimately show ?thesis
    using c1(3) next_event_ok [OF ne2] next_event_quiet [OF ne2] by (auto simp: ctx_ok_def)
qed

lemma stream_quiet:
  "stream_loop f yp c docs = Some (Some ds, p) \<Longrightarrow> ctx_ok yp c \<Longrightarrow> problem c = None \<Longrightarrow> p = None"
proof (induction f arbitrary: c docs)
  case (Suc f)
  obtain t c1 where ne: "next_event yp c = (t, c1)" by fastforce
  have c1: "ctx_ok yp c1" using next_event_ok [OF ne Suc.prems(2)] by simp
  show ?case
  proof (cases "t = YAML_STREAM_END_EVENT")
    case True
    then show ?thesis using Suc.prems ne next_event_quiet [OF ne] by simp
  next
    case False
    then have q: "problem c1 = None" using Suc.prems(1) ne by (auto simp: is_error_set_def split: if_splits)
    obtain d c2 where d: "process_document f yp c1 = Some (Some d, c2)" "stream_loop f yp c2 (docs @ [d]) = Some (Some ds, p)"
      using Suc.prems(1) False ne by (auto split: if_splits option.splits)
    then show ?thesis using Suc.IH [OF d(2)] document_ended [OF d(1) c1 q] by simp
  qed
qed simp

text \<open>
  What libyaml documents of the order of its events: a document ends the stream, is followed by
  another one, or by the end of all events after an error; a document start is not followed by another
  one; there is no event after the last one.
\<close>

definition event_order :: "yaml_parser \<Rightarrow> bool" where
  "event_order yp \<longleftrightarrow> (\<forall>n. let t = etype (fst (yp n)); t' = etype (fst (yp (Suc n))) in
     (t = YAML_DOCUMENT_END_EVENT \<longrightarrow> t' \<in> {YAML_DOCUMENT_START_EVENT, YAML_STREAM_END_EVENT, YAML_NO_EVENT}) \<and>
     (t = YAML_DOCUMENT_START_EVENT \<longrightarrow> t' \<noteq> YAML_DOCUMENT_START_EVENT) \<and>
     (t = YAML_NO_EVENT \<longrightarrow> t' = YAML_NO_EVENT))"

lemma event_orderD:
  assumes "event_order yp"
  shows "etype (fst (yp n)) = YAML_DOCUMENT_END_EVENT \<Longrightarrow>
      etype (fst (yp (Suc n))) \<in> {YAML_DOCUMENT_START_EVENT, YAML_STREAM_END_EVENT, YAML_NO_EVENT}"
    "etype (fst (yp n)) = YAML_DOCUMENT_START_EVENT \<Longrightarrow> etype (fst (yp (Suc n))) \<noteq> YAML_DOCUMENT_START_EVENT"
    "etype (fst (yp n)) = YAML_NO_EVENT \<Longrightarrow> etype (fst (yp (Suc n))) = YAML_NO_EVENT"
  using assms unfolding event_order_def Let_def by blast+

lemma no_second_document:
  assumes "event_order yp" "ctx_ok yp c" "2 \<le> calls c" "etype (fst (yp (calls c - 2))) = YAML_DOCUMENT_END_EVENT"
    "stream_loop f yp c docs = Some (Some ds, p)"
  shows "ds = docs"
proof -
  obtain g where g: "f = Suc g" using assms(5) by (cases f) auto
  obtain t c1 where ne: "next_event yp c = (t, c1)" by fastforce
  have c1: "ctx_ok yp c1" "calls c1 = calls c + 1" using next_event_ok [OF ne assms(2)] by simp_all
  define n where "n = calls c - 2"
  have n: "calls c = n + 2" using assms(3) by (simp add: n_def)
  have t1: "etype (fst (yp (Suc n))) \<in> {YAML_DOCUMENT_START_EVENT, YAML_STREAM_END_EVENT, YAML_NO_EVENT}"
    using event_orderD(1) [OF assms(1,4)] by (simp add: n_def)
  show ?thesis
  proof (rule ccontr)
    assume neq: "ds \<noteq> docs"
    then have t: "t \<noteq> YAML_STREAM_END_EVENT" using assms(5) g ne by auto
    then have q: "problem c1 = None" using assms(5) g ne by (auto simp: is_error_set_def split: if_splits)
    obtain d c2 where "process_document g yp c1 = Some (Some d, c2)"
      using assms(5) g t ne by (auto split: if_splits option.splits)
    then have "etype (next_ev c1) = YAML_DOCUMENT_START_EVENT" using document_ended c1(1) q by blast
    then have t2: "etype (fst (yp (Suc (Suc n)))) = YAML_DOCUMENT_START_EVENT" using c1 n by (simp add: ctx_ok_def)
    then have "etype (fst (yp (Suc n))) \<noteq> YAML_DOCUMENT_START_EVENT" "etype (fst (yp (Suc n))) \<noteq> YAML_NO_EVENT"
      using event_orderD(2,3) [OF assms(1), of "Suc n"] by (force, force)
    then have se: "etype (fst (yp (Suc n))) = YAML_STREAM_END_EVENT" using t1 by simp
    have "t = YAML_NO_EVENT" using next_event_ok [OF ne assms(2)] se t n by auto
    moreover obtain b c3 where pe: "process_event yp c = (b, c3)" by fastforce
    ultimately have "b" using ne se process_event_ok [OF pe] assms(2) n by (auto simp: next_event_def ctx_ok_def split: if_splits)
    then have "problem c3 \<noteq> None" using pe by (cases "yp (calls c)") (auto simp: process_event_def set_error_def split: if_splits)
    then show False using q ne pe by (simp add: next_event_def)
  qed
qed

section \<open>A parser that plays a list of events\<close>

text \<open>A parser that delivers the given events and then nothing, without an error.\<close>

definition no_error :: yaml_parser_error where
  "no_error = \<lparr>perror = YAML_NO_ERROR, pproblem = [], pvalue = 0, pline = 0, pcolumn = 0\<rparr>"

definition play :: "yaml_event list \<Rightarrow> yaml_parser" where
  "play evs n = (if n < length evs then evs ! n else ev YAML_NO_EVENT \<lparr>line = 0, column = 0\<rparr>, no_error)"

definition stream_events :: "yaml_node \<Rightarrow> yaml_event list" where
  "stream_events t = (let e = (\<lambda>k. ev k \<lparr>line = 0, column = 0\<rparr>) in
     e YAML_STREAM_START_EVENT # e YAML_DOCUMENT_START_EVENT # events t @ [e YAML_DOCUMENT_END_EVENT, e YAML_STREAM_END_EVENT])"

lemma play_feeds:
  assumes "evs \<noteq> []" "calls c = 1" "next_ev c = hd evs" "problem c = None"
  shows "feeds (play evs) c (evs @ [ev YAML_NO_EVENT \<lparr>line = 0, column = 0\<rparr>])"
proof -
  have "fst (play evs (1 + i)) = (evs @ [ev YAML_NO_EVENT \<lparr>line = 0, column = 0\<rparr>]) ! Suc i" if "i < length evs" for i
    using that by (auto simp: play_def nth_append)
  then show ?thesis using assms by (simp add: feeds_def play_def no_error_def)
qed

lemma parse_stream_of_tree:
  assumes "clean t" "length (events t) < f"
  shows "parse_yaml_stream f junk (play (stream_events t)) = Some (Some [t], None)"
proof -
  let ?e = "\<lambda>k. ev k \<lparr>line = 0, column = 0\<rparr>"
  let ?p = "play (stream_events t)"
  obtain g where g: "f = Suc g" using assms(2) by (cases f) auto
  obtain h where h: "g = Suc h" using assms(2) events_head [of t] g by (cases g) auto
  let ?c0 = "\<lparr>calls = 1, event = junk, next_ev = ?e YAML_STREAM_START_EVENT, problem = None\<rparr>"
  have p0: "process_event ?p \<lparr>calls = 0, event = junk, next_ev = junk, problem = None\<rparr> = (False, ?c0)"
    by (simp add: process_event_def set_error_def play_def stream_events_def no_error_def Let_def)
  have "feeds ?p ?c0 (stream_events t @ [?e YAML_NO_EVENT])"
    by (rule play_feeds) (simp_all add: stream_events_def Let_def)
  then have f0: "feeds ?p ?c0 (?e YAML_STREAM_START_EVENT # ?e YAML_DOCUMENT_START_EVENT # events t @
      ?e YAML_DOCUMENT_END_EVENT # [?e YAML_STREAM_END_EVENT, ?e YAML_NO_EVENT])"
    by (simp add: stream_events_def Let_def)
  obtain c1 where c1: "next_event ?p ?c0 = (YAML_STREAM_START_EVENT, c1)"
      "feeds ?p c1 (?e YAML_DOCUMENT_START_EVENT # events t @ ?e YAML_DOCUMENT_END_EVENT # [?e YAML_STREAM_END_EVENT, ?e YAML_NO_EVENT])"
    using feeds_step [OF f0] by auto
  obtain x xs where x: "events t = x # xs" using events_head by blast
  obtain c2 where c2: "next_event ?p c1 = (YAML_DOCUMENT_START_EVENT, c2)"
      "feeds ?p c2 (events t @ ?e YAML_DOCUMENT_END_EVENT # [?e YAML_STREAM_END_EVENT, ?e YAML_NO_EVENT])"
    using feeds_step [of ?p c1] c1(2) x by fastforce
  obtain c3 where c3: "process_node g ?p c2 = Some (Some t, c3)"
      "feeds ?p c3 (?e YAML_DOCUMENT_END_EVENT # [?e YAML_STREAM_END_EVENT, ?e YAML_NO_EVENT])"
    using node_rebuilds [OF assms(1), of ?p] c2(2) assms(2) g unfolding rebuilds_def by (metis less_Suc_eq_le)
  obtain c4 where c4: "next_event ?p c3 = (YAML_DOCUMENT_END_EVENT, c4)"
      "feeds ?p c4 [?e YAML_STREAM_END_EVENT, ?e YAML_NO_EVENT]"
    using feeds_step [OF c3(2)] by auto
  obtain c5 where c5: "next_event ?p c4 = (YAML_STREAM_END_EVENT, c5)" "feeds ?p c5 [?e YAML_NO_EVENT]"
    using feeds_step [OF c4(2)] by auto
  have "is_error_set c1 = False" "problem c5 = None" using c1(2) c5(2) by (simp_all add: feeds_def is_error_set_def)
  then have "stream_loop f ?p ?c0 [] = Some (Some [t], None)"
    using c1(1) c2(1) c3(1) c4(1) c5(1) g h by (simp add: process_document_def)
  then show ?thesis by (simp add: parse_yaml_stream_def p0)
qed

section \<open>Properties\<close>

text \<open>C3. The tree built from a stream of one document is the document that was written: for every tree
  (whose scalars hold no NUL) the parser, fed with the events of its stream, returns exactly that
  tree with all positions and lengths, and records no problem.\<close>

theorem parse_yaml_stream_roundtrip:
  assumes "clean t" "length (events t) < f"
  shows "parse_yaml_stream f junk (play (stream_events t)) = Some (Some [t], None)"
  using assms by (rule parse_stream_of_tree)

theorem parse_yaml_stream_roundtrip_witness:
  "parse_yaml_stream 9 (ev YAML_NO_EVENT \<lparr>line = 0, column = 0\<rparr>)
     (play (stream_events (NODE_MAPPING \<lparr>line = 0, column = 0\<rparr>
       [(NODE_SCALAR \<lparr>line = 0, column = 0\<rparr> ''nid'' 3, NODE_SEQUENCE \<lparr>line = 0, column = 5\<rparr> [])])))
   = Some (Some [NODE_MAPPING \<lparr>line = 0, column = 0\<rparr>
       [(NODE_SCALAR \<lparr>line = 0, column = 0\<rparr> ''nid'' 3, NODE_SEQUENCE \<lparr>line = 0, column = 5\<rparr> [])]], None)"
  by (rule parse_yaml_stream_roundtrip) simp_all

text \<open>C4. The descent terminates: if libyaml delivers no event from its call \<open>N\<close> on (its input is finite
  and nothing follows the end or an error), then \<open>3 * N + 2\<close> units of fuel give a result, and more
  fuel gives the same one; this bounds the depth of the recursion and the turns of every loop.\<close>

theorem parse_yaml_stream_terminates:
  assumes "ends yp N"
  shows "\<exists>r. \<forall>f \<ge> 3 * N + 2. parse_yaml_stream f junk yp = Some r"
proof -
  let ?c = "\<lparr>calls = 0, event = junk, next_ev = junk, problem = None\<rparr>"
  obtain b c where pe: "process_event yp ?c = (b, c)" by fastforce
  then have "ctx_ok yp c" "calls c = 1" using process_event_ok [OF pe] by simp_all
  then obtain r where "stream_loop (3 * N + 2) yp c [] = Some r"
    using stream_total [OF assms, of c "3 * N + 2" "[]"] by (auto simp: gas_def)
  then have "stream_loop f yp c [] = Some r" if "3 * N + 2 \<le> f" for f using stream_more_fuel that by blast
  then show ?thesis unfolding parse_yaml_stream_def pe prod.case Let_def
    by (cases b; cases "etype (next_ev c) = YAML_STREAM_START_EVENT") auto
qed

theorem parse_yaml_stream_terminates_witness:
  "\<exists>r. \<forall>f \<ge> 3 * 0 + 2. parse_yaml_stream f (ev YAML_NO_EVENT \<lparr>line = 0, column = 0\<rparr>) (play []) = Some r"
  by (rule parse_yaml_stream_terminates) (simp add: ends_def play_def)

text \<open>A tree is returned only when no problem was recorded, and it always holds exactly one
  document: the loop consumes the start event of a second document before \<open>process_document\<close>
  looks for it, so that every stream of several documents is refused, and the callers' check for
  more than one document can never fire.\<close>

lemma parse_yaml_stream_one_document:
  assumes "event_order yp" "parse_yaml_stream f junk yp = Some (Some ds, p)"
  shows "length ds = 1 \<and> p = None"
proof -
  let ?c = "\<lparr>calls = 0, event = junk, next_ev = junk, problem = None\<rparr>"
  obtain b c where pe: "process_event yp ?c = (b, c)" by fastforce
  have b: "\<not> b" "etype (next_ev c) = YAML_STREAM_START_EVENT" "stream_loop f yp c [] = Some (Some ds, p)"
    using assms(2) pe by (auto simp: parse_yaml_stream_def split: if_splits)
  have c: "ctx_ok yp c" "calls c = 1" using process_event_ok [OF pe] by simp_all
  have q: "problem c = None" using process_event_quiet [of yp ?c c] pe b(1) by simp
  obtain g where g: "f = Suc g" using b(3) by (cases f) auto
  obtain t c1 where ne: "next_event yp c = (t, c1)" by fastforce
  have c1: "ctx_ok yp c1" using next_event_ok [OF ne c(1)] by simp
  have "t \<noteq> YAML_STREAM_END_EVENT"
    using next_event_ok [OF ne c(1)] b(2) c(1) by (auto simp: ctx_ok_def)
  then have q1: "problem c1 = None" and "\<exists>d c2. process_document g yp c1 = Some (Some d, c2) \<and> stream_loop g yp c2 [d] = Some (Some ds, p)"
    using b(3) g ne by (auto simp: is_error_set_def split: if_splits option.splits)
  then obtain d c2 where d: "process_document g yp c1 = Some (Some d, c2)" "stream_loop g yp c2 [d] = Some (Some ds, p)"
    by blast
  have "ds = [d]" using document_ended [OF d(1) c1 q1] no_second_document [OF assms(1) _ _ _ d(2)] by blast
  then show ?thesis using stream_quiet [OF b(3) c(1) q] by simp
qed

lemma parse_yaml_stream_one_document_witness:
  "length [NODE_SCALAR \<lparr>line = 0, column = 0\<rparr> ''x'' 1] = 1 \<and> (None :: string option) = None"
proof (rule parse_yaml_stream_one_document)
  let ?t = "NODE_SCALAR \<lparr>line = 0, column = 0\<rparr> ''x'' 1"
  show "parse_yaml_stream 2 (ev YAML_NO_EVENT \<lparr>line = 0, column = 0\<rparr>) (play (stream_events ?t)) = Some (Some [?t], None)"
    by code_simp
  show "event_order (play (stream_events ?t))"
    by (auto simp: event_order_def play_def stream_events_def Let_def nth_Cons' less_Suc_eq)
qed

end
