(* ===== verification/VitaImport.thy ===== *)
theory VitaImport
  imports YamlTree
begin

text \<open>
  \<open>import/vita-import.c\<close> and \<open>import/vita-import-parse.c\<close> (THGN and vitadecompiler-mod hold the same
  files): the database of imported libraries, modules, functions and variables, read from a YAML
  document and searched by NID. Allocations are taken to succeed; the counters \<open>n_*\<close> are the
  lengths of the lists; an entry is \<open>None\<close> where the array holds NULL.
\<close>

section \<open>The database\<close>

record vita_imports_stub_t =
  stub_name :: string
  stub_NID :: u32

record vita_imports_module_t =
  mod_name :: string
  mod_NID :: u32
  is_kernel :: bool
  mod_functions :: "vita_imports_stub_t option list"
  mod_variables :: "vita_imports_stub_t option list"

record vita_imports_lib_t =
  lib_name :: string
  lib_NID :: u32
  modules :: "vita_imports_module_t option list"

record vita_imports_t =
  libs :: "vita_imports_lib_t option list"

definition vita_imports_new :: "nat \<Rightarrow> vita_imports_t" where
  "vita_imports_new n = \<lparr>libs = replicate n None\<rparr>"

definition vita_imports_lib_new :: "string \<Rightarrow> u32 \<Rightarrow> nat \<Rightarrow> vita_imports_lib_t" where
  "vita_imports_lib_new name nid n = \<lparr>lib_name = name, lib_NID = nid, modules = replicate n None\<rparr>"

definition vita_imports_module_new :: "string \<Rightarrow> bool \<Rightarrow> u32 \<Rightarrow> nat \<Rightarrow> nat \<Rightarrow> vita_imports_module_t" where
  "vita_imports_module_new name krn nid nf nv = \<lparr>mod_name = name, mod_NID = nid, is_kernel = krn,
     mod_functions = replicate nf None, mod_variables = replicate nv None\<rparr>"

definition vita_imports_stub_new :: "string \<Rightarrow> u32 \<Rightarrow> vita_imports_stub_t" where
  "vita_imports_stub_new name nid = \<lparr>stub_name = name, stub_NID = nid\<rparr>"

section \<open>Searching by NID\<close>

text \<open>\<open>key\<close> reads the NID through the common fields all entries begin with.\<close>

fun generic_find :: "('a \<Rightarrow> u32) \<Rightarrow> 'a option list \<Rightarrow> u32 \<Rightarrow> 'a option" where
  "generic_find key [] nid = None"
| "generic_find key (None # xs) nid = generic_find key xs nid"
| "generic_find key (Some x # xs) nid = (if key x = nid then Some x else generic_find key xs nid)"

definition vita_imports_find_lib :: "vita_imports_t \<Rightarrow> u32 \<Rightarrow> vita_imports_lib_t option" where
  "vita_imports_find_lib imp nid = generic_find lib_NID (libs imp) nid"

definition vita_imports_find_module :: "vita_imports_lib_t \<Rightarrow> u32 \<Rightarrow> vita_imports_module_t option" where
  "vita_imports_find_module lib nid = generic_find mod_NID (modules lib) nid"

definition vita_imports_find_function :: "vita_imports_module_t \<Rightarrow> u32 \<Rightarrow> vita_imports_stub_t option" where
  "vita_imports_find_function m nid = generic_find stub_NID (mod_functions m) nid"

definition vita_imports_find_variable :: "vita_imports_module_t \<Rightarrow> u32 \<Rightarrow> vita_imports_stub_t option" where
  "vita_imports_find_variable m nid = generic_find stub_NID (mod_variables m) nid"

section \<open>Messages\<close>

type_synonym 'a logged = "'a \<times> string list"

definition quoted :: "string \<Rightarrow> string" where
  "quoted s = CHR 0x27 # s @ [CHR 0x27]"

definition at_node :: "yaml_node \<Rightarrow> string \<Rightarrow> string" where
  "at_node n s = ''error: line: '' @ dec_int (sint (line (node_pos n))) @ '', column: ''
     @ dec_int (sint (column (node_pos n))) @ '', '' @ s @ [CHR 0x0A]"

definition expecting_scalar :: "string \<Rightarrow> yaml_node \<Rightarrow> string" where
  "expecting_scalar what n = at_node n (''expecting '' @ what @ '' to be scalar, got '' @ quoted (node_type_str n) @ ''.'')"

definition no_integer :: "string \<Rightarrow> yaml_node \<Rightarrow> string" where
  "no_integer what n = at_node n (''could not convert '' @ what @ '' '' @ quoted (case n of NODE_SCALAR _ v _ \<Rightarrow> v | _ \<Rightarrow> [])
     @ '' to 32 bit integer.'')"

definition scalar_value :: "yaml_node \<Rightarrow> string" where
  "scalar_value n = (case n of NODE_SCALAR _ v _ \<Rightarrow> v | _ \<Rightarrow> [])"

section \<open>Reading the tree\<close>

text \<open>What the handlers of functions and variables share: the new stub or the message.\<close>

definition read_stub :: "string \<Rightarrow> yaml_node \<Rightarrow> yaml_node \<Rightarrow> string + vita_imports_stub_t" where
  "read_stub what parent child =
    (if \<not> is_scalar parent then Inl (expecting_scalar what parent)
     else let symbol = vita_imports_stub_new (scalar_value parent) 0 in
       if \<not> is_scalar child then Inl (expecting_scalar (what @ '' value'') child)
       else let (res, nid) = process_32bit_integer child (stub_NID symbol) in
         if res < 0 then Inl (no_integer (what @ '' nid'') child)
         else Inr (symbol\<lparr>stub_NID := nid\<rparr>))"

definition process_import_functions :: "yaml_node \<Rightarrow> yaml_node \<Rightarrow> vita_imports_module_t logged \<Rightarrow> int \<times> vita_imports_module_t logged" where
  "process_import_functions parent child = (\<lambda>(library, err).
    case read_stub ''function'' parent child of
      Inl m \<Rightarrow> (-1, library, err @ [m])
    | Inr symbol \<Rightarrow> (0, library\<lparr>mod_functions := mod_functions library @ [Some symbol]\<rparr>, err))"

definition process_import_variables :: "yaml_node \<Rightarrow> yaml_node \<Rightarrow> vita_imports_module_t logged \<Rightarrow> int \<times> vita_imports_module_t logged" where
  "process_import_variables parent child = (\<lambda>(library, err).
    case read_stub ''variable'' parent child of
      Inl m \<Rightarrow> (-1, library, err @ [m])
    | Inr symbol \<Rightarrow> (0, library\<lparr>mod_variables := mod_variables library @ [Some symbol]\<rparr>, err))"

definition process_library :: "yaml_node \<Rightarrow> yaml_node \<Rightarrow> vita_imports_module_t logged \<Rightarrow> int \<times> vita_imports_module_t logged" where
  "process_library parent child = (\<lambda>(library, err).
    if \<not> is_scalar parent then (-1, library, err @ [expecting_scalar ''library key'' parent])
    else let key = scalar_value parent in
    if key = ''kernel'' then
      (if \<not> is_scalar child then (-1, library, err @ [expecting_scalar ''library syscall flag'' child])
       else let (res, b) = process_bool child (is_kernel library) in
         if res < 0 then (-1, library, err @ [at_node child (''could not convert library flag to boolean, got ''
           @ quoted (scalar_value child) @ ''. expected '' @ quoted ''true'' @ '' or '' @ quoted ''false'' @ ''.'')])
         else (0, library\<lparr>is_kernel := b\<rparr>, err))
    else if key = ''functions'' then
      (let (r, s) = yaml_iterate_mapping child process_import_functions (library, err) in (if r < 0 then -1 else 0, s))
    else if key = ''variables'' then
      (let (r, s) = yaml_iterate_mapping child process_import_variables (library, err) in (if r < 0 then -1 else 0, s))
    else if key = ''nid'' then
      (if \<not> is_scalar child then (-1, library, err @ [expecting_scalar ''library nid'' child])
       else let (res, nid) = process_32bit_integer child (mod_NID library) in
         if res < 0 then (-1, library, err @ [no_integer ''library nid'' child])
         else (0, library\<lparr>mod_NID := nid\<rparr>, err))
    else (-1, library, err @ [at_node child (''unrecognised library key '' @ quoted key @ ''.'')]))"

definition process_libraries :: "yaml_node \<Rightarrow> yaml_node \<Rightarrow> vita_imports_lib_t logged \<Rightarrow> int \<times> vita_imports_lib_t logged" where
  "process_libraries parent child = (\<lambda>(import, err).
    if \<not> is_scalar parent then (-1, import, err @ [expecting_scalar ''library key'' parent])
    else let library = (vita_imports_module_new [] False 0 0 0)\<lparr>mod_name := scalar_value parent\<rparr>;
             (r, library, err) = yaml_iterate_mapping child process_library (library, err)
      in if r < 0 then (-1, import, err) else (0, import\<lparr>modules := modules import @ [Some library]\<rparr>, err))"

definition process_import :: "yaml_node \<Rightarrow> yaml_node \<Rightarrow> vita_imports_lib_t logged \<Rightarrow> int \<times> vita_imports_lib_t logged" where
  "process_import parent child = (\<lambda>(import, err).
    if \<not> is_scalar parent then (-1, import, err @ [expecting_scalar ''module key'' parent])
    else let key = scalar_value parent in
    if key = ''nid'' then
      (if \<not> is_scalar child then (-1, import, err @ [expecting_scalar ''module nid'' child])
       else let (res, nid) = process_32bit_integer child (lib_NID import) in
         if res < 0 then (-1, import, err @ [no_integer ''module nid'' child])
         else (0, import\<lparr>lib_NID := nid\<rparr>, err))
    else if key = ''libraries'' then
      (let (r, s) = yaml_iterate_mapping child process_libraries (import, err) in (if r < 0 then -1 else 0, s))
    else (-1, import, err @ [at_node child (''unrecognised module key '' @ quoted key @ ''.'')]))"

definition process_import_list :: "yaml_node \<Rightarrow> yaml_node \<Rightarrow> vita_imports_t logged \<Rightarrow> int \<times> vita_imports_t logged" where
  "process_import_list parent child = (\<lambda>(imports, err).
    if \<not> is_scalar parent then (-1, imports, err @ [expecting_scalar ''modules key'' parent])
    else let import = vita_imports_lib_new (scalar_value parent) 0 0;
             (r, import, err) = yaml_iterate_mapping child process_import (import, err)
      in if r < 0 then (-1, imports, err) else (0, imports\<lparr>libs := libs imports @ [Some import]\<rparr>, err))"

text \<open>The loop over the root: entries other than \<open>modules\<close> are passed over.\<close>

definition process_root :: "yaml_node \<times> yaml_node \<Rightarrow> vita_imports_t logged \<Rightarrow> int \<times> vita_imports_t logged" where
  "process_root = (\<lambda>(lhs, rhs) s.
    if is_scalar lhs \<and> scalar_value lhs = ''modules'' then yaml_iterate_mapping rhs process_import_list s else (0, s))"

definition read_vita_imports :: "yaml_node \<Rightarrow> string list \<Rightarrow> vita_imports_t option logged" where
  "read_vita_imports doc err = (case doc of
     NODE_MAPPING _ pairs \<Rightarrow>
       if length pairs < 1 then
         (None, err @ [at_node doc (''expecting at least one entry within root mapping, got '' @ dec (length pairs) @ ''.'')])
       else (let (r, imports, err) = iterate_loop process_root pairs (vita_imports_new 0, err) in
         (if r < 0 then None else Some imports, err))
   | _ \<Rightarrow> (None, err @ [at_node doc (''expecting root node to be a mapping, got '' @ quoted (node_type_str doc) @ ''.'')]))"

text \<open>The outer \<open>None\<close>: not enough fuel. \<open>printf\<close> shows a NULL problem as \<open>(null)\<close>.\<close>

definition vita_imports_loads :: "nat \<Rightarrow> yaml_event \<Rightarrow> yaml_parser \<Rightarrow> string list \<Rightarrow> vita_imports_t option logged option" where
  "vita_imports_loads f junk yp err = (case parse_yaml_stream f junk yp of
     None \<Rightarrow> None
   | Some (None, p) \<Rightarrow>
       Some (None, err @ [''error: '' @ (case p of None \<Rightarrow> ''(null)'' | Some s \<Rightarrow> s) @ [CHR 0x0A]])
   | Some (Some docs, p) \<Rightarrow>
       (if length docs \<noteq> 1 then
          Some (None, err @ [''error: expecting a single yaml document, got: '' @ dec (length docs) @ [CHR 0x0A]])
        else Some (read_vita_imports (docs ! 0) err)))"

text \<open>\<open>file\<close> is the parser over the opened file, or \<open>None\<close> where \<open>fopen\<close> fails.\<close>

definition vita_imports_load :: "nat \<Rightarrow> yaml_event \<Rightarrow> string \<Rightarrow> yaml_parser option \<Rightarrow> string list \<Rightarrow> vita_imports_t option logged option" where
  "vita_imports_load f junk filename file err = (case file of
     None \<Rightarrow> Some (None, err @ [''Error: could not open '' @ filename @ [CHR 0x0A]])
   | Some yp \<Rightarrow> vita_imports_loads f junk yp err)"

section \<open>Lookup as an interface\<close>

text \<open>What a client of a table may rely on: a hit is an entry with that NID, a miss means there is none.\<close>

locale nid_table =
  fixes key :: "'a \<Rightarrow> u32" and find :: "'a option list \<Rightarrow> u32 \<Rightarrow> 'a option"
  assumes find_hit: "find xs nid = Some x \<Longrightarrow> Some x \<in> set xs \<and> key x = nid"
    and find_miss: "find xs nid = None \<Longrightarrow> Some x \<in> set xs \<Longrightarrow> key x \<noteq> nid"
begin

lemma find_iff_present: "(\<exists>x. find xs nid = Some x) \<longleftrightarrow> (\<exists>x. Some x \<in> set xs \<and> key x = nid)"
  using find_hit find_miss by (cases "find xs nid") blast+

lemma find_distinct:
  assumes "distinct (map key ys)" "x \<in> set ys"
  shows "find (map Some ys) (key x) = Some x"
proof -
  have "Some x \<in> set (map Some ys)" using assms(2) by simp
  then obtain y where y: "find (map Some ys) (key x) = Some y" using find_miss [of "map Some ys" "key x" x] by fastforce
  then have "y \<in> set ys" "key y = key x" using find_hit [OF y] by auto
  then have "y = x" using assms by (meson distinct_map inj_onD)
  then show ?thesis using y by simp
qed

end

lemma generic_find_hit: "generic_find key xs nid = Some x \<Longrightarrow> Some x \<in> set xs \<and> key x = nid"
  by (induction key xs nid rule: generic_find.induct) (auto split: if_splits)

lemma generic_find_miss: "generic_find key xs nid = None \<Longrightarrow> Some x \<in> set xs \<Longrightarrow> key x \<noteq> nid"
  by (induction key xs nid rule: generic_find.induct) (auto split: if_splits)

interpretation lib_table: nid_table lib_NID "\<lambda>xs. vita_imports_find_lib \<lparr>libs = xs\<rparr>"
  by unfold_locales (auto simp: vita_imports_find_lib_def dest: generic_find_hit generic_find_miss)

interpretation module_table: nid_table mod_NID "\<lambda>xs. vita_imports_find_module \<lparr>lib_name = n, lib_NID = d, modules = xs\<rparr>"
  for n d
  by unfold_locales (auto simp: vita_imports_find_module_def dest: generic_find_hit generic_find_miss)

interpretation function_table: nid_table stub_NID
  "\<lambda>xs. vita_imports_find_function \<lparr>mod_name = n, mod_NID = d, is_kernel = k, mod_functions = xs, mod_variables = vs\<rparr>"
  for n d k vs
  by unfold_locales (auto simp: vita_imports_find_function_def dest: generic_find_hit generic_find_miss)

interpretation variable_table: nid_table stub_NID
  "\<lambda>xs. vita_imports_find_variable \<lparr>mod_name = n, mod_NID = d, is_kernel = k, mod_functions = fs, mod_variables = xs\<rparr>"
  for n d k fs
  by unfold_locales (auto simp: vita_imports_find_variable_def dest: generic_find_hit generic_find_miss)

section \<open>A database as a document\<close>

definition pos0 :: yaml_position where
  "pos0 = \<lparr>line = 0, column = 0\<rparr>"

definition scalar :: "string \<Rightarrow> yaml_node" where
  "scalar s = NODE_SCALAR pos0 s (of_nat (length s))"

definition nid_scalar :: "u32 \<Rightarrow> yaml_node" where
  "nid_scalar nid = scalar (''0x'' @ hex_pad 8 (unat nid))"

definition stub_yaml :: "vita_imports_stub_t \<Rightarrow> yaml_node \<times> yaml_node" where
  "stub_yaml st = (scalar (stub_name st), nid_scalar (stub_NID st))"

definition module_yaml :: "vita_imports_module_t \<Rightarrow> yaml_node \<times> yaml_node" where
  "module_yaml m = (scalar (mod_name m), NODE_MAPPING pos0
     [(scalar ''nid'', nid_scalar (mod_NID m)),
      (scalar ''kernel'', scalar (if is_kernel m then ''true'' else ''false'')),
      (scalar ''functions'', NODE_MAPPING pos0 (map (\<lambda>x. stub_yaml (the x)) (mod_functions m))),
      (scalar ''variables'', NODE_MAPPING pos0 (map (\<lambda>x. stub_yaml (the x)) (mod_variables m)))])"

definition lib_yaml :: "vita_imports_lib_t \<Rightarrow> yaml_node \<times> yaml_node" where
  "lib_yaml l = (scalar (lib_name l), NODE_MAPPING pos0
     [(scalar ''nid'', nid_scalar (lib_NID l)),
      (scalar ''libraries'', NODE_MAPPING pos0 (map (\<lambda>x. module_yaml (the x)) (modules l)))])"

definition to_yaml :: "vita_imports_t \<Rightarrow> yaml_node" where
  "to_yaml db = NODE_MAPPING pos0 [(scalar ''modules'', NODE_MAPPING pos0 (map (\<lambda>x. lib_yaml (the x)) (libs db)))]"

text \<open>No entry of any table is NULL.\<close>

definition complete_module :: "vita_imports_module_t \<Rightarrow> bool" where
  "complete_module m \<longleftrightarrow> None \<notin> set (mod_functions m) \<and> None \<notin> set (mod_variables m)"

definition complete_lib :: "vita_imports_lib_t \<Rightarrow> bool" where
  "complete_lib l \<longleftrightarrow> None \<notin> set (modules l) \<and> (\<forall>m. Some m \<in> set (modules l) \<longrightarrow> complete_module m)"

definition complete_db :: "vita_imports_t \<Rightarrow> bool" where
  "complete_db db \<longleftrightarrow> None \<notin> set (libs db) \<and> (\<forall>l. Some l \<in> set (libs db) \<longrightarrow> complete_lib l)"

lemma map_the: "None \<notin> set xs \<Longrightarrow> map (\<lambda>x. Some (the x)) xs = xs"
  by (induction xs) auto

lemma iterate_map:
  "(\<And>x s. x \<in> set xs \<Longrightarrow> f (enc x) s = (0, upd x s)) \<Longrightarrow> iterate_loop f (map enc xs) s = (0, fold upd xs s)"
  by (induction xs arbitrary: s) auto

lemma read_hex [simp]: "process_32bit_integer (nid_scalar nid) old = (0, nid)"
proof -
  have "process_32bit_integer (nid_scalar nid) old
      = (let (r, rest) = strtoul0 (''0x'' @ hex_pad 8 (unat nid)); res = ucast r :: u32 in
        if rest \<noteq> [] then (if (ucast res :: u64) = -1 then -2 else -3, old) else (0, res))"
    by (simp add: process_32bit_integer_def nid_scalar_def scalar_def)
  moreover have "ucast (ucast nid :: u64) = nid" by (rule bit_word_eqI) (simp add: bit_simps)
  ultimately show ?thesis unfolding strtoul0_hex by (simp add: Let_def)
qed

lemma scalar_simps [simp]: "is_scalar (scalar s)" "scalar_value (scalar s) = s" "is_scalar (nid_scalar n)"
  by (simp_all add: scalar_def is_scalar_def scalar_value_def nid_scalar_def)

lemma iterate_pairs [simp]: "yaml_iterate_mapping (NODE_MAPPING p ps) f s = iterate_loop (\<lambda>(l, r). f l r) ps s"
  by (simp add: yaml_iterate_mapping_def)

lemma read_stub_yaml [simp]: "read_stub w (fst (stub_yaml st)) (snd (stub_yaml st)) = Inr st"
  by (simp add: read_stub_def stub_yaml_def vita_imports_stub_new_def)

lemma functions_read:
  assumes "None \<notin> set fs"
  shows "iterate_loop (\<lambda>(l, r). process_import_functions l r) (map (\<lambda>x. stub_yaml (the x)) fs) (m, e)
    = (0, m\<lparr>mod_functions := mod_functions m @ fs\<rparr>, e)"
proof -
  let ?upd = "\<lambda>st (m, e). (m\<lparr>mod_functions := mod_functions m @ [Some (the st)]\<rparr>, e)"
  have "iterate_loop (\<lambda>(l, r). process_import_functions l r) (map (\<lambda>x. stub_yaml (the x)) fs) (m, e) = (0, fold ?upd fs (m, e))"
    by (rule iterate_map) (auto simp: process_import_functions_def case_prod_beta)
  also have "fold ?upd fs (m, e) = (m\<lparr>mod_functions := mod_functions m @ map (\<lambda>x. Some (the x)) fs\<rparr>, e)"
    by (induction fs arbitrary: m) auto
  finally show ?thesis by (simp add: map_the [OF assms])
qed

lemma variables_read:
  assumes "None \<notin> set fs"
  shows "iterate_loop (\<lambda>(l, r). process_import_variables l r) (map (\<lambda>x. stub_yaml (the x)) fs) (m, e)
    = (0, m\<lparr>mod_variables := mod_variables m @ fs\<rparr>, e)"
proof -
  let ?upd = "\<lambda>st (m, e). (m\<lparr>mod_variables := mod_variables m @ [Some (the st)]\<rparr>, e)"
  have "iterate_loop (\<lambda>(l, r). process_import_variables l r) (map (\<lambda>x. stub_yaml (the x)) fs) (m, e) = (0, fold ?upd fs (m, e))"
    by (rule iterate_map) (auto simp: process_import_variables_def case_prod_beta)
  also have "fold ?upd fs (m, e) = (m\<lparr>mod_variables := mod_variables m @ map (\<lambda>x. Some (the x)) fs\<rparr>, e)"
    by (induction fs arbitrary: m) auto
  finally show ?thesis by (simp add: map_the [OF assms])
qed

lemma read_bool [simp]: "process_bool (scalar (if b then ''true'' else ''false'')) old = (0, b)"
  by (simp add: process_bool_def process_boolean_def scalar_def)

lemma module_read:
  assumes "complete_module m"
  shows "process_libraries (fst (module_yaml m)) (snd (module_yaml m)) (l, e) = (0, l\<lparr>modules := modules l @ [Some m]\<rparr>, e)"
  using assms functions_read [of "mod_functions m"] variables_read [of "mod_variables m"]
  by (simp add: process_libraries_def module_yaml_def process_library_def vita_imports_module_new_def complete_module_def Let_def)

lemma modules_read:
  assumes "None \<notin> set ms" "\<forall>m. Some m \<in> set ms \<longrightarrow> complete_module m"
  shows "iterate_loop (\<lambda>(l, r). process_libraries l r) (map (\<lambda>x. module_yaml (the x)) ms) (l, e)
    = (0, l\<lparr>modules := modules l @ ms\<rparr>, e)"
proof -
  let ?upd = "\<lambda>m (l, e). (l\<lparr>modules := modules l @ [Some (the m)]\<rparr>, e)"
  have "complete_module (the x)" if "x \<in> set ms" for x using assms that by (cases x) auto
  then have "iterate_loop (\<lambda>(l, r). process_libraries l r) (map (\<lambda>x. module_yaml (the x)) ms) (l, e) = (0, fold ?upd ms (l, e))"
    by (intro iterate_map) (auto simp: case_prod_beta module_read)
  also have "fold ?upd ms (l, e) = (l\<lparr>modules := modules l @ map (\<lambda>x. Some (the x)) ms\<rparr>, e)"
    by (induction ms arbitrary: l) auto
  finally show ?thesis by (simp add: map_the [OF assms(1)])
qed

lemma lib_read:
  assumes "complete_lib l"
  shows "process_import_list (fst (lib_yaml l)) (snd (lib_yaml l)) (db, e) = (0, db\<lparr>libs := libs db @ [Some l]\<rparr>, e)"
  using assms modules_read [of "modules l"]
  by (simp add: process_import_list_def lib_yaml_def process_import_def vita_imports_lib_new_def complete_lib_def Let_def)

lemma db_read:
  assumes "complete_db db"
  shows "read_vita_imports (to_yaml db) e = (Some db, e)"
proof -
  let ?upd = "\<lambda>l (db, e). (db\<lparr>libs := libs db @ [Some (the l)]\<rparr>, e)"
  have n: "None \<notin> set (libs db)" using assms by (simp add: complete_db_def)
  have "complete_lib (the x)" if "x \<in> set (libs db)" for x using assms that by (cases x) (auto simp: complete_db_def)
  then have "iterate_loop (\<lambda>(l, r). process_import_list l r) (map (\<lambda>x. lib_yaml (the x)) (libs db)) (vita_imports_new 0, e)
      = (0, fold ?upd (libs db) (vita_imports_new 0, e))"
    by (intro iterate_map) (auto simp: case_prod_beta lib_read)
  also have "fold ?upd xs (d, e) = (d\<lparr>libs := libs d @ map (\<lambda>x. Some (the x)) xs\<rparr>, e)" for xs d
    by (induction xs arbitrary: d) auto
  finally show ?thesis
    by (simp add: read_vita_imports_def to_yaml_def process_root_def map_the [OF n] vita_imports_new_def)
qed

section \<open>At most one message\<close>

text \<open>A handler prints nothing when it succeeds and at most one message when it fails.\<close>

definition one_message :: "('a \<Rightarrow> 's logged \<Rightarrow> int \<times> 's logged) \<Rightarrow> bool" where
  "one_message h \<longleftrightarrow> (\<forall>x s e r s' e'. h x (s, e) = (r, s', e') \<longrightarrow> r \<le> 0 \<and> (if r < 0 then e' = e \<or> (\<exists>m. e' = e @ [m]) else e' = e))"

lemma one_messageD: "one_message h \<Longrightarrow> h x (s, e) = (r, s', e') \<Longrightarrow> r \<le> 0 \<and> (if r < 0 then e' = e \<or> (\<exists>m. e' = e @ [m]) else e' = e)"
  by (simp add: one_message_def)

lemma iterate_one_message:
  assumes "one_message h" "iterate_loop h xs (s, e) = (r, s', e')"
  shows "r \<le> 0 \<and> (if r < 0 then e' = e \<or> (\<exists>m. e' = e @ [m]) else e' = e)"
  using assms(2)
proof (induction xs arbitrary: s e)
  case (Cons x xs)
  obtain r1 s1 e1 where h: "h x (s, e) = (r1, s1, e1)" by (metis prod_cases3)
  then show ?case using one_messageD [OF assms(1) h] Cons by (cases "r1 < 0") auto
qed auto

lemma mapping_one_message:
  assumes "one_message (\<lambda>(l, r). h l r)" "yaml_iterate_mapping n h (s, e) = (r, s', e')"
  shows "r \<le> 0 \<and> (if r < 0 then e' = e \<or> (\<exists>m. e' = e @ [m]) else e' = e)"
  using assms(2) iterate_one_message [OF assms(1)] by (cases n) (auto simp: yaml_iterate_mapping_def split: if_splits)

lemma stub_one_message:
  "one_message (\<lambda>(l, r). process_import_functions l r)" "one_message (\<lambda>(l, r). process_import_variables l r)"
  by (auto simp: one_message_def process_import_functions_def process_import_variables_def split: sum.splits)

lemma conv_code:
  "fst (process_32bit_integer n x) \<le> 0" "fst (process_bool n b) \<le> 0"
  by (auto simp: process_32bit_integer_def process_bool_def process_boolean_def Let_def case_prod_beta split: yaml_node.split)

lemma library_one_message: "one_message (\<lambda>(l, r). process_library l r)"
proof -
  have f: "process_library l r (s, e) = (c, s', e') \<Longrightarrow> c \<le> 0 \<and> (if c < 0 then e' = e \<or> (\<exists>m. e' = e @ [m]) else e' = e)" for l r s e c s' e'
    using mapping_one_message [OF stub_one_message(1), of r s e] mapping_one_message [OF stub_one_message(2), of r s e]
    by (simp add: process_library_def Let_def case_prod_beta split: if_splits) (metis prod.collapse)+
  then show ?thesis by (auto simp: one_message_def)
qed

lemma libraries_one_message: "one_message (\<lambda>(l, r). process_libraries l r)"
proof -
  have f: "process_libraries l r (s, e) = (c, s', e') \<Longrightarrow> c \<le> 0 \<and> (if c < 0 then e' = e \<or> (\<exists>m. e' = e @ [m]) else e' = e)" for l r s e c s' e'
    using mapping_one_message [OF library_one_message, of r]
    by (simp add: process_libraries_def Let_def case_prod_beta split: if_splits) (metis prod.collapse)+
  then show ?thesis by (auto simp: one_message_def)
qed

lemma import_one_message: "one_message (\<lambda>(l, r). process_import l r)"
proof -
  have f: "process_import l r (s, e) = (c, s', e') \<Longrightarrow> c \<le> 0 \<and> (if c < 0 then e' = e \<or> (\<exists>m. e' = e @ [m]) else e' = e)" for l r s e c s' e'
    using mapping_one_message [OF libraries_one_message, of r s e]
    by (simp add: process_import_def Let_def case_prod_beta split: if_splits) (metis prod.collapse)+
  then show ?thesis by (auto simp: one_message_def)
qed

lemma import_list_one_message: "one_message (\<lambda>(l, r). process_import_list l r)"
proof -
  have f: "process_import_list l r (s, e) = (c, s', e') \<Longrightarrow> c \<le> 0 \<and> (if c < 0 then e' = e \<or> (\<exists>m. e' = e @ [m]) else e' = e)" for l r s e c s' e'
    using mapping_one_message [OF import_one_message, of r]
    by (simp add: process_import_list_def Let_def case_prod_beta split: if_splits) (metis prod.collapse)+
  then show ?thesis by (auto simp: one_message_def)
qed

lemma root_one_message: "one_message process_root"
  using mapping_one_message [OF import_list_one_message]
  by (auto simp: one_message_def process_root_def split: prod.splits if_splits)

section \<open>Release of the database\<close>

text \<open>
  The blocks a database owns, named by the way to them: \<open>i # p\<close> is the \<open>i\<close>-th entry below \<open>p\<close>; the
  entries of a module's functions and variables have the steps \<open>2 * i\<close> and \<open>2 * i + 1\<close>.
\<close>

datatype block_kind = Struct | Name | Libs | Modules | Functions | Variables

type_synonym block = "nat list \<times> block_kind"

definition entries :: "(nat list \<Rightarrow> 'a \<Rightarrow> block list) \<Rightarrow> (nat \<Rightarrow> nat list) \<Rightarrow> 'a option list \<Rightarrow> block list" where
  "entries f path xs = concat (map (\<lambda>i. case xs ! i of None \<Rightarrow> [] | Some x \<Rightarrow> f (path i) x) [0..<length xs])"

definition stub_free :: "nat list \<Rightarrow> vita_imports_stub_t \<Rightarrow> block list" where
  "stub_free p st = [(p, Name), (p, Struct)]"

definition module_free :: "nat list \<Rightarrow> vita_imports_module_t \<Rightarrow> block list" where
  "module_free p m = entries stub_free (\<lambda>i. (2 * i + 1) # p) (mod_variables m)
     @ entries stub_free (\<lambda>i. (2 * i) # p) (mod_functions m) @ [(p, Name), (p, Struct)]"

definition lib_free :: "nat list \<Rightarrow> vita_imports_lib_t \<Rightarrow> block list" where
  "lib_free p l = entries module_free (\<lambda>i. i # p) (modules l) @ [(p, Name), (p, Struct)]"

definition imports_free :: "vita_imports_t \<Rightarrow> block list" where
  "imports_free db = entries lib_free (\<lambda>i. [i]) (libs db) @ [([], Struct)]"

text \<open>What the constructors and the handlers allocate.\<close>

definition module_blocks :: "nat list \<Rightarrow> vita_imports_module_t \<Rightarrow> block list" where
  "module_blocks p m = [(p, Struct), (p, Name), (p, Functions), (p, Variables)]
     @ entries stub_free (\<lambda>i. (2 * i) # p) (mod_functions m) @ entries stub_free (\<lambda>i. (2 * i + 1) # p) (mod_variables m)"

definition lib_blocks :: "nat list \<Rightarrow> vita_imports_lib_t \<Rightarrow> block list" where
  "lib_blocks p l = [(p, Struct), (p, Name), (p, Modules)] @ entries module_blocks (\<lambda>i. i # p) (modules l)"

definition imports_blocks :: "vita_imports_t \<Rightarrow> block list" where
  "imports_blocks db = [([], Struct), ([], Libs)] @ entries lib_blocks (\<lambda>i. [i]) (libs db)"

definition is_array :: "block \<Rightarrow> bool" where
  "is_array b \<longleftrightarrow> snd b \<in> {Libs, Modules, Functions, Variables}"

lemma entries_filter:
  "(\<And>p x. set (f p x) = {b \<in> set (g p x). P b}) \<Longrightarrow> set (entries f path xs) = {b \<in> set (entries g path xs). P b}"
  by (auto simp: entries_def split: option.splits)

definition below :: "nat list \<Rightarrow> block \<Rightarrow> bool" where
  "below p b \<longleftrightarrow> (\<exists>q. fst b = q @ p)"

lemma entries_below:
  assumes "\<And>p x b. b \<in> set (f p x) \<Longrightarrow> below p b" "b \<in> set (entries f path xs)"
  shows "\<exists>i < length xs. below (path i) b"
proof -
  obtain i where i: "i < length xs" "b \<in> set (case xs ! i of None \<Rightarrow> [] | Some x \<Rightarrow> f (path i) x)"
    using assms(2) unfolding entries_def set_concat set_map by fastforce
  then obtain x where "b \<in> set (f (path i) x)" by (cases "xs ! i") auto
  then show ?thesis using assms(1) i(1) by blast
qed

lemma below_step: "below (i # p) b \<Longrightarrow> below p b"
  unfolding below_def by (metis append.assoc append_Cons append_Nil)

lemma below_disjoint:
  assumes "below (i # p) b" "below (j # p) b"
  shows "i = j"
proof -
  obtain q r where "fst b = (q @ [i]) @ p" "fst b = (r @ [j]) @ p" using assms by (auto simp: below_def)
  then have "q @ [i] = r @ [j]" by (metis append_same_eq)
  then show ?thesis by simp
qed

lemma below_strict: "below (i # p) b \<Longrightarrow> fst b \<noteq> p"
  by (auto simp: below_def)

lemma entries_distinct:
  assumes "\<And>p x. distinct (f p x)" "\<And>p x b. b \<in> set (f p x) \<Longrightarrow> below p b"
    "\<And>i j b. below (path i) b \<Longrightarrow> below (path j) b \<Longrightarrow> i = j"
  shows "distinct (entries f path xs)"
proof -
  define g where "g i = (case xs ! i of None \<Rightarrow> [] | Some x \<Rightarrow> f (path i) x)" for i
  have bl: "below (path i) b" if "b \<in> set (g i)" for i b
    using assms(2) that by (cases "xs ! i") (auto simp: g_def)
  have ds: "distinct (g i)" for i using assms(1) by (simp add: g_def split: option.split)
  have "distinct (concat (map g [0..<n]))" for n
  proof (induction n)
    case (Suc n)
    have "set (concat (map g [0..<n])) \<inter> set (g n) = {}"
    proof (rule ccontr)
      assume "set (concat (map g [0..<n])) \<inter> set (g n) \<noteq> {}"
      then obtain b i where b: "i < n" "b \<in> set (g i)" "b \<in> set (g n)" by auto
      then have "i = n" using assms(3) bl by blast
      then show False using b(1) by simp
    qed
    then show ?case using Suc ds by simp
  qed simp
  then show ?thesis by (simp add: entries_def g_def [abs_def])
qed

lemmas free_defs = stub_free_def module_free_def lib_free_def imports_free_def
lemmas block_defs = stub_free_def module_blocks_def lib_blocks_def imports_blocks_def

lemma below_self: "below p (p, k)"
  by (auto simp: below_def)

lemma stub_below: "b \<in> set (stub_free p st) \<Longrightarrow> below p b"
  by (auto simp: stub_free_def below_self)

lemma stub_distinct: "distinct (stub_free p st)"
  by (simp add: stub_free_def)

lemma entries_stub_below: "b \<in> set (entries stub_free (\<lambda>i. h i # p) xs) \<Longrightarrow> \<exists>i. below (h i # p) b"
  using entries_below [of stub_free b "\<lambda>i. h i # p" xs] stub_below by blast

lemma module_free_below: "b \<in> set (module_free p m) \<Longrightarrow> below p b"
  by (auto simp: module_free_def below_self dest!: entries_stub_below dest: below_step)

lemma lib_free_below: "b \<in> set (lib_free p l) \<Longrightarrow> below p b"
  using entries_below [of module_free b "\<lambda>i. i # p" "modules l"] module_free_below
  by (auto simp: lib_free_def below_self dest: below_step)

lemma module_free_distinct: "distinct (module_free p m)"
proof -
  have d: "distinct (entries stub_free (\<lambda>i. (2 * i) # p) xs)" "distinct (entries stub_free (\<lambda>i. (2 * i + 1) # p) xs)" for xs
    by (rule entries_distinct [OF stub_distinct stub_below]; auto dest: below_disjoint)+
  have odd_even: False if "below (Suc (2 * i) # p) b" "below ((2 * j) # p) b" for i j b
    using below_disjoint [OF that] by presburger
  show ?thesis
    unfolding module_free_def using d
    by (auto dest!: entries_stub_below dest: below_strict odd_even)
qed

lemma lib_free_distinct: "distinct (lib_free p l)"
proof -
  have d: "distinct (entries module_free (\<lambda>i. i # p) (modules l))"
    by (rule entries_distinct [OF module_free_distinct module_free_below below_disjoint])
  have "fst b \<noteq> p" if "b \<in> set (entries module_free (\<lambda>i. i # p) (modules l))" for b
    using entries_below [of module_free b "\<lambda>i. i # p" "modules l"] module_free_below below_strict that by blast
  then have "(p, k) \<notin> set (entries module_free (\<lambda>i. i # p) (modules l))" for k by fastforce
  with d show ?thesis by (simp add: lib_free_def)
qed

lemma imports_free_distinct: "distinct (imports_free db)"
proof -
  have d: "distinct (entries lib_free (\<lambda>i. [i]) (libs db))"
    by (rule entries_distinct [OF lib_free_distinct lib_free_below below_disjoint])
  have "fst b \<noteq> []" if "b \<in> set (entries lib_free (\<lambda>i. [i]) (libs db))" for b
    using entries_below [of lib_free b "\<lambda>i. [i]" "libs db"] lib_free_below below_strict [of _ "[]"] that by blast
  then have "([], k) \<notin> set (entries lib_free (\<lambda>i. [i]) (libs db))" for k by fastforce
  with d show ?thesis by (simp add: imports_free_def)
qed

lemma stub_no_array: "set (stub_free p st) = {b \<in> set (stub_free p st). \<not> is_array b}"
  by (auto simp: stub_free_def is_array_def)

lemma module_free_blocks: "set (module_free p m) = {b \<in> set (module_blocks p m). \<not> is_array b}"
  using entries_filter [of stub_free stub_free "\<lambda>b. \<not> is_array b", OF stub_no_array]
  by (auto simp: module_free_def module_blocks_def is_array_def)

lemma lib_free_blocks: "set (lib_free p l) = {b \<in> set (lib_blocks p l). \<not> is_array b}"
  using entries_filter [of module_free module_blocks "\<lambda>b. \<not> is_array b", OF module_free_blocks]
  by (auto simp: lib_free_def lib_blocks_def is_array_def)

lemma imports_free_blocks: "set (imports_free db) = {b \<in> set (imports_blocks db). \<not> is_array b}"
  using entries_filter [of lib_free lib_blocks "\<lambda>b. \<not> is_array b", OF lib_free_blocks]
  by (auto simp: imports_free_def imports_blocks_def is_array_def)

section \<open>Properties\<close>

text \<open>C1. Loading is the inverse of writing, across libyaml's events, the tree and the import parser: from
  the event stream of the YAML document of any database without NULL entries (and NULs in its names),
  \<open>vita_imports_loads\<close> returns exactly that database, every NID bit for bit, and prints nothing.\<close>

theorem vita_imports_loads_roundtrip:
  assumes "complete_db db" "clean (to_yaml db)" "length (events (to_yaml db)) < f"
  shows "vita_imports_loads f junk (play (stream_events (to_yaml db))) err = Some (Some db, err)"
proof -
  have "parse_yaml_stream f junk (play (stream_events (to_yaml db))) = Some (Some [to_yaml db], None)"
    using assms(2,3) by (rule parse_stream_of_tree)
  then show ?thesis by (simp add: vita_imports_loads_def db_read [OF assms(1)])
qed

lemma nid_scalar_clean [simp]: "clean (nid_scalar nid)"
proof -
  have "digit_char d \<noteq> CHR 0x00" if "d < 16" for d
  proof
    assume "digit_char d = CHR 0x00"
    then have "digit_val (digit_char d) = 36" by (simp add: digit_val_def)
    then show False using digit_val_char [OF that] that by simp
  qed
  then show ?thesis using set_hex_pad by (fastforce simp: nid_scalar_def scalar_def)
qed

definition sample_db :: vita_imports_t where
  "sample_db = \<lparr>libs = [Some \<lparr>lib_name = ''SceLibKernel'', lib_NID = 0xCAE9ACE6, modules =
     [Some \<lparr>mod_name = ''SceLibKernel'', mod_NID = 0xCAE9ACE6, is_kernel = False,
        mod_functions = [Some \<lparr>stub_name = ''sceIoOpen'', stub_NID = 0x6C60AC61\<rparr>,
                         Some \<lparr>stub_name = ''sceIoClose'', stub_NID = 0xF5C6F098\<rparr>],
        mod_variables = []\<rparr>]\<rparr>]\<rparr>"

theorem vita_imports_loads_roundtrip_witness:
  "vita_imports_loads 60 (ev YAML_NO_EVENT pos0) (play (stream_events (to_yaml sample_db))) [] = Some (Some sample_db, [])"
proof (rule vita_imports_loads_roundtrip)
  show "complete_db sample_db"
    by (auto simp: complete_db_def complete_lib_def complete_module_def sample_db_def)
  show "clean (to_yaml sample_db)"
    by (simp add: to_yaml_def lib_yaml_def module_yaml_def stub_yaml_def sample_db_def) (simp add: scalar_def)
  show "length (events (to_yaml sample_db)) < 60"
    by (simp add: to_yaml_def lib_yaml_def module_yaml_def stub_yaml_def sample_db_def nid_scalar_def scalar_def)
qed

text \<open>Resolving an import by its three NIDs finds the entry that was loaded: with distinct NIDs
  within each table the chain of the lookups of library, module and function returns exactly the
  function, and so does the one for variables.\<close>

lemma vita_imports_resolve:
  assumes "libs db = map Some ls" "l \<in> set ls" "distinct (map lib_NID ls)"
    "modules l = map Some ms" "m \<in> set ms" "distinct (map mod_NID ms)"
    "mod_functions m = map Some fs" "f \<in> set fs" "distinct (map stub_NID fs)"
    "mod_variables m = map Some vs" "v \<in> set vs" "distinct (map stub_NID vs)"
  shows "Option.bind (vita_imports_find_lib db (lib_NID l)) (\<lambda>l'. Option.bind (vita_imports_find_module l' (mod_NID m))
      (\<lambda>m'. vita_imports_find_function m' (stub_NID f))) = Some f \<and>
    Option.bind (vita_imports_find_lib db (lib_NID l)) (\<lambda>l'. Option.bind (vita_imports_find_module l' (mod_NID m))
      (\<lambda>m'. vita_imports_find_variable m' (stub_NID v))) = Some v"
proof -
  have "vita_imports_find_lib db (lib_NID l) = Some l"
    using lib_table.find_distinct [OF assms(3,2)] assms(1) by (cases db) simp
  moreover have "vita_imports_find_module l (mod_NID m) = Some m"
    using module_table.find_distinct [OF assms(6,5), of "lib_name l" "lib_NID l"] assms(4) by (cases l) simp
  moreover have "vita_imports_find_function m (stub_NID f) = Some f"
    using function_table.find_distinct [OF assms(9,8), of "mod_name m" "mod_NID m" "is_kernel m" "mod_variables m"] assms(7)
    by (cases m) simp
  moreover have "vita_imports_find_variable m (stub_NID v) = Some v"
    using variable_table.find_distinct [OF assms(12,11), of "mod_name m" "mod_NID m" "is_kernel m" "mod_functions m"] assms(10)
    by (cases m) simp
  ultimately show
    "Option.bind (vita_imports_find_lib db (lib_NID l)) (\<lambda>l'. Option.bind (vita_imports_find_module l' (mod_NID m))
      (\<lambda>m'. vita_imports_find_function m' (stub_NID f))) = Some f \<and>
    Option.bind (vita_imports_find_lib db (lib_NID l)) (\<lambda>l'. Option.bind (vita_imports_find_module l' (mod_NID m))
      (\<lambda>m'. vita_imports_find_variable m' (stub_NID v))) = Some v"
    by simp
qed

lemma vita_imports_resolve_witness:
  "Option.bind (vita_imports_find_lib \<lparr>libs = [Some \<lparr>lib_name = ''L'', lib_NID = 1, modules = [Some \<lparr>mod_name = ''M'',
      mod_NID = 2, is_kernel = True, mod_functions = [Some \<lparr>stub_name = ''f'', stub_NID = 3\<rparr>, Some \<lparr>stub_name = ''g'', stub_NID = 4\<rparr>],
      mod_variables = [Some \<lparr>stub_name = ''v'', stub_NID = 3\<rparr>]\<rparr>]\<rparr>]\<rparr> 1)
    (\<lambda>l'. Option.bind (vita_imports_find_module l' 2) (\<lambda>m'. vita_imports_find_function m' 4))
    = Some \<lparr>stub_name = ''g'', stub_NID = 4\<rparr>"
proof -
  let ?fs = "[\<lparr>stub_name = ''f'', stub_NID = 3\<rparr>, \<lparr>stub_name = ''g'', stub_NID = 4\<rparr>]"
  let ?vs = "[\<lparr>stub_name = ''v'', stub_NID = 3\<rparr>]"
  let ?m = "\<lparr>mod_name = ''M'', mod_NID = 2, is_kernel = True, mod_functions = map Some ?fs, mod_variables = map Some ?vs\<rparr>"
  let ?l = "\<lparr>lib_name = ''L'', lib_NID = 1, modules = map Some [?m]\<rparr>"
  show ?thesis
    using vita_imports_resolve [of "\<lparr>libs = map Some [?l]\<rparr>" "[?l]" ?l "[?m]" ?m ?fs "\<lparr>stub_name = ''g'', stub_NID = 4\<rparr>" ?vs
        "\<lparr>stub_name = ''v'', stub_NID = 3\<rparr>"] by simp
qed

text \<open>A NID that does not fit 32 bits is accepted and truncated, and so is the empty scalar, as 0: the
  conversion compares the truncated value with \<open>ULONG_MAX\<close>, and only when characters are left.\<close>

lemma process_32bit_integer_truncates:
  "process_32bit_integer (NODE_SCALAR p (''0x'' @ hex_pad 16 (unat (w :: u64))) n) old = (0, ucast w)
    \<and> process_32bit_integer (NODE_SCALAR p [] n) old = (0, 0)"
proof
  have "process_32bit_integer (NODE_SCALAR p (''0x'' @ hex_pad 16 (unat (w :: u64))) n) old
      = (let (r, rest) = strtoul0 (''0x'' @ hex_pad 16 (unat w)); res = ucast r :: u32 in
        if rest \<noteq> [] then (if (ucast res :: u64) = -1 then -2 else -3, old) else (0, res))"
    by (simp add: process_32bit_integer_def)
  then show "process_32bit_integer (NODE_SCALAR p (''0x'' @ hex_pad 16 (unat w)) n) old = (0, ucast w)"
    unfolding strtoul0_hex64 by (simp add: Let_def)
  show "process_32bit_integer (NODE_SCALAR p [] n) old = (0, 0)"
    by (simp add: process_32bit_integer_def strtoul0_def base_of_def)
qed

text \<open>A successful read prints nothing and a failed one prints at most one message; but it may print
  none at all: where a mapping is expected and something else stands, the iteration returns -1
  silently and the caller gets NULL without a reason.\<close>

lemma read_vita_imports_messages:
  "(case read_vita_imports doc err of
      (Some db, e) \<Rightarrow> e = err
    | (None, e) \<Rightarrow> e = err \<or> (\<exists>m. e = err @ [m]))
   \<and> read_vita_imports (NODE_MAPPING pos0 [(scalar ''modules'', scalar ''x'')]) [] = (None, [])"
proof
  show "case read_vita_imports doc err of (Some db, e) \<Rightarrow> e = err | (None, e) \<Rightarrow> e = err \<or> (\<exists>m. e = err @ [m])"
  proof (cases doc)
    case (NODE_MAPPING p ps)
    obtain r db e where l: "iterate_loop process_root ps (vita_imports_new 0, err) = (r, db, e)" by (metis prod_cases3)
    show ?thesis
      using iterate_one_message [OF root_one_message l] NODE_MAPPING l by (auto simp: read_vita_imports_def)
  qed (simp_all add: read_vita_imports_def)
  show "read_vita_imports (NODE_MAPPING pos0 [(scalar ''modules'', scalar ''x'')]) [] = (None, [])"
    by (simp add: read_vita_imports_def process_root_def yaml_iterate_mapping_def) (simp add: scalar_def)
qed

text \<open>\<open>vita_imports_free\<close> releases no block twice and none it does not own; it releases every
  structure and every name, and leaks exactly the pointer arrays of the tables.\<close>

lemma vita_imports_free_leaks:
  "distinct (imports_free db) \<and> set (imports_free db) = {b \<in> set (imports_blocks db). \<not> is_array b}"
  by (rule conjI, rule imports_free_distinct, rule imports_free_blocks)

end
