(* ===== verification/LogSettings.thy ===== *)
theory LogSettings
  imports NetManager C_Text
begin

text \<open>
  The settings application of PrincessLog (\<open>NetLoggingMgr/settings_app/src/main.c\<close>): the buttons, the
  dialogs, the menus and the configuration file the kernel module loads. What the system answers
  (samples of the pad, results of dialogs, of opening files, of searching the module) is an
  argument. A loop that waits may never end; then the result is \<open>None\<close>.
\<close>

section \<open>State and environment\<close>

text \<open>What is drawn: text at the cursor or at a position, clearing, showing and swapping the buffers.\<close>

datatype draw = Print string | PrintAt int int string | Clear | Show | Swap

record app =
  samples :: nat              \<comment> \<open>calls of \<open>sceCtrlPeekBufferPositive\<close>\<close>
  press_padd :: u32
  press_key :: u32
  old_press_key :: u32
  conf :: nlm_config          \<comment> \<open>\<open>NetLoggingMgrConfig\<close>\<close>
  conf_pad :: u16             \<comment> \<open>its padding\<close>
  ncalls :: nat               \<comment> \<open>calls of the dialog, the module search and \<open>sceIoOpen\<close>\<close>
  cfg_file :: "u8 list option"  \<comment> \<open>\<open>ur0:data/NetLoggingMgrConfig.bin\<close>\<close>
  sent :: "nlm_config list"   \<comment> \<open>configurations passed to the kernel module\<close>
  resets :: nat               \<comment> \<open>calls of \<open>scePowerRequestColdReset\<close>\<close>
  screen :: "draw list"
  menu_text_y :: int

record ime =
  ime_init :: int
  ime_status :: "nat \<Rightarrow> int"
  ime_text :: "u16 list"      \<comment> \<open>the text buffer after the dialog\<close>

record env =
  pad :: "nat \<Rightarrow> u32"
  dialog :: "nat \<Rightarrow> ime"
  finished :: int             \<comment> \<open>\<open>SCE_COMMON_DIALOG_STATUS_FINISHED\<close>\<close>
  pton :: "u8 list \<Rightarrow> int \<times> u32"
  search :: "nat \<Rightarrow> int"       \<comment> \<open>\<open>_vshKernelSearchModuleByName\<close>\<close>
  upd_result :: "nlm_config \<Rightarrow> int"
  kernel_conf :: nlm_config   \<comment> \<open>what \<open>NetLoggingMgrReadConfig\<close> copies\<close>
  fopen_result :: "nat \<Rightarrow> int"
  fwrite_result :: "nat \<Rightarrow> int"  \<comment> \<open>bytes that \<open>sceIoWrite\<close> has written after the open of that number\<close>

definition SCE_CTRL_UP :: u32 where "SCE_CTRL_UP = 0x10"
definition SCE_CTRL_RIGHT :: u32 where "SCE_CTRL_RIGHT = 0x20"
definition SCE_CTRL_DOWN :: u32 where "SCE_CTRL_DOWN = 0x40"
definition SCE_CTRL_LEFT :: u32 where "SCE_CTRL_LEFT = 0x80"
definition SCE_CTRL_CIRCLE :: u32 where "SCE_CTRL_CIRCLE = 0x2000"

datatype app_fault = TextNotTerminated | TextOverflow

definition out :: "draw list \<Rightarrow> app \<Rightarrow> app" where
  "out ds s = s\<lparr>screen := screen s @ ds\<rparr>"

definition error_x :: "string \<Rightarrow> int \<Rightarrow> string" where
  "error_x t r = t @ hex_lower (unat (word_of_int r :: u32)) @ [CHR 0x0A]"

section \<open>Buttons\<close>

definition ReadPad :: "env \<Rightarrow> app \<Rightarrow> app" where
  "ReadPad e s = (let k = pad e (samples s) in
     s\<lparr>samples := samples s + 1, old_press_key := press_key s, press_key := k,
       press_padd := k AND (k XOR press_key s)\<rparr>)"

partial_function (option) WaitKeyPress :: "env \<Rightarrow> app \<Rightarrow> app option" where
  "WaitKeyPress e s = (let s = ReadPad e s in if press_padd s = 0 then WaitKeyPress e s else Some s)"

section \<open>Dialogs\<close>

partial_function (option) ime_loop :: "(nat \<Rightarrow> int) \<Rightarrow> int \<Rightarrow> nat \<Rightarrow> int option" where
  "ime_loop status fin n =
    (let ret = status n in if ret < 0 then Some ret else if ret = fin then Some ret else ime_loop status fin (n + 1))"

definition CallImeDialog :: "env \<Rightarrow> app \<Rightarrow> (int \<times> u16 list \<times> app) option" where
  "CallImeDialog e s =
    (let d = dialog e (ncalls s); s = s\<lparr>ncalls := ncalls s + 1\<rparr> in
     if ime_init d < 0 then Some (ime_init d, ime_text d, s)
     else case ime_loop (ime_status d) (finished e) 0 of
       None \<Rightarrow> None
     | Some ret \<Rightarrow> Some (ret, ime_text d, s))"

text \<open>The bytes written, the final NUL included; \<open>None\<close> is a read behind the text buffer.\<close>

definition utf8_bmp2 :: "u16 \<Rightarrow> u8 list" where
  "utf8_bmp2 c = [ucast (drop_bit 6 c AND 0xFF OR 0xC0), ucast (c AND 0x3F OR 0x80)]"

definition utf8_bmp3 :: "u16 \<Rightarrow> u8 list" where
  "utf8_bmp3 c = [ucast (drop_bit 12 c AND 0xF OR 0xE0), ucast (drop_bit 6 c AND 0x3F OR 0x80), ucast (c AND 0x3F OR 0x80)]"

definition utf8_pair :: "u16 \<Rightarrow> u16 \<Rightarrow> u8 list" where
  "utf8_pair c d =
    [ucast (drop_bit 8 (ucast c + 64 :: u32) AND 0x3 OR 0xF0), ucast ((drop_bit 2 (ucast c :: u32) + 16) AND 0x3F OR 0x80),
     ucast (drop_bit 4 c AND 0x30 OR 0x80 OR (push_bit 2 d AND 0xF)), ucast (d AND 0x3F OR 0x80)]"

fun utf16_to_utf8 :: "u16 list \<Rightarrow> u8 list option" where
  "utf16_to_utf8 [] = None"
| "utf16_to_utf8 (c # src) =
    (if c = 0 then Some [0]
     else if c AND 0xFF80 = 0 then map_option (\<lambda>r. ucast (c AND 0xFF) # r) (utf16_to_utf8 src)
     else if c AND 0xF800 = 0 then map_option (\<lambda>r. utf8_bmp2 c @ r) (utf16_to_utf8 src)
     else if c AND 0xFC00 = 0xD800 then
       (case src of
          [] \<Rightarrow> None
        | d # src' \<Rightarrow>
            if d AND 0xFC00 = 0xDC00 then map_option (\<lambda>r. utf8_pair c d @ r) (utf16_to_utf8 src')
            else map_option (\<lambda>r. utf8_bmp3 c @ r) (utf16_to_utf8 src))
     else map_option (\<lambda>r. utf8_bmp3 c @ r) (utf16_to_utf8 src))"

text \<open>Conversion into a buffer of \<open>n\<close> bytes; the C string it holds.\<close>

definition convert_text :: "nat \<Rightarrow> u16 list \<Rightarrow> app_fault + u8 list" where
  "convert_text n src = (case utf16_to_utf8 src of
     None \<Rightarrow> Inl TextNotTerminated
   | Some bs \<Rightarrow> if length bs \<le> n then Inr (takeWhile (\<lambda>b. b \<noteq> 0) bs) else Inl TextOverflow)"

definition string_of :: "u8 list \<Rightarrow> string" where
  "string_of bs = map (\<lambda>b. char_of (unat b)) bs"

definition press_key_message :: "draw list" where
  "press_key_message = [Print [CHR 0x0A], Print (''please key press'' @ [CHR 0x0A])]"

definition port_end :: "env \<Rightarrow> int \<Rightarrow> app \<Rightarrow> (app_fault + int \<times> app) option" where
  "port_end e res s = (case WaitKeyPress e (ReadPad e (out press_key_message s)) of
     None \<Rightarrow> None
   | Some s \<Rightarrow> Some (Inr (res, out [Swap] (ReadPad e s))))"

text \<open>The text is converted before the result of the dialog is looked at.\<close>

definition SetServerPort :: "env \<Rightarrow> app \<Rightarrow> (app_fault + int \<times> app) option" where
  "SetServerPort e s = (case CallImeDialog e s of
     None \<Rightarrow> None
   | Some (res, text, s) \<Rightarrow>
       (case convert_text 6 text of
          Inl f \<Rightarrow> Some (Inl f)
        | Inr str \<Rightarrow>
            let s = out [Clear, Show] s in
            if res < 0 then port_end e res (out [Print (error_x ''Error : CallImeDialog failed: '' res)] s)
            else
              let s = s\<lparr>conf := (conf s)\<lparr>cfg_port := of_int (atoi (string_of str))\<rparr>\<rparr>;
                  p = uint (cfg_port (conf s))
              in if p < 1 \<or> p > 0xFFFF then port_end e res (out [Print (''Error : Invalid Port.'' @ [CHR 0x0A])] s)
                 else port_end e res (out [Print (''Set Server Port : Success.'' @ [CHR 0x0A])] s)))"

text \<open>\<open>sceNetInetPton\<close> stores the address only when it returns 1.\<close>

definition SetServerIPv4 :: "env \<Rightarrow> app \<Rightarrow> (app_fault + int \<times> app) option" where
  "SetServerIPv4 e s = (case CallImeDialog e s of
     None \<Rightarrow> None
   | Some (res, text, s) \<Rightarrow>
       let s = out [Clear, Show] s in
       if res < 0 then port_end e res (out [Print (error_x ''Error : CallImeDialog failed: '' res)] s)
       else case convert_text 16 text of
          Inl f \<Rightarrow> Some (Inl f)
        | Inr str \<Rightarrow>
            let (res, ip) = pton e str in
            if res \<noteq> 1 then port_end e res (out [Print (''Error : Invalid IPv4.'' @ [CHR 0x0A])] s)
            else port_end e res (out [Print (''Set Server IPv4 : Success.'' @ [CHR 0x0A])] (s\<lparr>conf := (conf s)\<lparr>cfg_IPv4 := ip\<rparr>\<rparr>)))"

section \<open>Menu items\<close>

datatype callback = CbIPv4 | CbPort | CbQaf | CbUpdate | CbSave | CbReset

record menu_item =
  text_x :: int
  text_y :: int
  item_text :: string
  item_callback :: "callback option"

definition blank_item :: menu_item where
  "blank_item = \<lparr>text_x = 0, text_y = 0, item_text = [], item_callback = None\<rparr>"

definition menu_item_init :: "app \<Rightarrow> app" where
  "menu_item_init s = s\<lparr>menu_text_y := 20\<rparr>"

text \<open>\<open>vsnprintf\<close> with room for 0x6E characters and the NUL; the texts have no conversions.\<close>

definition add_menu_item :: "string \<Rightarrow> menu_item \<Rightarrow> app \<Rightarrow> menu_item \<times> app" where
  "add_menu_item t i s = (i\<lparr>text_x := 20, text_y := menu_text_y s, item_text := take 0x6E t\<rparr>,
     s\<lparr>menu_text_y := menu_text_y s + 10\<rparr>)"

definition menu_item_text_change :: "string \<Rightarrow> menu_item \<Rightarrow> menu_item" where
  "menu_item_text_change t i = i\<lparr>item_text := take 0x6E t\<rparr>"

definition set_menu_item :: "int \<Rightarrow> int \<Rightarrow> string \<Rightarrow> menu_item \<Rightarrow> menu_item" where
  "set_menu_item x y t i = i\<lparr>text_x := x, text_y := y, item_text := take 0x6E t\<rparr>"

definition set_item_callback :: "callback option \<Rightarrow> menu_item \<Rightarrow> menu_item" where
  "set_item_callback f i = i\<lparr>item_callback := f\<rparr>"

text \<open>
  The allocating variant returns at once when the allocation succeeds, and goes on to write through
  the NULL pointer when it fails. The result is the block that is lost, or the fault.
\<close>

datatype heap_fault = NullWrite | DoubleFree nat

definition add_allocated_item :: "nat option \<Rightarrow> heap_fault + nat" where
  "add_allocated_item p = (case p of Some a \<Rightarrow> Inr a | None \<Rightarrow> Inl NullWrite)"

text \<open>The \<open>next\<close> pointer is read once, before the loop; \<open>freed\<close> are the blocks that are released.\<close>

function free_loop :: "nat \<Rightarrow> nat option \<Rightarrow> nat list \<Rightarrow> heap_fault + nat list" where
  "free_loop old nxt freed =
    (if old \<in> set freed then Inl (DoubleFree old)
     else case nxt of None \<Rightarrow> Inr (freed @ [old]) | Some n \<Rightarrow> free_loop n nxt (freed @ [old]))"
  by pat_completeness auto
termination
  by (relation "measure (\<lambda>(old, nxt, freed). card (insert old (set_option nxt) - set freed))")
    (auto intro!: psubset_card_mono)

definition free_menu_item :: "(nat \<Rightarrow> nat option) \<Rightarrow> nat \<Rightarrow> heap_fault + nat list" where
  "free_menu_item next_of old = free_loop old (next_of old) []"

section \<open>Moving in a menu\<close>

text \<open>\<open>sel\<close> is the line on the screen, \<open>ex\<close> (\<open>sel_extra\<close>) the first item shown.\<close>

definition press_up :: "int \<Rightarrow> int \<Rightarrow> int \<times> int \<Rightarrow> int \<times> int" where
  "press_up dm sm = (\<lambda>(sel, ex).
    if sel = 0 \<and> ex = 0 then (dm - 1, sm - dm) else if sel > 0 \<and> ex \<ge> 0 then (sel - 1, ex) else (sel, ex - 1))"

definition press_down :: "int \<Rightarrow> int \<Rightarrow> int \<times> int \<Rightarrow> int \<times> int" where
  "press_down dm sm = (\<lambda>(sel, ex).
    if sel = dm - 1 then (if sel + ex < sm - 1 then (sel, ex + 1) else (0, 0)) else (sel + 1, ex))"

definition press_right :: "int \<Rightarrow> int \<Rightarrow> int \<times> int \<Rightarrow> int \<times> int" where
  "press_right dm sm = (\<lambda>(sel, ex).
    if sel + 7 < dm - 1 then (sel + 7, ex)
    else let sel = sel + ((dm - 1) - sel) in
      (sel, ex + (if sel + ex + 7 < sm - 1 then 7 else (sm - 1) - (sel + ex))))"

definition press_left :: "int \<Rightarrow> int \<Rightarrow> int \<times> int \<Rightarrow> int \<times> int" where
  "press_left dm sm = (\<lambda>(sel, ex).
    if sel - 7 > 0 then (sel - 7, ex) else (sel - sel, ex - (if ex - 7 > 0 then 7 else ex)))"

definition menu_press_up :: "u32 \<Rightarrow> int \<Rightarrow> int \<Rightarrow> int \<times> int \<Rightarrow> int \<times> int" where
  "menu_press_up k dm sm p = (if k AND SCE_CTRL_UP \<noteq> 0 then press_up dm sm p else p)"

definition menu_press_down :: "u32 \<Rightarrow> int \<Rightarrow> int \<Rightarrow> int \<times> int \<Rightarrow> int \<times> int" where
  "menu_press_down k dm sm p = (if k AND SCE_CTRL_DOWN \<noteq> 0 then press_down dm sm p else p)"

definition menu_press_right :: "u32 \<Rightarrow> int \<Rightarrow> int \<Rightarrow> int \<times> int \<Rightarrow> int \<times> int" where
  "menu_press_right k dm sm p = (if k AND SCE_CTRL_RIGHT \<noteq> 0 then press_right dm sm p else p)"

definition menu_press_left :: "u32 \<Rightarrow> int \<Rightarrow> int \<Rightarrow> int \<times> int \<Rightarrow> int \<times> int" where
  "menu_press_left k dm sm p = (if k AND SCE_CTRL_LEFT \<noteq> 0 then press_left dm sm p else p)"

definition menu_press_DPad :: "u32 \<Rightarrow> int \<Rightarrow> int \<Rightarrow> int \<times> int \<Rightarrow> int \<times> int" where
  "menu_press_DPad k dm sm p =
    (if k AND SCE_CTRL_UP \<noteq> 0 then press_up dm sm p
     else if k AND SCE_CTRL_DOWN \<noteq> 0 then press_down dm sm p
     else if k AND SCE_CTRL_RIGHT \<noteq> 0 then press_right dm sm p
     else if k AND SCE_CTRL_LEFT \<noteq> 0 then press_left dm sm p
     else p)"

section \<open>The configuration file\<close>

definition cfg_bytes :: "nlm_config \<Rightarrow> u16 \<Rightarrow> u8 list" where
  "cfg_bytes c p = bytes32 (cfg_magic c) @ bytes32 (cfg_IPv4 c) @ bytes32 (cfg_flags c)
     @ [ucast (cfg_port c), ucast (drop_bit 8 (cfg_port c)), ucast p, ucast (drop_bit 8 p)]"

definition half :: "u8 \<Rightarrow> u8 \<Rightarrow> u16" where
  "half a b = ucast a OR push_bit 8 (ucast b)"

definition cfg_of_bytes :: "u8 list \<Rightarrow> nlm_config \<times> u16" where
  "cfg_of_bytes bs =
    (\<lparr>cfg_magic = join32 (bs ! 0) (bs ! 1) (bs ! 2) (bs ! 3), cfg_IPv4 = join32 (bs ! 4) (bs ! 5) (bs ! 6) (bs ! 7),
      cfg_flags = join32 (bs ! 8) (bs ! 9) (bs ! 10) (bs ! 11), cfg_port = half (bs ! 12) (bs ! 13)\<rparr>, half (bs ! 14) (bs ! 15))"

text \<open>Opening with \<open>SCE_O_TRUNC\<close> and writing; a failed open leaves the file alone. How much was written is not looked at.\<close>

definition write_config :: "env \<Rightarrow> app \<Rightarrow> int \<times> app" where
  "write_config e s = (let fd = fopen_result e (ncalls s); n = fwrite_result e (ncalls s); s = s\<lparr>ncalls := ncalls s + 1\<rparr> in
     (fd, if fd < 0 then s else s\<lparr>cfg_file := Some (take (nat n) (cfg_bytes (conf s) (conf_pad s)))\<rparr>))"

definition wait_end :: "env \<Rightarrow> app \<Rightarrow> app option" where
  "wait_end e s = (case WaitKeyPress e (out press_key_message s) of
     None \<Rightarrow> None | Some s \<Rightarrow> Some (out [Swap] (ReadPad e s)))"

definition SaveConfig :: "env \<Rightarrow> app \<Rightarrow> app option" where
  "SaveConfig e s = (let s = out [Show] s; (fd, s) = write_config e s in
     if fd < 0 then wait_end e (out [Print (''Error : File Open Error, 0x'' @ hex_pad 8 (unat (word_of_int fd :: u32)) @ ''.'' @ [CHR 0x0A])] s)
     else wait_end e (out [Print (''Save Config Success.'' @ [CHR 0x0A])] s))"

definition UpdateConfig :: "env \<Rightarrow> app \<Rightarrow> app option" where
  "UpdateConfig e s =
    (let s = out [Show] s; res = search e (ncalls s); s = s\<lparr>ncalls := ncalls s + 1\<rparr> in
     if res < 0 then wait_end e (out [Print (''Error : NetLoggingMgr not loaded'' @ [CHR 0x0A])] s)
     else
       let s = s\<lparr>sent := sent s @ [conf s]\<rparr>; res = upd_result e (conf s) in
       if res < 0 then wait_end e (out [Print (''Update Config Error : 0x'' @ hex (unat (word_of_int res :: u32)) @ [CHR 0x0A])] s)
       else wait_end e (out [Print (''Update Config Success.'' @ [CHR 0x0A])] s))"

definition magic_word :: u32 where
  "magic_word = join32 0x4E 0x4C 0x4D 0"

definition CreateConfigFile :: "env \<Rightarrow> app \<Rightarrow> app" where
  "CreateConfigFile e s =
    (if cfg_file s = None \<or> map_option length (cfg_file s) \<noteq> Some 16
     then snd (write_config e (s\<lparr>conf := (conf s)\<lparr>cfg_magic := magic_word\<rparr>\<rparr>))
     else s)"

text \<open>Reading up to 16 bytes into the variable; without a descriptor nothing is read.\<close>

definition read_config :: "env \<Rightarrow> app \<Rightarrow> app" where
  "read_config e s = (let fd = fopen_result e (ncalls s); s = s\<lparr>ncalls := ncalls s + 1\<rparr> in
     if fd < 0 then s
     else case cfg_file s of
       None \<Rightarrow> s
     | Some bs \<Rightarrow> (let n = min 16 (length bs); m = take n bs @ drop n (cfg_bytes (conf s) (conf_pad s)) in
         s\<lparr>conf := fst (cfg_of_bytes m), conf_pad := snd (cfg_of_bytes m)\<rparr>))"

definition ReadConfig :: "env \<Rightarrow> app \<Rightarrow> app" where
  "ReadConfig e s =
    (let res = search e (ncalls s); s = s\<lparr>ncalls := ncalls s + 1\<rparr> in
     if res > 0 then s\<lparr>conf := kernel_conf e\<rparr>
     else let s = read_config e s in
       if bytes32 (cfg_magic (conf s)) \<noteq> nlm_magic then CreateConfigFile e s else s)"

section \<open>The menus\<close>

definition qaf_screen :: "int \<Rightarrow> app \<Rightarrow> draw list" where
  "qaf_screen sel s = [PrintAt 0 (20 + 10 * sel) ''*'', PrintAt 0 0 ''-- Qaf Setting --'',
     PrintAt 20 20 (''kernel debug print : '' @
       (if cfg_flags (conf s) AND NLM_CONFIG_FLAGS_BIT_QAF_DEBUG_PRINTF \<noteq> 0 then ''Enable'' else ''Disable'')),
     PrintAt 20 30 ''Back'', Show, Swap, Clear]"

definition qaf_move :: "u32 \<Rightarrow> int \<Rightarrow> int" where
  "qaf_move k sel = (let sm = 2;
     sel = (if k AND SCE_CTRL_UP \<noteq> 0 then (if sel = 0 then sm - 1 else sel - 1) else sel)
   in if k AND SCE_CTRL_DOWN \<noteq> 0 then (if sel = sm - 1 then 0 else sel + 1) else sel)"

definition qaf_toggle :: "app \<Rightarrow> app" where
  "qaf_toggle s = s\<lparr>conf := (conf s)\<lparr>cfg_flags := cfg_flags (conf s) XOR NLM_CONFIG_FLAGS_BIT_QAF_DEBUG_PRINTF\<rparr>\<rparr>"

partial_function (option) qaf_loop :: "env \<Rightarrow> int \<Rightarrow> app \<Rightarrow> app option" where
  "qaf_loop e sel s =
    (case WaitKeyPress e (out (qaf_screen sel s) s) of
       None \<Rightarrow> None
     | Some s \<Rightarrow>
        let k = press_padd s; sel = qaf_move k sel
        in if k AND SCE_CTRL_CIRCLE \<noteq> 0 then
             (if sel = 0 then qaf_loop e sel (qaf_toggle s) else if sel = 1 then Some (ReadPad e s) else qaf_loop e sel s)
           else qaf_loop e sel s)"

definition QafSettings :: "env \<Rightarrow> app \<Rightarrow> app option" where
  "QafSettings e s = qaf_loop e 0 s"

definition plain :: "app option \<Rightarrow> (app_fault + app) option" where
  "plain r = map_option Inr r"

definition no_result :: "(app_fault + int \<times> app) option \<Rightarrow> (app_fault + app) option" where
  "no_result r = map_option (\<lambda>x. case x of Inl f \<Rightarrow> Inl f | Inr (_, s) \<Rightarrow> Inr s) r"

definition call_item :: "env \<Rightarrow> callback \<Rightarrow> app \<Rightarrow> (app_fault + app) option" where
  "call_item e cb s = (case cb of
     CbIPv4 \<Rightarrow> no_result (SetServerIPv4 e s)
   | CbPort \<Rightarrow> no_result (SetServerPort e s)
   | CbQaf \<Rightarrow> plain (QafSettings e s)
   | CbUpdate \<Rightarrow> plain (UpdateConfig e s)
   | CbSave \<Rightarrow> plain (SaveConfig e s)
   | CbReset \<Rightarrow> Some (Inr (s\<lparr>resets := resets s + 1\<rparr>)))"

fun add_items :: "string list \<Rightarrow> app \<Rightarrow> menu_item list \<times> app" where
  "add_items [] s = ([], s)"
| "add_items (t # ts) s = (let (i, s) = add_menu_item t blank_item s; (is, s) = add_items ts s in (i # is, s))"

definition main_items :: "app \<Rightarrow> menu_item list \<times> app" where
  "main_items s = (let (is, s) = add_items [''Set Server IPv4'', ''Set Server Port'', ''Qaf Settings'', ''Update Config'',
       ''Save Config'', ''System Reboot'', ''Exit''] (menu_item_init s)
     in (map2 set_item_callback [Some CbIPv4, Some CbPort, Some CbQaf, Some CbUpdate, Some CbSave, Some CbReset, None] is, s))"

definition draw_menu :: "menu_item list \<Rightarrow> int \<Rightarrow> int \<Rightarrow> int \<Rightarrow> draw list" where
  "draw_menu is dm sel ex = [PrintAt 0 (20 + 10 * sel) ''*'', PrintAt 0 0 ''-- main menu --'']
     @ map (\<lambda>i. let m = is ! (i + nat ex) in PrintAt (text_x m) (text_y m - 10 * ex) (item_text m)) [0..<nat dm]
     @ [Show, Swap, Clear]"

text \<open>The item that is called is the one that was selected when the menu was drawn.\<close>

partial_function (option) menu_loop :: "env \<Rightarrow> menu_item list \<Rightarrow> int \<Rightarrow> int \<Rightarrow> int \<times> int \<Rightarrow> app \<Rightarrow> (app_fault + app) option" where
  "menu_loop e is dm sm p s =
    (case WaitKeyPress e (out (draw_menu is dm (fst p) (snd p)) s) of
       None \<Rightarrow> None
     | Some s \<Rightarrow>
        let p' = menu_press_DPad (press_padd s) dm sm p in
        if press_padd s AND SCE_CTRL_CIRCLE \<noteq> 0 then
          (case item_callback (is ! nat (fst p + snd p)) of
             None \<Rightarrow> Some (Inr s)
           | Some cb \<Rightarrow>
              (case call_item e cb s of
                 None \<Rightarrow> None
               | Some (Inl f) \<Rightarrow> Some (Inl f)
               | Some (Inr s) \<Rightarrow> menu_loop e is dm sm p' s))
        else menu_loop e is dm sm p' s)"

definition MainMenu :: "env \<Rightarrow> app \<Rightarrow> (app_fault + app) option" where
  "MainMenu e s = (let sm = 7; dm = (if sm > 52 then 52 else sm); (is, s) = main_items s in menu_loop e is dm sm (0, 0) s)"

definition settings_main :: "env \<Rightarrow> app \<Rightarrow> (app_fault + app) option" where
  "settings_main e s = MainMenu e (ReadConfig e (CreateConfigFile e s))"

section \<open>Waiting\<close>

text \<open>Reading the pad and waiting change nothing but the buttons.\<close>

definition same_app :: "app \<Rightarrow> app \<Rightarrow> bool" where
  "same_app s s' \<longleftrightarrow> conf s' = conf s \<and> conf_pad s' = conf_pad s \<and> cfg_file s' = cfg_file s \<and> sent s' = sent s \<and>
     resets s' = resets s \<and> screen s' = screen s \<and> ncalls s' = ncalls s"

lemma ReadPad_same: "same_app s (ReadPad e s)"
  by (simp add: same_app_def ReadPad_def Let_def)

lemma same_app_trans: "same_app a b \<Longrightarrow> same_app b c \<Longrightarrow> same_app a c"
  by (simp add: same_app_def)

lemma WaitKeyPress_same: "WaitKeyPress e s = Some s' \<Longrightarrow> same_app s s' \<and> press_padd s' \<noteq> 0"
proof -
  assume a: "WaitKeyPress e s = Some s'"
  show ?thesis
  proof (rule WaitKeyPress.raw_induct [OF _ a, where P = "\<lambda>e s s'. same_app s s' \<and> press_padd s' \<noteq> 0"])
    fix wait e s s'
    assume IH: "\<And>e s s'. wait e s = Some s' \<Longrightarrow> same_app s s' \<and> press_padd s' \<noteq> 0"
      and eq: "(let s = ReadPad e s in if press_padd s = 0 then wait e s else Some s) = Some s'"
    show "same_app s s' \<and> press_padd s' \<noteq> 0"
      using eq IH ReadPad_same same_app_trans by (fastforce simp: Let_def split: if_splits)
  qed
qed

section \<open>UTF-8\<close>

definition utf8_ref :: "nat \<Rightarrow> u8 list" where
  "utf8_ref n = (if n < 0x80 then [of_nat n]
     else if n < 0x800 then [of_nat (0xC0 + n div 64), of_nat (0x80 + n mod 64)]
     else [of_nat (0xE0 + n div 4096), of_nat (0x80 + n div 64 mod 64), of_nat (0x80 + n mod 64)])"

lemma or_high: "0 \<le> k \<Longrightarrow> k < 2 ^ n \<Longrightarrow> k OR (2 ^ n * l) = k + 2 ^ n * (l :: int)"
  using concat_bit_eq [of n k l] concat_bit_def [of n k l]
  by (simp add: take_bit_int_eq_self push_bit_eq_mult mult.commute)

lemma or_marks:
  "0 \<le> k \<Longrightarrow> k < 64 \<Longrightarrow> k OR 0x80 = k + (0x80 :: int)"
  "0 \<le> k \<Longrightarrow> k < 32 \<Longrightarrow> k OR 0xC0 = k + (0xC0 :: int)"
  "0 \<le> k \<Longrightarrow> k < 16 \<Longrightarrow> k OR 0xE0 = k + (0xE0 :: int)"
  using or_high [of k 6 2] or_high [of k 5 6] or_high [of k 4 14] by simp_all

lemma u16_fields:
  fixes c :: u16
  shows "c AND 0x3F = take_bit 6 c" "drop_bit 6 c AND 0x3F = take_bit 6 (drop_bit 6 c)" "drop_bit 12 c AND 0xF = take_bit 4 (drop_bit 12 c)"
    "drop_bit 6 c AND 0xFF = take_bit 8 (drop_bit 6 c)"
  by (simp_all add: take_bit_eq_mask mask_eq_exp_minus_1)

lemma high_part: "c AND push_bit k (mask (16 - k)) = push_bit k (drop_bit k (c :: u16))" if "k \<le> 16"
  by (rule bit_word_eqI) (use that in \<open>auto simp: bit_simps\<close>)

lemma u16_masks:
  fixes c :: u16
  shows "c AND 0xFF80 = 0 \<longleftrightarrow> unat c < 0x80" "c AND 0xF800 = 0 \<longleftrightarrow> unat c < 0x800"
    "c AND 0xFC00 = 0xD800 \<longleftrightarrow> 0xD800 \<le> unat c \<and> unat c < 0xDC00"
proof -
  have z: "push_bit k (drop_bit k c) = 0 \<longleftrightarrow> unat c < 2 ^ k" if "k \<le> 16" for k
  proof -
    have le: "unat c div 2 ^ k * 2 ^ k < 2 ^ 16"
      by (rule le_less_trans [OF div_times_less_eq_dividend]) (use unsigned_less [of c, where ?'a = nat] in simp)
    have "unat (push_bit k (drop_bit k c)) = unat c div 2 ^ k * 2 ^ k"
      by (simp only: unsigned_push_bit_eq unsigned_drop_bit_eq)
        (use le unsigned_less [of c, where ?'a = nat] in \<open>simp add: push_bit_eq_mult drop_bit_eq_div take_bit_nat_eq_self\<close>)
    moreover have "unat c div 2 ^ k * 2 ^ k = 0 \<longleftrightarrow> unat c < 2 ^ k" by (simp add: div_eq_0_iff)
    ultimately show ?thesis by (metis unat_eq_0)
  qed
  have m: "push_bit 7 (mask 9) = (0xFF80 :: u16)" "push_bit 11 (mask 5) = (0xF800 :: u16)" "push_bit 10 (mask 6) = (0xFC00 :: u16)"
    by (simp_all add: mask_eq_exp_minus_1 push_bit_eq_mult)
  show "c AND 0xFF80 = 0 \<longleftrightarrow> unat c < 0x80" using high_part [of 7 c] z [of 7] by (simp add: m)
  show "c AND 0xF800 = 0 \<longleftrightarrow> unat c < 0x800" using high_part [of 11 c] z [of 11] by (simp add: m)
  have "c AND 0xFC00 = 0xD800 \<longleftrightarrow> push_bit 10 (drop_bit 10 c) = push_bit 10 (0x36 :: u16)"
  proof -
    have "push_bit 10 (0x36 :: u16) = 0xD800" by (simp add: push_bit_eq_mult)
    moreover have "c AND 0xFC00 = push_bit 10 (drop_bit 10 c)" using high_part [of 10 c] unfolding m [symmetric] by simp
    ultimately show ?thesis by metis
  qed
  also have "\<dots> \<longleftrightarrow> drop_bit 10 c = 0x36"
  proof
    assume "push_bit 10 (drop_bit 10 c) = push_bit 10 (0x36 :: u16)"
    then have "drop_bit 10 (push_bit 10 (drop_bit 10 c)) = drop_bit 10 (push_bit 10 (0x36 :: u16))" by (rule arg_cong)
    moreover have "drop_bit 10 (push_bit 10 (drop_bit 10 c)) = drop_bit 10 c"
    proof (rule bit_word_eqI)
      fix n show "bit (drop_bit 10 (push_bit 10 (drop_bit 10 c))) n = bit (drop_bit 10 c) n"
        using bit_imp_le_length [of c "10 + n"] by (auto simp: bit_simps)
    qed
    moreover have "drop_bit 10 (push_bit 10 (0x36 :: u16)) = 0x36" by (simp add: push_bit_eq_mult)
    ultimately show "drop_bit 10 c = 0x36" by simp
  qed simp
  also have "\<dots> \<longleftrightarrow> unat (drop_bit 10 c) = 54" by (simp add: word_unat_eq_iff)
  also have "unat (drop_bit 10 c) = unat c div 1024"
    by (simp only: unsigned_drop_bit_eq) (use unsigned_less [of c, where ?'a = nat] in \<open>simp add: drop_bit_eq_div take_bit_nat_eq_self\<close>)
  also have "unat c div 1024 = 54 \<longleftrightarrow> 0xD800 \<le> unat c \<and> unat c < 0xDC00" by auto
  finally show "c AND 0xFC00 = 0xD800 \<longleftrightarrow> 0xD800 \<le> unat c \<and> unat c < 0xDC00" .
qed

lemma ucast_of_uint: "uint (w :: u16) = int n \<Longrightarrow> ucast w = (of_nat n :: u8)"
  by (metis of_int_of_nat_eq of_int_uint ucast_eq)

lemma uint_fields:
  fixes c :: u16
  shows "k \<le> 16 \<Longrightarrow> uint (take_bit k c) = uint c mod 2 ^ k"
    "uint (drop_bit k c) = uint c div 2 ^ k"
proof -
  show "uint (take_bit k c) = uint c mod 2 ^ k" if "k \<le> 16"
    by (simp only: unsigned_take_bit_eq) (simp add: take_bit_eq_mod)
  show "uint (drop_bit k c) = uint c div 2 ^ k"
    using unsigned_less [of c, where ?'a = int]
    by (simp only: unsigned_drop_bit_eq) (simp add: drop_bit_eq_div take_bit_int_eq_self)
qed

lemma int_unat_fields:
  fixes c :: u16
  shows "int (unat c div n) = uint c div int n" "int (unat c mod n) = uint c mod int n"
    "int (unat c div n mod m) = uint c div int n mod int m"
  by (simp_all add: zdiv_int zmod_int)

lemma utf8_units:
  fixes c :: u16
  shows "uint (c AND 0x3F OR 0x80) = int (0x80 + unat c mod 64)"
    "uint (drop_bit 6 c AND 0x3F OR 0x80) = int (0x80 + unat c div 64 mod 64)"
    "unat c < 0x800 \<Longrightarrow> uint (drop_bit 6 c AND 0xFF OR 0xC0) = int (0xC0 + unat c div 64)"
    "uint (drop_bit 12 c AND 0xF OR 0xE0) = int (0xE0 + unat c div 4096)"
proof -
  have n: "uint (0x80 :: u16) = 0x80" "uint (0xC0 :: u16) = 0xC0" "uint (0xE0 :: u16) = 0xE0" by simp_all
  have "uint (c AND 0x3F OR 0x80) = uint c mod 64 OR 0x80"
    unfolding u16_fields unsigned_or_eq n using uint_fields(1) [of 6 c] by simp
  also have "\<dots> = uint c mod 64 + 0x80" by (rule or_marks) simp_all
  finally show "uint (c AND 0x3F OR 0x80) = int (0x80 + unat c mod 64)" by (simp add: int_unat_fields)
  have "uint (drop_bit 6 c AND 0x3F OR 0x80) = uint c div 64 mod 64 OR 0x80"
    unfolding u16_fields unsigned_or_eq n using uint_fields(1) [of 6 "drop_bit 6 c"] uint_fields(2) [of 6 c] by simp
  also have "\<dots> = uint c div 64 mod 64 + 0x80" by (rule or_marks) simp_all
  finally show "uint (drop_bit 6 c AND 0x3F OR 0x80) = int (0x80 + unat c div 64 mod 64)" by (simp add: int_unat_fields)
  have c: "0 \<le> uint c" "uint c < 65536" using unsigned_less [of c, where ?'a = int] by simp_all
  have b: "0 \<le> uint c div 4096" "uint c div 4096 < 16" using zdiv_mono1 [of "uint c" 65535 4096] c by (simp_all add: pos_imp_zdiv_nonneg_iff)
  have "uint (drop_bit 12 c AND 0xF OR 0xE0) = uint c div 4096 mod 16 OR 0xE0"
    unfolding u16_fields unsigned_or_eq n using uint_fields(1) [of 4 "drop_bit 12 c"] uint_fields(2) [of 12 c] by simp
  also have "uint c div 4096 mod 16 = uint c div 4096" using b by simp
  also have "\<dots> OR 0xE0 = uint c div 4096 + 0xE0" using b by (rule or_marks)
  finally show "uint (drop_bit 12 c AND 0xF OR 0xE0) = int (0xE0 + unat c div 4096)" by (simp add: int_unat_fields)
  assume "unat c < 0x800"
  then have "int (unat c) < 0x800" by linarith
  then have c2: "uint c < 0x800" by simp
  have b2: "0 \<le> uint c div 64" "uint c div 64 < 32" using zdiv_mono1 [of "uint c" "0x7FF" 64] c(1) c2 by (simp_all add: pos_imp_zdiv_nonneg_iff)
  have "uint (drop_bit 6 c AND 0xFF OR 0xC0) = uint c div 64 mod 256 OR 0xC0"
    unfolding u16_fields unsigned_or_eq n using uint_fields(1) [of 8 "drop_bit 6 c"] uint_fields(2) [of 6 c] by simp
  also have "uint c div 64 mod 256 = uint c div 64" using b2 by simp
  also have "\<dots> OR 0xC0 = uint c div 64 + 0xC0" using b2 by (rule or_marks)
  finally show "uint (drop_bit 6 c AND 0xFF OR 0xC0) = int (0xC0 + unat c div 64)" by (simp add: int_unat_fields)
qed

lemma utf8_bmp2_ref: "0x80 \<le> unat c \<Longrightarrow> unat c < 0x800 \<Longrightarrow> utf8_bmp2 c = utf8_ref (unat c)"
proof -
  assume c: "0x80 \<le> unat c" "unat c < 0x800"
  then have "\<not> unat c < 0x80" by simp
  then show ?thesis using c(2) utf8_units(1,3) [of c] unfolding utf8_bmp2_def utf8_ref_def
    by (simp only: ucast_of_uint if_False if_True)
qed

lemma utf8_bmp3_ref: "0x800 \<le> unat c \<Longrightarrow> utf8_bmp3 c = utf8_ref (unat c)"
proof -
  assume "0x800 \<le> unat c"
  then have "\<not> unat c < 0x80" "\<not> unat c < 0x800" by simp_all
  then show ?thesis using utf8_units(1,2,4) [of c] unfolding utf8_bmp3_def utf8_ref_def
    by (simp only: ucast_of_uint if_False)
qed

definition bmp :: "u16 \<Rightarrow> bool" where
  "bmp c \<longleftrightarrow> c \<noteq> 0 \<and> \<not> (0xD800 \<le> unat c \<and> unat c < 0xE000)"

lemma utf16_step: "bmp c \<Longrightarrow> utf16_to_utf8 (c # src) = map_option (\<lambda>r. utf8_ref (unat c) @ r) (utf16_to_utf8 src)"
proof -
  assume b: "bmp c"
  have low: "ucast (c AND 0xFF) = (of_nat (unat c) :: u8)" if "unat c < 0x80"
  proof -
    have "c AND 0xFF = take_bit 8 c" by (simp add: take_bit_eq_mask mask_eq_exp_minus_1)
    then have "ucast (c AND 0xFF) = (ucast c :: u8)" by (auto intro: bit_word_eqI simp: bit_simps)
    also have "\<dots> = of_nat (unat c)" by (rule ucast_of_uint) simp
    finally show ?thesis .
  qed
  consider "unat c < 0x80" | "0x80 \<le> unat c" "unat c < 0x800" | "0x800 \<le> unat c" by linarith
  then show ?thesis
  proof cases
    case 1
    then show ?thesis using b low by (simp add: bmp_def u16_masks utf8_ref_def)
  next
    case 2
    then show ?thesis using b utf8_bmp2_ref by (simp add: bmp_def u16_masks)
  next
    case 3
    then have "\<not> (0xD800 \<le> unat c \<and> unat c < 0xDC00)" using b unfolding bmp_def by linarith
    then show ?thesis using 3 b utf8_bmp3_ref [of c] by (auto simp: bmp_def u16_masks)
  qed
qed

lemma utf16_bmp: "list_all bmp cs \<Longrightarrow> utf16_to_utf8 (cs @ 0 # rest) = Some (concat (map (\<lambda>c. utf8_ref (unat c)) cs) @ [0])"
proof (induction cs)
  case (Cons c cs)
  then show ?case using utf16_step [of c "cs @ 0 # rest"] by simp
qed simp

section \<open>The menu as a cyclic counter\<close>

definition menu_ok :: "int \<Rightarrow> int \<Rightarrow> int \<times> int \<Rightarrow> bool" where
  "menu_ok dm sm p \<longleftrightarrow> 0 \<le> fst p \<and> fst p < dm \<and> 0 \<le> snd p \<and> snd p \<le> sm - dm"

definition item_of :: "int \<times> int \<Rightarrow> int" where
  "item_of p = fst p + snd p"

lemma press_up_wraps:
  assumes "menu_ok dm sm p"
  shows "menu_ok dm sm (press_up dm sm p) \<and> item_of (press_up dm sm p) = (item_of p - 1) mod sm"
proof (cases "item_of p = 0")
  case True
  then have "fst p = 0" "snd p = 0" using assms by (auto simp: menu_ok_def item_of_def)
  moreover have "(- 1) mod sm = sm - 1" using assms by (intro zmod_minus1) (simp add: menu_ok_def)
  ultimately show ?thesis using assms by (cases p) (simp add: press_up_def menu_ok_def item_of_def)
next
  case False
  then have "(item_of p - 1) mod sm = item_of p - 1" using assms by (intro mod_pos_pos_trivial) (auto simp: menu_ok_def item_of_def)
  then show ?thesis using assms False by (cases p) (auto simp: press_up_def menu_ok_def item_of_def)
qed

lemma press_down_wraps:
  assumes "menu_ok dm sm p"
  shows "menu_ok dm sm (press_down dm sm p) \<and> item_of (press_down dm sm p) = (item_of p + 1) mod sm"
proof (cases "item_of p = sm - 1")
  case True
  then have "fst p = dm - 1" using assms by (auto simp: menu_ok_def item_of_def)
  then show ?thesis using assms True by (cases p) (auto simp: press_down_def menu_ok_def item_of_def)
next
  case False
  then have "(item_of p + 1) mod sm = item_of p + 1" using assms by (intro mod_pos_pos_trivial) (auto simp: menu_ok_def item_of_def)
  then show ?thesis using assms False by (cases p) (auto simp: press_down_def menu_ok_def item_of_def)
qed

lemma press_right_moves:
  "menu_ok dm sm p \<Longrightarrow> menu_ok dm sm (press_right dm sm p) \<and> item_of p \<le> item_of (press_right dm sm p)"
  by (cases p) (auto simp: press_right_def menu_ok_def item_of_def Let_def)

lemma press_left_moves:
  "menu_ok dm sm p \<Longrightarrow> menu_ok dm sm (press_left dm sm p) \<and> item_of (press_left dm sm p) \<le> item_of p"
  by (cases p) (auto simp: press_left_def menu_ok_def item_of_def)

section \<open>The configuration in the file\<close>

lemma half_bytes: "half (ucast w) (ucast (drop_bit 8 w)) = w"
  by (rule bit_word_eqI) (auto simp: half_def bit_simps)

lemma length_cfg_bytes [simp]: "length (cfg_bytes c p) = 16"
  by (simp add: cfg_bytes_def)

lemma cfg_of_cfg_bytes: "cfg_of_bytes (cfg_bytes c p) = (c, p)"
  unfolding cfg_of_bytes_def cfg_bytes_def bytes32_def by (simp add: join32_bytes32 half_bytes)

lemma magic_word_bytes: "bytes32 magic_word = nlm_magic"
  by (simp add: magic_word_def nlm_magic_def bytes32_join32)

lemma out_same: "conf (out d s) = conf s" "conf_pad (out d s) = conf_pad s" "cfg_file (out d s) = cfg_file s"
    "sent (out d s) = sent s" "resets (out d s) = resets s" "ncalls (out d s) = ncalls s"
  by (simp_all add: out_def)

text \<open>All that a step may do to the data: the magic stays, in the variable and in all that was sent.\<close>

definition keeps :: "u32 \<Rightarrow> app \<Rightarrow> bool" where
  "keeps m s \<longleftrightarrow> cfg_magic (conf s) = m \<and> (\<forall>c \<in> set (sent s). cfg_magic c = m)"

lemma keeps_simps [simp]:
  "keeps m (out d s) = keeps m s" "keeps m (s\<lparr>ncalls := n\<rparr>) = keeps m s" "keeps m (s\<lparr>cfg_file := f\<rparr>) = keeps m s"
  "keeps m (s\<lparr>resets := n\<rparr>) = keeps m s" "keeps m (s\<lparr>menu_text_y := y\<rparr>) = keeps m s"
  "keeps m (s\<lparr>conf := (conf s)\<lparr>cfg_port := p\<rparr>\<rparr>) = keeps m s" "keeps m (s\<lparr>conf := (conf s)\<lparr>cfg_IPv4 := i\<rparr>\<rparr>) = keeps m s"
  "keeps m (s\<lparr>conf := (conf s)\<lparr>cfg_flags := f'\<rparr>\<rparr>) = keeps m s"
  "keeps m (s\<lparr>sent := sent s @ [conf s]\<rparr>) = keeps m s"
  by (auto simp: keeps_def out_def)

lemma keeps_same: "same_app s s' \<Longrightarrow> keeps m s' = keeps m s"
  by (simp add: same_app_def keeps_def)

lemma keeps_pad [simp]: "keeps m (ReadPad e s) = keeps m s"
  by (rule keeps_same [OF ReadPad_same])

lemma keeps_wait: "WaitKeyPress e s = Some s' \<Longrightarrow> keeps m s' = keeps m s"
  using WaitKeyPress_same keeps_same by blast

lemma wait_end_keeps: "wait_end e s = Some s' \<Longrightarrow> keeps m s' = keeps m s"
  by (auto simp: wait_end_def dest: keeps_wait split: option.splits)

lemma port_end_keeps: "port_end e r s = Some (Inr (r', s')) \<Longrightarrow> keeps m s' = keeps m s"
  by (auto simp: port_end_def dest: keeps_wait split: option.splits)

lemma dialog_keeps: "CallImeDialog e s = Some (r, t, s') \<Longrightarrow> keeps m s' = keeps m s"
  by (auto simp: CallImeDialog_def Let_def split: if_splits option.splits)

lemma SetServerPort_keeps: "SetServerPort e s = Some (Inr (r, s')) \<Longrightarrow> keeps m s' = keeps m s"
  by (auto simp: SetServerPort_def Let_def dest!: dialog_keeps port_end_keeps split: if_splits option.splits sum.splits)

lemma SetServerIPv4_keeps: "SetServerIPv4 e s = Some (Inr (r, s')) \<Longrightarrow> keeps m s' = keeps m s"
  by (auto simp: SetServerIPv4_def Let_def case_prod_beta dest!: dialog_keeps port_end_keeps split: if_splits option.splits sum.splits)

lemma write_config_keeps [simp]: "keeps m (snd (write_config e s)) = keeps m s"
  by (simp add: write_config_def Let_def)

lemma SaveConfig_keeps: "SaveConfig e s = Some s' \<Longrightarrow> keeps m s' = keeps m s"
  using write_config_keeps [of m e "out [Show] s"]
  by (auto simp: SaveConfig_def Let_def dest!: wait_end_keeps split: prod.splits if_splits simp del: write_config_keeps)

lemma keeps_sent: "keeps m (u\<lparr>sent := sent t @ [conf t]\<rparr>) = keeps m t" if "conf u = conf t"
  using that by (auto simp: keeps_def)

lemma UpdateConfig_keeps: "UpdateConfig e s = Some s' \<Longrightarrow> keeps m s' = keeps m s"
proof -
  assume a: "UpdateConfig e s = Some s'"
  define t where "t = (out [Show] s)\<lparr>ncalls := ncalls (out [Show] s) + 1\<rparr>"
  have t: "keeps m t = keeps m s" "keeps m (t\<lparr>sent := sent t @ [conf t]\<rparr>) = keeps m s"
    by (simp_all add: t_def keeps_sent)
  show ?thesis
    using a unfolding UpdateConfig_def Let_def t_def [symmetric]
    by (auto dest!: wait_end_keeps [where m = m] simp: t split: if_splits)
qed

lemma qaf_keeps: "qaf_loop e sel s = Some s' \<Longrightarrow> keeps m s' = keeps m s"
proof -
  assume a: "qaf_loop e sel s = Some s'"
  show ?thesis
  proof (rule qaf_loop.raw_induct [OF _ a, where P = "\<lambda>e sel s s'. keeps m s' = keeps m s"])
    fix q e sel s s'
    assume IH: "\<And>e sel s s'. q e sel s = Some s' \<Longrightarrow> keeps m s' = keeps m s"
      and eq: "(case WaitKeyPress e (out (qaf_screen sel s) s) of
       None \<Rightarrow> None
     | Some s \<Rightarrow>
        let k = press_padd s; sel = qaf_move k sel
        in if k AND SCE_CTRL_CIRCLE \<noteq> 0 then
             (if sel = 0 then q e sel (qaf_toggle s) else if sel = 1 then Some (ReadPad e s) else q e sel s)
           else q e sel s) = Some s'"
    then obtain t where t: "WaitKeyPress e (out (qaf_screen sel s) s) = Some t" by (auto split: option.splits)
    have "keeps m t = keeps m s" "keeps m (qaf_toggle t) = keeps m s" using keeps_wait [OF t] by (simp_all add: qaf_toggle_def)
    then show "keeps m s' = keeps m s"
      using eq IH [of e _ t s'] IH [of e _ "qaf_toggle t" s'] unfolding t option.case Let_def by (auto split: if_splits)
  qed
qed

lemma plain_Inr: "plain r = Some (Inr s') \<Longrightarrow> r = Some s'"
  by (auto simp: plain_def)

lemma no_result_Inr: "no_result r = Some (Inr s') \<Longrightarrow> \<exists>a. r = Some (Inr (a, s'))"
  by (cases r) (auto simp: no_result_def split: sum.splits)

lemma call_item_keeps: "call_item e cb s = Some (Inr s') \<Longrightarrow> keeps m s' = keeps m s"
  by (cases cb) (auto simp: call_item_def QafSettings_def dest!: plain_Inr no_result_Inr
    dest: SetServerPort_keeps SetServerIPv4_keeps qaf_keeps UpdateConfig_keeps SaveConfig_keeps)

lemma menu_loop_keeps: "menu_loop e is dm sm p s = Some r \<Longrightarrow> r = Inr s' \<Longrightarrow> keeps m s' = keeps m s"
proof -
  assume a: "menu_loop e is dm sm p s = Some r" and r: "r = Inr s'"
  have "\<forall>s'. r = Inr s' \<longrightarrow> keeps m s' = keeps m s"
  proof (rule menu_loop.raw_induct [OF _ a, where P = "\<lambda>e is dm sm p s r. \<forall>s'. r = Inr s' \<longrightarrow> keeps m s' = keeps m s"])
    fix q e "is" dm sm p s and r :: "app_fault + app"
    assume IH: "\<And>e is dm sm p s r. q e is dm sm p s = Some r \<Longrightarrow> \<forall>s'. r = Inr s' \<longrightarrow> keeps m s' = keeps m s"
      and eq: "(case WaitKeyPress e (out (draw_menu is dm (fst p) (snd p)) s) of
       None \<Rightarrow> None
     | Some s \<Rightarrow>
        let p' = menu_press_DPad (press_padd s) dm sm p in
        if press_padd s AND SCE_CTRL_CIRCLE \<noteq> 0 then
          (case item_callback (is ! nat (fst p + snd p)) of
             None \<Rightarrow> Some (Inr s)
           | Some cb \<Rightarrow>
              (case call_item e cb s of
                 None \<Rightarrow> None
               | Some (Inl f) \<Rightarrow> Some (Inl f)
               | Some (Inr s) \<Rightarrow> q e is dm sm p' s))
        else q e is dm sm p' s) = Some r"
    then obtain t where t: "WaitKeyPress e (out (draw_menu is dm (fst p) (snd p)) s) = Some t" by (auto split: option.splits)
    have k: "keeps m t = keeps m s" using keeps_wait [OF t] by simp
    have rec: "keeps m s' = keeps m u" if "q e is dm sm p' u = Some (Inr s')" for p' u s'
      using IH [OF that] by simp
    from eq k show "\<forall>s'. r = Inr s' \<longrightarrow> keeps m s' = keeps m s" unfolding t option.case Let_def
      by (auto dest!: rec call_item_keeps [where m = m] split: if_splits option.splits sum.splits)
  qed
  with r show ?thesis by simp
qed

section \<open>The configuration at start-up\<close>

lemma join32_of_bytes: "join32 (bytes32 w ! 0) (bytes32 w ! 1) (bytes32 w ! 2) (bytes32 w ! 3) = w"
  by (simp add: bytes32_def join32_bytes32)

lemma has_magic_word: "has_magic c \<longleftrightarrow> cfg_magic c = magic_word"
proof
  assume "has_magic c"
  then have "bytes32 (cfg_magic c) = bytes32 magic_word" by (simp add: has_magic_def magic_word_bytes)
  then show "cfg_magic c = magic_word" by (metis join32_of_bytes)
qed (simp add: has_magic_def magic_word_bytes)

text \<open>A file of the right size is left alone by \<open>CreateConfigFile\<close> and read whole.\<close>

lemma CreateConfigFile_right_size: "cfg_file s = Some bs \<Longrightarrow> length bs = 16 \<Longrightarrow> CreateConfigFile e s = s"
  by (simp add: CreateConfigFile_def)

lemma read_config_right_size:
  assumes "cfg_file s = Some bs" "length bs = 16" "0 \<le> fopen_result e (ncalls s)"
  shows "read_config e s = s\<lparr>ncalls := ncalls s + 1, conf := fst (cfg_of_bytes bs), conf_pad := snd (cfg_of_bytes bs)\<rparr>"
  using assms by (simp add: read_config_def Let_def)

lemma CreateConfigFile_repairs:
  assumes "cfg_file s = None \<or> map_option length (cfg_file s) \<noteq> Some 16" "0 \<le> fopen_result e (ncalls s)" "fwrite_result e (ncalls s) = 16"
  shows "has_magic (conf (CreateConfigFile e s)) \<and>
    cfg_file (CreateConfigFile e s) = Some (cfg_bytes (conf (CreateConfigFile e s)) (conf_pad (CreateConfigFile e s)))"
  using assms unfolding has_magic_word by (simp add: CreateConfigFile_def write_config_def Let_def cfg_of_cfg_bytes)

lemma CreateConfigFile_sent [simp]: "sent (CreateConfigFile e s) = sent s"
  by (simp add: CreateConfigFile_def write_config_def Let_def)

lemma ReadConfig_sent [simp]: "sent (ReadConfig e s) = sent s"
  by (simp add: ReadConfig_def read_config_def Let_def split: option.splits)

text \<open>What the program starts with: the kernel's configuration, else that of the file.\<close>

lemma ReadConfig_magic:
  assumes "cfg_file s = Some bs" "length bs = 16" "has_magic (fst (cfg_of_bytes bs))" "\<And>n. 0 \<le> fopen_result e n"
    and "0 < search e (ncalls s) \<Longrightarrow> has_magic (kernel_conf e)"
  shows "has_magic (conf (ReadConfig e s))"
  using assms(3,5) read_config_right_size [of "s\<lparr>ncalls := ncalls s + 1\<rparr>" bs e] assms(1,2,4)
  by (auto simp: ReadConfig_def Let_def has_magic_def)

lemma start_magic:
  assumes "\<And>n. 0 \<le> fopen_result e n \<and> fwrite_result e n = 16" "has_magic (kernel_conf e)"
    and "\<And>bs. cfg_file s = Some bs \<Longrightarrow> length bs = 16 \<Longrightarrow> has_magic (fst (cfg_of_bytes bs))"
  shows "has_magic (conf (ReadConfig e (CreateConfigFile e s)))"
proof (cases "map_option length (cfg_file s) = Some 16")
  case True
  then obtain bs where "cfg_file s = Some bs" "length bs = 16" by auto
  then show ?thesis using assms ReadConfig_magic CreateConfigFile_right_size by metis
next
  case False
  then have "has_magic (conf (CreateConfigFile e s))"
    "cfg_file (CreateConfigFile e s) = Some (cfg_bytes (conf (CreateConfigFile e s)) (conf_pad (CreateConfigFile e s)))"
    using CreateConfigFile_repairs [of s e] assms(1) by auto
  then show ?thesis
    using assms(1,2) ReadConfig_magic [of "CreateConfigFile e s" "cfg_bytes (conf (CreateConfigFile e s)) (conf_pad (CreateConfigFile e s))" e]
    by (simp add: cfg_of_cfg_bytes)
qed

lemma main_items_keeps: "keeps m (snd (main_items s)) = keeps m s"
  by (simp add: main_items_def add_menu_item_def menu_item_init_def)

lemma MainMenu_keeps: "MainMenu e s = Some (Inr s') \<Longrightarrow> keeps m s' = keeps m s"
  using main_items_keeps [of m s] menu_loop_keeps
  by (fastforce simp: MainMenu_def Let_def case_prod_beta)

lemma SaveConfig_file:
  assumes "SaveConfig e s = Some s'" "0 \<le> fopen_result e (ncalls s)" "fwrite_result e (ncalls s) = 16"
  shows "cfg_file s' = Some (cfg_bytes (conf s) (conf_pad s))"
proof -
  have w: "cfg_file u' = cfg_file u" if "wait_end e u = Some u'" for u u'
    using that WaitKeyPress_same [of e "out press_key_message u"] ReadPad_same [of _ e]
    by (fastforce simp: wait_end_def out_same same_app_def split: option.splits)
  show ?thesis
    using assms w by (auto simp: SaveConfig_def write_config_def Let_def out_same)
qed

section \<open>Properties\<close>

text \<open>An example environment: the pad delivers a list of samples, the dialogs are cancelled, files open, the kernel
  module is found when \<open>found\<close> is positive.\<close>

definition sample_env :: "u32 list \<Rightarrow> int \<Rightarrow> env" where
  "sample_env ks found = \<lparr>pad = (\<lambda>n. ks ! n), dialog = (\<lambda>_. \<lparr>ime_init = -1, ime_status = (\<lambda>_. 2), ime_text = [0]\<rparr>),
     finished = 2, pton = (\<lambda>_. (0, 0)), search = (\<lambda>_. found), upd_result = (\<lambda>_. 0),
     kernel_conf = \<lparr>cfg_magic = magic_word, cfg_IPv4 = 0x600A8C0, cfg_flags = 0, cfg_port = 8080\<rparr>, fopen_result = (\<lambda>_. 5), fwrite_result = (\<lambda>_. 16)\<rparr>"

definition sample_app :: "nlm_config \<Rightarrow> u8 list option \<Rightarrow> app" where
  "sample_app c f = \<lparr>samples = 0, press_padd = 0, press_key = 0, old_press_key = 0, conf = c, conf_pad = 0, ncalls = 0,
     cfg_file = f, sent = [], resets = 0, screen = [], menu_text_y = 20\<rparr>"

definition sample_config :: nlm_config where
  "sample_config = \<lparr>cfg_magic = magic_word, cfg_IPv4 = 0x600A8C0, cfg_flags = 1, cfg_port = 8081\<rparr>"

lemma WaitKeyPress_pressed: "press_padd (ReadPad e s) \<noteq> 0 \<Longrightarrow> WaitKeyPress e s = Some (ReadPad e s)"
  by (subst WaitKeyPress.simps) (simp add: Let_def)

lemmas run = WaitKeyPress.simps ReadPad_def Let_def wait_end_def out_def sample_env_def sample_app_def

lemma sample_save: "\<exists>s'. SaveConfig (sample_env [SCE_CTRL_CIRCLE, 0] 0) (sample_app sample_config None) = Some s'"
  by (simp add: SaveConfig_def write_config_def run SCE_CTRL_CIRCLE_def)

text \<open>Down to \<open>Update Config\<close>, a key for its message, down to \<open>Exit\<close>.\<close>

definition update_and_leave :: "u32 list" where
  "update_and_leave = [SCE_CTRL_DOWN, 0, SCE_CTRL_DOWN, 0, SCE_CTRL_DOWN, 0, SCE_CTRL_CIRCLE, 0, SCE_CTRL_CIRCLE, 0,
     SCE_CTRL_DOWN, 0, SCE_CTRL_DOWN, 0, SCE_CTRL_DOWN, 0, SCE_CTRL_CIRCLE]"

lemma sample_run: "\<exists>s'. settings_main (sample_env update_and_leave 1) (sample_app sample_config None) = Some (Inr s') \<and>
    sent s' = [kernel_conf (sample_env update_and_leave 1)]"
  apply (simp add: settings_main_def ReadConfig_def CreateConfigFile_def write_config_def run MainMenu_def main_items_def
    add_menu_item_def menu_item_init_def blank_item_def set_item_callback_def update_and_leave_def)
  apply (simp add: menu_loop.simps run call_item_def plain_def UpdateConfig_def menu_press_DPad_def press_down_def
    SCE_CTRL_CIRCLE_def SCE_CTRL_DOWN_def SCE_CTRL_UP_def SCE_CTRL_LEFT_def SCE_CTRL_RIGHT_def)
  done

text \<open>C38. A saved configuration comes back. After a \<open>SaveConfig\<close> whose file opens and takes all 16 bytes (the code looks
  at the first only), with a configuration that has the magic (as every one the program starts with, if the kernel's and
  the file's have it), the next start of the program leaves the file alone and has exactly that configuration when the
  kernel module is not loaded then (the search for it finds nothing) and the file opens; when the module is loaded the
  program takes the module's configuration instead of the file. The kernel module, which reads the same 16 bytes when it
  starts, takes the configuration with the address and the port of it and reports it as loaded: so if the program finds a module that
  was started after the save and not updated since, it has the saved configuration again as well.\<close>

theorem saved_config_is_loaded:
  assumes save: "SaveConfig e s = Some s'" "0 \<le> fopen_result e (ncalls s)" "fwrite_result e (ncalls s) = 16" "has_magic (conf s)"
    and start: "cfg_file t = cfg_file s'" "search e' (ncalls t) \<le> 0 \<Longrightarrow> 0 \<le> fopen_result e' (ncalls t + 1)"
      "t' = ReadConfig e' (CreateConfigFile e' t)"
    and kernel: "bs = the (cfg_file s')" "0 < fd"
      "(k', r) = NetLoggingMgrLoadConfigForKernel htons fd (int (length bs), fst (cfg_of_bytes bs)) k"
  shows "cfg_file t' = cfg_file s' \<and> conf t' = (if 0 < search e' (ncalls t) then kernel_conf e' else conf s) \<and>
    r = 0 \<and> config k' = conf s \<and> sin_addr k' = cfg_IPv4 (conf s) \<and>
    sin_port k' = htons (if cfg_port (conf s) \<noteq> 0 then cfg_port (conf s) else DEFAULT_PORT) \<and>
    nflags k' AND NLM_BIT_CONFIG_LOADED = NLM_BIT_CONFIG_LOADED \<and>
    (kernel_conf e' = config k' \<longrightarrow> conf t' = conf s)"
proof -
  have f: "cfg_file s' = Some (cfg_bytes (conf s) (conf_pad s))" using save(1-3) by (rule SaveConfig_file)
  have bs: "bs = cfg_bytes (conf s) (conf_pad s)" "length bs = 16" "fst (cfg_of_bytes bs) = conf s"
    unfolding kernel(1) f by (simp_all add: cfg_of_cfg_bytes)
  have c: "CreateConfigFile e' t = t" using f start(1) by (intro CreateConfigFile_right_size) auto
  have rd: "read_config e' (t\<lparr>ncalls := ncalls t + 1\<rparr>) =
      t\<lparr>ncalls := ncalls t + 2, conf := conf s, conf_pad := conf_pad s\<rparr>" if "search e' (ncalls t) \<le> 0"
    using f start(1) start(2) [OF that] read_config_right_size [of "t\<lparr>ncalls := ncalls t + 1\<rparr>" "cfg_bytes (conf s) (conf_pad s)" e']
    by (simp add: cfg_of_cfg_bytes)
  have t': "cfg_file t' = cfg_file t \<and> conf t' = (if 0 < search e' (ncalls t) then kernel_conf e' else conf s)"
    unfolding start(3) c ReadConfig_def using save(4) rd by (simp add: Let_def has_magic_def)
  have len: "int (length bs) = sizeof_config" using bs by (simp add: sizeof_config_def)
  have k: "config k' = conf s" "sin_addr k' = cfg_IPv4 (conf s)" "nflags k' = nflags k OR NLM_BIT_CONFIG_LOADED" "r = 0"
    "sin_port k' = htons (if cfg_port (conf s) \<noteq> 0 then cfg_port (conf s) else DEFAULT_PORT)"
    using save(4) kernel(2,3) unfolding len bs(3)
    by (simp_all add: NetLoggingMgrLoadConfigForKernel_def Let_def set_server_def)
  have o: "(x OR NLM_BIT_CONFIG_LOADED) AND NLM_BIT_CONFIG_LOADED = NLM_BIT_CONFIG_LOADED" for x :: u32
    by (rule bit_word_eqI) (auto simp: bit_simps)
  show ?thesis using t' k start(1) by (simp add: o)
qed

theorem saved_config_is_loaded_witness:
  "\<exists>s' t'. SaveConfig (sample_env [SCE_CTRL_CIRCLE, 0] 0) (sample_app sample_config None) = Some s' \<and>
     t' = ReadConfig (sample_env [] 0) (CreateConfigFile (sample_env [] 0) (sample_app (kernel_conf (sample_env [] 0)) (cfg_file s'))) \<and>
     conf t' = sample_config"
proof -
  obtain s' where s': "SaveConfig (sample_env [SCE_CTRL_CIRCLE, 0] 0) (sample_app sample_config None) = Some s'"
    using sample_save by blast
  obtain k' r where k: "(k', r) = NetLoggingMgrLoadConfigForKernel id 3
      (int (length (the (cfg_file s'))), fst (cfg_of_bytes (the (cfg_file s')))) undefined"
    by (metis surj_pair)
  have "conf (ReadConfig (sample_env [] 0) (CreateConfigFile (sample_env [] 0)
      (sample_app (kernel_conf (sample_env [] 0)) (cfg_file s')))) = sample_config"
    using saved_config_is_loaded [OF s' _ _ _ _ _ refl refl _ k, of "sample_app (kernel_conf (sample_env [] 0)) (cfg_file s')" "sample_env [] 0"]
    by (simp add: sample_env_def sample_app_def sample_config_def has_magic_word)
  then show ?thesis using s' by blast
qed

text \<open>Whatever the user does in the menus, every configuration that is passed to the kernel module has the
  magic the module asks for, when the kernel's own has it and the file is missing, has another
  size, or has it.\<close>

lemma settings_send_the_magic:
  assumes "settings_main e s = Some (Inr s')" "sent s = []" "\<And>n. 0 \<le> fopen_result e n \<and> fwrite_result e n = 16" "has_magic (kernel_conf e)"
    and "\<And>bs. cfg_file s = Some bs \<Longrightarrow> length bs = 16 \<Longrightarrow> has_magic (fst (cfg_of_bytes bs))"
  shows "list_all has_magic (sent s')"
proof -
  have "keeps magic_word (ReadConfig e (CreateConfigFile e s))"
    using start_magic [OF assms(3,4,5)] assms(2) by (simp add: keeps_def has_magic_word)
  then have "keeps magic_word s'" using assms(1) MainMenu_keeps unfolding settings_main_def by metis
  then show ?thesis by (simp add: keeps_def has_magic_word list_all_iff)
qed

lemma settings_send_the_magic_witness:
  "\<exists>s'. settings_main (sample_env update_and_leave 1) (sample_app sample_config None) = Some (Inr s') \<and>
     length (sent s') = 1 \<and> list_all has_magic (sent s')"
proof -
  obtain s' where s': "settings_main (sample_env update_and_leave 1) (sample_app sample_config None) = Some (Inr s')"
    "length (sent s') = 1" using sample_run by auto
  have "list_all has_magic (sent s')"
    by (rule settings_send_the_magic [OF s'(1)]) (simp_all add: sample_env_def sample_app_def has_magic_word)
  then show ?thesis using s' by blast
qed

text \<open>A file of the right size with a wrong magic is never repaired: start-up reads it, sees the wrong magic,
  calls \<open>CreateConfigFile\<close>, and that does nothing because the size is right. The program goes on with
  a configuration the kernel module refuses, saves it without the magic, and the module does
  not load it at its next start either.\<close>

lemma wrong_magic_is_not_repaired:
  assumes "cfg_file s = Some bs" "length bs = 16" "\<not> has_magic (fst (cfg_of_bytes bs))"
    and "search e (ncalls s) \<le> 0" "0 \<le> fopen_result e (ncalls s + 1)"
    and "t = ReadConfig e (CreateConfigFile e s)" "c = conf t" "(k', r) = NetLoggingMgrLoadConfigForKernel htons fd (16, c) k"
    and "0 < fd"
  shows "cfg_file t = Some bs \<and> \<not> has_magic c \<and>
    NetLoggingMgrUpdateConfig illegal htons (0, cfg_bytes c (conf_pad t)) (0, c) k = (k, illegal) \<and>
    r = 0 \<and> nflags k' = nflags k \<and> sin_addr k' = sin_addr k"
proof -
  have cr: "CreateConfigFile e s = s" using assms(1,2) by (rule CreateConfigFile_right_size)
  have rd: "read_config e (s\<lparr>ncalls := ncalls s + 1\<rparr>) =
      s\<lparr>ncalls := ncalls s + 2, conf := fst (cfg_of_bytes bs), conf_pad := snd (cfg_of_bytes bs)\<rparr>"
    using assms(1,2,5) read_config_right_size [of "s\<lparr>ncalls := ncalls s + 1\<rparr>" bs e] by simp
  have t: "t = s\<lparr>ncalls := ncalls s + 2, conf := fst (cfg_of_bytes bs), conf_pad := snd (cfg_of_bytes bs)\<rparr>"
    unfolding assms(6) cr ReadConfig_def using assms(1,2,4) by (simp add: Let_def rd [simplified] CreateConfigFile_def)
  have c: "c = fst (cfg_of_bytes bs)" using assms(7) t by simp
  have "take 4 (cfg_bytes c p) = bytes32 (cfg_magic c)" for p by (simp add: cfg_bytes_def bytes32_def)
  then have "NetLoggingMgrUpdateConfig illegal htons (0, cfg_bytes c (conf_pad t)) (0, c) k = (k, illegal)"
    using assms(3) c by (simp add: NetLoggingMgrUpdateConfig_def has_magic_def)
  then show ?thesis
    using t c assms(1,3,8,9) by (simp add: NetLoggingMgrLoadConfigForKernel_def sizeof_config_def Let_def)
qed

lemma wrong_magic_is_not_repaired_witness:
  "cfg_file (ReadConfig (sample_env [] 0) (CreateConfigFile (sample_env [] 0) (sample_app sample_config (Some (replicate 16 7)))))
     = Some (replicate 16 7)"
proof -
  obtain k' r where k: "(k', r) = NetLoggingMgrLoadConfigForKernel id 3
      (16, conf (ReadConfig (sample_env [] 0) (CreateConfigFile (sample_env [] 0) (sample_app sample_config (Some (replicate 16 7)))))) undefined"
    by (metis surj_pair)
  have "\<not> has_magic (fst (cfg_of_bytes (replicate 16 7)))"
    by (simp add: cfg_of_bytes_def has_magic_def bytes32_join32 nlm_magic_def)
  then show ?thesis
    using wrong_magic_is_not_repaired [of "sample_app sample_config (Some (replicate 16 7))" "replicate 16 7" "sample_env [] 0", OF _ _ _ _ _ refl refl k]
    by (simp add: sample_env_def sample_app_def)
qed

text \<open>For text of the basic plane (without surrogates) \<open>utf16_to_utf8\<close> is UTF-8, ended by a NUL; for a
  surrogate pair it is not: U+1F600 becomes bytes that no UTF-8 decoder accepts as that character.\<close>

lemma utf16_to_utf8_bmp:
  assumes "list_all bmp cs"
  shows "utf16_to_utf8 (cs @ 0 # rest) = Some (concat (map (\<lambda>c. utf8_ref (unat c)) cs) @ [0]) \<and>
    utf16_to_utf8 [0xD83D, 0xDE00, 0] \<noteq> Some [0xF0, 0x9F, 0x98, 0x80, 0]"
proof
  show "utf16_to_utf8 (cs @ 0 # rest) = Some (concat (map (\<lambda>c. utf8_ref (unat c)) cs) @ [0])"
    using assms by (rule utf16_bmp)
  show "utf16_to_utf8 [0xD83D, 0xDE00, 0] \<noteq> Some [0xF0, 0x9F, 0x98, 0x80, 0]"
    by (simp add: utf8_pair_def)
qed

lemma utf16_to_utf8_bmp_witness:
  "utf16_to_utf8 ([0x41, 0xE9, 0x20AC] @ 0 # []) = Some ([0x41, 0xC3, 0xA9, 0xE2, 0x82, 0xAC] @ [0])"
  using utf16_to_utf8_bmp [of "[0x41, 0xE9, 0x20AC]" "[]"] by (simp add: bmp_def utf8_ref_def)

text \<open>The direction buttons move a cyclic counter: from any position where the selected line is on the
  screen and the window inside of the menu, every combination of buttons leads to such a position
  again; up and down change the selected item by one modulo the number of items, and left and
  right never pass the ends.\<close>

lemma menu_press_DPad_cyclic:
  assumes "menu_ok dm sm p" "q = menu_press_DPad k dm sm p"
  shows "menu_ok dm sm q \<and>
    (if k AND SCE_CTRL_UP \<noteq> 0 then item_of q = (item_of p - 1) mod sm
     else if k AND SCE_CTRL_DOWN \<noteq> 0 then item_of q = (item_of p + 1) mod sm
     else if k AND SCE_CTRL_RIGHT \<noteq> 0 then item_of p \<le> item_of q
     else item_of q \<le> item_of p)"
  using assms press_up_wraps [OF assms(1)] press_down_wraps [OF assms(1)] press_right_moves [OF assms(1)] press_left_moves [OF assms(1)]
  by (simp add: menu_press_DPad_def)

lemma menu_press_DPad_cyclic_witness:
  "menu_ok 5 12 (menu_press_DPad SCE_CTRL_UP 5 12 (0, 0)) \<and> item_of (menu_press_DPad SCE_CTRL_UP 5 12 (0, 0)) = 11"
  using menu_press_DPad_cyclic [of 5 12 "(0, 0)" _ SCE_CTRL_UP, OF _ refl]
  by (simp add: menu_ok_def item_of_def SCE_CTRL_UP_def)

end
