(* ===== verification/ZlibPipe.thy ===== *)
theory ZlibPipe
  imports Vita_Prelude "HOL-Library.Sublist"
begin

text \<open>
  Compressing and decompressing a file with zlib (\<open>PSVita-ELF-builder/src/main.c\<close>: \<open>def\<close>, \<open>inf\<close>,
  \<open>zlib_compress\<close>, \<open>zlib_decompress\<close>). A disk maps paths to contents. zlib itself, the paths that
  can be written, the room on the disk and the reads that fail are fields of a host. zlib may ask
  for ever more output buffers; then the result is \<open>None\<close>. Paths that are open at the same time
  are distinct files.
\<close>

section \<open>Files\<close>

type_synonym disk = "string \<Rightarrow> u8 list option"

datatype file_fault = NullFile | CloseNull | ShortRead | BadSize | AssertFail | BufferOverflow | NotTerminated

record 'z host =
  can_write :: "string \<Rightarrow> bool"
  room :: "nat option"               \<comment> \<open>the size no file can pass\<close>
  read_err :: "nat \<Rightarrow> bool"          \<comment> \<open>reading fails at this position\<close>
  tolerant :: bool                   \<comment> \<open>\<open>fclose (NULL)\<close> only returns an error\<close>
  deflateInit :: "int \<Rightarrow> int \<times> 'z"
  deflate :: "'z \<Rightarrow> u8 list \<Rightarrow> bool \<Rightarrow> nat \<Rightarrow> int \<times> 'z \<times> u8 list \<times> u8 list"
    \<comment> \<open>state, input, \<open>Z_FINISH\<close>, room: result, state, input left, output\<close>
  inflateInit :: "int \<times> 'z"
  inflate :: "'z \<Rightarrow> u8 list \<Rightarrow> nat \<Rightarrow> int \<times> 'z \<times> u8 list \<times> u8 list"

text \<open>Opening for writing truncates; a \<open>FILE *\<close> is the path, or \<open>None\<close> for NULL.\<close>

definition fopen_write :: "'z host \<Rightarrow> string \<Rightarrow> disk \<Rightarrow> string option \<times> disk" where
  "fopen_write h p d = (if can_write h p then (Some p, d(p \<mapsto> [])) else (None, d))"

definition fwrite :: "'z host \<Rightarrow> string option \<Rightarrow> u8 list \<Rightarrow> disk \<Rightarrow> file_fault + nat \<times> disk" where
  "fwrite h f bs d = (case f of
     None \<Rightarrow> Inl NullFile
   | Some p \<Rightarrow>
       let old = (case d p of None \<Rightarrow> [] | Some x \<Rightarrow> x);
           new = (case room h of None \<Rightarrow> bs | Some r \<Rightarrow> take (r - length old) bs)
       in Inr (length new, d(p \<mapsto> old @ new)))"

definition fclose :: "'z host \<Rightarrow> bool \<Rightarrow> file_fault + unit" where
  "fclose h opened = (if opened \<or> tolerant h then Inr () else Inl CloseNull)"

section \<open>zlib\<close>

definition CHUNK :: nat where "CHUNK = 16384"
definition Z_OK :: int where "Z_OK = 0"
definition Z_STREAM_END :: int where "Z_STREAM_END = 1"
definition Z_NEED_DICT :: int where "Z_NEED_DICT = 2"
definition Z_ERRNO :: int where "Z_ERRNO = -1"
definition Z_STREAM_ERROR :: int where "Z_STREAM_ERROR = -2"
definition Z_DATA_ERROR :: int where "Z_DATA_ERROR = -3"
definition Z_MEM_ERROR :: int where "Z_MEM_ERROR = -4"
definition Z_BUF_ERROR :: int where "Z_BUF_ERROR = -5"
definition Z_DEFAULT_COMPRESSION :: int where "Z_DEFAULT_COMPRESSION = -1"

lemmas zcodes = Z_OK_def Z_STREAM_END_def Z_NEED_DICT_def Z_ERRNO_def Z_STREAM_ERROR_def Z_DATA_ERROR_def Z_MEM_ERROR_def Z_BUF_ERROR_def

text \<open>One input buffer through \<open>deflate\<close>; \<open>None\<close> in the result is \<open>return Z_ERRNO\<close>.\<close>

partial_function (option) deflate_loop ::
    "'z host \<Rightarrow> string option \<Rightarrow> bool \<Rightarrow> 'z \<Rightarrow> u8 list \<Rightarrow> disk \<Rightarrow> (file_fault + (int \<times> 'z \<times> u8 list) option \<times> disk) option" where
  "deflate_loop h dest fin s inp d =
    (let (ret, s, rest, buf) = deflate h s inp fin CHUNK in
     if ret = Z_STREAM_ERROR then Some (Inl AssertFail)
     else case fwrite h dest buf d of
       Inl f \<Rightarrow> Some (Inl f)
     | Inr (n, d) \<Rightarrow>
         if n \<noteq> length buf then Some (Inr (None, d))
         else if length buf = CHUNK then deflate_loop h dest fin s rest d
         else Some (Inr (Some (ret, s, rest), d)))"

text \<open>\<open>feof\<close> holds after a read that delivered fewer bytes than asked for.\<close>

function def_loop :: "'z host \<Rightarrow> string option \<Rightarrow> nat \<Rightarrow> u8 list \<Rightarrow> 'z \<Rightarrow> disk \<Rightarrow> (file_fault + int \<times> disk) option" where
  "def_loop h dest pos src s d =
    (if read_err h pos then Some (Inr (Z_ERRNO, d))
     else let inp = take CHUNK src; fin = (length inp < CHUNK) in
       case deflate_loop h dest fin s inp d of
         None \<Rightarrow> None
       | Some (Inl f) \<Rightarrow> Some (Inl f)
       | Some (Inr (None, d)) \<Rightarrow> Some (Inr (Z_ERRNO, d))
       | Some (Inr (Some (ret, s, rest), d)) \<Rightarrow>
           if rest \<noteq> [] then Some (Inl AssertFail)
           else if fin then (if ret = Z_STREAM_END then Some (Inr (Z_OK, d)) else Some (Inl AssertFail))
           else def_loop h dest (pos + CHUNK) (drop CHUNK src) s d)"
  by pat_completeness auto
termination
  by (relation "measure (\<lambda>(h, dest, pos, src, s, d). length src)") (auto simp: CHUNK_def)

declare def_loop.simps [simp del]

definition zlib_def :: "'z host \<Rightarrow> u8 list option \<Rightarrow> string option \<Rightarrow> int \<Rightarrow> disk \<Rightarrow> (file_fault + int \<times> disk) option" where
  "zlib_def h src dest level d = (let (ret, s) = deflateInit h level in
     if ret \<noteq> Z_OK then Some (Inr (ret, d))
     else case src of None \<Rightarrow> Some (Inl NullFile) | Some bs \<Rightarrow> def_loop h dest 0 bs s d)"

text \<open>One input buffer through \<open>inflate\<close>; the left summand in the result is a return of \<open>inf\<close>.\<close>

partial_function (option) inflate_loop ::
    "'z host \<Rightarrow> string option \<Rightarrow> 'z \<Rightarrow> u8 list \<Rightarrow> disk \<Rightarrow> (file_fault + (int + int \<times> 'z) \<times> disk) option" where
  "inflate_loop h dest s inp d =
    (let (ret, s, rest, buf) = inflate h s inp CHUNK in
     if ret = Z_STREAM_ERROR then Some (Inl AssertFail)
     else if ret = Z_NEED_DICT then Some (Inr (Inl Z_DATA_ERROR, d))
     else if ret = Z_DATA_ERROR \<or> ret = Z_MEM_ERROR then Some (Inr (Inl ret, d))
     else case fwrite h dest buf d of
       Inl f \<Rightarrow> Some (Inl f)
     | Inr (n, d) \<Rightarrow>
         if n \<noteq> length buf then Some (Inr (Inl Z_ERRNO, d))
         else if length buf = CHUNK then inflate_loop h dest s rest d
         else Some (Inr (Inr (ret, s), d)))"

definition inf_result :: "int \<Rightarrow> int" where
  "inf_result ret = (if ret = Z_STREAM_END then Z_OK else Z_DATA_ERROR)"

function inf_loop :: "'z host \<Rightarrow> string option \<Rightarrow> nat \<Rightarrow> u8 list \<Rightarrow> int \<Rightarrow> 'z \<Rightarrow> disk \<Rightarrow> (file_fault + int \<times> disk) option" where
  "inf_loop h dest pos src ret s d =
    (if read_err h pos then Some (Inr (Z_ERRNO, d))
     else let inp = take CHUNK src in
       if inp = [] then Some (Inr (inf_result ret, d))
       else case inflate_loop h dest s inp d of
         None \<Rightarrow> None
       | Some (Inl f) \<Rightarrow> Some (Inl f)
       | Some (Inr (Inl ret, d)) \<Rightarrow> Some (Inr (ret, d))
       | Some (Inr (Inr (ret, s), d)) \<Rightarrow>
           if ret = Z_STREAM_END then Some (Inr (inf_result ret, d))
           else inf_loop h dest (pos + CHUNK) (drop CHUNK src) ret s d)"
  by pat_completeness auto
termination
  by (relation "measure (\<lambda>(h, dest, pos, src, ret, s, d). length src)") (auto simp: CHUNK_def)

declare inf_loop.simps [simp del]

definition zlib_inf :: "'z host \<Rightarrow> u8 list option \<Rightarrow> string option \<Rightarrow> disk \<Rightarrow> (file_fault + int \<times> disk) option" where
  "zlib_inf h src dest d = (let (ret, s) = inflateInit h in
     if ret \<noteq> Z_OK then Some (Inr (ret, d))
     else case src of None \<Rightarrow> Some (Inl NullFile) | Some bs \<Rightarrow> inf_loop h dest 0 bs ret s d)"

text \<open>Both files are closed; \<open>zerr\<close> only prints.\<close>

definition close_both :: "'z host \<Rightarrow> bool \<Rightarrow> bool \<Rightarrow> (file_fault + int \<times> disk) option \<Rightarrow> (file_fault + int \<times> disk) option" where
  "close_both h a b r = map_option (\<lambda>x. ebind x (\<lambda>v. ebind (fclose h a) (\<lambda>_. ebind (fclose h b) (\<lambda>_. Inr v)))) r"

definition zlib_compress :: "'z host \<Rightarrow> string \<Rightarrow> string \<Rightarrow> disk \<Rightarrow> (file_fault + int \<times> disk) option" where
  "zlib_compress h inp outp d =
    (let (fs, d') = fopen_write h outp d in
     close_both h (d inp \<noteq> None) (fs \<noteq> None)
       (zlib_def h (if d inp = None then None else d' inp) fs Z_DEFAULT_COMPRESSION d'))"

definition zlib_decompress :: "'z host \<Rightarrow> string \<Rightarrow> string \<Rightarrow> disk \<Rightarrow> (file_fault + int \<times> disk) option" where
  "zlib_decompress h inp outp d =
    (if d inp = None then Some (Inr (-3, d))
     else let (fs, d') = fopen_write h outp d in
       close_both h True (fs \<noteq> None) (zlib_inf h (d' inp) fs d'))"

section \<open>What zlib promises\<close>

text \<open>
  \<open>compress\<close> is the stream of a content. For \<open>deflate\<close>: \<open>fed\<close> and \<open>given\<close> are what a state has taken
  and delivered, \<open>may s fin inp\<close> says that it may be called so: anything goes at the start, the next
  input begins with what was left, and after \<open>Z_FINISH\<close> comes exactly what was left. It takes a prefix
  of the input, delivers more of the stream, leaves room only when it has nothing more to do.
\<close>

definition deflate_ok :: "'z host \<Rightarrow> ('z \<Rightarrow> bool \<Rightarrow> u8 list \<Rightarrow> bool) \<Rightarrow> ('z \<Rightarrow> u8 list) \<Rightarrow> ('z \<Rightarrow> u8 list) \<Rightarrow> (u8 list \<Rightarrow> u8 list) \<Rightarrow> bool" where
  "deflate_ok h may fed given compress \<longleftrightarrow>
    (case deflateInit h Z_DEFAULT_COMPRESSION of (r, s) \<Rightarrow> r = Z_OK \<and> (\<forall>fin inp. may s fin inp) \<and> fed s = [] \<and> given s = []) \<and>
    (\<forall>s fin inp n. may s fin inp \<longrightarrow> 0 < n \<longrightarrow>
      (case deflate h s inp fin n of (r, s', rest, buf) \<Rightarrow>
         r \<noteq> Z_STREAM_ERROR \<and> (\<exists>used. inp = used @ rest \<and> fed s' = fed s @ used) \<and> given s' = given s @ buf \<and>
         length buf \<le> n \<and> prefix (given s') (compress (fed s')) \<and> (if fin then may s' True rest else \<forall>f i. may s' f (rest @ i)) \<and>
         (length buf < n \<longrightarrow> rest = [] \<and> (fin \<longrightarrow> r = Z_STREAM_END \<and> given s' = compress (fed s')))))"

text \<open>
  For \<open>inflate\<close>: on the way through the stream of \<open>x\<close> it takes input, delivers more of \<open>x\<close>, reports the
  end exactly at the end, and leaves room only when it needs more input or is at the end.
\<close>

definition inflate_ok :: "'z host \<Rightarrow> (u8 list \<Rightarrow> 'z \<Rightarrow> bool) \<Rightarrow> ('z \<Rightarrow> u8 list) \<Rightarrow> ('z \<Rightarrow> u8 list) \<Rightarrow> (u8 list \<Rightarrow> u8 list) \<Rightarrow> bool" where
  "inflate_ok h good eaten given compress \<longleftrightarrow>
    (case inflateInit h of (r, s) \<Rightarrow> r = Z_OK \<and> (\<forall>x. good x s) \<and> eaten s = [] \<and> given s = []) \<and>
    (\<forall>x. compress x \<noteq> []) \<and>
    (\<forall>x s inp n. good x s \<longrightarrow> 0 < n \<longrightarrow> prefix (eaten s @ inp) (compress x) \<longrightarrow>
      (case inflate h s inp n of (r, s', rest, buf) \<Rightarrow>
         r \<in> {Z_OK, Z_STREAM_END, Z_BUF_ERROR} \<and> (\<exists>used. inp = used @ rest \<and> eaten s' = eaten s @ used) \<and>
         given s' = given s @ buf \<and> length buf \<le> n \<and> prefix (given s') x \<and> good x s' \<and>
         (r = Z_STREAM_END \<longrightarrow> eaten s' = compress x \<and> given s' = x) \<and>
         (length buf < n \<longrightarrow> rest = [] \<and> (eaten s' = compress x \<longrightarrow> r = Z_STREAM_END))))"

lemma deflate_call:
  assumes "deflate_ok h may fed given compress" "may s fin inp" "deflate h s inp fin CHUNK = (r, s', rest, buf)"
  shows "r \<noteq> Z_STREAM_ERROR" "\<exists>used. inp = used @ rest \<and> fed s' = fed s @ used" "given s' = given s @ buf"
    "length buf \<le> CHUNK" "prefix (given s') (compress (fed s'))" "if fin then may s' True rest else \<forall>f i. may s' f (rest @ i)"
    "length buf < CHUNK \<Longrightarrow> rest = [] \<and> (fin \<longrightarrow> r = Z_STREAM_END \<and> given s' = compress (fed s'))"
proof -
  have "case deflate h s inp fin CHUNK of (r, s', rest, buf) \<Rightarrow>
         r \<noteq> Z_STREAM_ERROR \<and> (\<exists>used. inp = used @ rest \<and> fed s' = fed s @ used) \<and> given s' = given s @ buf \<and>
         length buf \<le> CHUNK \<and> prefix (given s') (compress (fed s')) \<and> (if fin then may s' True rest else \<forall>f i. may s' f (rest @ i)) \<and>
         (length buf < CHUNK \<longrightarrow> rest = [] \<and> (fin \<longrightarrow> r = Z_STREAM_END \<and> given s' = compress (fed s')))"
    using assms(1,2) unfolding deflate_ok_def by (simp add: CHUNK_def)
  then show "r \<noteq> Z_STREAM_ERROR" "\<exists>used. inp = used @ rest \<and> fed s' = fed s @ used" "given s' = given s @ buf"
    "length buf \<le> CHUNK" "prefix (given s') (compress (fed s'))" "if fin then may s' True rest else \<forall>f i. may s' f (rest @ i)"
    "length buf < CHUNK \<Longrightarrow> rest = [] \<and> (fin \<longrightarrow> r = Z_STREAM_END \<and> given s' = compress (fed s'))"
    unfolding assms(3) prod.case by blast+
qed

lemma inflate_call:
  assumes "inflate_ok h good eaten given compress" "good x s" "prefix (eaten s @ inp) (compress x)" "inflate h s inp CHUNK = (r, s', rest, buf)"
  shows "r \<in> {Z_OK, Z_STREAM_END, Z_BUF_ERROR}" "\<exists>used. inp = used @ rest \<and> eaten s' = eaten s @ used" "given s' = given s @ buf"
    "length buf \<le> CHUNK" "prefix (given s') x" "good x s'" "r = Z_STREAM_END \<Longrightarrow> eaten s' = compress x \<and> given s' = x"
    "length buf < CHUNK \<Longrightarrow> rest = [] \<and> (eaten s' = compress x \<longrightarrow> r = Z_STREAM_END)"
proof -
  have "case inflate h s inp CHUNK of (r, s', rest, buf) \<Rightarrow>
         r \<in> {Z_OK, Z_STREAM_END, Z_BUF_ERROR} \<and> (\<exists>used. inp = used @ rest \<and> eaten s' = eaten s @ used) \<and>
         given s' = given s @ buf \<and> length buf \<le> CHUNK \<and> prefix (given s') x \<and> good x s' \<and>
         (r = Z_STREAM_END \<longrightarrow> eaten s' = compress x \<and> given s' = x) \<and>
         (length buf < CHUNK \<longrightarrow> rest = [] \<and> (eaten s' = compress x \<longrightarrow> r = Z_STREAM_END))"
    using assms(1-3) unfolding inflate_ok_def by (simp add: CHUNK_def)
  then show "r \<in> {Z_OK, Z_STREAM_END, Z_BUF_ERROR}" "\<exists>used. inp = used @ rest \<and> eaten s' = eaten s @ used" "given s' = given s @ buf"
    "length buf \<le> CHUNK" "prefix (given s') x" "good x s'" "r = Z_STREAM_END \<Longrightarrow> eaten s' = compress x \<and> given s' = x"
    "length buf < CHUNK \<Longrightarrow> rest = [] \<and> (eaten s' = compress x \<longrightarrow> r = Z_STREAM_END)"
    unfolding assms(4) prod.case by blast+
qed

lemma fwrite_all: "room h = None \<Longrightarrow> d p = Some w \<Longrightarrow> fwrite h (Some p) bs d = Inr (length bs, d(p \<mapsto> w @ bs))"
  by (simp add: fwrite_def)

section \<open>Compressing\<close>

lemma prefix_grows: "prefix (g @ b) t \<Longrightarrow> b \<noteq> [] \<Longrightarrow> length t - length (g @ b) < length t - length g"
  using prefix_length_le [of "g @ b" t] by (cases b) auto

lemma deflate_loop_ok:
  assumes ok: "deflate_ok h may fed given compress" and room: "room h = None"
  shows "may s fin inp \<Longrightarrow> d p = Some w \<Longrightarrow>
    \<exists>ret s' out. deflate_loop h (Some p) fin s inp d = Some (Inr (Some (ret, s', []), d(p \<mapsto> w @ out))) \<and>
      fed s' = fed s @ inp \<and> given s' = given s @ out \<and> (\<not> fin \<longrightarrow> (\<forall>f i. may s' f i)) \<and> prefix (given s') (compress (fed s')) \<and>
      (fin \<longrightarrow> ret = Z_STREAM_END \<and> given s' = compress (fed s'))"
proof (induction "(length inp, length (compress (fed s)) - length (given s))" arbitrary: s inp d w
    rule: wf_induct_rule [OF wf_lex_prod [OF wf_less_than wf_less_than]])
  case 1
  obtain r t rest buf where call: "deflate h s inp fin CHUNK = (r, t, rest, buf)" by (metis prod_cases4)
  note step = deflate_call [OF ok 1(2) call]
  obtain used where used: "inp = used @ rest" "fed t = fed s @ used" using step(2) by blast
  have unfold: "deflate_loop h (Some p) fin s inp d =
      (if length buf = CHUNK then deflate_loop h (Some p) fin t rest (d(p \<mapsto> w @ buf))
       else Some (Inr (Some (r, t, rest), d(p \<mapsto> w @ buf))))"
    by (subst deflate_loop.simps) (simp add: call step(1) fwrite_all [where h = h and d = d and p = p and w = w, OF room 1(3)])
  show ?case
  proof (cases "length buf = CHUNK")
    case True
    then have "buf \<noteq> []" by (auto simp: CHUNK_def)
    have less: "((length rest, length (compress (fed t)) - length (given t)), length inp, length (compress (fed s)) - length (given s))
        \<in> less_than <*lex*> less_than"
    proof (cases "used = []")
      case True
      then have "length (compress (fed t)) - length (given t) < length (compress (fed s)) - length (given s)"
        using used step(3,5) prefix_grows [of "given s" buf] \<open>buf \<noteq> []\<close> by simp
      then show ?thesis using True used by simp
    next
      case False
      then show ?thesis using used by (cases used) auto
    qed
    have may: "may t fin rest" using step(6) by (metis (full_types) append_Nil2)
    have d: "(d(p \<mapsto> w @ buf)) p = Some (w @ buf)" by simp
    obtain ret s' out where "deflate_loop h (Some p) fin t rest (d(p \<mapsto> w @ buf)) =
        Some (Inr (Some (ret, s', []), (d(p \<mapsto> w @ buf))(p \<mapsto> (w @ buf) @ out)))"
      "fed s' = fed t @ rest" "given s' = given t @ out" "\<not> fin \<longrightarrow> (\<forall>f i. may s' f i)" "prefix (given s') (compress (fed s'))"
      "fin \<longrightarrow> ret = Z_STREAM_END \<and> given s' = compress (fed s')"
      using 1(1) [OF less may, of "d(p \<mapsto> w @ buf)" "w @ buf", OF d] by blast
    then show ?thesis unfolding unfold using True used step(3) by (intro exI [of _ ret] exI [of _ s'] exI [of _ "buf @ out"]) simp
  next
    case False
    then have "length buf < CHUNK" using step(4) by simp
    then have "rest = []" "fin \<longrightarrow> r = Z_STREAM_END \<and> given t = compress (fed t)" using step(7) by blast+
    then show ?thesis unfolding unfold using False used step(3,5,6) by (intro exI [of _ r] exI [of _ t] exI [of _ buf]) (simp split: if_splits)
  qed
qed

lemma def_loop_ok:
  assumes ok: "deflate_ok h may fed given compress" and room: "room h = None" and err: "\<And>n. \<not> read_err h n"
  shows "(\<And>f i. may s f i) \<Longrightarrow> d p = Some w \<Longrightarrow>
    \<exists>out. def_loop h (Some p) pos src s d = Some (Inr (Z_OK, d(p \<mapsto> w @ out))) \<and> given s @ out = compress (fed s @ src)"
proof (induction "length src" arbitrary: src pos s d w rule: less_induct)
  case less
  define fin where "fin = (length (take CHUNK src) < CHUNK)"
  have "may s fin (take CHUNK src)" by (rule less.prems(1))
  from deflate_loop_ok [OF ok room, where s = s and fin = fin and d = d and p = p and w = w and inp = "take CHUNK src", OF this less.prems(2)] obtain ret t out where
    run: "deflate_loop h (Some p) fin s (take CHUNK src) d = Some (Inr (Some (ret, t, []), d(p \<mapsto> w @ out)))"
    and t: "fed t = fed s @ take CHUNK src" "given t = given s @ out" "\<not> fin \<longrightarrow> (\<forall>f i. may t f i)" "prefix (given t) (compress (fed t))"
      "fin \<longrightarrow> ret = Z_STREAM_END \<and> given t = compress (fed t)" by blast
  have unfold: "def_loop h (Some p) pos src s d =
      (if fin then (if ret = Z_STREAM_END then Some (Inr (Z_OK, d(p \<mapsto> w @ out))) else Some (Inl AssertFail))
       else def_loop h (Some p) (pos + CHUNK) (drop CHUNK src) t (d(p \<mapsto> w @ out)))"
    by (subst def_loop.simps) (simp only: err Let_def fin_def [symmetric] run if_False option.case sum.case prod.case not_True_eq_False simp_thms)
  show ?case
  proof (cases fin)
    case True
    then have "take CHUNK src = src" by (simp add: fin_def)
    then show ?thesis unfolding unfold using True t by simp
  next
    case False
    then have "length (drop CHUNK src) < length src" by (auto simp: fin_def CHUNK_def)
    then obtain out' where "def_loop h (Some p) (pos + CHUNK) (drop CHUNK src) t (d(p \<mapsto> w @ out)) =
        Some (Inr (Z_OK, (d(p \<mapsto> w @ out))(p \<mapsto> (w @ out) @ out')))" "given t @ out' = compress (fed t @ drop CHUNK src)"
      using less.hyps [of "drop CHUNK src" t "d(p \<mapsto> w @ out)" "w @ out" "pos + CHUNK"] t False by auto
    then show ?thesis unfolding unfold using False t by (intro exI [of _ "out @ out'"]) simp
  qed
qed

section \<open>Decompressing\<close>

lemma inflate_loop_ok:
  assumes ok: "inflate_ok h good eaten given compress" and room: "room h = None"
  shows "good x s \<Longrightarrow> prefix (eaten s @ inp) (compress x) \<Longrightarrow> d p = Some w \<Longrightarrow>
    \<exists>ret s' out. inflate_loop h (Some p) s inp d = Some (Inr (Inr (ret, s'), d(p \<mapsto> w @ out))) \<and>
      eaten s' = eaten s @ inp \<and> given s' = given s @ out \<and> good x s' \<and> prefix (given s') x \<and>
      (ret = Z_STREAM_END \<longleftrightarrow> eaten s' = compress x) \<and> (ret = Z_STREAM_END \<longrightarrow> given s' = x)"
proof (induction "length x - length (given s)" arbitrary: s inp d w rule: less_induct)
  case less
  obtain r t rest buf where call: "inflate h s inp CHUNK = (r, t, rest, buf)" by (metis prod_cases4)
  note step = inflate_call [OF ok less.prems(1,2) call]
  obtain used where used: "inp = used @ rest" "eaten t = eaten s @ used" using step(2) by blast
  have unfold: "inflate_loop h (Some p) s inp d =
      (if length buf = CHUNK then inflate_loop h (Some p) t rest (d(p \<mapsto> w @ buf))
       else Some (Inr (Inr (r, t), d(p \<mapsto> w @ buf))))"
    using step(1) by (subst inflate_loop.simps) (auto simp: call zcodes fwrite_all [where h = h and d = d and p = p and w = w, OF room less.prems(3)])
  show ?case
  proof (cases "length buf = CHUNK")
    case True
    then have "buf \<noteq> []" by (auto simp: CHUNK_def)
    then have "length x - length (given t) < length x - length (given s)" using step(3,5) prefix_grows [of "given s" buf x] by simp
    from less.hyps [OF this step(6), of rest "d(p \<mapsto> w @ buf)" "w @ buf"] obtain ret s' out where
      "inflate_loop h (Some p) t rest (d(p \<mapsto> w @ buf)) = Some (Inr (Inr (ret, s'), d(p \<mapsto> (w @ buf) @ out)))"
      "eaten s' = eaten t @ rest" "given s' = given t @ out" "good x s'" "prefix (given s') x"
      "ret = Z_STREAM_END \<longleftrightarrow> eaten s' = compress x" "ret = Z_STREAM_END \<longrightarrow> given s' = x"
      using less.prems(2) used by auto
    then show ?thesis unfolding unfold using True used step(3) by (intro exI [of _ ret] exI [of _ s'] exI [of _ "buf @ out"]) simp
  next
    case False
    then have "length buf < CHUNK" using step(4) by simp
    then have "rest = []" "eaten t = compress x \<longrightarrow> r = Z_STREAM_END" using step(8) by blast+
    then show ?thesis unfolding unfold using False used step(3,5-7) by (intro exI [of _ r] exI [of _ t] exI [of _ buf]) auto
  qed
qed

lemma inf_loop_ok:
  assumes ok: "inflate_ok h good eaten given compress" and room: "room h = None" and err: "\<And>n. \<not> read_err h n"
  shows "good x s \<Longrightarrow> eaten s @ src = compress x \<Longrightarrow> src \<noteq> [] \<Longrightarrow> d p = Some w \<Longrightarrow>
    \<exists>out. inf_loop h (Some p) pos src ret s d = Some (Inr (Z_OK, d(p \<mapsto> w @ out))) \<and> given s @ out = x"
proof (induction "length src" arbitrary: src pos s d w ret rule: less_induct)
  case less
  have ne: "take CHUNK src \<noteq> []" using less.prems(3) by (simp add: CHUNK_def)
  have pre: "prefix (eaten s @ take CHUNK src) (compress x)" unfolding less.prems(2) [symmetric] by (simp add: take_is_prefix)
  from inflate_loop_ok [OF ok room, where x = x and s = s and inp = "take CHUNK src" and d = d and p = p and w = w, OF less.prems(1) pre less.prems(4)] obtain ret' t out where
    run: "inflate_loop h (Some p) s (take CHUNK src) d = Some (Inr (Inr (ret', t), d(p \<mapsto> w @ out)))"
    and t: "eaten t = eaten s @ take CHUNK src" "given t = given s @ out" "good x t" "prefix (given t) x"
      "ret' = Z_STREAM_END \<longleftrightarrow> eaten t = compress x" "ret' = Z_STREAM_END \<longrightarrow> given t = x" by blast
  have unfold: "inf_loop h (Some p) pos src ret s d =
      (if ret' = Z_STREAM_END then Some (Inr (Z_OK, d(p \<mapsto> w @ out)))
       else inf_loop h (Some p) (pos + CHUNK) (drop CHUNK src) ret' t (d(p \<mapsto> w @ out)))"
    by (subst inf_loop.simps) (use ne in \<open>simp add: err run Let_def inf_result_def\<close>)
  show ?case
  proof (cases "ret' = Z_STREAM_END")
    case True
    then show ?thesis unfolding unfold using t by simp
  next
    case False
    have left: "eaten t @ drop CHUNK src = compress x" using t(1) less.prems(2) by simp
    then have "drop CHUNK src \<noteq> []" using t(5) False by auto
    moreover have "length (drop CHUNK src) < length src" using less.prems(3) by (cases src) (simp_all add: CHUNK_def)
    ultimately obtain out' where "inf_loop h (Some p) (pos + CHUNK) (drop CHUNK src) ret' t (d(p \<mapsto> w @ out)) =
        Some (Inr (Z_OK, d(p \<mapsto> (w @ out) @ out')))" "given t @ out' = x"
      using less.hyps [of "drop CHUNK src" t "d(p \<mapsto> w @ out)" "w @ out" "pos + CHUNK" ret'] t left by auto
    then show ?thesis unfolding unfold using False t by (intro exI [of _ "out @ out'"]) simp
  qed
qed

section \<open>A codec with these promises\<close>

text \<open>Every byte is preceded by a one, a zero ends the stream.\<close>

fun pack :: "u8 list \<Rightarrow> u8 list" where
  "pack [] = [0]"
| "pack (b # bs) = 1 # b # pack bs"

fun unpack :: "u8 list \<Rightarrow> u8 list option" where
  "unpack [] = None"
| "unpack [t] = (if t = 0 then Some [] else None)"
| "unpack (t # b # r) = (if t = 0 then Some [] else map_option (Cons b) (unpack r))"

text \<open>A state is what was taken and what was delivered.\<close>

definition codec_host :: "bool \<Rightarrow> (u8 list \<times> u8 list) host" where
  "codec_host tol = \<lparr>can_write = (\<lambda>_. True), room = None, read_err = (\<lambda>_. False), tolerant = tol,
     deflateInit = (\<lambda>_. (0, [], [])),
     deflate = (\<lambda>(e, g) inp fin n. let e = e @ inp; w = (if fin then take n (drop (length g) (pack e)) else [])
       in (if fin \<and> g @ w = pack e then 1 else 0, (e, g @ w), [], w)),
     inflateInit = (0, [], []),
     inflate = (\<lambda>(e, g) inp n. let e = e @ inp; x = (case unpack e of None \<Rightarrow> [] | Some x \<Rightarrow> x); w = take n (drop (length g) x)
       in (if unpack e = Some (g @ w) then 1 else 0, (e, g @ w), [], w))\<rparr>"

lemma unpack_pack: "unpack (pack bs) = Some bs"
  by (induction bs rule: pack.induct) (auto split: list.splits elim: pack.elims)

lemma unpack_prefix: "prefix e (pack x) \<Longrightarrow> unpack e = (if e = pack x then Some x else None)"
proof (induction x arbitrary: e rule: pack.induct)
  case 1
  then have "e = [] \<or> e = [0]" by (auto simp: prefix_Cons)
  then show ?case by auto
next
  case (2 b bs)
  then consider "e = []" | "e = [1]" | e' where "e = 1 # b # e'" "prefix e' (pack bs)" by (auto simp: prefix_Cons)
  then show ?case by cases (use 2 in auto)
qed

lemma prefix_take_drop: "prefix g y \<Longrightarrow> prefix (g @ take n (drop (length g) y)) y"
  by (auto simp: prefix_def) (metis append_take_drop_id)

lemma take_drop_short: "prefix g y \<Longrightarrow> length (take n (drop (length g) y)) < n \<Longrightarrow> g @ take n (drop (length g) y) = y"
  by (auto simp: prefix_def)

lemma codec_deflates:
  "deflate_ok (codec_host tol) (\<lambda>(e, g) fin inp. g = [] \<or> fin \<and> inp = [] \<and> prefix g (pack e)) fst snd pack"
  unfolding deflate_ok_def
proof (intro conjI allI impI)
  fix s fin n and inp :: "u8 list"
  assume may: "(case s of (e, g) \<Rightarrow> \<lambda>fin inp. g = [] \<or> fin \<and> inp = [] \<and> prefix g (pack e)) fin inp" and n: "0 < (n :: nat)"
  obtain e g where s: "s = (e, g)" by (cases s)
  have g: "prefix g (pack (e @ inp))" "\<not> fin \<Longrightarrow> g = []" using may s by auto
  show "case deflate (codec_host tol) s inp fin n of (r, s', rest, buf) \<Rightarrow>
      r \<noteq> Z_STREAM_ERROR \<and> (\<exists>used. inp = used @ rest \<and> fst s' = fst s @ used) \<and> snd s' = snd s @ buf \<and>
      length buf \<le> n \<and> prefix (snd s') (pack (fst s')) \<and>
      (if fin then (case s' of (e, g) \<Rightarrow> \<lambda>fin inp. g = [] \<or> fin \<and> inp = [] \<and> prefix g (pack e)) True rest
       else \<forall>f i. (case s' of (e, g) \<Rightarrow> \<lambda>fin inp. g = [] \<or> fin \<and> inp = [] \<and> prefix g (pack e)) f (rest @ i)) \<and>
      (length buf < n \<longrightarrow> rest = [] \<and> (fin \<longrightarrow> r = Z_STREAM_END \<and> snd s' = pack (fst s')))"
    using g prefix_take_drop [OF g(1), of n] take_drop_short [OF g(1), of n] s
    by (cases fin) (simp_all add: codec_host_def zcodes Let_def)
qed (simp add: codec_host_def zcodes)

lemma codec_inflates:
  "inflate_ok (codec_host tol) (\<lambda>x (e, g). prefix e (pack x) \<and> (if e = pack x then prefix g x else g = [])) fst snd pack"
  unfolding inflate_ok_def
proof (intro conjI allI impI)
  fix x s inp n
  assume good: "case s of (e, g) \<Rightarrow> prefix e (pack x) \<and> (if e = pack x then prefix g x else g = [])"
    and n: "0 < (n :: nat)" and pre: "prefix (fst s @ inp) (pack x)"
  obtain e g where s: "s = (e, g)" by (cases s)
  note u = unpack_prefix [OF pre, unfolded s fst_conv]
  have g: "prefix g x" using good s by (auto split: if_splits)
  have g0: "g = []" if "e @ inp \<noteq> pack x"
  proof -
    have "e \<noteq> pack x" using that pre s by (auto simp: prefix_def)
    then show ?thesis using good s by simp
  qed
  show "case inflate (codec_host tol) s inp n of (r, s', rest, buf) \<Rightarrow>
      r \<in> {Z_OK, Z_STREAM_END, Z_BUF_ERROR} \<and> (\<exists>used. inp = used @ rest \<and> fst s' = fst s @ used) \<and>
      snd s' = snd s @ buf \<and> length buf \<le> n \<and> prefix (snd s') x \<and>
      (case s' of (e, g) \<Rightarrow> prefix e (pack x) \<and> (if e = pack x then prefix g x else g = [])) \<and>
      (r = Z_STREAM_END \<longrightarrow> fst s' = pack x \<and> snd s' = x) \<and>
      (length buf < n \<longrightarrow> rest = [] \<and> (fst s' = pack x \<longrightarrow> r = Z_STREAM_END))"
  proof (cases "e @ inp = pack x")
    case True
    then show ?thesis
      using prefix_take_drop [OF g, of n] take_drop_short [OF g, of n] s u by (simp add: codec_host_def zcodes Let_def eq_commute [of x])
  next
    case False
    then show ?thesis using g0 n pre s u by (simp add: codec_host_def zcodes Let_def)
  qed
next
  fix x show "pack x \<noteq> []" by (cases x) simp_all
qed (simp add: codec_host_def zcodes)

section \<open>Properties\<close>

text \<open>C10. Compressing a file and decompressing the result gives the file back, and both calls return \<open>Z_OK\<close> without
  a fault: for every content (empty, or a multiple of the 16 KiB chunk) and however zlib, which
  keeps its documented promises, divides the data among its calls. No failed assertion, no endless
  loop, no byte lost when a chunk ends inside of the stream.\<close>

theorem zlib_pipe_roundtrip:
  assumes zlib: "deflate_ok h may fed given compress" "inflate_ok h good eaten given' compress"
    and host: "room h = None" "\<And>n. \<not> read_err h n" "can_write h b" "can_write h c"
    and files: "d a = Some bs" "a \<noteq> b" "b \<noteq> c"
  shows "\<exists>d' d''. zlib_compress h a b d = Some (Inr (Z_OK, d')) \<and> d' b = Some (compress bs) \<and>
    zlib_decompress h b c d' = Some (Inr (Z_OK, d'')) \<and> d'' c = Some bs"
proof -
  obtain s where s: "deflateInit h Z_DEFAULT_COMPRESSION = (Z_OK, s)" "\<And>f i. may s f i" "fed s = []" "given s = []"
    using zlib(1) unfolding deflate_ok_def by (auto split: prod.splits)
  obtain t where t: "inflateInit h = (Z_OK, t)" "good bs t" "eaten t = []" "given' t = []" "compress bs \<noteq> []"
    using zlib(2) unfolding inflate_ok_def by (auto split: prod.splits)
  define d' where "d' = d(b \<mapsto> compress bs)"
  have "zlib_def h (Some bs) (Some b) Z_DEFAULT_COMPRESSION (d(b \<mapsto> [])) = Some (Inr (Z_OK, d'))"
    using def_loop_ok [OF zlib(1) host(1,2) s(2), where p = b and w = "[]" and pos = 0 and src = bs and d = "d(b \<mapsto> [])"] s
    by (auto simp: zlib_def_def d'_def)
  then have c: "zlib_compress h a b d = Some (Inr (Z_OK, d'))"
    using host(3) files(1,2) by (simp add: zlib_compress_def fopen_write_def close_both_def fclose_def)
  have "zlib_inf h (Some (compress bs)) (Some c) (d'(c \<mapsto> [])) = Some (Inr (Z_OK, d'(c \<mapsto> bs)))"
    using inf_loop_ok [OF zlib(2) host(1,2) t(2), where p = c and w = "[]" and pos = 0 and src = "compress bs" and d = "d'(c \<mapsto> [])" and ret = Z_OK] t
    by (auto simp: zlib_inf_def)
  then have "zlib_decompress h b c d' = Some (Inr (Z_OK, d'(c \<mapsto> bs)))"
    using host(4) files(3) by (simp add: zlib_decompress_def fopen_write_def close_both_def fclose_def d'_def)
  then show ?thesis using c by (auto simp: d'_def)
qed

theorem zlib_pipe_roundtrip_witness:
  "\<exists>d' d''. zlib_compress (codec_host False) ''a'' ''b'' [''a'' \<mapsto> [7, 0, 9]] = Some (Inr (Z_OK, d')) \<and> d' ''b'' = Some [1, 7, 1, 0, 1, 9, 0] \<and>
     zlib_decompress (codec_host False) ''b'' ''c'' d' = Some (Inr (Z_OK, d'')) \<and> d'' ''c'' = Some [7, 0, 9]"
  using zlib_pipe_roundtrip [OF codec_deflates [of False] codec_inflates [of False], of "''b''" "''c''" "[''a'' \<mapsto> [7, 0, 9]]" "''a''" "[7, 0, 9]"]
  by (simp add: codec_host_def)

end
