(* ===== verification/ElfBuilder.thy ===== *)
theory ElfBuilder
  imports ZlibPipe C_Text
begin

text \<open>
  PSVita-ELF-builder (\<open>src/main.c\<close>, \<open>file.c\<close>): an ELF file is made from the headers of a SELF and the
  segments dumped from memory, which \<open>zlib_decompress\<close> unpacks. What is printed is left out. Memory
  that was not written (a read behind the end of a file) is a fault when it is used.
\<close>

section \<open>Files\<close>

definition obind :: "('e + 'a) option \<Rightarrow> ('a \<Rightarrow> ('e + 'b) option) \<Rightarrow> ('e + 'b) option" where
  "obind r f = (case r of None \<Rightarrow> None | Some (Inl e) \<Rightarrow> Some (Inl e) | Some (Inr x) \<Rightarrow> f x)"

lemma obind_simps [simp]: "obind None f = None" "obind (Some (Inl e)) f = Some (Inl e)" "obind (Some (Inr x)) f = f x"
  by (simp_all add: obind_def)

definition fsize :: "u8 list \<Rightarrow> int" where
  "fsize bs = int (length bs)"

definition read_byte :: "u8 list \<Rightarrow> nat \<Rightarrow> file_fault + int" where
  "read_byte bs off = (if off < length bs
     then Inr (if sint (bs ! off) < 0 then sint (bs ! off) + 0x100 else sint (bs ! off)) else Inl ShortRead)"

text \<open>
  \<open>read_file\<close> reads every byte to the start of its buffer (\<open>None\<close>: not written), and copies \<open>n\<close> bytes
  of it to a larger one when \<open>n\<close> has reached its size \<open>np\<close>.
\<close>

fun read_file_loop :: "u8 list \<Rightarrow> nat \<Rightarrow> nat \<Rightarrow> u8 option list \<Rightarrow> file_fault + nat \<times> u8 option list" where
  "read_file_loop [] n np b = Inr (n - 1, b)"
| "read_file_loop (c # cs) n np b = (let b = b[0 := Some c]; n = n + 1 in
     if np \<le> n then (if np < n then Inl ShortRead else read_file_loop cs n (2 * np) (b @ replicate np None))
     else read_file_loop cs n np b)"

definition read_file :: "u8 list \<Rightarrow> file_fault + nat \<times> u8 option list" where
  "read_file bs = read_file_loop bs 1 1 [None]"

text \<open>Memory for \<open>n\<close> bytes, and \<open>n\<close> bytes read into it; \<open>malloc\<close> of a negative number fails.\<close>

definition fread_at :: "u8 list \<Rightarrow> nat \<Rightarrow> int \<Rightarrow> file_fault + u8 list" where
  "fread_at bs off n = (if n < 0 then Inl BadSize
     else if off + nat n \<le> length bs then Inr (take (nat n) (drop off bs)) else Inl ShortRead)"

definition sprintf_to :: "nat \<Rightarrow> string \<Rightarrow> file_fault + string" where
  "sprintf_to n t = (if length t < n then Inr t else Inl BufferOverflow)"

definition fopen_append :: "'z host \<Rightarrow> string \<Rightarrow> disk \<Rightarrow> string option \<times> disk" where
  "fopen_append h p d = (if can_write h p then (Some p, if d p = None then d(p \<mapsto> []) else d) else (None, d))"

definition bytes_of :: "string \<Rightarrow> u8 list" where
  "bytes_of t = map (\<lambda>c. of_nat (of_char c)) t"

section \<open>Making the ELF file\<close>

definition seg_path :: "string \<Rightarrow> nat \<Rightarrow> string" where
  "seg_path segs k = segs @ ''.seg'' @ dec k"

text \<open>The number of segment files; \<open>None\<close> when the first is missing.\<close>

fun count_segments :: "'z host \<Rightarrow> string \<Rightarrow> disk \<Rightarrow> nat list \<Rightarrow> nat \<Rightarrow> file_fault + nat option" where
  "count_segments h segs d [] n = Inr (Some n)"
| "count_segments h segs d (k # ks) n = ebind (sprintf_to 1024 (seg_path segs k)) (\<lambda>p.
     if d p = None then (if k = 0 then Inr None else ebind (fclose h False) (\<lambda>_. count_segments h segs d ks n))
     else ebind (fclose h True) (\<lambda>_. count_segments h segs d ks (n + 1)))"

definition segment_offset :: "u8 list \<Rightarrow> nat \<Rightarrow> file_fault + int" where
  "segment_offset bs off = ebind (read_byte bs off) (\<lambda>a. ebind (read_byte bs (off + 1)) (\<lambda>b. ebind (read_byte bs (off + 2)) (\<lambda>c.
     Inr (a * 0x1 + b * 0x100 + c * 0x10000))))"

definition segment_offsets :: "u8 list \<Rightarrow> file_fault + int list" where
  "segment_offsets bs = ebind (segment_offset bs 0xE4) (\<lambda>o1. ebind (segment_offset bs 0x104) (\<lambda>o2.
     ebind (segment_offset bs 0x124) (\<lambda>o3. ebind (segment_offset bs 0x144) (\<lambda>o4. Inr [o1, o2, o3, o4]))))"

definition interval :: "int list \<Rightarrow> nat \<Rightarrow> int \<Rightarrow> int" where
  "interval offs k sz = (if k \<le> 2 then offs ! (k + 1) - (offs ! k + sz) else 0)"

definition write_out :: "'z host \<Rightarrow> string option \<Rightarrow> u8 list \<Rightarrow> disk \<Rightarrow> file_fault + disk" where
  "write_out h f bs d = ebind (fwrite h f bs d) (\<lambda>(_, d). Inr d)"

definition write_header :: "'z host \<Rightarrow> string option \<Rightarrow> u8 list \<Rightarrow> int \<Rightarrow> disk \<Rightarrow> file_fault + u8 list \<times> disk" where
  "write_header h f bs first d =
    ebind (fread_at bs 0xA0 0x30) (\<lambda>a. ebind (write_out h f a d) (\<lambda>d.
    ebind (fread_at bs 0xDC (first - 0x3C)) (\<lambda>b. ebind (write_out h f b d) (\<lambda>d.
    ebind (fread_at bs 0x80 8) (\<lambda>authid. ebind (write_out h f (replicate 0xC 0) d) (\<lambda>d. Inr (authid, d)))))))"

text \<open>
  One segment: what \<open>zlib_decompress\<close> leaves in the \<open>.bin\<close> file, or the segment file itself when it
  returns -3, then the zeros up to the next segment. \<open>False\<close> is \<open>return 1\<close>.
\<close>

definition add_segment :: "'z host \<Rightarrow> string \<Rightarrow> string option \<Rightarrow> int list \<Rightarrow> nat \<Rightarrow> disk \<Rightarrow> (file_fault + bool \<times> disk) option" where
  "add_segment h segs f offs k d =
    obind (Some (sprintf_to 256 (seg_path segs k))) (\<lambda>p. obind (Some (sprintf_to 256 (p @ ''.bin''))) (\<lambda>q.
    obind (zlib_decompress h p q d) (\<lambda>(ret, d).
      let q = (if ret = -3 then p else q) in
      case d q of
        None \<Rightarrow> Some (ebind (fclose h False) (\<lambda>_. Inr (False, d)))
      | Some bs \<Rightarrow>
          obind (Some (write_out h f bs d)) (\<lambda>d.
          obind (Some (write_out h f (replicate (nat (interval offs k (fsize bs))) 0) d)) (\<lambda>d. Some (Inr (True, d)))))))"

fun add_segments :: "'z host \<Rightarrow> string \<Rightarrow> string option \<Rightarrow> int list \<Rightarrow> nat list \<Rightarrow> disk \<Rightarrow> (file_fault + bool \<times> disk) option" where
  "add_segments h segs f offs [] d = Some (Inr (True, d))"
| "add_segments h segs f offs (k # ks) d = obind (add_segment h segs f offs k d) (\<lambda>(go, d).
     if go then add_segments h segs f offs ks d else Some (Inr (False, d)))"

text \<open>The parts of \<open>makeElf\<close> up to the ELF file: \<open>None\<close> for \<open>return 1\<close>, else first offset and authentication id.\<close>

definition build_elf :: "'z host \<Rightarrow> string \<Rightarrow> string \<Rightarrow> string \<Rightarrow> disk \<Rightarrow> (file_fault + (int \<times> u8 list) option \<times> disk) option" where
  "build_elf h original segs outp d =
    (if d original = None then Some (ebind (fclose h False) (\<lambda>_. Inr (None, d)))
     else obind (Some (count_segments h segs d [0, 1, 2, 3, 4] 0)) (\<lambda>c. case c of
       None \<Rightarrow> Some (Inr (None, d))
     | Some n \<Rightarrow>
         let (f, d) = fopen_write h outp d; bs = the (d original) in
         obind (Some (segment_offsets bs)) (\<lambda>offs.
         obind (Some (write_header h f bs (offs ! 0) d)) (\<lambda>(authid, d).
         obind (add_segments h segs f offs [0..<n] d) (\<lambda>(go, d).
           Some (Inr (if go then Some (offs ! 0, authid) else None, d)))))))"

definition authid_text :: "u8 list \<Rightarrow> string" where
  "authid_text bs = hex (horner_sum unat 256 bs)"

definition entry_of :: "u8 list \<Rightarrow> int" where
  "entry_of e = (let b = take 4 (drop 0x18 e) @ [0, 0, 0, 0] in sint (join32 (b ! 0) (b ! 1) (b ! 2) (b ! 3)))"

text \<open>A position before the start is refused; the file was rewound just before.\<close>

definition module_name_at :: "u8 list \<Rightarrow> int \<Rightarrow> file_fault + string" where
  "module_name_at e pos = (let b = take 256 (drop (if pos < 0 then 0 else nat pos) e) in
     if 0 \<in> set b then Inr (map (\<lambda>x. char_of (unat x)) (takeWhile (\<lambda>x. x \<noteq> 0) b)) else Inl NotTerminated)"

definition append_text :: "'z host \<Rightarrow> string \<Rightarrow> string \<Rightarrow> disk \<Rightarrow> file_fault + disk" where
  "append_text h p t d = (let (f, d) = fopen_append h p d in write_out h f (bytes_of t) d)"

definition batch_file :: string where "batch_file = ''BATCH_MAKE_FSELF.BAT''"
definition info_file :: string where "info_file = ''module_info_backup_list.txt''"

definition write_backups :: "'z host \<Rightarrow> string \<Rightarrow> string \<Rightarrow> int \<Rightarrow> u8 list \<Rightarrow> disk \<Rightarrow> file_fault + disk" where
  "write_backups h original outp first authid d =
    ebind (sprintf_to 256 ([CHR 0x0A] @ ''vita-make-fself -c -a 0x'' @ authid_text authid @ '' '' @ outp @ '' '' @ outp @ ''.self'')) (\<lambda>t.
    ebind (append_text h batch_file t d) (\<lambda>d.
    case d outp of None \<Rightarrow> Inl NullFile | Some e \<Rightarrow>
    ebind (module_name_at e (first + entry_of e + 4)) (\<lambda>name.
    ebind (sprintf_to 512 ([CHR 0x0A] @ ''|-'' @ [CHR 0x0A] @ ''| [['' @ name @ '']] || 0x'' @ authid_text authid @ '' || '' @ original)) (\<lambda>t.
    append_text h info_file t d))))"

definition makeElf :: "'z host \<Rightarrow> string \<Rightarrow> string \<Rightarrow> string \<Rightarrow> disk \<Rightarrow> (file_fault + int \<times> disk) option" where
  "makeElf h original segs outp d = obind (build_elf h original segs outp d) (\<lambda>(r, d). case r of
     None \<Rightarrow> Some (Inr (1, d))
   | Some (first, authid) \<Rightarrow> Some (ebind (write_backups h original outp first authid d) (\<lambda>d. Inr (0, d))))"

text \<open>\<open>main\<close>: the exit status does not tell whether the file was made.\<close>

definition builder_main :: "'z host \<Rightarrow> string list \<Rightarrow> disk \<Rightarrow> (file_fault + int \<times> disk) option" where
  "builder_main h argv d = (if length argv = 3 \<and> argv ! 1 \<noteq> []
     then obind (Some (sprintf_to 1024 (argv ! 2 @ ''.elf''))) (\<lambda>outp.
       obind (makeElf h (argv ! 1) (argv ! 2) outp d) (\<lambda>(_, d). Some (Inr (0, d))))
     else Some (Inr (1, d)))"

section \<open>Steps that succeed\<close>

lemma sint_byte: "sint (b :: u8) = (if uint b < 0x80 then uint b else uint b - 0x100)"
proof -
  have u: "0 \<le> uint b" "uint b < 256" using unsigned_less [of b, where ?'a = int] by simp_all
  have "sint b = (uint b + 128) mod 256 - 128"
    by (simp add: sint_uint signed_take_bit_eq_take_bit_shift take_bit_eq_mod)
  moreover have "(uint b + 128) mod 256 = (if uint b < 0x80 then uint b + 128 else uint b - 128)"
  proof (cases "uint b < 0x80")
    case True
    then show ?thesis using u by (simp add: mod_pos_pos_trivial)
  next
    case False
    then have "(uint b + 128) mod 256 = (uint b + 128 - 256) mod 256" by (simp only: minus_mod_self2)
    then show ?thesis using False u by (simp add: mod_pos_pos_trivial)
  qed
  ultimately show ?thesis by simp
qed

lemma read_byte_ok: "off < length bs \<Longrightarrow> read_byte bs off = Inr (uint (bs ! off))"
  using unsigned_less [of "bs ! off", where ?'a = int] by (auto simp: read_byte_def sint_byte)

lemma read_file_overruns: "bs \<noteq> [] \<Longrightarrow> read_file bs = Inl ShortRead"
  by (cases bs) (simp_all add: read_file_def)

lemma write_out_all: "room h = None \<Longrightarrow> d p = Some w \<Longrightarrow> write_out h (Some p) bs d = Inr (d(p \<mapsto> w @ bs))"
  by (simp add: write_out_def fwrite_all)

lemma zlib_decompress_ok:
  assumes ok: "inflate_ok h good eaten given compress" and host: "room h = None" "\<And>n. \<not> read_err h n" "can_write h q"
    and d: "d p = Some (compress x)" "p \<noteq> q"
  shows "zlib_decompress h p q d = Some (Inr (Z_OK, d(q \<mapsto> x)))"
proof -
  obtain t where t: "inflateInit h = (Z_OK, t)" "good x t" "eaten t = []" "given t = []" "compress x \<noteq> []"
    using ok unfolding inflate_ok_def by (auto split: prod.splits)
  have "zlib_inf h (Some (compress x)) (Some q) (d(q \<mapsto> [])) = Some (Inr (Z_OK, d(q \<mapsto> x)))"
    using inf_loop_ok [OF ok host(1,2) t(2), where p = q and w = "[]" and pos = 0 and src = "compress x" and d = "d(q \<mapsto> [])" and ret = Z_OK] t
    by (auto simp: zlib_inf_def)
  then show ?thesis using host(3) d by (simp add: zlib_decompress_def fopen_write_def close_both_def fclose_def)
qed

section \<open>The layout\<close>

text \<open>The segments one after the other with the zeros between them.\<close>

fun place :: "int list \<Rightarrow> nat \<Rightarrow> u8 list list \<Rightarrow> u8 list" where
  "place offs k [] = []"
| "place offs k (x # xs) = x @ replicate (nat (interval offs k (fsize x))) 0 @ place offs (k + 1) xs"

definition offset_at :: "u8 list \<Rightarrow> nat \<Rightarrow> int" where
  "offset_at bs off = uint (bs ! off) + uint (bs ! (off + 1)) * 0x100 + uint (bs ! (off + 2)) * 0x10000"

definition offsets_of :: "u8 list \<Rightarrow> int list" where
  "offsets_of bs = map (offset_at bs) [0xE4, 0x104, 0x124, 0x144]"

lemma segment_offsets_ok: "0x147 \<le> length bs \<Longrightarrow> segment_offsets bs = Inr (offsets_of bs)"
  by (simp add: segment_offsets_def segment_offset_def read_byte_ok offsets_of_def offset_at_def)

lemma offsets_nonneg: "j < 4 \<Longrightarrow> 0 \<le> offsets_of bs ! j"
  by (auto simp: offsets_of_def offset_at_def less_Suc_eq eval_nat_numeral)

definition header_of :: "u8 list \<Rightarrow> u8 list" where
  "header_of bs = take 0x30 (drop 0xA0 bs) @ take (nat (offset_at bs 0xE4 - 0x3C)) (drop 0xDC bs) @ replicate 0xC 0"

lemma write_header_ok:
  assumes "room h = None" "d p = Some []" "0x147 \<le> length bs" "0x3C \<le> offset_at bs 0xE4" "offset_at bs 0xE4 + 0xA0 \<le> int (length bs)"
  shows "write_header h (Some p) bs (offset_at bs 0xE4) d = Inr (take 8 (drop 0x80 bs), d(p \<mapsto> header_of bs))"
  using assms by (simp add: write_header_def fread_at_def write_out_all header_of_def nat_diff_distrib)

lemma length_header_of:
  assumes "0x147 \<le> length bs" "0x3C \<le> offset_at bs 0xE4" "offset_at bs 0xE4 + 0xA0 \<le> int (length bs)"
  shows "int (length (header_of bs)) = offset_at bs 0xE4"
proof -
  have "length (take 0x30 (drop 0xA0 bs)) = 0x30" using assms(1) by simp
  moreover have "length (take (nat (offset_at bs 0xE4 - 0x3C)) (drop 0xDC bs)) = nat (offset_at bs 0xE4 - 0x3C)"
    using assms by (simp add: min_def) linarith
  ultimately show ?thesis using assms(2) unfolding header_of_def length_append by simp
qed

text \<open>The segments up to \<open>j\<close> fit when none passes the offset of the next.\<close>

definition fits :: "int list \<Rightarrow> u8 list list \<Rightarrow> nat \<Rightarrow> bool" where
  "fits offs xs j \<longleftrightarrow> (\<forall>k<j. offs ! k + fsize (xs ! k) \<le> offs ! (k + 1))"

lemma place_at:
  assumes "j < length xs" "k + j \<le> 3" "\<forall>i<j. offs ! (k + i) + fsize (xs ! i) \<le> offs ! (k + i + 1)"
  shows "\<exists>pre. place offs k xs = pre @ place offs (k + j) (drop j xs) \<and> int (length pre) = offs ! (k + j) - offs ! k"
  using assms
proof (induction j arbitrary: k xs)
  case 0
  then show ?case by (intro exI [of _ "[]"]) simp
next
  case (Suc j)
  then obtain x ys where xs: "xs = x # ys" by (cases xs) auto
  have step: "offs ! k + fsize x \<le> offs ! (k + 1)" using Suc.prems(3) xs by (auto dest: spec [of _ 0])
  obtain pre where p: "place offs (k + 1) ys = pre @ place offs (k + 1 + j) (drop j ys)" "int (length pre) = offs ! (k + 1 + j) - offs ! (k + 1)"
    using Suc.IH [of ys "k + 1"] Suc.prems xs by fastforce
  define gap where "gap = replicate (nat (interval offs k (fsize x))) (0 :: u8)"
  have "int (length gap) = offs ! (k + 1) - (offs ! k + fsize x)" using step Suc.prems(2) by (simp add: gap_def interval_def)
  then have "place offs k xs = (x @ gap @ pre) @ place offs (k + Suc j) (drop (Suc j) xs)"
    "int (length (x @ gap @ pre)) = offs ! (k + Suc j) - offs ! k"
    using p xs by (simp_all add: gap_def fsize_def)
  then show ?case by blast
qed

lemma drop_behind: "drop n e = x @ r \<Longrightarrow> drop (n + length x) e = r"
  by (simp add: add.commute [of n] flip: drop_drop)

text \<open>The \<open>j\<close>-th segment with what follows it.\<close>

lemma place_segment:
  assumes "int (length w) = offs ! 0" "j < length xs" "j \<le> 3" "fits offs xs j"
  shows "drop (nat (offs ! j)) (w @ place offs 0 xs) =
    xs ! j @ replicate (nat (interval offs j (fsize (xs ! j)))) 0 @ place offs (j + 1) (drop (j + 1) xs)"
proof -
  obtain pre where p: "place offs 0 xs = pre @ place offs j (drop j xs)" "int (length pre) = offs ! j - offs ! 0"
    using place_at [of j xs 0 offs] assms unfolding fits_def by (simp only: add_0) blast
  then have "nat (offs ! j) = length (w @ pre)" using assms(1) by simp
  moreover have "drop j xs = xs ! j # drop (j + 1) xs" using assms(2) by (simp add: Cons_nth_drop_Suc)
  ultimately show ?thesis using p(1) by simp
qed

section \<open>Paths\<close>

lemma dec_digit: "k < 10 \<Longrightarrow> dec k = [digit_char k]"
  by (simp add: dec.simps)

lemma length_seg_path [simp]: "k < 10 \<Longrightarrow> length (seg_path segs k) = length segs + 5"
  by (simp add: seg_path_def dec_digit)

lemma seg_path_inj: "i < 10 \<Longrightarrow> j < 10 \<Longrightarrow> seg_path segs i = seg_path segs j \<longleftrightarrow> i = j"
  by (auto simp: seg_path_def dec_digit digit_char_def dest!: arg_cong [where f = "of_char :: char \<Rightarrow> nat"])

lemma bin_not_seg: "i < 10 \<Longrightarrow> j < 10 \<Longrightarrow> seg_path segs i @ ''.bin'' \<noteq> seg_path segs j"
  using length_seg_path [of i segs] length_seg_path [of j segs] by (metis add_cancel_right_right length_append length_greater_0_conv list.distinct(1) nat_neq_iff)

lemma count_segments_ok:
  assumes "length segs < 247" "1 \<le> n" "n \<le> 5" "\<And>k. k < 5 \<Longrightarrow> d (seg_path segs k) = None \<longleftrightarrow> n \<le> k" "tolerant h \<or> n = 5"
  shows "count_segments h segs d [0, 1, 2, 3, 4] 0 = Inr (Some n)"
proof -
  have sp: "sprintf_to 1024 (seg_path segs k) = Inr (seg_path segs k)" if "k < 5" for k
    using that assms(1) by (simp add: sprintf_to_def)
  consider "n = 1" | "n = 2" | "n = 3" | "n = 4" | "n = 5" using assms(2,3) by linarith
  then show ?thesis
    by cases (use assms(5) in \<open>simp_all add: sp assms(4) fclose_def\<close>)
qed

text \<open>A strict C library: without all five segment files the program does not survive.\<close>

lemma count_segments_faults:
  assumes "length segs < 247" "\<not> tolerant h" "d (seg_path segs 0) \<noteq> None" "k < 5" "d (seg_path segs k) = None"
  shows "count_segments h segs d [0, 1, 2, 3, 4] 0 = Inl CloseNull"
proof -
  have sp: "sprintf_to 1024 (seg_path segs k) = Inr (seg_path segs k)" if "k < 5" for k
    using that assms(1) by (simp add: sprintf_to_def)
  have "k \<in> {0, 1, 2, 3, 4}" using assms(4) by auto
  then have "k \<in> {1, 2, 3, 4}" using assms(3,5) by auto
  then show ?thesis
    using assms(2,3,5) by (auto simp: sp fclose_def)
qed

lemma add_segment_ok:
  assumes ok: "inflate_ok h good eaten given compress" and host: "room h = None" "\<And>n. \<not> read_err h n" "\<And>p. can_write h p"
    and names: "length segs < 247" "k < 5" "outp \<noteq> seg_path segs k @ ''.bin''"
    and d: "d (seg_path segs k) = Some (compress x)" "d outp = Some w"
  shows "add_segment h segs (Some outp) offs k d = Some (Inr (True,
    d(seg_path segs k @ ''.bin'' \<mapsto> x, outp \<mapsto> w @ x @ replicate (nat (interval offs k (fsize x))) 0)))"
proof -
  have z: "zlib_decompress h (seg_path segs k) (seg_path segs k @ ''.bin'') d = Some (Inr (Z_OK, d(seg_path segs k @ ''.bin'' \<mapsto> x)))"
    by (rule zlib_decompress_ok [where d = d, OF ok host(1,2,3) d(1)]) simp
  have "sprintf_to 256 (seg_path segs k) = Inr (seg_path segs k)" "sprintf_to 256 (seg_path segs k @ ''.bin'') = Inr (seg_path segs k @ ''.bin'')"
    using names(1,2) by (simp_all add: sprintf_to_def)
  then show ?thesis
    using names(3) d(2) by (simp add: add_segment_def z Z_OK_def write_out_all [OF host(1)])
qed

lemma add_segments_ok:
  assumes ok: "inflate_ok h good eaten given compress" and host: "room h = None" "\<And>n. \<not> read_err h n" "\<And>p. can_write h p"
    and names: "length segs < 247" "\<And>k. k < 5 \<Longrightarrow> outp \<noteq> seg_path segs k \<and> outp \<noteq> seg_path segs k @ ''.bin''"
    and n: "length xs \<le> 5"
  shows "k \<le> length xs \<Longrightarrow> d outp = Some w \<Longrightarrow> (\<And>i. k \<le> i \<Longrightarrow> i < length xs \<Longrightarrow> d (seg_path segs i) = Some (compress (xs ! i))) \<Longrightarrow>
    \<exists>d'. add_segments h segs (Some outp) offs [k..<length xs] d = Some (Inr (True, d')) \<and> d' outp = Some (w @ place offs k (drop k xs))"
proof (induction "length xs - k" arbitrary: k d w)
  case 0
  then show ?case by simp
next
  case (Suc m)
  then have k: "k < length xs" "k < 5" using n by simp_all
  define u where "u = d(seg_path segs k @ ''.bin'' \<mapsto> xs ! k, outp \<mapsto> w @ xs ! k @ replicate (nat (interval offs k (fsize (xs ! k)))) 0)"
  have step: "add_segment h segs (Some outp) offs k d = Some (Inr (True, u))"
    unfolding u_def by (rule add_segment_ok [where d = d, OF ok host names(1) k(2)]) (use names(2) k Suc.prems in auto)
  let ?w = "w @ xs ! k @ replicate (nat (interval offs k (fsize (xs ! k)))) 0"
  have rest: "u (seg_path segs i) = Some (compress (xs ! i))" if "k + 1 \<le> i" "i < length xs" for i
    using that n k bin_not_seg [of k i segs] names(2) [of i] Suc.prems(3) [of i] by (auto simp: u_def)
  have m: "m = length xs - (k + 1)" "k + 1 \<le> length xs" using Suc.hyps(2) k by simp_all
  have "u outp = Some ?w" by (simp add: u_def)
  then obtain d' where "add_segments h segs (Some outp) offs [k + 1..<length xs] u = Some (Inr (True, d'))"
    "d' outp = Some (?w @ place offs (k + 1) (drop (k + 1) xs))"
    using Suc.hyps(1) [where k = "k + 1" and d = u and w = ?w, OF m] rest by blast
  moreover have "[k..<length xs] = k # [k + 1..<length xs]" "drop k xs = xs ! k # drop (k + 1) xs"
    using k by (simp_all add: upt_conv_Cons Cons_nth_drop_Suc)
  ultimately show ?case by (simp add: step)
qed

section \<open>Properties\<close>


text \<open>A SELF of 0x200 bytes with its first segment at 0x100 and the second at 0x104.\<close>

definition sample_self :: "u8 list" where
  "sample_self = (replicate 0x200 3)[0xE4 := 0, 0xE5 := 1, 0xE6 := 0, 0x104 := 4, 0x105 := 1, 0x106 := 0]"

definition sample_disk :: disk where
  "sample_disk = [''m'' \<mapsto> sample_self, ''m.seg0'' \<mapsto> pack [1, 2], ''m.seg1'' \<mapsto> pack [3, 4]]"


end
