(* ===== verification/DebugScreen.thy ===== *)
theory DebugScreen
  imports Vita_Prelude
begin

text \<open>
  The text console on a frame buffer: \<open>debugScreen.h\<close> of the PrincessLog settings application (two
  buffers, glyphs of 8 by 8 dots) and \<open>debugScreen.c\<close> of Kdumper (one buffer, every dot twice as wide
  and high). The font is an argument. A text is a C array with what follows its NUL; a read behind
  the array or a write outside of the frame buffer's block is a fault.
\<close>

section \<open>State\<close>

record dbgscreen =
  coordX :: u32
  coordY :: u32
  colorFg :: u32
  colorBg :: u32
  fb_idx :: nat
  fbs :: "nat \<Rightarrow> nat \<Rightarrow> u32"     \<comment> \<open>buffer, word\<close>
  shown :: "nat list"              \<comment> \<open>buffers passed to \<open>sceDisplaySetFrameBuf\<close>\<close>

datatype screen_fault = Overread | FontOverread | ParamsOverrun | OutsideBlock

definition SCREEN_WIDTH :: nat where "SCREEN_WIDTH = 960"
definition SCREEN_HEIGHT :: nat where "SCREEN_HEIGHT = 544"
definition SCREEN_FB_SIZE :: nat where "SCREEN_FB_SIZE = 2 * 1024 * 1024"
definition COLOR_DEFAULT_FG :: u32 where "COLOR_DEFAULT_FG = 0xFFFFFFFF"
definition COLOR_DEFAULT_BG :: u32 where "COLOR_DEFAULT_BG = 0xFF000000"

definition psvDebugScreenSetFgColor :: "u32 \<Rightarrow> dbgscreen \<Rightarrow> u32 \<times> dbgscreen" where
  "psvDebugScreenSetFgColor c s = (colorFg s, s\<lparr>colorFg := c\<rparr>)"

definition psvDebugScreenSetBgColor :: "u32 \<Rightarrow> dbgscreen \<Rightarrow> u32 \<times> dbgscreen" where
  "psvDebugScreenSetBgColor c s = (colorBg s, s\<lparr>colorBg := c\<rparr>)"

text \<open>The parameters are swapped.\<close>

definition psvDebugScreenSetXY :: "int \<Rightarrow> int \<Rightarrow> dbgscreen \<Rightarrow> dbgscreen" where
  "psvDebugScreenSetXY new_x new_y s = s\<lparr>coordY := of_int new_x, coordX := of_int new_y\<rparr>"

definition swap_fb :: "dbgscreen \<Rightarrow> dbgscreen" where
  "swap_fb s = s\<lparr>fb_idx := fb_idx s XOR 1\<rparr>"

definition psvDebugScreenSet :: "dbgscreen \<Rightarrow> dbgscreen" where
  "psvDebugScreenSet s = s\<lparr>shown := shown s @ [fb_idx s]\<rparr>"

definition psvDebugScreenClear :: "u32 \<Rightarrow> dbgscreen \<Rightarrow> dbgscreen" where
  "psvDebugScreenClear bg s = s\<lparr>coordX := 0, coordY := 0,
     fbs := (fbs s)(fb_idx s := (\<lambda>a. if a < SCREEN_WIDTH * SCREEN_HEIGHT then bg else fbs s (fb_idx s) a))\<rparr>"

section \<open>Escape sequences\<close>

definition BIT2BYTE :: "int \<Rightarrow> u32" where
  "BIT2BYTE b = push_bit 23 (if b AND 4 \<noteq> 0 then 1 else 0) OR push_bit 15 (if b AND 2 \<noteq> 0 then 1 else 0)
     OR push_bit 7 (if b AND 1 \<noteq> 0 then 1 else 0)"

definition set_color :: "int \<Rightarrow> dbgscreen \<Rightarrow> dbgscreen" where
  "set_color k s = (let g = k div 10; b = BIT2BYTE (k mod 10) in
     if g = 0 then s\<lparr>colorFg := COLOR_DEFAULT_FG, colorBg := COLOR_DEFAULT_BG\<rparr>
     else if g = 3 then s\<lparr>colorFg := b\<rparr>
     else if g = 9 then s\<lparr>colorFg := b OR 0x7F7F7F7F\<rparr>
     else if g = 4 then s\<lparr>colorBg := b\<rparr>
     else if g = 10 then s\<lparr>colorBg := b OR 0x7F7F7F7F\<rparr>
     else s)"

function escape_loop :: "u8 list \<Rightarrow> nat \<Rightarrow> nat \<Rightarrow> int list \<Rightarrow> dbgscreen \<Rightarrow> screen_fault + nat \<times> dbgscreen" where
  "escape_loop str i p params s =
    (if 8 \<le> i then Inr (i, s)
     else if length str \<le> i then Inl Overread
     else let c = uint (str ! i) in
       if c = 0 then Inr (i, s)
       else if 48 \<le> c \<and> c \<le> 57 then
         (if length params \<le> p then Inl ParamsOverrun
          else escape_loop str (i + 1) p (params[p := params ! p * 10 + (c - 48)]) s)
       else if c = 59 then escape_loop str (i + 1) (p + 1) params s
       else if c = 102 \<or> c = 72 then Inr (i, s\<lparr>coordX := of_int (params ! 0 * 8), coordY := of_int (params ! 1 * 8)\<rparr>)
       else if c = 109 then
         (if length params \<le> p then Inl ParamsOverrun else Inr (i, fold set_color (take (p + 1) params) s))
       else escape_loop str (i + 1) p params s)"
  by pat_completeness auto
termination
  by (relation "measure (\<lambda>(str, i, p, params, s). 8 - i)") auto

declare escape_loop.simps [simp del]

definition psvDebugScreenEscape :: "u8 list \<Rightarrow> dbgscreen \<Rightarrow> screen_fault + nat \<times> dbgscreen" where
  "psvDebugScreenEscape str s = escape_loop str 0 0 (replicate 8 0) s"

section \<open>Drawing\<close>

fun write_dots :: "(nat \<times> u32) list \<Rightarrow> (nat \<Rightarrow> u32) \<Rightarrow> screen_fault + (nat \<Rightarrow> u32)" where
  "write_dots [] v = Inr v"
| "write_dots ((a, c) # ds) v = (if a < SCREEN_FB_SIZE div 4 then write_dots ds (v(a := c)) else Inl OutsideBlock)"

definition dot_color :: "dbgscreen \<Rightarrow> u8 \<Rightarrow> nat \<Rightarrow> u32" where
  "dot_color s row j = (if row AND drop_bit j 128 \<noteq> 0 then colorFg s else colorBg s)"

text \<open>The dots of a glyph in the order of the loops. In Kdumper the index is computed in 32 bits.\<close>

definition settings_dots :: "u8 list \<Rightarrow> dbgscreen \<Rightarrow> (nat \<times> u32) list" where
  "settings_dots rows s = concat (map (\<lambda>i. map (\<lambda>j.
     (unat (coordX s) + unat (coordY s * 960) + i * SCREEN_WIDTH + j, dot_color s (rows ! i) j)) [0..<8]) [0..<8])"

definition kdumper_dots :: "u8 list \<Rightarrow> dbgscreen \<Rightarrow> (nat \<times> u32) list" where
  "kdumper_dots rows s = concat (map (\<lambda>i. concat (map (\<lambda>j. concat (map (\<lambda>y. map (\<lambda>x.
     (unat ((coordX s + of_nat (x + j * 2)) + (coordY s + of_nat (y + i * 2)) * 960), dot_color s (rows ! i) j))
       [0..<2]) [0..<2])) [0..<8])) [0..<8])"

definition draw_glyph :: "(u8 list \<Rightarrow> dbgscreen \<Rightarrow> (nat \<times> u32) list) \<Rightarrow> u8 list \<Rightarrow> u8 \<Rightarrow> dbgscreen \<Rightarrow> screen_fault + dbgscreen" where
  "draw_glyph dots font c s =
    (if length font < unat c * 8 + 8 then Inl FontOverread
     else ebind (write_dots (dots (take 8 (drop (unat c * 8) font)) s) (fbs s (fb_idx s)))
       (\<lambda>v. Inr (s\<lparr>fbs := (fbs s)(fb_idx s := v)\<rparr>)))"

definition wrap_screen :: "u32 \<Rightarrow> dbgscreen \<Rightarrow> dbgscreen" where
  "wrap_screen sc s =
    (let s = (if unat (coordX s + 8) > SCREEN_WIDTH then s\<lparr>coordY := coordY s + 8 * sc, coordX := 0\<rparr> else s)
     in if unat (coordY s + 8) > SCREEN_HEIGHT then psvDebugScreenClear (colorBg s) s else s)"

text \<open>
  \<open>sc\<close> is the size of a dot. The escape sequence is looked for at the third character of the whole
  text, not at the third character from \<open>c\<close>.
\<close>

function puts_loop :: "(u8 list \<Rightarrow> dbgscreen \<Rightarrow> (nat \<times> u32) list) \<Rightarrow> u32 \<Rightarrow> u8 list \<Rightarrow> u8 list \<Rightarrow> nat \<Rightarrow> dbgscreen
    \<Rightarrow> screen_fault + nat \<times> dbgscreen" where
  "puts_loop dots sc font str c s =
    (if length str \<le> c then Inl Overread
     else if str ! c = 0 then Inr (c, s)
     else let s = wrap_screen sc s in
       if str ! c = 10 then puts_loop dots sc font str (c + 1) (s\<lparr>coordX := 0, coordY := coordY s + 8 * sc\<rparr>)
       else if str ! c = 13 then puts_loop dots sc font str (c + 1) (s\<lparr>coordX := 0\<rparr>)
       else if str ! c = 27 \<and> length str \<le> c + 1 then Inl Overread
       else if str ! c = 27 \<and> str ! (c + 1) = 91 then
         (case psvDebugScreenEscape (drop 2 str) s of
            Inl f \<Rightarrow> Inl f
          | Inr (i, s) \<Rightarrow> puts_loop dots sc font str (c + (i + 2) + 1) s)
       else (case draw_glyph dots font (str ! c) s of
            Inl f \<Rightarrow> Inl f
          | Inr s \<Rightarrow> puts_loop dots sc font str (c + 1) (s\<lparr>coordX := coordX s + 8 * sc\<rparr>)))"
  by pat_completeness auto
termination
  by (relation "measure (\<lambda>(dots, sc, font, str, c, s). length str - c)") auto

declare puts_loop.simps [simp del]

definition psvDebugScreenPuts :: "u8 list \<Rightarrow> u8 list \<Rightarrow> dbgscreen \<Rightarrow> screen_fault + nat \<times> dbgscreen" where
  "psvDebugScreenPuts font str s = puts_loop settings_dots 1 font str 0 s"

definition kdumper_Puts :: "u8 list \<Rightarrow> u8 list \<Rightarrow> dbgscreen \<Rightarrow> screen_fault + nat \<times> dbgscreen" where
  "kdumper_Puts font str s = puts_loop kdumper_dots 2 font str 0 s"

text \<open>\<open>t\<close> is the formatted text, \<open>junk\<close> what the array holds behind its NUL.\<close>

definition psvDebugScreenPrintf :: "u8 list \<Rightarrow> u8 list \<Rightarrow> u8 list \<Rightarrow> dbgscreen \<Rightarrow> screen_fault + dbgscreen" where
  "psvDebugScreenPrintf font t junk s = ebind (psvDebugScreenPuts font (take 511 t @ 0 # junk) s) (\<lambda>(_, s). Inr s)"

definition psvDebugScreenPrintf2 :: "u8 list \<Rightarrow> int \<Rightarrow> int \<Rightarrow> u8 list \<Rightarrow> u8 list \<Rightarrow> dbgscreen \<Rightarrow> screen_fault + dbgscreen" where
  "psvDebugScreenPrintf2 font text_x text_y t junk s =
    psvDebugScreenPrintf font t junk (s\<lparr>coordX := of_int text_x, coordY := of_int text_y\<rparr>)"

definition kdumper_Printf :: "u8 list \<Rightarrow> u8 list \<Rightarrow> u8 list \<Rightarrow> dbgscreen \<Rightarrow> screen_fault + int \<times> dbgscreen" where
  "kdumper_Printf font t junk s = ebind (kdumper_Puts font (take 511 t @ 0 # junk) s) (\<lambda>(_, s). Inr (int (length t), s))"

section \<open>Inside of the frame buffer\<close>

text \<open>\<open>untouched\<close>: the other buffer and everything behind the visible part are as before.\<close>

definition untouched :: "dbgscreen \<Rightarrow> dbgscreen \<Rightarrow> bool" where
  "untouched s s' \<longleftrightarrow> fb_idx s' = fb_idx s \<and>
     (\<forall>n a. n \<noteq> fb_idx s \<or> SCREEN_WIDTH * SCREEN_HEIGHT \<le> a \<longrightarrow> fbs s' n a = fbs s n a)"

lemma untouched_refl: "untouched s s"
  by (simp add: untouched_def)

lemma untouched_trans: "untouched a b \<Longrightarrow> untouched b c \<Longrightarrow> untouched a c"
  by (simp add: untouched_def)

lemma untouched_coords: "untouched s t \<Longrightarrow> untouched s (t\<lparr>coordX := x\<rparr>)" "untouched s t \<Longrightarrow> untouched s (t\<lparr>coordY := y\<rparr>)"
  by (simp_all add: untouched_def)

text \<open>No addition of 8 to a coordinate wraps around.\<close>

definition near :: "dbgscreen \<Rightarrow> bool" where
  "near s \<longleftrightarrow> unat (coordX s) < 2 ^ 32 - 8 \<and> unat (coordY s) < 2 ^ 32 - 16"

definition on_screen :: "dbgscreen \<Rightarrow> bool" where
  "on_screen s \<longleftrightarrow> unat (coordX s) + 8 \<le> SCREEN_WIDTH \<and> unat (coordY s) + 8 \<le> SCREEN_HEIGHT"

lemma unat_plus_8: "unat (w :: u32) < 2 ^ 32 - 8 \<Longrightarrow> unat (w + 8) = unat w + 8"
  by (simp add: unat_word_ariths)

lemma wrap_screen_on:
  assumes "near s"
  shows "on_screen (wrap_screen 1 s) \<and> untouched s (wrap_screen 1 s)"
proof -
  have c: "on_screen u \<and> untouched s u" if "u = psvDebugScreenClear b t" "untouched s t" for u t b
    using that by (simp add: psvDebugScreenClear_def on_screen_def untouched_def SCREEN_WIDTH_def SCREEN_HEIGHT_def)
  define t where "t = (if unat (coordX s + 8) > SCREEN_WIDTH then s\<lparr>coordY := coordY s + 8 * 1, coordX := 0\<rparr> else s)"
  have x: "unat (coordX s + 8) = unat (coordX s) + 8" "unat (coordY s + 8) = unat (coordY s) + 8"
    using assms by (simp_all add: near_def unat_plus_8)
  have t: "unat (coordX t) + 8 \<le> SCREEN_WIDTH" "unat (coordY t) < 2 ^ 32 - 8" "untouched s t"
    using x assms by (auto simp: t_def near_def untouched_def SCREEN_WIDTH_def)
  have w: "wrap_screen 1 s = (if unat (coordY t + 8) > SCREEN_HEIGHT then psvDebugScreenClear (colorBg t) t else t)"
    by (simp add: wrap_screen_def Let_def t_def)
  show ?thesis
  proof (cases "unat (coordY t + 8) > SCREEN_HEIGHT")
    case True
    then show ?thesis using c t(3) w by simp
  next
    case False
    then show ?thesis using t w unat_plus_8 [OF t(2)] by (simp add: on_screen_def)
  qed
qed

lemma write_dots_inside:
  assumes "\<forall>(a, c) \<in> set ds. a < SCREEN_WIDTH * SCREEN_HEIGHT"
  shows "\<exists>v'. write_dots ds v = Inr v' \<and> (\<forall>a. SCREEN_WIDTH * SCREEN_HEIGHT \<le> a \<longrightarrow> v' a = v a)"
  using assms
proof (induction ds arbitrary: v)
  case (Cons d ds)
  obtain a c where d: "d = (a, c)" by (cases d)
  have "a < SCREEN_FB_SIZE div 4" using Cons.prems d by (auto simp: SCREEN_WIDTH_def SCREEN_HEIGHT_def SCREEN_FB_SIZE_def)
  then show ?case using Cons.IH [of "v(a := c)"] Cons.prems d by fastforce
qed simp

lemma settings_dots_inside:
  assumes "on_screen s"
  shows "\<forall>(a, c) \<in> set (settings_dots rows s). a < SCREEN_WIDTH * SCREEN_HEIGHT"
proof -
  have y: "unat (coordY s * 960) = unat (coordY s) * 960"
    using assms by (simp add: on_screen_def SCREEN_HEIGHT_def unat_word_ariths)
  have "unat (coordX s) + unat (coordY s) * 960 + i * 960 + j < 960 * 544" if "i < 8" "j < 8" for i j
  proof -
    have "(unat (coordY s) + i) * 960 \<le> 543 * 960"
      using assms that by (intro mult_le_mono1) (simp add: on_screen_def SCREEN_HEIGHT_def)
    moreover have "unat (coordX s) + j < 960" using assms that by (simp add: on_screen_def SCREEN_WIDTH_def)
    ultimately show ?thesis by (simp add: add_mult_distrib)
  qed
  then show ?thesis by (auto simp: settings_dots_def y SCREEN_WIDTH_def SCREEN_HEIGHT_def)
qed

lemma draw_glyph_inside:
  assumes "on_screen s" "0x800 \<le> length font"
  shows "\<exists>t. draw_glyph settings_dots font c s = Inr t \<and> untouched s t \<and> coordX t = coordX s \<and> coordY t = coordY s"
proof -
  have "unat c < 256" using unsigned_less [of c, where ?'a = nat] by simp
  then have f: "\<not> length font < unat c * 8 + 8" using assms(2) by simp
  obtain v where "write_dots (settings_dots (take 8 (drop (unat c * 8) font)) s) (fbs s (fb_idx s)) = Inr v"
    "\<forall>a. SCREEN_WIDTH * SCREEN_HEIGHT \<le> a \<longrightarrow> v a = fbs s (fb_idx s) a"
    using write_dots_inside [OF settings_dots_inside [OF assms(1)]] by blast
  then show ?thesis using f by (simp add: draw_glyph_def untouched_def)
qed

text \<open>The position after a character.\<close>

lemma near_next:
  assumes "on_screen s" "coordX t = coordX s" "coordY t = coordY s"
  shows "near (t\<lparr>coordX := 0, coordY := coordY t + 8 * 1\<rparr>)" "near (t\<lparr>coordX := 0\<rparr>)" "near (t\<lparr>coordX := coordX t + 8 * 1\<rparr>)"
  using assms by (simp_all add: near_def on_screen_def SCREEN_WIDTH_def SCREEN_HEIGHT_def unat_word_ariths)

definition plain_text :: "u8 list \<Rightarrow> bool" where
  "plain_text t \<longleftrightarrow> list_all (\<lambda>b. b \<noteq> 0 \<and> b \<noteq> 27) t"

lemma puts_loop_plain:
  assumes font: "0x800 \<le> length font"
  shows "near s \<Longrightarrow> plain_text t \<Longrightarrow>
    \<exists>s'. puts_loop settings_dots 1 font (pre @ t @ 0 # junk) (length pre) s = Inr (length pre + length t, s') \<and> untouched s s' \<and> near s'"
proof (induction t arbitrary: pre s)
  case Nil
  then show ?case by (subst puts_loop.simps) (simp add: untouched_refl)
next
  case (Cons b t)
  have b: "b \<noteq> 0" "b \<noteq> 27" "plain_text t" using Cons.prems(2) by (simp_all add: plain_text_def)
  let ?str = "pre @ (b # t) @ 0 # junk" and ?w = "wrap_screen 1 s"
  have w: "on_screen ?w" "untouched s ?w" using wrap_screen_on [OF Cons.prems(1)] by simp_all
  obtain g where g: "draw_glyph settings_dots font b ?w = Inr g" "untouched ?w g" "coordX g = coordX ?w" "coordY g = coordY ?w"
    using draw_glyph_inside [OF w(1) font] by blast
  define nxt where "nxt = (if b = 10 then ?w\<lparr>coordX := 0, coordY := coordY ?w + 8 * 1\<rparr> else if b = 13 then ?w\<lparr>coordX := 0\<rparr>
     else g\<lparr>coordX := coordX g + 8 * 1\<rparr>)"
  have n: "near nxt" "untouched s nxt"
    using near_next [OF w(1) refl refl] near_next [OF w(1) g(3,4)] untouched_trans [OF w(2) g(2)] w(2)
    by (auto simp: nxt_def untouched_coords)
  have "puts_loop settings_dots 1 font ?str (length pre) s = puts_loop settings_dots 1 font ?str (length pre + 1) nxt"
    by (subst puts_loop.simps) (simp add: b Let_def g(1) nxt_def)
  moreover obtain s' where "puts_loop settings_dots 1 font ((pre @ [b]) @ t @ 0 # junk) (length (pre @ [b])) nxt =
      Inr (length (pre @ [b]) + length t, s')" "untouched nxt s'" "near s'"
    using Cons.IH [of nxt "pre @ [b]"] n(1) b(3) by blast
  ultimately show ?case using untouched_trans [OF n(2)] by auto
qed

section \<open>What an escape sequence can do\<close>

text \<open>A sequence that the end of the text cuts off: the loop goes on behind the NUL.\<close>

lemma open_escape_overreads: "psvDebugScreenPuts font [27, 91, 0] s = Inl Overread"
  by (simp add: psvDebugScreenPuts_def puts_loop.simps psvDebugScreenEscape_def escape_loop.simps)

text \<open>Kdumper, after moving to column 119 and line 67: a glyph of 16 by 16 dots does not fit there.\<close>

lemma kdumper_writes_outside:
  assumes "coordX s = 952" "coordY s = 536" "0x800 \<le> length font"
  shows "kdumper_Puts font [65, 0] s = Inl OutsideBlock"
proof -
  have out: "write_dots ds v = Inl OutsideBlock" if "(a, c) \<in> set ds" "SCREEN_FB_SIZE div 4 \<le> a" for ds v a c
    using that by (induction ds v rule: write_dots.induct) auto
  have "(529927, dot_color s (rows ! 7) 7) \<in> set (kdumper_dots rows s)" for rows
  proof -
    have "unat (coordX s + of_nat (1 + 7 * 2) + (coordY s + of_nat (1 + 7 * 2)) * 960) = 529927" using assms(1,2) by simp
    then have "\<exists>i\<in>{0..<8}. \<exists>j\<in>{0..<8}. \<exists>y\<in>{0..<2}. \<exists>x\<in>{0..<2}. (529927, dot_color s (rows ! 7) 7) =
        (unat ((coordX s + of_nat (x + j * 2)) + (coordY s + of_nat (y + i * 2)) * 960), dot_color s (rows ! i) j)"
      by (intro bexI [of _ 7] bexI [of _ "1 :: nat"]) (simp_all only: atLeastLessThan_iff, simp_all)
    then show ?thesis by (simp only: kdumper_dots_def set_concat set_map UN_iff image_iff bex_simps set_upt)
  qed
  then have "write_dots (kdumper_dots rows s) v = Inl OutsideBlock" for rows v
    by (rule out) (simp add: SCREEN_FB_SIZE_def)
  then have "draw_glyph kdumper_dots font 65 s = Inl OutsideBlock"
    using assms(3) by (simp add: draw_glyph_def)
  moreover have "wrap_screen 2 s = s" using assms(1,2) by (simp add: wrap_screen_def SCREEN_WIDTH_def SCREEN_HEIGHT_def)
  ultimately show ?thesis by (simp add: kdumper_Puts_def puts_loop.simps)
qed

section \<open>Properties\<close>

text \<open>C37. Printing a text without escape sequences writes inside of the visible part of the current frame buffer
  only, whatever the position before (as long as it is not within 16 of \<open>2 ^ 32\<close>) and however often
  the text wraps; it reads no byte behind the NUL and returns the length.\<close>

theorem psvDebugScreenPuts_inside:
  assumes "near s" "plain_text t" "0x800 \<le> length font"
  shows "\<exists>s'. psvDebugScreenPuts font (t @ 0 # junk) s = Inr (length t, s') \<and> untouched s s' \<and> near s'"
  using puts_loop_plain [OF assms(3,1,2), of "[]" junk] by (simp add: psvDebugScreenPuts_def)

definition sample_screen :: dbgscreen where
  "sample_screen = \<lparr>coordX = 957, coordY = 5000, colorFg = COLOR_DEFAULT_FG, colorBg = COLOR_DEFAULT_BG, fb_idx = 1,
     fbs = (\<lambda>_ _. 7), shown = []\<rparr>"

definition sample_font :: "u8 list" where "sample_font = replicate 0x800 0xAA"

theorem psvDebugScreenPuts_inside_witness:
  "\<exists>s'. psvDebugScreenPuts sample_font [72, 105, 10, 0, 27] sample_screen = Inr (3, s') \<and>
     fbs s' 0 5 = 7 \<and> fbs s' 1 522240 = 7 \<and> near s'"
proof -
  have "0x800 \<le> length sample_font" by (simp only: sample_font_def length_replicate)
  moreover have "near sample_screen" "plain_text [72, 105, 10]"
    by (simp_all add: sample_screen_def near_def plain_text_def)
  ultimately obtain s' where s': "psvDebugScreenPuts sample_font ([72, 105, 10] @ 0 # [27]) sample_screen = Inr (length [72, 105, 10 :: u8], s')"
    "untouched sample_screen s'" "near s'"
    using psvDebugScreenPuts_inside [of sample_screen "[72, 105, 10]" sample_font "[27]"] by blast
  then have "fbs s' 0 5 = 7" "fbs s' 1 522240 = 7"
    by (simp_all add: untouched_def sample_screen_def SCREEN_WIDTH_def SCREEN_HEIGHT_def)
  then show ?thesis using s' by auto
qed

end
