(* ===== verification/SelfTools.thy ===== *)
theory SelfTools
  imports Sha256
begin

text \<open>
  The tools that open and rebuild SELF files: \<open>vita-unmake-fself/src/main.c\<close> (the ELF file of a fake SELF)
  and \<open>elf_injector/src/main.c\<close> (new segments and a new digest in a SELF). Both work on the whole file
  in memory, as bytes; an access outside of it is a fault. \<open>uncompress\<close> and \<open>compress\<close> of zlib and the
  old contents of allocated memory are arguments.
\<close>

section \<open>Structures in memory\<close>

datatype self_fault = OutOfFile | PathTooLong

definition get16 :: "u8 list \<Rightarrow> nat \<Rightarrow> self_fault + nat" where
  "get16 bs off = (case rd16 bs off of None \<Rightarrow> Inl OutOfFile | Some w \<Rightarrow> Inr (unat w))"

lemma get16_less: "get16 bs off = Inr n \<Longrightarrow> n < 65536"
proof -
  have "unat w < 65536" for w :: u16 using unsigned_less [of w, where ?'a = nat] by simp
  then show "get16 bs off = Inr n \<Longrightarrow> n < 65536" by (auto simp: get16_def split: option.splits)
qed

definition get32 :: "u8 list \<Rightarrow> nat \<Rightarrow> self_fault + nat" where
  "get32 bs off = (case rd32 bs off of None \<Rightarrow> Inl OutOfFile | Some w \<Rightarrow> Inr (unat w))"

definition get64 :: "u8 list \<Rightarrow> nat \<Rightarrow> self_fault + nat" where
  "get64 bs off = ebind (get32 bs off) (\<lambda>lo. ebind (get32 bs (off + 4)) (\<lambda>hi. Inr (lo + 2 ^ 32 * hi)))"

definition slice :: "u8 list \<Rightarrow> nat \<Rightarrow> nat \<Rightarrow> self_fault + u8 list" where
  "slice bs off n = (if off + n \<le> length bs then Inr (take n (drop off bs)) else Inl OutOfFile)"

definition poke :: "u8 list \<Rightarrow> nat \<Rightarrow> u8 list \<Rightarrow> self_fault + u8 list" where
  "poke bs off xs = (if off + length xs \<le> length bs then Inr (put_bytes bs off xs) else Inl OutOfFile)"

definition put64 :: "u8 list \<Rightarrow> nat \<Rightarrow> nat \<Rightarrow> self_fault + u8 list" where
  "put64 bs off v = poke bs off (bytes32 (of_nat v) @ bytes32 (of_nat (v div 2 ^ 32)))"

text \<open>The fields of the SELF header that are used.\<close>

record SCE_header =
  header_len :: nat
  elf_offset :: nat
  phdr_offset :: nat
  section_info_offset :: nat

definition SCE_header_at :: "u8 list \<Rightarrow> self_fault + SCE_header" where
  "SCE_header_at bs = ebind (get64 bs 0x10) (\<lambda>h. ebind (get64 bs 0x40) (\<lambda>e. ebind (get64 bs 0x48) (\<lambda>p.
     ebind (get64 bs 0x58) (\<lambda>s. Inr \<lparr>header_len = h, elf_offset = e, phdr_offset = p, section_info_offset = s\<rparr>))))"

definition SCE_MAGIC :: nat where "SCE_MAGIC = 0x454353"

definition elf_magic :: "u8 list" where "elf_magic = [0x7F, 0x45, 0x4C, 0x46, 1, 1, 1, 0]"

text \<open>Writing at a position of the output file; a gap before it reads as zeros.\<close>

definition write_at :: "u8 list \<Rightarrow> nat \<Rightarrow> u8 list \<Rightarrow> u8 list" where
  "write_at f off bs = (if bs = [] then f else take off (f @ replicate (off - length f) 0) @ bs @ drop (off + length bs) f)"

section \<open>vita-unmake-fself\<close>

text \<open>\<open>e_shoff\<close>, \<open>e_shnum\<close> and \<open>e_shstrndx\<close> become zero.\<close>

definition clear_sections :: "u8 list \<Rightarrow> nat \<Rightarrow> self_fault + u8 list" where
  "clear_sections bs off = ebind (poke bs (off + 0x20) [0, 0, 0, 0]) (\<lambda>bs. ebind (poke bs (off + 0x30) [0, 0]) (\<lambda>bs.
     poke bs (off + 0x32) [0, 0]))"

text \<open>The start of the output: the input (changed in memory), the output, where the ELF header and the program headers are.\<close>

definition unmake_header :: "u8 list \<Rightarrow> self_fault + u8 list \<times> u8 list \<times> nat \<times> nat" where
  "unmake_header inp = ebind (SCE_header_at inp) (\<lambda>sh. ebind (slice inp (header_len sh) 8) (\<lambda>m.
     if m = elf_magic then
       ebind (clear_sections inp (header_len sh)) (\<lambda>inp. ebind (get16 inp (header_len sh + 0x28)) (\<lambda>n.
       ebind (slice inp (header_len sh) n) (\<lambda>h. ebind (get32 inp (header_len sh + 0x1C)) (\<lambda>po.
         Inr (inp, write_at [] 0 h, header_len sh, header_len sh + po)))))
     else ebind (get16 inp (elf_offset sh + 0x28)) (\<lambda>n. ebind (slice inp (elf_offset sh) n) (\<lambda>h.
         Inr (inp, write_at [] 0 h, elf_offset sh, phdr_offset sh)))))"

text \<open>
  What a segment is copied from: its place in the input, or the decompressed bytes. \<open>unc src n\<close> is what
  \<open>uncompress\<close> puts into \<open>n\<close> bytes, \<open>None\<close> an error; the memory was cleared before.
\<close>

definition segment_source ::
    "(u8 list \<Rightarrow> nat \<Rightarrow> u8 list option) \<Rightarrow> nat \<Rightarrow> nat \<Rightarrow> nat \<Rightarrow> u8 list \<Rightarrow> self_fault + nat \<times> u8 list option" where
  "segment_source unc sinfo phdr i inp =
    ebind (get64 inp (sinfo + 32 * i)) (\<lambda>off. ebind (get64 inp (sinfo + 32 * i + 16)) (\<lambda>comp.
    if comp = 2 then
      ebind (get32 inp (phdr + 32 * i + 16)) (\<lambda>sz. ebind (get64 inp (sinfo + 32 * i + 8)) (\<lambda>len.
      ebind (slice inp off len) (\<lambda>src. Inr (off, map_option (\<lambda>x. x @ replicate (sz - length x) 0) (unc src sz)))))
    else Inr (off, None)))"

definition unmake_segment ::
    "(u8 list \<Rightarrow> nat \<Rightarrow> u8 list option) \<Rightarrow> nat \<Rightarrow> nat \<Rightarrow> nat \<Rightarrow> u8 list \<Rightarrow> u8 list \<Rightarrow> self_fault + u8 list \<times> u8 list" where
  "unmake_segment unc sinfo phdr i inp outp =
    ebind (segment_source unc sinfo phdr i inp) (\<lambda>(off, buf).
    ebind (case buf of
        None \<Rightarrow> ebind (slice inp off 8) (\<lambda>m. ebind (if m = elf_magic then clear_sections inp off else Inr inp) (\<lambda>inp.
          ebind (get32 inp (phdr + 32 * i + 16)) (\<lambda>sz. ebind (slice inp off sz) (\<lambda>bs. Inr (inp, bs)))))
      | Some d \<Rightarrow> ebind (slice d 0 8) (\<lambda>m. ebind (if m = elf_magic then clear_sections d 0 else Inr d) (\<lambda>d.
          ebind (get32 inp (phdr + 32 * i + 16)) (\<lambda>sz. ebind (slice d 0 sz) (\<lambda>bs. Inr (inp, bs))))))
    (\<lambda>(inp, bs). ebind (get32 inp (phdr + 32 * i + 4)) (\<lambda>po. Inr (inp, write_at outp po bs))))"

function unmake_segments ::
    "(u8 list \<Rightarrow> nat \<Rightarrow> u8 list option) \<Rightarrow> nat \<Rightarrow> nat \<Rightarrow> nat \<Rightarrow> nat \<Rightarrow> u8 list \<Rightarrow> u8 list \<Rightarrow> self_fault + u8 list \<times> u8 list" where
  "unmake_segments unc sinfo ehdr phdr i inp outp =
    (case get16 inp (ehdr + 0x2C) of
       Inl f \<Rightarrow> Inl f
     | Inr n \<Rightarrow> if n \<le> i then Inr (inp, outp)
         else (case unmake_segment unc sinfo phdr i inp outp of
           Inl f \<Rightarrow> Inl f
         | Inr (inp, outp) \<Rightarrow> unmake_segments unc sinfo ehdr phdr (i + 1) inp outp))"
  by pat_completeness auto
termination
proof (relation "measure (\<lambda>(unc, sinfo, ehdr, phdr, i, inp, outp). 65536 - i)", goal_cases)
  case (2 unc sinfo ehdr phdr i inp outp n)
  then have "n < 65536" using get16_less by blast
  then show ?case using 2 by auto
qed simp

declare unmake_segments.simps [simp del]

text \<open>
  \<open>main\<close> with one argument: the exit status and the output file (\<open>None\<close>: not opened). \<open>inp\<close> is the file,
  \<open>opens\<close> tells whether the output file can be opened.
\<close>

definition unmake_fself ::
    "(u8 list \<Rightarrow> nat \<Rightarrow> u8 list option) \<Rightarrow> bool \<Rightarrow> string \<Rightarrow> u8 list option \<Rightarrow> self_fault + int \<times> u8 list option" where
  "unmake_fself unc opens path file =
    (if 128 \<le> length path + 4 then Inl PathTooLong
     else case file of None \<Rightarrow> Inr (1, None) | Some inp \<Rightarrow>
       if inp = [] then Inr (1, None)
       else ebind (get32 inp 0) (\<lambda>magic. if magic \<noteq> SCE_MAGIC then Inr (1, None)
         else ebind (SCE_header_at inp) (\<lambda>sh. if \<not> opens then Inr (1, None)
           else ebind (unmake_header inp) (\<lambda>(inp, outp, ehdr, phdr).
             ebind (unmake_segments unc (section_info_offset sh) ehdr phdr 0 inp outp) (\<lambda>(inp, outp).
             ebind (get32 inp (ehdr + 0x1C)) (\<lambda>po. ebind (get16 inp (ehdr + 0x2A)) (\<lambda>esz. ebind (get16 inp (ehdr + 0x2C)) (\<lambda>n.
             ebind (slice inp phdr (esz * n)) (\<lambda>tab. Inr (0, Some (write_at outp po tab)))))))))))"

section \<open>elf_injector\<close>

text \<open>Which of the two files is the ELF and which the SELF; the path of the SELF is the output path.\<close>

fun read_inputs :: "(string \<times> u8 list) list \<Rightarrow> u8 list option \<times> u8 list option \<Rightarrow> self_fault + (u8 list option \<times> u8 list option) option" where
  "read_inputs [] (elf, self) = Inr (Some (elf, self))"
| "read_inputs ((path, inp) # r) (elf, self) =
    (if inp = [] then Inr None
     else ebind (get32 inp 0) (\<lambda>magic.
       if magic \<noteq> SCE_MAGIC then ebind (slice inp 0 8) (\<lambda>m. if m = elf_magic then read_inputs r (Some inp, self) else Inr None)
       else if 1023 \<le> length path then Inl PathTooLong
       else read_inputs r (elf, Some inp)))"

text \<open>
  One segment. \<open>cmp src n\<close> is what \<open>compress\<close> puts into \<open>n\<close> bytes, \<open>heap n\<close> what these bytes held before. The
  state is the SELF in memory, the output file and the correction of the offsets.
\<close>

definition inject_segment ::
    "(u8 list \<Rightarrow> nat \<Rightarrow> u8 list option) \<Rightarrow> (nat \<Rightarrow> u8 list) \<Rightarrow> u8 list \<Rightarrow> nat \<Rightarrow> nat \<Rightarrow> nat \<Rightarrow> u8 list \<times> u8 list \<times> nat
      \<Rightarrow> self_fault + u8 list \<times> u8 list \<times> nat" where
  "inject_segment cmp heap elf phdrs sinfo i = (\<lambda>(self, outp, corr).
    ebind (get32 elf (phdrs + 32 * i + 16)) (\<lambda>sz. ebind (get64 self (sinfo + 32 * i)) (\<lambda>off.
    ebind (put64 self (sinfo + 32 * i) (off + corr)) (\<lambda>self.
    ebind (get32 elf (phdrs + 32 * i + 4)) (\<lambda>po. ebind (slice elf po sz) (\<lambda>src.
    case cmp src sz of
      None \<Rightarrow> Inr (self, outp, corr)
    | Some z \<Rightarrow>
        ebind (get64 self (sinfo + 32 * i + 8)) (\<lambda>len.
        ebind (if len < length z then ebind (put64 self (sinfo + 32 * i + 8) (length z)) (\<lambda>self. Inr (self, corr + (length z - len)))
               else Inr (self, corr)) (\<lambda>(self, corr).
        ebind (get64 self (sinfo + 32 * i)) (\<lambda>off. ebind (get64 self (sinfo + 32 * i + 8)) (\<lambda>len.
        ebind (slice (z @ drop (length z) (heap sz)) 0 len) (\<lambda>bs. Inr (self, write_at outp off bs, corr))))))))))))"

fun inject_segments ::
    "(u8 list \<Rightarrow> nat \<Rightarrow> u8 list option) \<Rightarrow> (nat \<Rightarrow> u8 list) \<Rightarrow> u8 list \<Rightarrow> nat \<Rightarrow> nat \<Rightarrow> nat list \<Rightarrow> u8 list \<times> u8 list \<times> nat
      \<Rightarrow> self_fault + u8 list \<times> u8 list \<times> nat" where
  "inject_segments cmp heap elf phdrs sinfo [] st = Inr st"
| "inject_segments cmp heap elf phdrs sinfo (i # is) st =
    ebind (inject_segment cmp heap elf phdrs sinfo i st) (inject_segments cmp heap elf phdrs sinfo is)"

text \<open>\<open>ctx\<close> is the uninitialised context on the stack.\<close>

definition elf_digest :: "sha256_ctx \<Rightarrow> u8 list \<Rightarrow> self_fault + u8 list" where
  "elf_digest ctx elf = (case sha256_update (sha256_init ctx) elf (of_nat (length elf)) of
     None \<Rightarrow> Inl OutOfFile
   | Some ctx \<Rightarrow> (case sha256_final ctx (replicate 0x20 0) of None \<Rightarrow> Inl OutOfFile | Some (_, digest) \<Rightarrow> Inr digest))"

text \<open>One control information: the digest, or zeros over the NPDRM data; and its size.\<close>

definition control_entry :: "u8 list \<Rightarrow> u8 list \<Rightarrow> nat \<Rightarrow> self_fault + u8 list \<times> nat" where
  "control_entry digest self c = ebind (get32 self c) (\<lambda>t.
     ebind (if t = 4 then poke self (c + 0x10 + 0x14) digest
            else if t = 5 then poke self (c + 0x10) (replicate 0x100 0) else Inr self) (\<lambda>self.
     ebind (get32 self (c + 4)) (\<lambda>sz. Inr (self, sz))))"

text \<open>The loop ends at an entry without a successor, and does not look at its type. A size of zero keeps it where it is.\<close>

partial_function (option) control_loop :: "u8 list \<Rightarrow> u8 list \<Rightarrow> nat \<Rightarrow> (self_fault + u8 list) option" where
  "control_loop digest self c =
    (case get64 self (c + 8) of
       Inl f \<Rightarrow> Some (Inl f)
     | Inr nxt \<Rightarrow> if nxt = 0 then Some (Inr self)
         else (case control_entry digest self c of
           Inl f \<Rightarrow> Some (Inl f)
         | Inr (self, sz) \<Rightarrow> control_loop digest self (c + sz)))"

definition inject_control :: "sha256_ctx \<Rightarrow> u8 list \<Rightarrow> u8 list \<Rightarrow> (self_fault + u8 list) option" where
  "inject_control ctx elf self = (case elf_digest ctx elf of
     Inl f \<Rightarrow> Some (Inl f)
   | Inr digest \<Rightarrow> (case get64 self 0x68 of Inl f \<Rightarrow> Some (Inl f) | Inr c \<Rightarrow> control_loop digest self c))"

definition inject_headers :: "u8 list \<Rightarrow> u8 list \<Rightarrow> u8 list \<Rightarrow> self_fault + u8 list" where
  "inject_headers elf self outp =
    ebind (SCE_header_at self) (\<lambda>sh. ebind (slice self 0 (header_len sh)) (\<lambda>h.
    ebind (slice self (elf_offset sh) 0x34) (\<lambda>e. ebind (get32 elf 0x1C) (\<lambda>po. ebind (get16 elf 0x2C) (\<lambda>n. ebind (get16 elf 0x2A) (\<lambda>esz.
    ebind (slice self (phdr_offset sh) (n * esz)) (\<lambda>t.
      Inr (write_at (write_at (write_at outp 0 h) (header_len sh) e) (header_len sh + po) t))))))))"

text \<open>
  \<open>main\<close> with two arguments: the exit status and the new contents of the SELF (\<open>None\<close>: not touched). The
  file is emptied before the numbers of program headers are compared.
\<close>

definition inject_elf ::
    "(u8 list \<Rightarrow> nat \<Rightarrow> u8 list option) \<Rightarrow> (nat \<Rightarrow> u8 list) \<Rightarrow> sha256_ctx \<Rightarrow> bool \<Rightarrow> string \<times> u8 list option \<Rightarrow> string \<times> u8 list option
      \<Rightarrow> (self_fault + int \<times> u8 list option) option" where
  "inject_elf cmp heap ctx opens f g =
    (case (snd f, snd g) of
       (Some a, Some b) \<Rightarrow>
         (case read_inputs [(fst f, a), (fst g, b)] (None, None) of
            Inl e \<Rightarrow> Some (Inl e)
          | Inr (Some (Some elf, Some self)) \<Rightarrow>
              if \<not> opens then Some (Inr (1, None))
              else (case ebind (get64 self 0x40) (\<lambda>eo. ebind (get16 self (eo + 0x2C)) (\<lambda>m. ebind (get16 elf 0x2C) (\<lambda>n. Inr (m, n)))) of
                Inl e \<Rightarrow> Some (Inl e)
              | Inr (m, n) \<Rightarrow>
                  if n \<noteq> m then Some (Inr (1, Some []))
                  else (case ebind (get32 elf 0x1C) (\<lambda>po. ebind (get64 self 0x58) (\<lambda>sinfo.
                          inject_segments cmp heap elf po sinfo [0..<n] (self, [], 0))) of
                    Inl e \<Rightarrow> Some (Inl e)
                  | Inr (self, outp, _) \<Rightarrow>
                      (case inject_control ctx elf self of
                         None \<Rightarrow> None
                       | Some (Inl e) \<Rightarrow> Some (Inl e)
                       | Some (Inr self) \<Rightarrow> Some (ebind (inject_headers elf self outp) (\<lambda>outp. Inr (0, Some outp))))))
          | Inr _ \<Rightarrow> Some (Inr (1, None)))
     | _ \<Rightarrow> Some (Inr (1, None)))"

section \<open>Writing to places of a file\<close>

definition holds :: "u8 list \<Rightarrow> nat \<Rightarrow> u8 list \<Rightarrow> bool" where
  "holds f off bs \<longleftrightarrow> (bs \<noteq> [] \<longrightarrow> off + length bs \<le> length f) \<and> take (length bs) (drop off f) = bs"

definition apart :: "nat \<Rightarrow> u8 list \<Rightarrow> nat \<Rightarrow> u8 list \<Rightarrow> bool" where
  "apart o1 b1 o2 b2 \<longleftrightarrow> o1 + length b1 \<le> o2 \<or> o2 + length b2 \<le> o1"

lemma holds_written: "holds (write_at f off bs) off bs"
  by (cases "bs = []") (simp_all add: holds_def write_at_def)

lemma holds_nth: "holds f off bs \<longleftrightarrow> (bs \<noteq> [] \<longrightarrow> off + length bs \<le> length f) \<and> (\<forall>i<length bs. f ! (off + i) = bs ! i)"
proof (cases "bs = []")
  case False
  show ?thesis
  proof (cases "off + length bs \<le> length f")
    case True
    have "take (length bs) (drop off f) = bs \<longleftrightarrow> (\<forall>i<length bs. f ! (off + i) = bs ! i)"
      by (subst list_eq_iff_nth_eq) (use True in simp)
    then show ?thesis by (simp add: holds_def)
  qed (use False in \<open>simp add: holds_def\<close>)
qed (simp add: holds_def)

lemma write_at_length: "length f \<le> length (write_at f off bs)"
  by (simp add: write_at_def) arith

lemma write_at_nth:
  assumes "i < length f" "i < off \<or> off + length bs \<le> i"
  shows "write_at f off bs ! i = f ! i"
  using assms by (auto simp: write_at_def nth_append)

lemma holds_kept: "holds f o1 b1 \<Longrightarrow> apart o1 b1 o2 b2 \<Longrightarrow> holds (write_at f o2 b2) o1 b1"
  unfolding holds_nth apart_def
  using write_at_length [of f o2 b2] write_at_nth [of _ f o2 b2] by (auto simp: order_trans)

section \<open>Unpacking\<close>

text \<open>A little-endian number of \<open>k\<close> bytes, as the file holds it.\<close>

definition field :: "u8 list \<Rightarrow> nat \<Rightarrow> nat \<Rightarrow> nat \<Rightarrow> bool" where
  "field bs a k v \<longleftrightarrow> a + k \<le> length bs \<and> v = (\<Sum>i<k. unat (bs ! (a + i)) * 256 ^ i)"

lemma u8_less: "unat (w :: u8) < 256" using unsigned_less [of w, where ?'a = nat] by simp

lemma unat_push: "unat (push_bit 8 (ucast (b :: u8)) :: u32) = 256 * unat b" "unat (push_bit 16 (ucast (b :: u8)) :: u32) = 65536 * unat b"
  "unat (push_bit 24 (ucast (b :: u8)) :: u32) = 16777216 * unat b" "unat (push_bit 8 (ucast (b :: u8)) :: u16) = 256 * unat b"
  "unat (ucast b :: u32) = unat b" "unat (ucast b :: u16) = unat b"
  using u8_less [of b] by (simp_all add: unat_word_ariths unsigned_ucast_eq take_bit_eq_mod push_bit_eq_mult)

lemma unat_join32: "unat (join32 a b c d) = unat a + 256 * unat b + 65536 * unat c + 16777216 * unat d"
proof -
  have "join32 a b c d = ucast a + push_bit 8 (ucast b) + push_bit 16 (ucast c) + push_bit 24 (ucast d)"
    unfolding join32_def by (simp add: disjunctive_add bit_simps u8_bit_high or.assoc)
  then show ?thesis
    using u8_less [of a] u8_less [of b] u8_less [of c] u8_less [of d]
    by (simp add: unat_word_ariths unat_push)
qed

lemma unat_join16: "unat (ucast (a :: u8) OR push_bit 8 (ucast (b :: u8)) :: u16) = unat a + 256 * unat b"
proof -
  have "(ucast a OR push_bit 8 (ucast b) :: u16) = ucast a + push_bit 8 (ucast b)"
    by (simp add: disjunctive_add bit_simps u8_bit_high or.assoc)
  then show ?thesis
    using u8_less [of a] u8_less [of b] by (simp add: unat_word_ariths unat_push)
qed

lemma field_get:
  "field bs a 2 v \<longleftrightarrow> get16 bs a = Inr v"
  "field bs a 4 v \<longleftrightarrow> get32 bs a = Inr v"
  "field bs a 8 v \<longleftrightarrow> get64 bs a = Inr v"
proof -
  have s: "(\<Sum>i<2. f i) = f 0 + f 1" "(\<Sum>i<4. f i) = f 0 + f 1 + f 2 + f 3"
    "(\<Sum>i<8. f i) = f 0 + f 1 + f 2 + f 3 + f 4 + f 5 + f 6 + f 7" for f :: "nat \<Rightarrow> nat"
    by (simp_all add: eval_nat_numeral)
  show "field bs a 2 v \<longleftrightarrow> get16 bs a = Inr v" by (auto simp: field_def s get16_def rd16_def unat_join16)
  show "field bs a 4 v \<longleftrightarrow> get32 bs a = Inr v" by (auto simp: field_def s get32_def rd32_def unat_join32)
  show "field bs a 8 v \<longleftrightarrow> get64 bs a = Inr v" by (auto simp: field_def s get64_def get32_def rd32_def unat_join32 ac_simps)
qed

lemmas get_field = field_get [THEN iffD1]

text \<open>What a segment is, as long as it does not begin with an ELF header: its place in the ELF file, its first eight
  bytes and its contents.\<close>

definition segment_bytes ::
    "(u8 list \<Rightarrow> nat \<Rightarrow> u8 list option) \<Rightarrow> nat \<Rightarrow> nat \<Rightarrow> u8 list \<Rightarrow> nat \<Rightarrow> self_fault + nat \<times> u8 list \<times> u8 list" where
  "segment_bytes unc sinfo phdr inp i = ebind (segment_source unc sinfo phdr i inp) (\<lambda>(off, buf).
     let mem = (case buf of None \<Rightarrow> inp | Some d \<Rightarrow> d); o' = (case buf of None \<Rightarrow> off | Some d \<Rightarrow> 0) in
     ebind (slice mem o' 8) (\<lambda>m. ebind (get32 inp (phdr + 32 * i + 16)) (\<lambda>sz. ebind (slice mem o' sz) (\<lambda>bs.
     ebind (get32 inp (phdr + 32 * i + 4)) (\<lambda>po. Inr (po, m, bs))))))"

lemma unmake_segment_plain:
  assumes "segment_bytes unc sinfo phdr inp i = Inr (po, m, bs)" "m \<noteq> elf_magic"
  shows "unmake_segment unc sinfo phdr i inp outp = Inr (inp, write_at outp po bs)"
proof -
  obtain off buf where src: "segment_source unc sinfo phdr i inp = Inr (off, buf)"
    using assms(1) by (auto simp: segment_bytes_def ebind_Inr)
  show ?thesis
    using assms by (cases buf) (auto simp: segment_bytes_def unmake_segment_def src ebind_Inr Let_def)
qed

lemma unmake_segments_plain:
  assumes n: "get16 inp (ehdr + 0x2C) = Inr n"
    and segs: "\<And>i. i < n \<Longrightarrow> segment_bytes unc sinfo phdr inp i = Inr (po i, m i, bs i) \<and> m i \<noteq> elf_magic"
  shows "i \<le> n \<Longrightarrow> unmake_segments unc sinfo ehdr phdr i inp outp = Inr (inp, fold (\<lambda>i f. write_at f (po i) (bs i)) [i..<n] outp)"
proof (induction "n - i" arbitrary: i outp)
  case 0
  then show ?case by (subst unmake_segments.simps) (simp add: n)
next
  case (Suc k)
  then have i: "i < n" by simp
  have "unmake_segment unc sinfo phdr i inp outp = Inr (inp, write_at outp (po i) (bs i))"
    using segs [OF i] unmake_segment_plain by blast
  then have "unmake_segments unc sinfo ehdr phdr i inp outp = unmake_segments unc sinfo ehdr phdr (i + 1) inp (write_at outp (po i) (bs i))"
    by (subst unmake_segments.simps) (use i in \<open>simp add: n\<close>)
  also have "\<dots> = Inr (inp, fold (\<lambda>i f. write_at f (po i) (bs i)) [i + 1..<n] (write_at outp (po i) (bs i)))"
    using Suc i by (intro Suc.hyps(1)) simp_all
  finally show ?case using i by (simp add: upt_conv_Cons)
qed

lemma holds_fold:
  assumes "holds f o1 b1" "\<And>j. j \<in> set js \<Longrightarrow> apart o1 b1 (po j) (bs j)"
  shows "holds (fold (\<lambda>i f. write_at f (po i) (bs i)) js f) o1 b1"
  using assms by (induction js arbitrary: f) (simp_all add: holds_kept)

lemma fold_holds:
  assumes "i < n" "\<And>j. i < j \<Longrightarrow> j < n \<Longrightarrow> apart (po i) (bs i) (po j) (bs j)"
  shows "holds (fold (\<lambda>i f. write_at f (po i) (bs i)) [0..<n] f) (po i) (bs i)"
proof -
  have "[0..<n] = [0..<i] @ i # [i + 1..<n]" using assms(1) by (metis add.commute le_add_diff_inverse less_imp_le_nat plus_1_eq_Suc upt_add_eq_append upt_conv_Cons zero_le)
  moreover have "holds (fold (\<lambda>i f. write_at f (po i) (bs i)) [i + 1..<n] (write_at g (po i) (bs i))) (po i) (bs i)" for g
    by (rule holds_fold [OF holds_written]) (use assms(2) in auto)
  ultimately show ?thesis by simp
qed

text \<open>
  What the file formats say, byte by byte. A fake SELF keeps its ELF header behind the SELF header (\<open>header_len\<close> at 0x10,
  a copy of the original, whose three fields about sections are blanked) or at \<open>elf_offset\<close> (0x40), and then its
  program headers at \<open>phdr_offset\<close> (0x48). A segment has an entry of 32 bytes in the segment information (offset,
  length, compression; 2 is compressed) and one in the program headers (\<open>p_offset\<close> at 4, \<open>p_filesz\<close> at 16).
\<close>

definition begins_elf :: "u8 list \<Rightarrow> bool" where
  "begins_elf bs \<longleftrightarrow> take 8 bs = [0x7F, 0x45, 0x4C, 0x46, 1, 1, 1, 0]"

definition blanked :: "nat \<Rightarrow> u8 list \<Rightarrow> u8 list" where
  "blanked e bs = map (\<lambda>i. if e + 0x20 \<le> i \<and> i < e + 0x24 \<or> e + 0x30 \<le> i \<and> i < e + 0x34 then 0 else bs ! i) [0..<length bs]"

definition elf_place :: "u8 list \<Rightarrow> u8 list \<Rightarrow> nat \<Rightarrow> nat \<Rightarrow> bool" where
  "elf_place inp img e ph \<longleftrightarrow> (\<exists>hl. field inp 0x10 8 hl \<and> hl + 8 \<le> length inp \<and>
     (if begins_elf (drop hl inp) then e = hl \<and> hl + 0x34 \<le> length inp \<and> img = blanked hl inp \<and> (\<exists>po. field inp (hl + 0x1C) 4 po \<and> ph = hl + po)
      else field inp 0x40 8 e \<and> field inp 0x48 8 ph \<and> img = inp))"

definition segment_spec :: "(u8 list \<Rightarrow> nat \<Rightarrow> u8 list option) \<Rightarrow> u8 list \<Rightarrow> nat \<Rightarrow> nat \<Rightarrow> nat \<Rightarrow> u8 list \<Rightarrow> bool" where
  "segment_spec unc img si ph po bs \<longleftrightarrow> field img (ph + 4) 4 po \<and> field img (ph + 16) 4 (length bs) \<and>
     (\<exists>off len comp. field img si 8 off \<and> field img (si + 8) 8 len \<and> field img (si + 16) 8 comp \<and>
       (let stored = off + 8 \<le> length img \<and> \<not> begins_elf (drop off img) \<and> off + length bs \<le> length img \<and> bs = take (length bs) (drop off img) in
        if comp \<noteq> 2 then stored
        else off + len \<le> length img \<and>
          (case unc (take len (drop off img)) (length bs) of
             None \<Rightarrow> stored
           | Some x \<Rightarrow> 8 \<le> length bs \<and> \<not> begins_elf bs \<and> bs = x @ replicate (length bs - length x) 0)))"

lemma segment_spec_compressed:
  assumes "field img (ph + 4) 4 po" "field img (ph + 16) 4 (length bs)" "field img si 8 off" "field img (si + 8) 8 len" "field img (si + 16) 8 2"
    and "off + len \<le> length img" "unc (take len (drop off img)) (length bs) = Some x"
    and "8 \<le> length bs" "\<not> begins_elf bs" "bs = x @ replicate (length bs - length x) 0"
  shows "segment_spec unc img si ph po bs"
proof -
  have "field img (si + 16) 8 2 \<and> off + len \<le> length img \<and> 8 \<le> length bs \<and> \<not> begins_elf bs \<and>
      bs = x @ replicate (length bs - length x) 0" using assms by blast
  then show ?thesis
    unfolding segment_spec_def Let_def using assms(1-4,7) by (intro conjI exI [of _ off] exI [of _ len] exI [of _ 2]) simp_all
qed

lemma poke_zeros:
  assumes "off + k \<le> length bs"
  shows "poke bs off (replicate k 0) = Inr (map (\<lambda>i. if off \<le> i \<and> i < off + k then 0 else bs ! i) [0..<length bs])"
proof -
  have "put_bytes bs off (replicate k 0) = map (\<lambda>i. if off \<le> i \<and> i < off + k then 0 else bs ! i) [0..<length bs]"
    by (rule nth_equalityI) (use assms in \<open>auto simp: put_bytes_def nth_append min_def\<close>)
  then show ?thesis using assms by (simp add: poke_def)
qed

lemma blanked_poke:
  assumes "e + 0x34 \<le> length bs"
  shows "clear_sections bs e = Inr (blanked e bs)"
proof -
  have r: "[0, 0, 0, 0] = replicate 4 (0 :: u8)" "[0, 0] = replicate 2 (0 :: u8)" by (simp_all add: eval_nat_numeral)
  note z = poke_zeros [of _ 4, folded r(1)] poke_zeros [of _ 2, folded r(2)]
  show ?thesis
    using assms by (auto simp: clear_sections_def z blanked_def)
qed

lemma segment_spec_bytes:
  assumes "segment_spec unc img (si + 32 * i) (ph + 32 * i) po bs"
  shows "\<exists>m. segment_bytes unc si ph img i = Inr (po, m, bs) \<and> m \<noteq> elf_magic"
proof -
  obtain off len comp where f: "get32 img (ph + 32 * i + 4) = Inr po" "get32 img (ph + 32 * i + 16) = Inr (length bs)"
      "get64 img (si + 32 * i) = Inr off" "get64 img (si + 32 * i + 8) = Inr len" "get64 img (si + 32 * i + 16) = Inr comp"
    and c: "let stored = off + 8 \<le> length img \<and> \<not> begins_elf (drop off img) \<and> off + length bs \<le> length img \<and> bs = take (length bs) (drop off img) in
        if comp \<noteq> 2 then stored
        else off + len \<le> length img \<and>
          (case unc (take len (drop off img)) (length bs) of
             None \<Rightarrow> stored
           | Some x \<Rightarrow> 8 \<le> length bs \<and> \<not> begins_elf bs \<and> bs = x @ replicate (length bs - length x) 0)"
    using assms unfolding segment_spec_def by (auto dest!: get_field)
  show ?thesis
    using c by (cases "comp = 2"; cases "unc (take len (drop off img)) (length bs)")
      (auto simp: segment_bytes_def segment_source_def f Let_def slice_def begins_elf_def elf_magic_def)
qed

lemma unmake_header_place:
  assumes "elf_place inp img e ph" "field img (e + 0x28) 2 hsz" "e + hsz \<le> length img"
    "field inp 0x40 8 eo" "field inp 0x48 8 po" "field inp 0x58 8 si"
  shows "unmake_header inp = Inr (img, write_at [] 0 (take hsz (drop e img)), e, ph)"
proof -
  obtain hl where hl: "field inp 0x10 8 hl" "hl + 8 \<le> length inp"
    "if begins_elf (drop hl inp) then e = hl \<and> hl + 0x34 \<le> length inp \<and> img = blanked hl inp \<and> (\<exists>po. field inp (hl + 0x1C) 4 po \<and> ph = hl + po)
      else field inp 0x40 8 e \<and> field inp 0x48 8 ph \<and> img = inp"
    using assms(1) unfolding elf_place_def by blast
  have sh: "SCE_header_at inp = Inr \<lparr>header_len = hl, elf_offset = eo, phdr_offset = po, section_info_offset = si\<rparr>"
    using hl(1) assms(4-6) by (simp add: SCE_header_at_def get_field)
  have g: "get16 img (e + 0x28) = Inr hsz" using assms(2) by (rule get_field)
  show ?thesis
  proof (cases "begins_elf (drop hl inp)")
    case True
    then obtain q where q: "e = hl" "hl + 0x34 \<le> length inp" "img = blanked hl inp" "field inp (hl + 0x1C) 4 q" "ph = hl + q"
      using hl(3) by auto
    have "field img (hl + 0x1C) 4 q" using q(3,4) by (simp add: field_def blanked_def)
    then show ?thesis
      using True q g assms(3) hl(2) by (simp add: unmake_header_def sh slice_def begins_elf_def elf_magic_def blanked_poke get_field)
  next
    case False
    then have h: "field inp 0x40 8 e" "field inp 0x48 8 ph" "img = inp" using hl(3) by auto
    then have "eo = e" "po = ph" using assms(4,5) by (simp_all add: field_def)
    then show ?thesis
      using False h g assms(3) hl(2) by (simp add: unmake_header_def sh slice_def begins_elf_def elf_magic_def)
  qed
qed

section \<open>The control information\<close>

text \<open>The entries that are visited: each has a successor and room for what is written to it.\<close>

fun chain :: "u8 list \<Rightarrow> nat \<Rightarrow> nat list \<Rightarrow> bool" where
  "chain s c [] \<longleftrightarrow> get64 s (c + 8) = Inr 0"
| "chain s c (e # es) \<longleftrightarrow> e = c \<and> (case get64 s (c + 8) of Inl _ \<Rightarrow> False | Inr nxt \<Rightarrow> nxt \<noteq> 0) \<and>
     (case (get32 s c, get32 s (c + 4)) of
        (Inr t, Inr sz) \<Rightarrow> 16 \<le> sz \<and> (t = 4 \<longrightarrow> 0x44 \<le> sz \<and> c + 0x44 \<le> length s) \<and> (t = 5 \<longrightarrow> 0x110 \<le> sz \<and> c + 0x110 \<le> length s) \<and>
          chain s (c + sz) es
      | _ \<Rightarrow> False)"

text \<open>Reading depends only on the bytes read.\<close>

lemma get_same:
  assumes "length s = length s'"
  shows "\<forall>i. a \<le> i \<and> i < a + 4 \<and> i < length s \<longrightarrow> s ! i = s' ! i \<Longrightarrow> get32 s a = get32 s' a"
    "\<forall>i. a \<le> i \<and> i < a + 8 \<and> i < length s \<longrightarrow> s ! i = s' ! i \<Longrightarrow> get64 s a = get64 s' a"
proof -
  have 4: "get32 s a = get32 s' a" if "\<forall>i. a \<le> i \<and> i < a + 4 \<and> i < length s \<longrightarrow> s ! i = s' ! i" for a
    using that assms by (simp add: get32_def rd32_def)
  show "\<forall>i. a \<le> i \<and> i < a + 4 \<and> i < length s \<longrightarrow> s ! i = s' ! i \<Longrightarrow> get32 s a = get32 s' a" by (rule 4)
  show "\<forall>i. a \<le> i \<and> i < a + 8 \<and> i < length s \<longrightarrow> s ! i = s' ! i \<Longrightarrow> get64 s a = get64 s' a"
    unfolding get64_def using 4 [of a] 4 [of "a + 4"] by simp
qed

lemma chain_same: "chain s c es \<Longrightarrow> length s = length s' \<Longrightarrow> \<forall>i. c \<le> i \<and> i < length s \<longrightarrow> s ! i = s' ! i \<Longrightarrow> chain s' c es"
proof (induction s c es rule: chain.induct)
  case (1 s c)
  then show ?case using get_same(2) [of s s' "c + 8"] by simp
next
  case (2 s c e es)
  have g: "get64 s' (c + 8) = get64 s (c + 8)" "get32 s' c = get32 s c" "get32 s' (c + 4) = get32 s (c + 4)"
    using get_same [of s s'] 2(3,4) by simp_all
  show ?case using 2 by (auto simp: g split: sum.splits)
qed

lemma chain_from: "chain s c es \<Longrightarrow> f \<in> set es \<Longrightarrow> c \<le> f"
proof (induction s c es rule: chain.induct)
  case (2 s c e es)
  then show ?case by (force split: sum.splits)
qed simp

lemma slice_at: "slice bs off n = Inr x \<longleftrightarrow> off + n \<le> length bs \<and> length x = n \<and> (\<forall>i<n. bs ! (off + i) = x ! i)"
proof (cases "off + n \<le> length bs")
  case True
  have "take n (drop off bs) = x \<longleftrightarrow> length x = n \<and> (\<forall>i<n. bs ! (off + i) = x ! i)"
    by (subst list_eq_iff_nth_eq) (use True in auto)
  then show ?thesis using True by (auto simp: slice_def)
qed (simp add: slice_def)

lemma poke_ok:
  assumes "off + length xs \<le> length bs"
  shows "\<exists>bs'. poke bs off xs = Inr bs' \<and> length bs' = length bs \<and> slice bs' off (length xs) = Inr xs \<and>
    (\<forall>i<length bs. i < off \<or> off + length xs \<le> i \<longrightarrow> bs' ! i = bs ! i)"
proof -
  have "\<forall>i<length bs. i < off \<or> off + length xs \<le> i \<longrightarrow> put_bytes bs off xs ! i = bs ! i"
    using assms by (auto simp: put_bytes_def nth_append min_def)
  moreover have "slice (put_bytes bs off xs) off (length xs) = Inr xs"
    using assms by (simp add: slice_at put_bytes_nth)
  ultimately show ?thesis using assms by (simp add: poke_def)
qed

lemma control_entry_ok:
  assumes "chain s c (e # es)" "length digest = 0x20"
  shows "\<exists>s' sz. control_entry digest s c = Inr (s', sz) \<and> get32 s (c + 4) = Inr sz \<and> 16 \<le> sz \<and> length s' = length s \<and>
    (\<forall>i<length s. i < c + 16 \<or> c + sz \<le> i \<longrightarrow> s' ! i = s ! i) \<and>
    (get32 s c = Inr 4 \<longrightarrow> 0x44 \<le> sz \<and> slice s' (c + 0x24) 0x20 = Inr digest)"
proof -
  obtain t sz where g: "get32 s c = Inr t" "get32 s (c + 4) = Inr sz" "16 \<le> sz"
    and r: "t = 4 \<longrightarrow> 0x44 \<le> sz \<and> c + 0x44 \<le> length s" "t = 5 \<longrightarrow> 0x110 \<le> sz \<and> c + 0x110 \<le> length s"
    using assms(1) by (auto split: sum.splits)
  have sz: "get32 s' (c + 4) = Inr sz" if "length s' = length s" "\<forall>i<length s. i < c + 16 \<longrightarrow> s' ! i = s ! i" for s'
    using get_same(1) [of s s' "c + 4"] that g(2) by simp
  consider "t = 4" | "t = 5" | "t \<noteq> 4" "t \<noteq> 5" by blast
  then show ?thesis
  proof cases
    case 1
    then obtain s' where s': "poke s (c + 0x24) digest = Inr s'" "length s' = length s" "slice s' (c + 0x24) 0x20 = Inr digest"
      "\<forall>i<length s. i < c + 0x24 \<or> c + 0x44 \<le> i \<longrightarrow> s' ! i = s ! i"
      using poke_ok [of "c + 0x24" digest s] r(1) assms(2) by (auto simp: add.assoc)
    then have "control_entry digest s c = Inr (s', sz)" using g(1) 1 sz [of s'] by (simp add: control_entry_def add.commute [of 36 c])
    then show ?thesis using s' g r(1) 1 by auto
  next
    case 2
    then obtain s' where s': "poke s (c + 0x10) (replicate 0x100 0) = Inr s'" "length s' = length s"
      "\<forall>i<length s. i < c + 0x10 \<or> c + 0x110 \<le> i \<longrightarrow> s' ! i = s ! i"
      using poke_ok [of "c + 0x10" "replicate 0x100 0" s] r(2) by (auto simp: add.assoc)
    then have "control_entry digest s c = Inr (s', sz)" using g(1) 2 sz [of s'] by (simp add: control_entry_def)
    then show ?thesis using s' g r(2) 2 by auto
  next
    case 3
    then show ?thesis using g by (auto simp: control_entry_def)
  qed
qed

lemma control_loop_ok:
  assumes "length digest = 0x20"
  shows "chain s c es \<Longrightarrow> \<exists>s'. control_loop digest s c = Some (Inr s') \<and> length s' = length s \<and> (\<forall>i<length s. i < c + 16 \<longrightarrow> s' ! i = s ! i) \<and>
    (\<forall>e \<in> set es. get32 s e = Inr 4 \<longrightarrow> slice s' (e + 0x24) 0x20 = Inr digest)"
proof (induction es arbitrary: s c)
  case Nil
  then show ?case by (subst control_loop.simps) simp
next
  case (Cons e es)
  obtain s1 sz where s1: "control_entry digest s c = Inr (s1, sz)" "get32 s (c + 4) = Inr sz" "16 \<le> sz" "length s1 = length s"
    "\<forall>i<length s. i < c + 16 \<or> c + sz \<le> i \<longrightarrow> s1 ! i = s ! i" "get32 s c = Inr 4 \<longrightarrow> 0x44 \<le> sz \<and> slice s1 (c + 0x24) 0x20 = Inr digest"
    using control_entry_ok [OF Cons.prems assms] by blast
  have e: "e = c" and nxt: "\<exists>n. get64 s (c + 8) = Inr n \<and> n \<noteq> 0" and ch: "chain s (c + sz) es"
    using Cons.prems s1(2) by (auto split: sum.splits)
  have "chain s1 (c + sz) es" by (rule chain_same [OF ch]) (use s1(4,5) in auto)
  then obtain s' where s': "control_loop digest s1 (c + sz) = Some (Inr s')" "length s' = length s1" "\<forall>i<length s1. i < c + sz + 16 \<longrightarrow> s' ! i = s1 ! i"
    "\<forall>e \<in> set es. get32 s1 e = Inr 4 \<longrightarrow> slice s' (e + 0x24) 0x20 = Inr digest"
    using Cons.IH by blast
  have loop: "control_loop digest s c = Some (Inr s')"
    using nxt s1(1) s'(1) by (subst control_loop.simps) auto
  have later: "c + sz \<le> f" if "f \<in> set es" for f
    using chain_from [OF ch that] .
  have "slice s' (c + 0x24) 0x20 = Inr digest" if "get32 s c = Inr 4"
    using s1(6) that s'(2,3) unfolding slice_at by auto
  moreover have "get32 s1 f = get32 s f" if "f \<in> set es" for f
    using get_same(1) [of s s1 f] later [OF that] s1(4,5) by simp
  ultimately show ?case using loop s'(2-4) s1(3-5) e by auto
qed

text \<open>An entry of size zero with a successor keeps the loop where it is: it never ends.\<close>

lemma control_loop_stuck:
  assumes "get32 s c = Inr t" "t \<noteq> 4" "t \<noteq> 5" "get32 s (c + 4) = Inr 0" "get64 s (c + 8) = Inr nxt" "nxt \<noteq> 0"
  shows "control_loop digest s c = None"
proof (rule ccontr)
  assume "control_loop digest s c \<noteq> None"
  then obtain y where y: "control_loop digest s c = Some y" by blast
  have "control_entry digest s c \<noteq> Inr (s, 0) \<or> get64 s (c + 8) \<noteq> Inr nxt"
  proof (rule control_loop.raw_induct [OF _ y, where P = "\<lambda>digest s c y. control_entry digest s c \<noteq> Inr (s, 0) \<or> get64 s (c + 8) \<noteq> Inr nxt"])
    show "control_entry d s c \<noteq> Inr (s, 0) \<or> get64 s (c + 8) \<noteq> Inr nxt"
      if "\<And>d s c y. loop d s c = Some y \<Longrightarrow> control_entry d s c \<noteq> Inr (s, 0) \<or> get64 s (c + 8) \<noteq> Inr nxt"
        and "(case get64 s (c + 8) of Inl f \<Rightarrow> Some (Inl f)
          | Inr nxt \<Rightarrow> if nxt = 0 then Some (Inr s) else (case control_entry d s c of Inl f \<Rightarrow> Some (Inl f)
              | Inr (s, sz) \<Rightarrow> loop d s (c + sz))) = Some y" for loop d s c y
      using that(2) assms(6) that(1) [of d s c y] by (auto split: sum.splits if_splits)
  qed
  then show False using assms by (simp add: control_entry_def)
qed

text \<open>The digest of a file that the SHA-256 code computes in one piece.\<close>

lemma elf_digest_fips:
  assumes "length (cdata ctx) = 64" "length elf < 2 ^ 32"
  shows "elf_digest ctx elf = Inr (fips_sha256 elf)"
proof -
  have ok: "list_all chunk_ok [(elf, length elf)]" using assms(2) by (simp add: chunk_ok_def)
  obtain c p r where c: "sha_updates (sha256_init ctx) [(elf, length elf)] = Some c" "sha_inv c p r" "p @ r = elf"
    using sha_updates_inv [OF sha_init_inv [OF assms(1)] ok] by (auto simp: chunk_bytes_def)
  then have "sha256_update (sha256_init ctx) elf (of_nat (length elf)) = Some c" by (auto split: Option.bind_splits)
  then show ?thesis
    using sha_final_fips [OF c(2), of "replicate 0x20 0"] c(3) by (auto simp: elf_digest_def)
qed

section \<open>Properties\<close>

text \<open>C13. \<open>vita-unmake-fself\<close> puts every segment, decompressed when it is compressed, at the offset of its program
  header. The file is described by its bytes: magic, the places of the tables, the ELF header behind the SELF header (its
  fields about sections blanked) or at \<open>elf_offset\<close>, and for each segment its contents, stored in the file (compression
  not 2, or \<open>uncompress\<close> fails) or what \<open>uncompress\<close> makes of its \<open>length\<close> bytes, filled with zeros to \<open>p_filesz\<close>.
  Conditions: the path has fewer than 124 characters, the output file opens, everything lies inside of the file, and no
  segment begins with an ELF header of its own; a decompressed segment has at least eight bytes, and eight bytes of the
  file follow the start of a stored one. Then the program ends with
  status 0, the table of program headers is at \<open>e_phoff\<close>, each segment that no later one and not the table overlaps is
  whole at \<open>p_offset\<close>, and the ELF header is at the start if nothing overlaps it.\<close>

theorem unmake_fself_segments:
  assumes input: "length path < 124" "field inp 0 4 0x454353" "field inp 0x40 8 eo" "field inp 0x48 8 pho" "field inp 0x58 8 si"
    and place: "elf_place inp img e ph"
    and elf: "field img (e + 0x1C) 4 tpos" "field img (e + 0x28) 2 hsz" "field img (e + 0x2A) 2 esz" "field img (e + 0x2C) 2 n"
      "e + hsz \<le> length img" "ph + esz * n \<le> length img"
    and segs: "\<And>i. i < n \<Longrightarrow> segment_spec unc img (si + 32 * i) (ph + 32 * i) (po i) (bs i)"
  shows "let tab = take (esz * n) (drop ph img); hdr = take hsz (drop e img) in \<exists>f. unmake_fself unc True path (Some inp) = Inr (0, Some f) \<and> holds f tpos tab \<and>
    (\<forall>i<n. (\<forall>j. i < j \<and> j < n \<longrightarrow> apart (po i) (bs i) (po j) (bs j)) \<and> apart (po i) (bs i) tpos tab \<longrightarrow> holds f (po i) (bs i)) \<and>
    ((\<forall>i<n. apart 0 hdr (po i) (bs i)) \<and> apart 0 hdr tpos tab \<longrightarrow> holds f 0 hdr)"
proof -
  let ?tab = "take (esz * n) (drop ph img)" and ?hdr = "take hsz (drop e img)"
  let ?g = "\<lambda>out. fold (\<lambda>i f. write_at f (po i) (bs i)) [0..<n] out"
  let ?f = "?g (write_at [] 0 ?hdr)"
  obtain hl where hl: "field inp 0x10 8 hl" using place unfolding elf_place_def by blast
  have ne: "inp \<noteq> []" using input(2) by (auto simp: field_def)
  have sh: "SCE_header_at inp = Inr \<lparr>header_len = hl, elf_offset = eo, phdr_offset = pho, section_info_offset = si\<rparr>"
    using hl input(3-5) by (simp add: SCE_header_at_def get_field)
  obtain m where m: "\<And>i. i < n \<Longrightarrow> segment_bytes unc si ph img i = Inr (po i, m i, bs i) \<and> m i \<noteq> elf_magic"
    using segment_spec_bytes [OF segs] by metis
  have "unmake_segments unc si e ph 0 img (write_at [] 0 ?hdr) = Inr (img, ?f)"
    using unmake_segments_plain [OF get_field(1) [OF elf(4)] m, of 0] by simp
  then have "unmake_fself unc True path (Some inp) = Inr (0, Some (write_at ?f tpos ?tab))"
    using input ne sh unmake_header_place [OF place elf(2,5) input(3-5)] get_field(2) [OF input(2)] get_field(2) [OF elf(1)]
      get_field(1) [OF elf(3)] get_field(1) [OF elf(4)] elf(6)
    by (simp add: unmake_fself_def SCE_MAGIC_def slice_def)
  moreover have "holds (write_at ?f tpos ?tab) (po i) (bs i)"
    if "i < n" "\<forall>j. i < j \<and> j < n \<longrightarrow> apart (po i) (bs i) (po j) (bs j)" "apart (po i) (bs i) tpos ?tab" for i
    using holds_kept [OF fold_holds [of i n po bs "write_at [] 0 ?hdr"] that(3)] that(1,2) by blast
  moreover have "holds (write_at ?f tpos ?tab) 0 ?hdr" if "\<forall>i<n. apart 0 ?hdr (po i) (bs i)" "apart 0 ?hdr tpos ?tab"
    using holds_kept [OF holds_fold [where js = "[0..<n]" and po = po and bs = bs, OF holds_written [of "[]" 0 ?hdr]] that(2)] that(1) by simp
  ultimately show ?thesis unfolding Let_def using holds_written by blast
qed

text \<open>A SELF with one compressed segment.\<close>

definition small_byte :: "nat \<Rightarrow> u8" where
  "small_byte = (\<lambda>_. 0)(0 := 0x53, 1 := 0x43, 2 := 0x45, 0x40 := 0x90, 0x48 := 0xC8, 0x58 := 0x70, 0x70 := 0xE8, 0x78 := 16, 0x80 := 2,
     0xAC := 0x34, 0xB8 := 0x34, 0xBA := 0x20, 0xBC := 1, 0xCC := 0x54, 0xD8 := 16)"

definition small_self :: "u8 list" where
  "small_self = map small_byte [0..<248]"

lemma small_self_nth: "length small_self = 248" "i < 248 \<Longrightarrow> small_self ! i = small_byte i"
  by (simp_all add: small_self_def)

lemmas small_eval = small_self_nth small_byte_def get16_def get32_def get64_def rd16_def rd32_def join32_def slice_def

definition nines :: "u8 list \<Rightarrow> nat \<Rightarrow> u8 list option" where "nines src n = Some (replicate 9 9)"

theorem unmake_fself_segments_witness:
  "\<exists>f. unmake_fself nines True ''a'' (Some small_self) = Inr (0, Some f) \<and> holds f 0x54 (replicate 9 9 @ replicate 7 0) \<and>
    holds f 0x34 (take 0x20 (drop 0xC8 small_self)) \<and> holds f 0 (take 0x34 (drop 0x90 small_self))"
proof -
  have no: "\<not> begins_elf (drop 0 small_self)"
  proof
    assume "begins_elf (drop 0 small_self)"
    then have "take 8 small_self ! 0 = 0x7F" by (simp add: begins_elf_def)
    then show False by (simp add: small_eval)
  qed
  have f: "field small_self 0 4 0x454353" "field small_self 0x40 8 0x90" "field small_self 0x48 8 0xC8" "field small_self 0x58 8 0x70"
    "field small_self 0x10 8 0" by (simp_all add: field_get small_eval)
  have place: "elf_place small_self small_self 0x90 0xC8"
    unfolding elf_place_def by (rule exI [of _ 0]) (use no f in \<open>simp add: small_self_nth\<close>)
  have h: "field small_self (0x90 + 0x1C) 4 0x34" "field small_self (0x90 + 0x28) 2 0x34" "field small_self (0x90 + 0x2A) 2 0x20"
    "field small_self (0x90 + 0x2C) 2 1" "0x90 + 0x34 \<le> length small_self" "0xC8 + 0x20 * 1 \<le> length small_self"
    by (simp_all add: field_get small_eval)
  have g: "field small_self 0xCC 4 0x54" "field small_self 0xD8 4 16" "field small_self 0x70 8 0xE8" "field small_self 0x78 8 16" "field small_self 0x80 8 2"
    by (simp_all add: field_get small_eval)
  have b: "\<not> begins_elf (replicate 9 9 @ replicate 7 0)" by (auto simp: begins_elf_def dest!: arg_cong [where f = hd])
  have s: "segment_spec nines small_self (0x70 + 32 * i) (0xC8 + 32 * i) 0x54 (replicate 9 9 @ replicate 7 0)" if "i < 1" for i
    by (rule segment_spec_compressed [where off = "0xE8" and len = 16 and x = "replicate 9 9"])
      (use that g b in \<open>simp_all add: nines_def small_self_nth\<close>)
  show ?thesis
    using unmake_fself_segments [OF _ f(1-4) place h s, where path = "''a''"]
    by (auto simp: apart_def small_self_nth)
qed

text \<open>C12. \<open>elf_injector\<close> signs the new contents: after the control information has been rewritten, every digest
  entry with a successor holds the SHA-256 (of FIPS 180-4) of the whole ELF file, no fault happens, and the header before
  the first entry is unchanged. Conditions: the ELF file has fewer than \<open>2 ^ 32\<close> bytes (the length is passed in 32 bits),
  and the control information is a finite chain (\<open>chain\<close>): the entry found by adding up the size fields from the first
  one is each time inside the file, its size field is at least 16 and covers what is written to it, and one of
  them has no successor. Only then the loop of the code ends: lemma \<open>control_loop_stuck\<close> shows that it runs
  forever at an entry of size zero that has a successor. The context buffer has its 64 bytes, as the type of the code says.\<close>

theorem inject_control_digest:
  assumes "length (cdata ctx) = 64" "length elf < 2 ^ 32" "get64 self 0x68 = Inr c" "chain self c es"
  shows "\<exists>self'. inject_control ctx elf self = Some (Inr self') \<and> length self' = length self \<and>
    (\<forall>i<length self. i < c + 16 \<longrightarrow> self' ! i = self ! i) \<and>
    (\<forall>e \<in> set es. get32 self e = Inr 4 \<longrightarrow> slice self' (e + 0x24) 0x20 = Inr (fips_sha256 elf))"
proof -
  have len: "length (fips_sha256 elf) = 0x20" by (simp add: fips_sha256_def)
  show ?thesis
    using control_loop_ok [OF len assms(4)] assms(3) by (simp add: inject_control_def elf_digest_fips [OF assms(1,2)])
qed

definition signed_self :: "u8 list" where
  "signed_self = map ((\<lambda>_. 0)(0x68 := 0x70, 0x70 := 4, 0x74 := 0x50, 0x78 := 1)) [0..<0xD0]"

theorem inject_control_digest_witness:
  "\<exists>self'. inject_control sha_ctx_zero [1, 2, 3] signed_self = Some (Inr self') \<and> slice self' 0x94 0x20 = Inr (fips_sha256 [1, 2, 3])"
proof -
  have h: "get64 signed_self 0x68 = Inr 0x70" "chain signed_self 0x70 [0x70]" "get32 signed_self 0x70 = Inr 4"
    by (simp_all add: signed_self_def small_eval)
  have "length (cdata sha_ctx_zero) = 64" by (simp add: sha_ctx_zero_def)
  then show ?thesis
    using inject_control_digest [of sha_ctx_zero "[1, 2, 3]" signed_self "0x70" "[0x70]"] h by auto
qed

end
