(* ===== verification/FagMenu.thy ===== *)
theory FagMenu
  imports C_Text
begin

text \<open>
  The menus of the FAGDec application, \<open>src/FAGDec/src/app/menu.c\<close>: doubly linked lists of entries on the
  heap. A pointer is \<open>None\<close> (NULL) or an address; reading an address that holds no entry is a fault, the
  value \<open>None\<close>, and so is a loop that does not return. The result of \<open>malloc\<close> is an argument. The lemmas
  relate a menu to the plain list of its items: every operation returns and does to the list what it
  should.
\<close>

section \<open>Entries and menus\<close>

datatype MenuDrawType = MENU_TITLE | MENU_SUBTITLE | MENU_NORMAL

datatype MenuType = MENU_NONE | MENU_WARNING | MENU_BAD | MENU_ENTER | MENU_BACK | MENU_CANCEL | MENU_START | MENU_DISABLE

datatype MenuPaneSide = PANE_LEFT | PANE_RIGHT | PANE_FULLSCREEN

datatype MenuDir = MENU_UP | MENU_DOWN

text \<open>The functions that the application installs as \<open>click_cb\<close>.\<close>

datatype callback = gameEntryCB | gameStatusCB | gameCreditCB | creditsBackCB | statusBackCB
  | statusStartElfCB | statusStartSelfCB | dumpAllCB | dumpModuleEntryBackCB | dumpModuleMenuEntryCB | dumpModuleEntryCB

type_synonym ptr = "nat option"

text \<open>The position of an entry in its menu is an \<open>int\<close>; there are never \<open>2 ^ 31\<close> entries in the 32-bit address space.\<close>

record MenuEntry =
  draw_type :: MenuDrawType
  entry_type :: MenuType
  entry_active :: bool
  position :: int
  label :: string
  click_cb :: "callback option"
  nxt :: ptr
  prv :: ptr

record Menu =
  menu_active :: bool
  visible :: bool
  entry_index :: int
  entry_top :: int
  entry_bottom :: int
  entry_selected :: ptr
  pane :: MenuPaneSide
  entry_start :: ptr
  entry_end :: ptr

type_synonym heap = "nat \<rightharpoonup> MenuEntry"

section \<open>Operations\<close>

definition MenuCreate :: "MenuPaneSide \<Rightarrow> Menu" where
  "MenuCreate p = \<lparr>menu_active = False, visible = True, entry_index = 0, entry_top = 0, entry_bottom = 0,
     entry_selected = None, pane = p, entry_start = None, entry_end = None\<rparr>"

text \<open>The label has 128 bytes: a longer text is cut and has no terminator left.\<close>

definition new_entry :: "Menu \<Rightarrow> MenuDrawType \<Rightarrow> string \<Rightarrow> callback option \<Rightarrow> MenuEntry" where
  "new_entry m dt s cb = \<lparr>draw_type = dt, entry_type = (if dt \<noteq> MENU_NORMAL then MENU_DISABLE else MENU_NONE),
     entry_active = False, position = entry_index m, label = strncpy 128 s, click_cb = cb, nxt = None, prv = entry_end m\<rparr>"

text \<open>\<open>a\<close> is what \<open>malloc\<close> returned; \<open>memset\<close> on NULL is a fault.\<close>

definition MenuAddEntry :: "ptr \<Rightarrow> heap \<Rightarrow> Menu \<Rightarrow> MenuDrawType \<Rightarrow> string \<Rightarrow> callback option \<Rightarrow> (heap \<times> Menu \<times> nat) option" where
  "MenuAddEntry a h m dt s cb = do {
     p \<leftarrow> a;
     let h = h(p \<mapsto> new_entry m dt s cb);
     let m = m\<lparr>entry_index := entry_index m + 1\<rparr>;
     (h, m) \<leftarrow> (case entry_end m of
         Some z \<Rightarrow> do { e \<leftarrow> h z; Some (h(z \<mapsto> e\<lparr>nxt := Some p\<rparr>), m) }
       | None \<Rightarrow> Some (h, if entry_start m = None then m\<lparr>entry_start := Some p\<rparr> else m));
     let m = m\<lparr>entry_end := Some p\<rparr>;
     let m = (if dt = MENU_NORMAL \<and> entry_selected m = None then m\<lparr>entry_selected := Some p\<rparr> else m);
     Some (h, m, p) }"

partial_function (option) find_entry :: "heap \<Rightarrow> int \<Rightarrow> ptr \<Rightarrow> ptr option" where
  "find_entry h idx c = (case c of None \<Rightarrow> Some None
     | Some a \<Rightarrow> do { e \<leftarrow> h a; if position e = idx then Some (Some a) else find_entry h idx (nxt e) })"

definition MenuFindEntry :: "heap \<Rightarrow> Menu \<Rightarrow> int \<Rightarrow> ptr option" where
  "MenuFindEntry h m idx = (if idx > entry_index m then Some None else find_entry h idx (entry_start m))"

partial_function (option) find_type :: "heap \<Rightarrow> MenuType \<Rightarrow> ptr \<Rightarrow> ptr option" where
  "find_type h t c = (case c of None \<Rightarrow> Some None
     | Some a \<Rightarrow> do { e \<leftarrow> h a; if entry_type e = t then Some (Some a) else find_type h t (prv e) })"

definition MenuFindType :: "heap \<Rightarrow> Menu \<Rightarrow> MenuType \<Rightarrow> ptr option" where
  "MenuFindType h m t = find_type h t (entry_end m)"

text \<open>The loop of \<open>MenuFindNextEntry\<close>, in the direction of the link; at the end of the list the starting entry is returned.\<close>

partial_function (option) find_next :: "(MenuEntry \<Rightarrow> ptr) \<Rightarrow> heap \<Rightarrow> nat \<Rightarrow> nat \<Rightarrow> nat option" where
  "find_next link h start c = do { e \<leftarrow> h c;
     (case link e of None \<Rightarrow> Some start
      | Some n \<Rightarrow> do { e' \<leftarrow> h n; if entry_type e' \<noteq> MENU_DISABLE then Some n else find_next link h start n }) }"

definition MenuFindNextEntry :: "heap \<Rightarrow> nat \<Rightarrow> MenuDir \<Rightarrow> nat option" where
  "MenuFindNextEntry h start dir = (case dir of MENU_DOWN \<Rightarrow> find_next nxt h start start | MENU_UP \<Rightarrow> find_next prv h start start)"

text \<open>
  What \<open>MenuDeleteEntry\<close> does to the selection when it deletes the entry at \<open>a\<close>. The assignment in the inner
  condition stores a pointer that is never NULL, so that the selection is then always cleared.
\<close>

definition deselect :: "heap \<Rightarrow> Menu \<Rightarrow> nat \<Rightarrow> int \<Rightarrow> Menu option" where
  "deselect h m a idx = (case entry_selected m of None \<Rightarrow> Some m
     | Some s \<Rightarrow> do { se \<leftarrow> h s;
         if position se \<noteq> idx then Some m
         else do { u \<leftarrow> MenuFindNextEntry h a MENU_UP; ue \<leftarrow> h u;
           let m = m\<lparr>entry_selected := Some u\<rparr>;
           if position ue \<noteq> idx then Some m
           else do { d \<leftarrow> MenuFindNextEntry h a MENU_DOWN;
             let m = m\<lparr>entry_selected := Some d\<rparr>;
             Some (if entry_selected m \<noteq> None then m\<lparr>entry_selected := None\<rparr> else m) } } })"

definition unlink :: "heap \<Rightarrow> Menu \<Rightarrow> nat \<Rightarrow> (heap \<times> Menu \<times> ptr) option" where
  "unlink h m a = do { e \<leftarrow> h a;
     (h, m) \<leftarrow> (case prv e of
         Some p \<Rightarrow> do { pe \<leftarrow> h p; Some (h(p \<mapsto> pe\<lparr>nxt := nxt e\<rparr>), m) }
       | None \<Rightarrow> Some (h, m\<lparr>entry_start := nxt e\<rparr>));
     e \<leftarrow> h a;
     (h, m) \<leftarrow> (case nxt e of
         Some n \<Rightarrow> do { ne \<leftarrow> h n; Some (h(n \<mapsto> ne\<lparr>prv := prv e\<rparr>), m) }
       | None \<Rightarrow> Some (h, m\<lparr>entry_end := prv e\<rparr>));
     Some (h(a := None), m\<lparr>entry_index := entry_index m - 1\<rparr>, nxt e) }"

text \<open>One round of the loop at the entry \<open>a\<close>; the last component is the entry to go on with.\<close>

definition delete_step :: "heap \<Rightarrow> Menu \<Rightarrow> int \<Rightarrow> nat \<Rightarrow> (heap \<times> Menu \<times> ptr) option" where
  "delete_step h m idx a = do { e \<leftarrow> h a;
     if position e = idx then do { m \<leftarrow> deselect h m a idx; unlink h m a }
     else Some (if position e > idx then h(a \<mapsto> e\<lparr>position := position e - 1\<rparr>) else h, m, nxt e) }"

partial_function (option) delete_loop :: "heap \<times> Menu \<Rightarrow> int \<Rightarrow> ptr \<Rightarrow> (heap \<times> Menu) option" where
  "delete_loop s idx c = (case c of None \<Rightarrow> Some s
     | Some a \<Rightarrow> do { r \<leftarrow> delete_step (fst s) (snd s) idx a; delete_loop (fst r, fst (snd r)) idx (snd (snd r)) })"

definition MenuDeleteEntry :: "heap \<Rightarrow> Menu \<Rightarrow> int \<Rightarrow> (heap \<times> Menu) option" where
  "MenuDeleteEntry h m idx = (if idx > entry_index m then Some (h, m) else delete_loop (h, m) idx (entry_start m))"

text \<open>\<open>MenuDelete\<close>: the first entry is read before the loop, an empty menu is a fault. The menu itself is freed by the caller of this definition.\<close>

partial_function (option) free_entries :: "heap \<Rightarrow> nat \<Rightarrow> heap option" where
  "free_entries h c = do { e \<leftarrow> h c;
     (case nxt e of None \<Rightarrow> Some (h(c := None))
      | Some n \<Rightarrow> do { ne \<leftarrow> h n;
         free_entries (case prv ne of None \<Rightarrow> h | Some p \<Rightarrow> h(p := None)) n }) }"

definition MenuDelete :: "heap \<Rightarrow> Menu \<Rightarrow> heap option" where
  "MenuDelete h m = do { a \<leftarrow> entry_start m; free_entries h a }"

text \<open>The two arrow buttons in \<open>handleInput\<close> of \<open>main.c\<close>; \<open>s\<close> is the selected entry.\<close>

definition press_down :: "heap \<Rightarrow> Menu \<Rightarrow> nat \<Rightarrow> Menu option" where
  "press_down h m s = do { n \<leftarrow> MenuFindNextEntry h s MENU_DOWN; e \<leftarrow> h n;
     let m = m\<lparr>entry_selected := Some n\<rparr>;
     Some (if position e > entry_bottom m then m\<lparr>entry_top := entry_top m + 1\<rparr> else m) }"

definition press_up :: "heap \<Rightarrow> Menu \<Rightarrow> nat \<Rightarrow> Menu option" where
  "press_up h m s = do { n \<leftarrow> MenuFindNextEntry h s MENU_UP; se \<leftarrow> h s; e \<leftarrow> h n;
     Some (if position se \<noteq> position e then
         (let m = m\<lparr>entry_selected := Some n\<rparr> in if position e < entry_top m then m\<lparr>entry_top := entry_top m - 1\<rparr> else m)
       else if position e > 0 then m\<lparr>entry_top := entry_top m - 1\<rparr> else m) }"

section \<open>A menu as a list\<close>

text \<open>What an entry shows and does, without its links and its position.\<close>

record item =
  it_draw :: MenuDrawType
  it_type :: MenuType
  it_active :: bool
  it_label :: string
  it_cb :: "callback option"

definition content :: "MenuEntry \<Rightarrow> item" where
  "content e = \<lparr>it_draw = draw_type e, it_type = entry_type e, it_active = entry_active e, it_label = label e, it_cb = click_cb e\<rparr>"

definition at :: "nat list \<Rightarrow> nat \<Rightarrow> ptr" where
  "at as i = (if i < length as then Some (as ! i) else None)"

definition before :: "nat list \<Rightarrow> nat \<Rightarrow> ptr" where
  "before as i = (if i = 0 then None else at as (i - 1))"

text \<open>The entries at the addresses \<open>as\<close> form a doubly linked list; \<open>ix\<close> gives the position that each entry holds.\<close>

definition linked :: "heap \<Rightarrow> nat list \<Rightarrow> (nat \<Rightarrow> int) \<Rightarrow> bool" where
  "linked h as ix \<longleftrightarrow> distinct as \<and> (\<forall>i < length as. \<exists>e. h (as ! i) = Some e \<and> nxt e = at as (Suc i)
     \<and> prv e = before as i \<and> position e = ix i)"

definition items :: "heap \<Rightarrow> nat list \<Rightarrow> item list" where
  "items h as = map (\<lambda>a. content (the (h a))) as"

text \<open>The menu \<open>m\<close> has the items \<open>its\<close>, of which \<open>sel\<close> is selected; its entries are at the addresses \<open>as\<close>.\<close>

definition menu_is :: "heap \<Rightarrow> Menu \<Rightarrow> nat list \<Rightarrow> item list \<Rightarrow> nat option \<Rightarrow> bool" where
  "menu_is h m as its sel \<longleftrightarrow> linked h as int \<and> entry_start m = at as 0 \<and> entry_end m = before as (length as)
     \<and> entry_index m = int (length as) \<and> entry_selected m = Option.bind sel (at as) \<and> (\<forall>i. sel = Some i \<longrightarrow> i < length as)
     \<and> its = items h as"

named_theorems links "lookups in the list of addresses"

lemma at_less [links]: "i < length as \<Longrightarrow> at as i = Some (as ! i)"
  by (simp add: at_def)

lemma at_end [links]: "at as (length as) = None" "at [] i = None"
  by (simp_all add: at_def)

lemma before_less [links]: "i < length as \<Longrightarrow> before as (Suc i) = Some (as ! i)" "before as 0 = None"
  by (simp_all add: before_def at_def)

lemma at_eq_Some: "at as i = Some a \<longleftrightarrow> i < length as \<and> a = as ! i"
  by (auto simp: at_def)

lemma before_eq_Some: "before as i = Some a \<longleftrightarrow> (\<exists>j. i = Suc j \<and> j < length as \<and> a = as ! j)"
  by (cases i) (auto simp: before_def at_def)

lemma before_eq_None: "i \<le> length as \<Longrightarrow> before as i = None \<longleftrightarrow> i = 0"
  by (cases i) (auto simp: before_def at_def)

lemma linkedE:
  assumes "linked h as ix" "i < length as"
  obtains e where "h (as ! i) = Some e" "nxt e = at as (Suc i)" "prv e = before as i" "position e = ix i"
  using assms unfolding linked_def by blast

lemma linked_distinct: "linked h as ix \<Longrightarrow> i < length as \<Longrightarrow> j < length as \<Longrightarrow> as ! i = as ! j \<longleftrightarrow> i = j"
  by (auto simp: linked_def nth_eq_iff_index_eq)

lemma length_items [simp]: "length (items h as) = length as"
  by (simp add: items_def)

lemma items_nth: "i < length as \<Longrightarrow> h (as ! i) = Some e \<Longrightarrow> items h as ! i = content e"
  by (simp add: items_def)

lemma content_sel [simp]: "it_draw (content e) = draw_type e" "it_type (content e) = entry_type e" "it_cb (content e) = click_cb e"
    "it_label (content e) = label e"
  by (simp_all add: content_def)

lemma items_frame: "(\<And>a. a \<in> set as \<Longrightarrow> h' a = h a) \<Longrightarrow> items h' as = items h as"
  by (simp add: items_def)

lemma linked_frame:
  assumes "linked h as ix" "\<And>a. a \<in> set as \<Longrightarrow> h' a = h a"
  shows "linked h' as ix"
  using assms unfolding linked_def by simp

section \<open>Searching\<close>

lemma filter_upt_step:
  "i < n \<Longrightarrow> filter P [i..<n] = (if P i then i # filter P [Suc i..<n] else filter P [Suc i..<n])"
  by (simp add: upt_conv_Cons)

text \<open>The first element of a list, and the last.\<close>

definition first :: "nat list \<Rightarrow> nat option" where
  "first xs = (case xs of [] \<Rightarrow> None | x # _ \<Rightarrow> Some x)"

lemma first_simps [simp]: "first [] = None" "first (x # xs) = Some x" "first xs = None \<longleftrightarrow> xs = []"
  by (auto simp: first_def split: list.split)

lemma first_in: "first xs = Some x \<Longrightarrow> x \<in> set xs"
  by (cases xs) auto

lemma find_entry_at:
  assumes "linked h as ix" "i \<le> length as"
  shows "find_entry h idx (at as i) = Some (Option.bind (first (filter (\<lambda>j. ix j = idx) [i..<length as])) (at as))"
  using assms(2)
proof (induction "length as - i" arbitrary: i)
  case 0
  then have "i = length as" by simp
  then show ?case by (subst find_entry.simps) (simp add: links)
next
  case (Suc n)
  then have i: "i < length as" by simp
  obtain e where e: "h (as ! i) = Some e" "nxt e = at as (Suc i)" "position e = ix i"
    using linkedE [OF assms(1) i] by blast
  have "find_entry h idx (at as (Suc i)) = Some (Option.bind (first (filter (\<lambda>j. ix j = idx) [Suc i..<length as])) (at as))"
    by (rule Suc.hyps) (use Suc.hyps(2) i in auto)
  then show ?case
    using e i by (subst find_entry.simps) (simp add: links filter_upt_step [OF i])
qed

lemma filter_eq_upt: "filter (\<lambda>j. j = k) [i..<n] = (if i \<le> k \<and> k < n then [k] else [])"
  by (induction n) auto

lemma MenuFindEntry_at:
  assumes "menu_is h m as its sel"
  shows "MenuFindEntry h m (int k) = Some (at as k)"
proof -
  have m: "linked h as int" "entry_start m = at as 0" "entry_index m = int (length as)"
    using assms by (auto simp: menu_is_def)
  have "find_entry h (int k) (at as 0) = Some (if k < length as then at as k else None)"
    using find_entry_at [OF m(1), of 0 "int k"] by (simp add: filter_eq_upt)
  then show ?thesis
    unfolding MenuFindEntry_def m(2) by (auto simp: m(3) at_def)
qed

lemma find_type_at:
  assumes "linked h as ix" "i \<le> length as"
  shows "find_type h t (before as i) = Some (Option.bind (first (filter (\<lambda>j. it_type (items h as ! j) = t) (rev [0..<i]))) (at as))"
  using assms(2)
proof (induction i)
  case 0
  then show ?case by (subst find_type.simps) (simp add: links)
next
  case (Suc i)
  then have i: "i < length as" by simp
  obtain e where e: "h (as ! i) = Some e" "prv e = before as i"
    using linkedE [OF assms(1) i] by blast
  show ?case
    using e i Suc by (subst find_type.simps) (simp add: links items_nth)
qed

lemma MenuFindType_at:
  assumes "menu_is h m as its sel"
  shows "MenuFindType h m t = Some (Option.bind (first (filter (\<lambda>j. it_type (its ! j) = t) (rev [0..<length its]))) (at as))"
  using assms find_type_at [of h as int "length as" t] by (auto simp: menu_is_def MenuFindType_def)

text \<open>The entry that \<open>MenuFindNextEntry\<close> returns, as a position: the nearest one that is not disabled, or the start.\<close>

definition enabled :: "item list \<Rightarrow> nat \<Rightarrow> bool" where
  "enabled its j \<longleftrightarrow> it_type (its ! j) \<noteq> MENU_DISABLE"

definition neighbour :: "item list \<Rightarrow> MenuDir \<Rightarrow> nat \<Rightarrow> nat" where
  "neighbour its dir i = (case first (filter (enabled its) (case dir of MENU_DOWN \<Rightarrow> [Suc i..<length its] | MENU_UP \<Rightarrow> rev [0..<i]))
     of None \<Rightarrow> i | Some j \<Rightarrow> j)"

lemma enabled_nth: "i < length as \<Longrightarrow> h (as ! i) = Some e \<Longrightarrow> enabled (items h as) i \<longleftrightarrow> entry_type e \<noteq> MENU_DISABLE"
  by (simp add: enabled_def items_nth)

lemma find_next_down:
  assumes "linked h as ix" "i < length as"
  shows "find_next nxt h start (as ! i) =
    Some (case first (filter (enabled (items h as)) [Suc i..<length as]) of None \<Rightarrow> start | Some j \<Rightarrow> as ! j)"
  using assms(2)
proof (induction "length as - i" arbitrary: i)
  case 0
  then show ?case by simp
next
  case (Suc n)
  obtain e where e: "h (as ! i) = Some e" "nxt e = at as (Suc i)"
    using linkedE [OF assms(1) Suc.prems] by blast
  show ?case
  proof (cases "Suc i < length as")
    case True
    obtain e' where e': "h (as ! Suc i) = Some e'" using linkedE [OF assms(1) True] by blast
    have "find_next nxt h start (as ! Suc i) =
        Some (case first (filter (enabled (items h as)) [Suc (Suc i)..<length as]) of None \<Rightarrow> start | Some j \<Rightarrow> as ! j)"
      by (rule Suc.hyps) (use Suc.hyps(2) True in auto)
    then show ?thesis
      using e e' True
      by (subst find_next.simps) (simp add: links filter_upt_step [OF True] enabled_nth)
  next
    case False
    with Suc.prems have "Suc i = length as" by simp
    then show ?thesis using e by (subst find_next.simps) (simp add: links)
  qed
qed

lemma find_next_up:
  assumes "linked h as ix" "i < length as"
  shows "find_next prv h start (as ! i) =
    Some (case first (filter (enabled (items h as)) (rev [0..<i])) of None \<Rightarrow> start | Some j \<Rightarrow> as ! j)"
  using assms(2)
proof (induction i)
  case 0
  obtain e where "h (as ! 0) = Some e" "prv e = None"
    using linkedE [OF assms(1) 0] by (auto simp: links)
  then show ?case by (subst find_next.simps) simp
next
  case (Suc i)
  then have i: "i < length as" by simp
  obtain e where e: "h (as ! Suc i) = Some e" "prv e = Some (as ! i)"
    using linkedE [OF assms(1) Suc.prems] i by (auto simp: links)
  obtain e' where "h (as ! i) = Some e'" using linkedE [OF assms(1) i] by blast
  then show ?case
    using e i Suc.IH [OF i] by (subst find_next.simps) (simp add: enabled_nth)
qed

lemma neighbour_less: "i < length its \<Longrightarrow> neighbour its dir i < length its"
  by (fastforce simp: neighbour_def split: option.split MenuDir.split dest!: first_in)

lemma MenuFindNextEntry_at:
  assumes "linked h as ix" "i < length as"
  shows "MenuFindNextEntry h (as ! i) dir = Some (as ! neighbour (items h as) dir i)"
  using find_next_down [OF assms] find_next_up [OF assms]
  by (cases dir) (auto simp: MenuFindNextEntry_def neighbour_def split: option.split)

section \<open>Deleting an entry\<close>

definition upd :: "heap \<Rightarrow> ptr \<Rightarrow> (MenuEntry \<Rightarrow> MenuEntry) \<Rightarrow> heap" where
  "upd h q f = (case q of None \<Rightarrow> h | Some p \<Rightarrow> h(p := map_option f (h p)))"

lemma upd_apply: "upd h q f x = (if q = Some x then map_option f (h x) else h x)"
  by (auto simp: upd_def split: option.split)

lemma unlink_eq:
  assumes l: "linked h as ix" and k: "k < length as"
  shows "unlink h m (as ! k) = Some
    ((upd (upd h (before as k) (\<lambda>e. e\<lparr>nxt := at as (Suc k)\<rparr>)) (at as (Suc k)) (\<lambda>e. e\<lparr>prv := before as k\<rparr>)) (as ! k := None),
     (if k = 0 then m\<lparr>entry_start := at as (Suc k)\<rparr> else m)\<lparr>entry_end := (if Suc k = length as then before as k else entry_end m),
       entry_index := entry_index m - 1\<rparr>, at as (Suc k))"
proof -
  obtain e where e: "h (as ! k) = Some e" "nxt e = at as (Suc k)" "prv e = before as k"
    using linkedE [OF l k] by blast
  have n: "\<exists>ne. h (as ! Suc k) = Some ne" if "Suc k < length as"
    using linkedE [OF l that] by blast
  show ?thesis
  proof (cases k)
    case 0
    note e = e [unfolded 0]
    have "length as = Suc 0 \<or> Suc 0 < length as" using k by linarith
    then show ?thesis
      unfolding 0 using e n [unfolded 0] k [unfolded 0]
      by (elim disjE) (auto simp: unlink_def links upd_def at_def)
  next
    case (Suc j)
    then have j: "j < length as" using k by simp
    obtain pe where pe: "h (as ! j) = Some pe" using linkedE [OF l j] by blast
    have ne: "as ! Suc j \<noteq> as ! j" "Suc (Suc j) < length as \<Longrightarrow> as ! Suc (Suc j) \<noteq> as ! j"
        "Suc (Suc j) < length as \<Longrightarrow> as ! Suc (Suc j) \<noteq> as ! Suc j"
      using linked_distinct [OF l] j k Suc by auto
    show ?thesis
      unfolding Suc using e [unfolded Suc] n [unfolded Suc] pe ne j k [unfolded Suc]
      by (cases "Suc (Suc j) < length as") (auto simp: unlink_def links upd_def at_def)
  qed
qed

definition without :: "nat \<Rightarrow> 'a list \<Rightarrow> 'a list" where
  "without k xs = take k xs @ drop (Suc k) xs"

definition skip :: "nat \<Rightarrow> nat \<Rightarrow> nat" where
  "skip k i = (if i < k then i else Suc i)"

lemma skip_less: "i < n - 1 \<Longrightarrow> skip k i < n"
  by (auto simp: skip_def)

lemma length_without: "k < length xs \<Longrightarrow> length (without k xs) = length xs - 1"
  by (simp add: without_def)

lemma without_nth: "k < length xs \<Longrightarrow> i < length xs - 1 \<Longrightarrow> without k xs ! i = xs ! skip k i"
  by (auto simp: without_def skip_def nth_append min_def)

lemma set_without:
  assumes "k < length as" "distinct as"
  shows "set (without k as) = set as - {as ! k}" "distinct (without k as)"
proof -
  have eq: "as = take k as @ as ! k # drop (Suc k) as" using assms(1) by (rule id_take_nth_drop)
  have d: "distinct (take k as @ as ! k # drop (Suc k) as)" using assms(2) eq by argo
  have s: "set as = insert (as ! k) (set (take k as) \<union> set (drop (Suc k) as))"
    using arg_cong [OF eq, of set] by simp
  show "set (without k as) = set as - {as ! k}"
    unfolding s without_def using d by auto
  show "distinct (without k as)" using d by (simp add: without_def)
qed

lemma at_without: "k < length as \<Longrightarrow> at (without k as) i = at as (skip k i)"
  by (auto simp: at_def length_without without_nth skip_def)

lemma before_without: "k < length as \<Longrightarrow> before (without k as) i = (if i \<le> k then before as i else at as i)"
  by (auto simp: before_def at_without skip_def)

lemma linked_unlink:
  assumes l: "linked h as ix" and k: "k < length as"
    and h': "h' = (upd (upd h (before as k) (\<lambda>e. e\<lparr>nxt := at as (Suc k)\<rparr>)) (at as (Suc k)) (\<lambda>e. e\<lparr>prv := before as k\<rparr>)) (as ! k := None)"
  shows "linked h' (without k as) (ix \<circ> skip k)" "items h' (without k as) = without k (items h as)"
proof -
  have d: "distinct as" using l by (simp add: linked_def)
  have cell: "\<exists>e e'. h (as ! skip k i) = Some e \<and> h' (as ! skip k i) = Some e' \<and> nxt e' = at as (skip k (Suc i))
      \<and> prv e' = (if i \<le> k then before as i else at as i) \<and> position e' = ix (skip k i) \<and> content e' = content e"
    if i: "i < length as - 1" for i
  proof -
    have s: "skip k i < length as" using i by (rule skip_less)
    obtain e where e: "h (as ! skip k i) = Some e" "nxt e = at as (Suc (skip k i))" "prv e = before as (skip k i)" "position e = ix (skip k i)"
      using linkedE [OF l s] by blast
    have ne: "as ! skip k i \<noteq> as ! k" using linked_distinct [OF l s k] by (simp add: skip_def)
    have b: "before as k = Some (as ! skip k i) \<longleftrightarrow> Suc i = k"
      using d s k by (auto simp: before_eq_Some skip_def nth_eq_iff_index_eq split: if_splits)
    have a: "at as (Suc k) = Some (as ! skip k i) \<longleftrightarrow> i = k"
      using linked_distinct [OF l s, of "Suc k"] i by (auto simp: at_eq_Some skip_def)
    consider "Suc i < k" | "Suc i = k" | "i = k" | "i > k" by linarith
    then show ?thesis
    proof cases
      case 1
      then show ?thesis using e ne a b by (auto simp: h' upd_apply skip_def)
    next
      case 2
      then show ?thesis using e ne a b by (auto simp: h' upd_apply skip_def content_def)
    next
      case 3
      then show ?thesis using e ne a b by (auto simp: h' upd_apply skip_def content_def)
    next
      case 4
      then have s: "skip k i = Suc i" "skip k (Suc i) = Suc (Suc i)" "\<not> i \<le> k" "i \<noteq> k" "Suc i \<noteq> k" by (auto simp: skip_def)
      have "before as (Suc i) = at as i" by (simp add: before_def)
      then show ?thesis using e ne a b s by (simp add: h' upd_apply)
    qed
  qed
  have "distinct (without k as)" by (rule set_without(2) [OF k d])
  moreover have "\<exists>e. h' (without k as ! i) = Some e \<and> nxt e = at (without k as) (Suc i) \<and> prv e = before (without k as) i
      \<and> position e = (ix \<circ> skip k) i" if "i < length (without k as)" for i
    using cell [of i] that k by (auto simp: without_nth at_without before_without length_without)
  ultimately show "linked h' (without k as) (ix \<circ> skip k)" by (simp add: linked_def)
  show "items h' (without k as) = without k (items h as)"
  proof (rule nth_equalityI)
    show "length (items h' (without k as)) = length (without k (items h as))" using k by (simp add: length_without)
    fix i assume "i < length (items h' (without k as))"
    then have i: "i < length as - 1" using k by (simp add: length_without)
    obtain e e' where c: "h (as ! skip k i) = Some e" "h' (as ! skip k i) = Some e'" "content e' = content e"
      using cell [OF i] by blast
    have s: "skip k i < length as" using i by (rule skip_less)
    show "items h' (without k as) ! i = without k (items h as) ! i"
      using c i k s by (simp add: items_def without_nth length_without)
  qed
qed

lemma delete_before:
  assumes l: "linked h as int" and k: "k \<le> length as" and i: "i \<le> k"
  shows "delete_loop (h, m) (int k) (at as i) = delete_loop (h, m) (int k) (at as k)"
  using i
proof (induction "k - i" arbitrary: i)
  case 0
  then show ?case by simp
next
  case (Suc n)
  then have i: "i < k" by simp
  then have il: "i < length as" using k by simp
  obtain e where e: "h (as ! i) = Some e" "nxt e = at as (Suc i)" "position e = int i"
    using linkedE [OF l il] by blast
  have "delete_loop (h, m) (int k) (at as i) = delete_loop (h, m) (int k) (at as (Suc i))"
    using e i il by (subst delete_loop.simps) (simp add: links delete_step_def)
  also have "\<dots> = delete_loop (h, m) (int k) (at as k)"
    by (rule Suc.hyps) (use Suc.hyps(2) i in auto)
  finally show ?case .
qed

text \<open>Past the deleted entry each position goes down by one.\<close>

lemma delete_after:
  assumes "linked h bs (\<lambda>i. if i < j then int i else int i + 1)" "k \<le> j" "j \<le> length bs"
  shows "\<exists>h'. delete_loop (h, m) (int k) (at bs j) = Some (h', m) \<and> linked h' bs int \<and> items h' bs = items h bs
    \<and> (\<forall>a. a \<notin> set bs \<longrightarrow> h' a = h a)"
  using assms
proof (induction "length bs - j" arbitrary: j h)
  case 0
  then have "j = length bs" by simp
  moreover have "linked h bs int"
    using 0(2) \<open>j = length bs\<close> unfolding linked_def by simp
  ultimately show ?case by (subst delete_loop.simps) (simp add: links)
next
  case (Suc n)
  then have j: "j < length bs" by simp
  obtain e where e: "h (bs ! j) = Some e" "nxt e = at bs (Suc j)" "prv e = before bs j" "position e = int j + 1"
    using linkedE [OF Suc.prems(1) j] by auto
  let ?h = "h(bs ! j \<mapsto> e\<lparr>position := position e - 1\<rparr>)"
  have "linked ?h bs (\<lambda>i. if i < Suc j then int i else int i + 1)"
  proof -
    have "\<exists>e'. ?h (bs ! i) = Some e' \<and> nxt e' = at bs (Suc i) \<and> prv e' = before bs i
        \<and> position e' = (if i < Suc j then int i else int i + 1)" if i: "i < length bs" for i
    proof -
      obtain ei where "h (bs ! i) = Some ei" "nxt ei = at bs (Suc i)" "prv ei = before bs i"
          "position ei = (if i < j then int i else int i + 1)"
        using linkedE [OF Suc.prems(1) i] by blast
      then show ?thesis
        using linked_distinct [OF Suc.prems(1) i j] e by (cases "i = j") auto
    qed
    then show ?thesis using Suc.prems(1) by (simp add: linked_def)
  qed
  moreover have "items ?h bs = items h bs"
    using e(1) by (auto simp: items_def content_def)
  moreover have "delete_loop (h, m) (int k) (at bs j) = delete_loop (?h, m) (int k) (at bs (Suc j))"
    using e Suc.prems(2) j by (subst delete_loop.simps) (simp add: links delete_step_def)
  ultimately show ?case
  proof -
    assume l: "linked ?h bs (\<lambda>i. if i < Suc j then int i else int i + 1)" and it: "items ?h bs = items h bs"
      and run: "delete_loop (h, m) (int k) (at bs j) = delete_loop (?h, m) (int k) (at bs (Suc j))"
    have n: "n = length bs - Suc j" using Suc.hyps(2) by linarith
    obtain h' where "delete_loop (?h, m) (int k) (at bs (Suc j)) = Some (h', m)" "linked h' bs int" "items h' bs = items ?h bs"
        "\<forall>a. a \<notin> set bs \<longrightarrow> h' a = ?h a"
      using Suc.hyps(1) [OF n l] Suc.prems(2) j by auto
    moreover have "?h a = h a" if "a \<notin> set bs" for a using that nth_mem [OF j] by auto
    ultimately show ?thesis unfolding run it [symmetric] by (intro exI [of _ h']) simp
  qed
qed

text \<open>The selection after the deletion of the item \<open>k\<close>.\<close>

definition deselected :: "item list \<Rightarrow> nat option \<Rightarrow> nat \<Rightarrow> nat option" where
  "deselected its sel k = (if sel = Some k then (if neighbour its MENU_UP k = k then None else Some (neighbour its MENU_UP k))
     else map_option (\<lambda>s. if s < k then s else s - 1) sel)"

lemma deselect_eq:
  assumes l: "linked h as int" and k: "k < length as" and s: "entry_selected m = Option.bind sel (at as)" "\<forall>i. sel = Some i \<longrightarrow> i < length as"
  shows "deselect h m (as ! k) (int k) = Some (m\<lparr>entry_selected :=
    (if sel = Some k then (if neighbour (items h as) MENU_UP k = k then None else at as (neighbour (items h as) MENU_UP k)) else entry_selected m)\<rparr>)"
proof (cases sel)
  case None
  then show ?thesis using s by (simp add: deselect_def)
next
  case (Some i)
  then have i: "i < length as" using s(2) by simp
  then obtain e where e: "h (as ! i) = Some e" "position e = int i" using linkedE [OF l] by blast
  let ?u = "neighbour (items h as) MENU_UP k"
  have u: "?u < length as" using neighbour_less [of k "items h as" MENU_UP] k by simp
  then obtain ue where ue: "h (as ! ?u) = Some ue" "position ue = int ?u" using linkedE [OF l] by blast
  show ?thesis
    using e ue s(1) Some i u
    by (auto simp: deselect_def links MenuFindNextEntry_at [OF l k])
qed

lemma neighbour_up: "neighbour its MENU_UP k \<le> k"
  by (fastforce simp: neighbour_def split: option.split dest!: first_in)

lemma MenuDeleteEntry_at:
  assumes "menu_is h m as its sel" and k: "k < length as"
  shows "\<exists>h' m'. MenuDeleteEntry h m (int k) = Some (h', m') \<and> menu_is h' m' (without k as) (without k its) (deselected its sel k)
    \<and> (\<forall>a. a \<notin> set as \<longrightarrow> h' a = h a) \<and> h' (as ! k) = None"
proof -
  have l: "linked h as int" and m: "entry_start m = at as 0" "entry_end m = before as (length as)" "entry_index m = int (length as)"
    and s: "entry_selected m = Option.bind sel (at as)" "\<forall>i. sel = Some i \<longrightarrow> i < length as" and its: "its = items h as"
    using assms(1) by (auto simp: menu_is_def)
  let ?bs = "without k as"
  define u where "u = neighbour its MENU_UP k"
  define m1 where "m1 = m\<lparr>entry_selected := (if sel = Some k then (if u = k then None else at as u) else entry_selected m)\<rparr>"
  define h1 where "h1 = (upd (upd h (before as k) (\<lambda>e. e\<lparr>nxt := at as (Suc k)\<rparr>)) (at as (Suc k)) (\<lambda>e. e\<lparr>prv := before as k\<rparr>)) (as ! k := None)"
  define m2 where "m2 = (if k = 0 then m1\<lparr>entry_start := at as (Suc k)\<rparr> else m1)
    \<lparr>entry_end := (if Suc k = length as then before as k else entry_end m1), entry_index := entry_index m1 - 1\<rparr>"
  have d1: "deselect h m (as ! k) (int k) = Some m1"
    unfolding m1_def u_def its by (rule deselect_eq [OF l k s])
  have d2: "unlink h m1 (as ! k) = Some (h1, m2, at as (Suc k))"
    unfolding h1_def m2_def by (rule unlink_eq [OF l k])
  obtain e where e: "h (as ! k) = Some e" "position e = int k" using linkedE [OF l k] by blast
  have "delete_loop (h, m) (int k) (at as 0) = delete_loop (h, m) (int k) (at as k)"
    by (rule delete_before [OF l]) (use k in auto)
  also have "\<dots> = delete_loop (h1, m2) (int k) (at ?bs k)"
    using e d1 d2 k by (subst delete_loop.simps) (simp add: links delete_step_def at_without skip_def)
  finally have run: "MenuDeleteEntry h m (int k) = delete_loop (h1, m2) (int k) (at ?bs k)"
    using k m by (simp add: MenuDeleteEntry_def)
  have un: "linked h1 ?bs (int \<circ> skip k)" "items h1 ?bs = without k its"
    using linked_unlink [OF l k h1_def] its by auto
  have "int \<circ> skip k = (\<lambda>i. if i < k then int i else int i + 1)" by (auto simp: skip_def)
  with un(1) have kb: "k \<le> length ?bs" and un1: "linked h1 ?bs (\<lambda>i. if i < k then int i else int i + 1)" using k by (simp_all add: length_without)
  obtain h2 where h2: "delete_loop (h1, m2) (int k) (at ?bs k) = Some (h2, m2)" "linked h2 ?bs int"
      "items h2 ?bs = items h1 ?bs" "\<forall>a. a \<notin> set ?bs \<longrightarrow> h2 a = h1 a"
    using delete_after [OF un1 order_refl kb, of m2] by auto
  have d: "distinct as" using l by (simp add: linked_def)
  have sel: "entry_selected m2 = Option.bind (deselected its sel k) (at ?bs)" "\<forall>i. deselected its sel k = Some i \<longrightarrow> i < length ?bs"
    using s k neighbour_up [of its k]
    by (cases sel; auto simp: m2_def m1_def u_def deselected_def at_without skip_def length_without)+
  have "menu_is h2 m2 ?bs (without k its) (deselected its sel k)"
  proof -
    obtain L where L: "length as = Suc L" using k by (cases "length as") auto
    have "entry_end m2 = before ?bs (length ?bs)" "entry_index m2 = int (length ?bs)"
      using m k L by (auto simp: m2_def m1_def length_without before_def at_without skip_def)
    moreover have "entry_start m2 = at ?bs 0" using m k by (simp add: m2_def m1_def at_without skip_def)
    ultimately show ?thesis unfolding menu_is_def using h2(2,3) un(2) sel by simp
  qed
  moreover have "h2 a = h a" if "a \<notin> set as" for a
  proof -
    have "a \<notin> set ?bs" using that set_without(1) [OF k d] by simp
    then have "h2 a = h1 a" using h2(4) by simp
    moreover have "before as k \<noteq> Some a" using that by (auto simp: before_eq_Some)
    moreover have "at as (Suc k) \<noteq> Some a" "a \<noteq> as ! k" using that k by (auto simp: at_eq_Some)
    ultimately have "h2 a = h a" by (simp add: h1_def upd_apply)
    then show ?thesis .
  qed
  moreover have "h2 (as ! k) = None"
    using h2(4) set_without(1) [OF k d] by (simp add: h1_def)
  ultimately show ?thesis using run h2(1) by auto
qed

section \<open>Adding an entry\<close>

definition new_item :: "MenuDrawType \<Rightarrow> string \<Rightarrow> callback option \<Rightarrow> item" where
  "new_item dt s cb = content (new_entry (MenuCreate PANE_LEFT) dt s cb)"

lemma MenuAddEntry_at:
  assumes "menu_is h m as its sel" and p: "h p = None"
  shows "\<exists>h' m'. MenuAddEntry (Some p) h m dt s cb = Some (h', m', p) \<and>
    menu_is h' m' (as @ [p]) (its @ [new_item dt s cb]) (if dt = MENU_NORMAL \<and> sel = None then Some (length its) else sel) \<and>
    (\<forall>a. a \<notin> set as \<and> a \<noteq> p \<longrightarrow> h' a = h a)"
proof -
  have l: "linked h as int" and m: "entry_start m = at as 0" "entry_end m = before as (length as)" "entry_index m = int (length as)"
    and sel: "entry_selected m = Option.bind sel (at as)" "\<forall>i. sel = Some i \<longrightarrow> i < length as" and its: "its = items h as"
    using assms(1) by (auto simp: menu_is_def)
  have d: "distinct as" using l by (simp add: linked_def)
  have pn: "p \<notin> set as"
    using l p unfolding linked_def in_set_conv_nth by force
  have ne: "as ! i \<noteq> p" if "i < length as" for i using pn that by auto
  let ?e = "new_entry m dt s cb"
  let ?h = "upd (h(p \<mapsto> ?e)) (before as (length as)) (\<lambda>e. e\<lparr>nxt := Some p\<rparr>)"
  let ?m = "m\<lparr>entry_index := entry_index m + 1, entry_start := (if as = [] then Some p else entry_start m), entry_end := Some p,
    entry_selected := (if dt = MENU_NORMAL \<and> entry_selected m = None then Some p else entry_selected m)\<rparr>"
  have run: "MenuAddEntry (Some p) h m dt s cb = Some (?h, ?m, p)"
  proof (cases as rule: rev_cases)
    case Nil
    then show ?thesis using m by (auto simp: MenuAddEntry_def links upd_def)
  next
    case (snoc zs z)
    then obtain e where "h z = Some e" using linkedE [OF l, of "length zs"] by auto
    then show ?thesis using m snoc pn by (auto simp: MenuAddEntry_def links upd_def before_def at_def)
  qed
  have last: "before as (length as) = Some (as ! i) \<longleftrightarrow> Suc i = length as" if "i < length as" for i
    using that d by (cases "length as") (auto simp: before_eq_Some nth_eq_iff_index_eq)
  have cell: "\<exists>e. ?h ((as @ [p]) ! i) = Some e \<and> nxt e = at (as @ [p]) (Suc i) \<and> prv e = before (as @ [p]) i \<and> position e = int i"
    if i: "i < length (as @ [p])" for i
  proof (cases "i < length as")
    case True
    obtain e where "h (as ! i) = Some e" "nxt e = at as (Suc i)" "prv e = before as i" "position e = int i"
      using linkedE [OF l True] by blast
    then show ?thesis
      using True last [OF True] ne [OF True] by (auto simp: nth_append upd_apply at_def before_def)
  next
    case False
    then have "i = length as" using i by simp
    then show ?thesis
      using pn m by (auto simp: nth_append upd_apply at_def before_eq_Some new_entry_def before_def)
  qed
  then have "linked ?h (as @ [p]) int" using d pn by (simp add: linked_def)
  moreover have "items ?h (as @ [p]) = its @ [new_item dt s cb]"
  proof -
    have "content (the (?h a)) = content (the (h a))" if "a \<in> set as" for a
      using that l pn by (auto simp: upd_apply content_def linked_def in_set_conv_nth)
    moreover have "content (the (?h p)) = new_item dt s cb"
      using pn by (auto simp: upd_apply before_eq_Some new_item_def content_def new_entry_def)
    ultimately show ?thesis by (simp add: items_def its)
  qed
  ultimately have "menu_is ?h ?m (as @ [p]) (its @ [new_item dt s cb]) (if dt = MENU_NORMAL \<and> sel = None then Some (length its) else sel)"
    using m sel unfolding menu_is_def
    by (auto simp: its at_def before_def nth_append split: option.splits)
  moreover have "?h a = h a" if "a \<notin> set as" "a \<noteq> p" for a
    using that by (auto simp: upd_apply before_eq_Some)
  ultimately show ?thesis using run by auto
qed

section \<open>The other operations\<close>

lemma press_down_at:
  assumes "menu_is h m as its (Some i)"
  shows "\<exists>m'. press_down h m (as ! i) = Some m' \<and> menu_is h m' as its (Some (neighbour its MENU_DOWN i))"
proof -
  have l: "linked h as int" and i: "i < length as" and its: "its = items h as" using assms by (auto simp: menu_is_def)
  let ?n = "neighbour its MENU_DOWN i"
  have n: "?n < length as" using neighbour_less [of i its MENU_DOWN] i its by simp
  obtain e where e: "h (as ! ?n) = Some e" "position e = int ?n" using linkedE [OF l n] by blast
  show ?thesis
    using MenuFindNextEntry_at [OF l i, of MENU_DOWN] e n assms its
    by (auto simp: press_down_def menu_is_def links Let_def)
qed

lemma press_up_at:
  assumes "menu_is h m as its (Some i)"
  shows "\<exists>m'. press_up h m (as ! i) = Some m' \<and> menu_is h m' as its (Some (neighbour its MENU_UP i))"
proof -
  have l: "linked h as int" and i: "i < length as" and its: "its = items h as" using assms by (auto simp: menu_is_def)
  let ?n = "neighbour its MENU_UP i"
  have n: "?n < length as" using neighbour_less [of i its MENU_UP] i its by simp
  obtain e where e: "h (as ! ?n) = Some e" "position e = int ?n" using linkedE [OF l n] by blast
  obtain se where se: "h (as ! i) = Some se" "position se = int i" using linkedE [OF l i] by blast
  show ?thesis
    using MenuFindNextEntry_at [OF l i, of MENU_UP] e se n assms its
    by (auto simp: press_up_def menu_is_def links Let_def)
qed

text \<open>An assignment to the type of an entry.\<close>

definition set_type :: "heap \<Rightarrow> nat \<Rightarrow> MenuType \<Rightarrow> heap option" where
  "set_type h a t = do { e \<leftarrow> h a; Some (h(a \<mapsto> e\<lparr>entry_type := t\<rparr>)) }"

lemma set_type_at:
  assumes "menu_is h m as its sel" "k < length as"
  shows "\<exists>h'. set_type h (as ! k) t = Some h' \<and> menu_is h' m as (its[k := (its ! k)\<lparr>it_type := t\<rparr>]) sel \<and> (\<forall>a. a \<noteq> as ! k \<longrightarrow> h' a = h a)"
proof -
  have l: "linked h as int" and its: "its = items h as" using assms by (auto simp: menu_is_def)
  obtain e where e: "h (as ! k) = Some e" using linkedE [OF l assms(2)] by blast
  let ?h = "h(as ! k \<mapsto> e\<lparr>entry_type := t\<rparr>)"
  have "linked ?h as int"
    unfolding linked_def
  proof (intro conjI allI impI)
    show "distinct as" using l by (simp add: linked_def)
    fix i assume i: "i < length as"
    obtain ei where "h (as ! i) = Some ei" "nxt ei = at as (Suc i)" "prv ei = before as i" "position ei = int i"
      using linkedE [OF l i] by blast
    then show "\<exists>e'. ?h (as ! i) = Some e' \<and> nxt e' = at as (Suc i) \<and> prv e' = before as i \<and> position e' = int i"
      using e by (cases "as ! i = as ! k") auto
  qed
  moreover have "items ?h as = its[k := (its ! k)\<lparr>it_type := t\<rparr>]"
  proof (rule nth_equalityI)
    show "length (items ?h as) = length (its[k := (its ! k)\<lparr>it_type := t\<rparr>])" by (simp add: its)
    fix i assume "i < length (items ?h as)"
    then have i: "i < length as" by simp
    then show "items ?h as ! i = its[k := (its ! k)\<lparr>it_type := t\<rparr>] ! i"
      using e assms(2) linked_distinct [OF l i assms(2)] by (auto simp: its items_def nth_list_update content_def)
  qed
  ultimately show ?thesis
    using assms e by (auto simp: set_type_def menu_is_def)
qed

lemma free_entries_at:
  assumes "distinct as" "i < length as"
    and "\<And>j. i \<le> j \<Longrightarrow> j < length as \<Longrightarrow> \<exists>e. h (as ! j) = Some e \<and> nxt e = at as (Suc j) \<and> prv e = before as j"
  shows "free_entries h (as ! i) = Some (\<lambda>a. if a \<in> set (drop i as) then None else h a)"
  using assms(2,3)
proof (induction "length as - i" arbitrary: i h)
  case 0
  then show ?case by simp
next
  case (Suc n)
  obtain e where e: "h (as ! i) = Some e" "nxt e = at as (Suc i)" using Suc.prems by blast
  have dr: "drop i as = as ! i # drop (Suc i) as" by (rule Cons_nth_drop_Suc [symmetric, OF Suc.prems(1)])
  show ?case
  proof (cases "Suc i < length as")
    case True
    obtain ne where ne: "h (as ! Suc i) = Some ne" "prv ne = before as (Suc i)" using Suc.prems(2) [of "Suc i"] True by auto
    let ?h = "h(as ! i := None)"
    have "free_entries h (as ! i) = free_entries ?h (as ! Suc i)"
      using e ne True by (subst free_entries.simps) (simp add: links)
    also have "\<dots> = Some (\<lambda>a. if a \<in> set (drop (Suc i) as) then None else ?h a)"
    proof (rule Suc.hyps(1))
      show "n = length as - Suc i" using Suc.hyps(2) by linarith
      show "\<exists>e. ?h (as ! j) = Some e \<and> nxt e = at as (Suc j) \<and> prv e = before as j" if "Suc i \<le> j" "j < length as" for j
      proof -
        have "as ! j \<noteq> as ! i" using assms(1) that by (auto simp: nth_eq_iff_index_eq)
        then show ?thesis using Suc.prems(2) [of j] that by simp
      qed
    qed (rule True)
    also have "\<dots> = Some (\<lambda>a. if a \<in> set (drop i as) then None else h a)"
      unfolding dr by auto
    finally show ?thesis .
  next
    case False
    then have "drop (Suc i) as = []" "at as (Suc i) = None" by (auto simp: at_def)
    then show ?thesis using e unfolding dr by (subst free_entries.simps) auto
  qed
qed

text \<open>\<open>MenuDelete\<close> frees the entries of the menu and nothing else; on a menu without entries it reads through NULL.\<close>

lemma MenuDelete_at:
  assumes "menu_is h m as its sel"
  shows "MenuDelete h m = (if as = [] then None else Some (\<lambda>a. if a \<in> set as then None else h a))"
proof (cases as)
  case Nil
  then show ?thesis using assms by (simp add: MenuDelete_def menu_is_def links)
next
  case (Cons a bs)
  have "linked h as int" "entry_start m = Some (as ! 0)" using assms Cons by (auto simp: menu_is_def at_def)
  then show ?thesis
    using free_entries_at [of as 0 h] Cons by (auto simp: MenuDelete_def linked_def)
qed

section \<open>Runs\<close>

text \<open>
  What the application does to a menu: adding an entry at the address that \<open>malloc\<close> returned, deleting the
  entry at a position, assigning the type of the entry at a position, the arrow buttons.
\<close>

datatype menu_op = Add nat MenuDrawType string "callback option" | Remove nat | Retype nat MenuType | Down | Up

fun perform :: "menu_op \<Rightarrow> heap \<times> Menu \<Rightarrow> (heap \<times> Menu) option" where
  "perform (Add a dt s cb) (h, m) = map_option (\<lambda>(h, m, p). (h, m)) (MenuAddEntry (Some a) h m dt s cb)"
| "perform (Remove k) (h, m) = MenuDeleteEntry h m (int k)"
| "perform (Retype k t) (h, m) = do { p \<leftarrow> MenuFindEntry h m (int k);
     (case p of None \<Rightarrow> Some (h, m) | Some a \<Rightarrow> map_option (\<lambda>h. (h, m)) (set_type h a t)) }"
| "perform Down (h, m) = (case entry_selected m of None \<Rightarrow> Some (h, m) | Some s \<Rightarrow> map_option (\<lambda>m. (h, m)) (press_down h m s))"
| "perform Up (h, m) = (case entry_selected m of None \<Rightarrow> Some (h, m) | Some s \<Rightarrow> map_option (\<lambda>m. (h, m)) (press_up h m s))"

fun performs :: "menu_op list \<Rightarrow> heap \<times> Menu \<Rightarrow> (heap \<times> Menu) option" where
  "performs [] s = Some s"
| "performs (x # xs) s = do { s \<leftarrow> perform x s; performs xs s }"

text \<open>\<open>malloc\<close> never returns an address in use.\<close>

fun fresh_op :: "menu_op \<Rightarrow> heap \<Rightarrow> bool" where
  "fresh_op (Add a dt s cb) h = (h a = None)"
| "fresh_op x h = True"

fun allocated :: "menu_op list \<Rightarrow> heap \<times> Menu \<Rightarrow> bool" where
  "allocated [] s = True"
| "allocated (x # xs) s = (fresh_op x (fst s) \<and> (case perform x s of None \<Rightarrow> True | Some s' \<Rightarrow> allocated xs s'))"

text \<open>The same operations on a list of items and the position of the selection.\<close>

type_synonym listing = "item list \<times> nat option"

fun meaning :: "menu_op \<Rightarrow> listing \<Rightarrow> listing" where
  "meaning (Add a dt s cb) (its, sel) =
     (its @ [new_item dt s cb], if dt = MENU_NORMAL \<and> sel = None then Some (length its) else sel)"
| "meaning (Remove k) (its, sel) = (if k < length its then (without k its, deselected its sel k) else (its, sel))"
| "meaning (Retype k t) (its, sel) = (if k < length its then its[k := (its ! k)\<lparr>it_type := t\<rparr>] else its, sel)"
| "meaning Down (its, sel) = (its, map_option (neighbour its MENU_DOWN) sel)"
| "meaning Up (its, sel) = (its, map_option (neighbour its MENU_UP) sel)"

lemma menu_is_create: "menu_is h (MenuCreate p) [] [] None"
  by (simp add: menu_is_def MenuCreate_def linked_def items_def links)

lemma menu_is_length: "menu_is h m as its sel \<Longrightarrow> length its = length as"
  by (auto simp: menu_is_def)

lemma delete_beyond:
  assumes "menu_is h m as its sel" "length as \<le> k"
  shows "MenuDeleteEntry h m (int k) = Some (h, m)"
proof (cases "k = length as")
  case True
  have l: "linked h as int" and m: "entry_start m = at as 0" "entry_index m = int (length as)" using assms by (auto simp: menu_is_def)
  have "delete_loop (h, m) (int k) (at as 0) = delete_loop (h, m) (int k) (at as k)"
    by (rule delete_before [OF l]) (use True in auto)
  also have "\<dots> = Some (h, m)" unfolding True by (subst delete_loop.simps) (simp add: links)
  finally show ?thesis using m True by (simp add: MenuDeleteEntry_def)
next
  case False
  then show ?thesis using assms by (simp add: MenuDeleteEntry_def menu_is_def)
qed

lemma perform_at:
  assumes "menu_is h m as its sel" "fresh_op x h"
  shows "\<exists>h' m' as'. perform x (h, m) = Some (h', m') \<and> menu_is h' m' as' (fst (meaning x (its, sel))) (snd (meaning x (its, sel)))"
proof (cases x)
  case (Add a dt s cb)
  then have "h a = None" using assms(2) by simp
  from MenuAddEntry_at [OF assms(1) this, of dt s cb] show ?thesis unfolding Add by auto
next
  case (Remove k)
  show ?thesis
  proof (cases "k < length as")
    case True
    then show ?thesis
      using MenuDeleteEntry_at [OF assms(1) True] menu_is_length [OF assms(1)] unfolding Remove by auto
  next
    case False
    then show ?thesis
      using delete_beyond [OF assms(1)] menu_is_length [OF assms(1)] assms(1) unfolding Remove by auto
  qed
next
  case (Retype k t)
  show ?thesis
  proof (cases "k < length as")
    case True
    then show ?thesis
      using MenuFindEntry_at [OF assms(1), of k] set_type_at [OF assms(1) True, of t] menu_is_length [OF assms(1)]
      unfolding Retype by (auto simp: at_less)
  next
    case False
    then show ?thesis
      using MenuFindEntry_at [OF assms(1), of k] menu_is_length [OF assms(1)] assms(1) unfolding Retype by (auto simp: at_def)
  qed
next
  case Down
  have s: "entry_selected m = Option.bind sel (at as)" "\<forall>i. sel = Some i \<longrightarrow> i < length as" using assms(1) by (auto simp: menu_is_def)
  show ?thesis
  proof (cases sel)
    case (Some i)
    obtain m' where "press_down h m (as ! i) = Some m'" "menu_is h m' as its (Some (neighbour its MENU_DOWN i))"
      using press_down_at assms(1) Some by blast
    moreover have "entry_selected m = Some (as ! i)" using s Some by (simp add: at_less)
    ultimately show ?thesis unfolding Down Some by auto
  qed (use assms(1) s Down in auto)
next
  case Up
  have s: "entry_selected m = Option.bind sel (at as)" "\<forall>i. sel = Some i \<longrightarrow> i < length as" using assms(1) by (auto simp: menu_is_def)
  show ?thesis
  proof (cases sel)
    case (Some i)
    obtain m' where "press_up h m (as ! i) = Some m'" "menu_is h m' as its (Some (neighbour its MENU_UP i))"
      using press_up_at assms(1) Some by blast
    moreover have "entry_selected m = Some (as ! i)" using s Some by (simp add: at_less)
    ultimately show ?thesis unfolding Up Some by auto
  qed (use assms(1) s Up in auto)
qed

lemma performs_at:
  assumes "menu_is h m as its sel" "allocated xs (h, m)"
  shows "\<exists>h' m' as'. performs xs (h, m) = Some (h', m') \<and>
    menu_is h' m' as' (fst (fold meaning xs (its, sel))) (snd (fold meaning xs (its, sel)))"
  using assms
proof (induction xs arbitrary: h m as its sel)
  case Nil
  then show ?case by auto
next
  case (Cons x xs)
  obtain h1 m1 as1 where r: "perform x (h, m) = Some (h1, m1)"
      "menu_is h1 m1 as1 (fst (meaning x (its, sel))) (snd (meaning x (its, sel)))"
    using perform_at [OF Cons.prems(1), of x] Cons.prems(2) by auto
  then show ?case
    using Cons.IH [OF r(2)] Cons.prems(2) by simp
qed

text \<open>C16. From a menu just created, every sequence of additions, deletions, type changes and arrow buttons runs
  without a bad pointer and ends, and the doubly linked list that it leaves holds exactly the items, in order,
  and the selection that the same operations give on a plain list.\<close>

theorem menu_refines_list:
  assumes "allocated xs (h, MenuCreate p)"
  shows "\<exists>h' m' as. performs xs (h, MenuCreate p) = Some (h', m') \<and>
    menu_is h' m' as (fst (fold meaning xs ([], None))) (snd (fold meaning xs ([], None)))"
  by (rule performs_at [OF menu_is_create assms])

theorem menu_refines_list_witness:
  "\<exists>h' m' as. performs [Add 8 MENU_TITLE ''T'' None, Add 16 MENU_NORMAL ''A'' None, Remove 0, Add 8 MENU_NORMAL ''B'' None, Down]
      (Map.empty, MenuCreate PANE_LEFT) = Some (h', m') \<and>
    menu_is h' m' as [new_item MENU_NORMAL ''A'' None, new_item MENU_NORMAL ''B'' None] (Some 1)"
proof -
  let ?xs = "[Add 8 MENU_TITLE ''T'' None, Add 16 MENU_NORMAL ''A'' None, Remove 0, Add 8 MENU_NORMAL ''B'' None, Down]"
  have "allocated ?xs (Map.empty, MenuCreate PANE_LEFT)"
    by (simp add: MenuAddEntry_def MenuCreate_def new_entry_def MenuDeleteEntry_def delete_loop.simps delete_step_def
        deselect_def unlink_def Let_def split: option.split)
  from menu_refines_list [OF this]
  show ?thesis
    by (simp add: without_def deselected_def neighbour_def enabled_def new_item_def content_def new_entry_def upt_rec)
qed

text \<open>Whether the selection, if there is one, is an entry that can be selected.\<close>

definition selection_ok :: "listing \<Rightarrow> bool" where
  "selection_ok l \<longleftrightarrow> (\<forall>i. snd l = Some i \<longrightarrow> i < length (fst l) \<and> enabled (fst l) i)"

lemma neighbour_enabled: "enabled its i \<Longrightarrow> enabled its (neighbour its dir i)"
  by (fastforce simp: neighbour_def split: option.split dest!: first_in)

lemma neighbour_moved: "neighbour its dir i \<noteq> i \<Longrightarrow> enabled its (neighbour its dir i)"
  by (fastforce simp: neighbour_def split: option.splits dest!: first_in)

lemma selection_ok_meaning:
  assumes "selection_ok l" "\<And>k. x \<noteq> Retype k MENU_DISABLE"
  shows "selection_ok (meaning x l)"
proof (cases l)
  case (Pair its sel)
  show ?thesis
  proof (cases x)
    case (Add a dt s cb)
    have "enabled (its @ [new_item MENU_NORMAL s cb]) (length its)"
      by (simp add: enabled_def new_item_def content_def new_entry_def)
    moreover have "enabled (its @ [i]) j = enabled its j" if "j < length its" for i j
      using that by (simp add: enabled_def nth_append)
    ultimately show ?thesis using assms(1) by (auto simp: Pair Add selection_ok_def)
  next
    case (Remove k)
    have skipped: "enabled (without k its) j = enabled its (skip k j)" if "k < length its" "j < length its - 1" for j
      using that by (simp add: enabled_def without_nth)
    show ?thesis
      using assms(1) neighbour_up [of its k] neighbour_moved [of its MENU_UP k]
      by (auto simp: Pair Remove selection_ok_def deselected_def length_without skipped skip_def split: if_splits) linarith+
  next
    case (Retype k t)
    then show ?thesis
      using assms by (auto simp: Pair selection_ok_def enabled_def nth_list_update)
  next
    case Down
    then show ?thesis
      using assms(1) neighbour_enabled neighbour_less by (fastforce simp: Pair selection_ok_def)
  next
    case Up
    then show ?thesis
      using assms(1) neighbour_enabled neighbour_less by (fastforce simp: Pair selection_ok_def)
  qed
qed

lemma selection_ok_fold:
  assumes "selection_ok l" "\<forall>k. Retype k MENU_DISABLE \<notin> set xs"
  shows "selection_ok (fold meaning xs l)"
  using assms
proof (induction xs arbitrary: l)
  case (Cons x xs)
  have "selection_ok (meaning x l)" by (rule selection_ok_meaning) (use Cons.prems in auto)
  then show ?case using Cons by auto
qed simp

text \<open>The selected entry in the heap is one of the menu that is not a title or a subtitle.\<close>

definition selected_enabled :: "heap \<Rightarrow> Menu \<Rightarrow> bool" where
  "selected_enabled h m = (case entry_selected m of None \<Rightarrow> True
     | Some a \<Rightarrow> (case h a of None \<Rightarrow> False | Some e \<Rightarrow> entry_type e \<noteq> MENU_DISABLE))"

text \<open>C17. As long as the application disables no entry itself, the selection of a menu always points to a live
  entry that is not disabled, whatever is added, deleted and moved.\<close>

theorem selection_stays_enabled:
  assumes "allocated xs (h, MenuCreate p)" and "\<forall>k. Retype k MENU_DISABLE \<notin> set xs"
  shows "\<exists>h' m'. performs xs (h, MenuCreate p) = Some (h', m') \<and> selected_enabled h' m'"
proof -
  obtain h' m' as where r: "performs xs (h, MenuCreate p) = Some (h', m')"
      "menu_is h' m' as (fst (fold meaning xs ([], None))) (snd (fold meaning xs ([], None)))"
    using performs_at [OF menu_is_create assms(1)] by blast
  obtain its sel where f: "fold meaning xs ([], None) = (its, sel)" by fastforce
  have ok: "selection_ok (its, sel)"
    using selection_ok_fold [OF _ assms(2), of "([], None)"] f by (simp add: selection_ok_def)
  have m: "linked h' as int" "entry_selected m' = Option.bind sel (at as)" "\<forall>i. sel = Some i \<longrightarrow> i < length as" "its = items h' as"
    using r(2) f by (auto simp: menu_is_def)
  have "selected_enabled h' m'"
  proof (cases sel)
    case (Some i)
    then have i: "i < length as" using m by simp
    obtain e where e: "h' (as ! i) = Some e" using linkedE [OF m(1) i] by blast
    have "enabled its i" using ok Some by (simp add: selection_ok_def)
    then show ?thesis using e i m Some by (simp add: selected_enabled_def at_less enabled_nth)
  qed (use m in \<open>simp add: selected_enabled_def\<close>)
  then show ?thesis using r(1) by blast
qed

theorem selection_stays_enabled_witness:
  "\<exists>h' m'. performs [Add 8 MENU_TITLE ''T'' None, Add 16 MENU_NORMAL ''A'' None, Retype 1 MENU_WARNING, Remove 1]
      (Map.empty, MenuCreate PANE_RIGHT) = Some (h', m') \<and> selected_enabled h' m'"
proof -
  let ?xs = "[Add 8 MENU_TITLE ''T'' None, Add 16 MENU_NORMAL ''A'' None, Retype 1 MENU_WARNING, Remove 1]"
  have "allocated ?xs (Map.empty, MenuCreate PANE_RIGHT)"
    by (simp add: MenuAddEntry_def MenuCreate_def new_entry_def Let_def split: option.split)
  then show ?thesis by (rule selection_stays_enabled) simp
qed

text \<open>
  Deleting the selected entry when no entry above it can be selected leaves the menu without a selection,
  also when an entry below it could be selected: the inner condition of \<open>MenuDeleteEntry\<close> assigns instead of
  comparing. The arrow buttons do nothing from then on.
\<close>

lemma delete_loses_selection:
  assumes "menu_is h m as its (Some k)" and "neighbour its MENU_UP k = k"
  shows "\<exists>h' m'. MenuDeleteEntry h m (int k) = Some (h', m') \<and> entry_selected m' = None
    \<and> perform Down (h', m') = Some (h', m') \<and> perform Up (h', m') = Some (h', m')"
proof -
  have k: "k < length as" using assms(1) by (simp add: menu_is_def)
  obtain h' m' where r: "MenuDeleteEntry h m (int k) = Some (h', m')"
      "menu_is h' m' (without k as) (without k its) (deselected its (Some k) k)"
    using MenuDeleteEntry_at [OF assms(1) k] by blast
  then have "entry_selected m' = None" using assms(2) by (simp add: menu_is_def deselected_def)
  then show ?thesis using r(1) by simp
qed

lemma delete_loses_selection_witness:
  "\<exists>h m h' m'. performs [Add 8 MENU_NORMAL ''A'' None, Add 16 MENU_NORMAL ''B'' None] (Map.empty, MenuCreate PANE_RIGHT) = Some (h, m)
    \<and> MenuDeleteEntry h m 0 = Some (h', m') \<and> entry_selected m' = None"
proof -
  let ?xs = "[Add 8 MENU_NORMAL ''A'' None, Add 16 MENU_NORMAL ''B'' None]"
  let ?its = "[new_item MENU_NORMAL ''A'' None, new_item MENU_NORMAL ''B'' None]"
  have "allocated ?xs (Map.empty, MenuCreate PANE_RIGHT)"
    by (simp add: MenuAddEntry_def MenuCreate_def new_entry_def Let_def split: option.split)
  then obtain h m as where r: "performs ?xs (Map.empty, MenuCreate PANE_RIGHT) = Some (h, m)" "menu_is h m as ?its (Some 0)"
    using performs_at [OF menu_is_create] by fastforce
  have "neighbour ?its MENU_UP 0 = 0" by (simp add: neighbour_def)
  from delete_loses_selection [OF r(2) this] r(1) show ?thesis by auto
qed

text \<open>
  \<open>MenuDelete\<close> frees every entry of the menu, once, and nothing else. On a menu without entries it reads
  through a NULL pointer.
\<close>

lemma MenuDelete_frees:
  assumes "menu_is h m as its sel"
  shows "MenuDelete h m = (if its = [] then None else Some (\<lambda>a. if a \<in> set as then None else h a))"
  using MenuDelete_at [OF assms] menu_is_length [OF assms] by auto

lemma MenuDelete_frees_witness:
  "MenuDelete Map.empty (MenuCreate PANE_LEFT) = None"
  using MenuDelete_frees [OF menu_is_create [of Map.empty PANE_LEFT]] by simp

end
