(* ===== verification/ErrorCodes.thy ===== *)
theory ErrorCodes
  imports C_Text
begin

text \<open>
  The error code resolver, \<open>PSVita-error-code-resolver/src/main.c\<close>: the table of error codes in
  \<open>error_table.bin\<close>, the short text of a code (facility, number and check digit) and the search for the code
  of a short text. The tables are byte lists as read from the file; \<open>junk\<close> arguments stand for what
  an uninitialised variable or a missing argument of \<open>snprintf\<close> holds.
\<close>

section \<open>The table\<close>

definition le16 :: "u8 list \<Rightarrow> nat \<Rightarrow> nat" where
  "le16 bs i = unat (bs ! i) + 256 * unat (bs ! Suc i)"

text \<open>
  The eight bytes at offset 0 (default facility, number of groups, last known index), the groups, the four bytes at
  offset 12 (first number, number of errors) and the error codes.
\<close>

record error_table =
  head8 :: "u8 list"
  groups :: "u8 list"
  mid4 :: "u8 list"
  error_list :: "u32 list"

definition group_num :: "error_table \<Rightarrow> nat" where "group_num t = le16 (head8 t) 4"

definition last_known :: "error_table \<Rightarrow> nat" where "last_known t = le16 (head8 t) 6"

definition first_number :: "error_table \<Rightarrow> nat" where "first_number t = le16 (mid4 t) 0"

definition error_num :: "error_table \<Rightarrow> nat" where "error_num t = le16 (mid4 t) 2"

datatype table_error = NoFile | ShortFile | TooManyGroups nat | TooManyErrors nat

text \<open>\<open>fread\<close> that has to fill the buffer: the bytes and the rest of the file.\<close>

definition fread :: "nat \<Rightarrow> u8 list \<Rightarrow> table_error + u8 list \<times> u8 list" where
  "fread n f = (if n \<le> length f then Inr (take n f, drop n f) else Inl ShortFile)"

fun words32 :: "u8 list \<Rightarrow> u32 list" where
  "words32 (a # b # c # d # bs) = join32 a b c d # words32 bs"
| "words32 bs = []"

text \<open>A count read as a negative \<open>short\<close> is a large unsigned number, so that both limits reject it.\<close>

definition read_error_table :: "u8 list option \<Rightarrow> table_error + error_table" where
  "read_error_table file = (case file of None \<Rightarrow> Inl NoFile | Some f \<Rightarrow>
     ebind (fread 8 f) (\<lambda>(h, f).
       if le16 h 4 \<le> 0x21 then
         ebind (fread (8 * le16 h 4) f) (\<lambda>(g, f). ebind (fread 4 f) (\<lambda>(m, f).
           if le16 m 2 \<le> 0x4e21 then
             ebind (fread (4 * le16 m 2) f) (\<lambda>(e, f). Inr \<lparr>head8 = h, groups = g, mid4 = m, error_list = words32 e\<rparr>)
           else Inl (TooManyErrors (le16 m 2))))
       else Inl (TooManyGroups (le16 h 4))))"

section \<open>The short text of a code\<close>

text \<open>A C string in memory; the buffers were allocated with zeros, so that there is an end.\<close>

definition cstring :: "u8 list \<Rightarrow> string" where
  "cstring bs = map (\<lambda>b. char_of (unat b)) (takeWhile (\<lambda>b. b \<noteq> 0) bs)"

text \<open>\<open>snprintf\<close> into 16 bytes.\<close>

definition snprintf16 :: "string \<Rightarrow> string" where
  "snprintf16 s = take 15 s"

text \<open>The loop from line 65: the index of the code in the list, after the first element.\<close>

function find_code :: "u32 list \<Rightarrow> nat \<Rightarrow> u32 \<Rightarrow> nat \<Rightarrow> nat option" where
  "find_code es n c i = (if Suc i < n then (if es ! Suc i = c then Some (Suc i) else find_code es n c (Suc i)) else None)"
  by auto
termination by (relation "measure (\<lambda>(es, n, c, i). n - i)") auto

declare find_code.simps [simp del]

text \<open>The loop from line 83 over the groups: where the name of the facility is.\<close>

function find_group :: "u8 list \<Rightarrow> nat \<Rightarrow> nat \<Rightarrow> nat \<Rightarrow> nat option" where
  "find_group g n s k = (if le16 g (8 * k) \<le> s \<and> s < le16 g (8 * k) + le16 g (8 * k + 2) then Some (8 * k + 4)
     else if Suc k \<ge> n then None else find_group g n s (Suc k))"
  by auto
termination by (relation "measure (\<lambda>(g, n, s, k). n - k)") auto

declare find_group.simps [simp del]

definition facility :: "error_table \<Rightarrow> u32 \<Rightarrow> string" where
  "facility t c = (let s = unat (drop_bit 16 c AND 0xFFF) in
     if 0x200 \<le> s \<and> s \<le> 0x2FF then ''NS''
     else if group_num t \<noteq> 0 then
       (case find_group (groups t) (group_num t) s 0 of Some o1 \<Rightarrow> cstring (drop o1 (groups t)) | None \<Rightarrow> cstring (head8 t))
     else cstring (head8 t))"

function digit_sum :: "nat \<Rightarrow> nat \<Rightarrow> nat" where
  "digit_sum d ii = (if d div 10 = 0 then ii + d mod 10 else digit_sum (d div 10) (ii + d mod 10))"
  by auto
termination by (relation "measure fst") auto

declare digit_sum.simps [simp del]

definition lastBit :: "nat \<Rightarrow> nat" where
  "lastBit n = (if n \<noteq> 0 then digit_sum n 0 mod 10 else 0)"

definition short_code :: "error_table \<Rightarrow> u32 \<Rightarrow> nat \<Rightarrow> string" where
  "short_code t c i = (let n = first_number t + i in snprintf16 (facility t c @ ''-'' @ dec n @ ''-'' @ dec (lastBit n)))"

definition hex8 :: "u32 \<Rightarrow> string" where
  "hex8 w = map (\<lambda>c. let k = of_char c :: nat in if 65 \<le> k then char_of (k + 32) else c) (hex_pad 8 (unat w))"

definition error_code_to_string :: "error_table \<Rightarrow> u32 \<Rightarrow> u32 \<Rightarrow> string" where
  "error_code_to_string t junk c =
     (if error_num t = 0 then snprintf16 (''E-'' @ hex8 c)
      else if error_list t ! 0 = c then short_code t c 0
      else (case find_code (error_list t) (error_num t) c 0 of
          None \<Rightarrow> snprintf16 (''E-'' @ hex8 c)
        | Some i \<Rightarrow> if i \<le> last_known t then short_code t c i else snprintf16 (''*-'' @ hex8 junk)))"

section \<open>The program\<close>

text \<open>The search for the code of a short text: the first code of the table that has this text.\<close>

function bruteforce :: "error_table \<Rightarrow> u32 \<Rightarrow> string \<Rightarrow> nat \<Rightarrow> u32 option" where
  "bruteforce t junk target i =
     (if i < error_num t then
        (if error_code_to_string t junk (error_list t ! i) = target then Some (error_list t ! i)
         else bruteforce t junk target (Suc i))
      else None)"
  by auto
termination by (relation "measure (\<lambda>(t, j, s, i). error_num t - i)") auto

declare bruteforce.simps [simp del]

text \<open>
  \<open>sscanf\<close> with \<open>%x\<close>: nothing is stored without a digit; a value over 32 bits is undefined, \<open>None\<close>.
\<close>

definition sscanf_x :: "u32 \<Rightarrow> string \<Rightarrow> u32 option" where
  "sscanf_x junk s = (let (neg, s2) = skip_sign (dropWhile isspace s);
       s3 = (if length s2 \<ge> 3 \<and> s2 ! 0 = CHR ''0'' \<and> s2 ! 1 \<in> {CHR ''x'', CHR ''X''} \<and> digit_val (s2 ! 2) < 16 then drop 2 s2 else s2);
       (v, r) = read_digits 16 s3 0
     in if r = s3 then Some junk else if v < 2 ^ 32 then Some (if neg then - of_nat v else of_nat v) else None)"

text \<open>
  The run with arguments: the exit status and the output. Reading the unterminated copy of a long short code is a fault.
\<close>

definition resolver :: "u32 \<Rightarrow> u32 \<Rightarrow> u8 list option \<Rightarrow> string list \<Rightarrow> (int \<times> string) option" where
  "resolver junk junk2 file argv = (case read_error_table file of
       Inl NoFile \<Rightarrow> Some (-1, ''Failed to open error_table.bin'')
     | Inl e \<Rightarrow> Some (-1, [])
     | Inr t \<Rightarrow>
       (if length argv = 3 then
          (if argv ! 1 = ''-d'' then map_option (\<lambda>c. (0, error_code_to_string t junk c)) (sscanf_x junk2 (argv ! 2))
           else if argv ! 1 = ''-b'' then
             (if length (argv ! 2) < 16 then
                (case bruteforce t junk (argv ! 2) 0 of
                   Some c \<Rightarrow> Some (0, hex_lower (unat c))
                 | None \<Rightarrow> Some (-1, argv ! 2 @ '' Was not found in error_table.bin (perhaps its E- facility?)''))
              else None)
           else Some (0, ''Invalid arguments!''))
        else Some (0, ''Invalid arguments!'')))"

text \<open>One round of the interactive search: \<open>%16s\<close> stores up to 17 bytes in a buffer of 16.\<close>

definition interactive_search :: "u32 \<Rightarrow> error_table \<Rightarrow> string \<Rightarrow> string option" where
  "interactive_search junk t word = (let w = take 16 word in
     if length w < 16 then Some (case bruteforce t junk w 0 of
         Some c \<Rightarrow> ''Hex Code: '' @ hex_lower (unat c)
       | None \<Rightarrow> w @ '' Was not found in error_table.bin (perhaps its E- facility?)'')
     else None)"

section \<open>Reading the table\<close>

text \<open>What is known of a table that was read.\<close>

definition table_ok :: "error_table \<Rightarrow> bool" where
  "table_ok t \<longleftrightarrow> length (head8 t) = 8 \<and> length (mid4 t) = 4 \<and> length (groups t) = 8 * group_num t
     \<and> length (error_list t) = error_num t \<and> group_num t \<le> 0x21 \<and> error_num t \<le> 0x4e21"

lemma length_words32: "length (words32 bs) = length bs div 4"
  by (induction bs rule: words32.induct) auto

lemma fread_runs: "runs UNIV (\<lambda>(x, r). length x = n) (fread n f)"
  by (simp add: fread_def)

lemma read_error_table_ok: "read_error_table file = Inr t \<Longrightarrow> table_ok t"
  by (auto simp: read_error_table_def ebind_Inr fread_def table_ok_def group_num_def error_num_def length_words32
      split: option.splits if_splits)

lemma le16_less: "le16 bs i < 65536"
proof -
  have "unat (a :: u8) < 256" for a using unsigned_less [of a, where ?'a = nat] by simp
  then have "unat (bs ! i) \<le> 255" "unat (bs ! Suc i) \<le> 255" by (simp_all add: less_Suc_eq_le [symmetric])
  then show ?thesis unfolding le16_def by linarith
qed

section \<open>Looking up and searching\<close>

lemma find_code_first:
  assumes "i < k" "k < n" "es ! k = c" "\<And>j. i < j \<Longrightarrow> j < k \<Longrightarrow> es ! j \<noteq> c"
  shows "find_code es n c i = Some k"
  using assms
proof (induction es n c i rule: find_code.induct)
  case (1 es n c i)
  then show ?case
    by (cases "Suc i = k") (simp_all add: find_code.simps [of es n c i])
qed

lemma error_code_known:
  assumes t: "table_ok t" and i: "i < error_num t" "distinct (error_list t)"
  shows "error_code_to_string t junk (error_list t ! i) =
    (if i \<le> last_known t then short_code t (error_list t ! i) i else snprintf16 (''*-'' @ hex8 junk))"
proof (cases i)
  case 0
  then show ?thesis using i by (simp add: error_code_to_string_def)
next
  case (Suc j)
  have "find_code (error_list t) (error_num t) (error_list t ! i) 0 = Some i"
    by (rule find_code_first) (use i t Suc in \<open>auto simp: table_ok_def nth_eq_iff_index_eq\<close>)
  moreover have "error_list t ! 0 \<noteq> error_list t ! i"
    using i t Suc by (auto simp: table_ok_def nth_eq_iff_index_eq)
  ultimately show ?thesis using i Suc by (simp add: error_code_to_string_def)
qed

lemma bruteforce_first:
  assumes "i \<le> k" "k < error_num t" "error_code_to_string t junk (error_list t ! k) = s"
    "\<And>j. i \<le> j \<Longrightarrow> j < k \<Longrightarrow> error_code_to_string t junk (error_list t ! j) \<noteq> s"
  shows "bruteforce t junk s i = Some (error_list t ! k)"
  using assms
proof (induction t junk s i rule: bruteforce.induct)
  case (1 t junk s i)
  show ?case
  proof (cases "i = k")
    case True
    then show ?thesis using 1(3,4) by (subst bruteforce.simps) simp
  next
    case False
    then show ?thesis using 1 by (simp add: bruteforce.simps [of t junk s i])
  qed
qed

lemma bruteforce_Some:
  assumes "bruteforce t junk s i = Some c"
  shows "\<exists>k. i \<le> k \<and> k < error_num t \<and> error_list t ! k = c \<and> error_code_to_string t junk c = s"
  using assms
proof (induction t junk s i rule: bruteforce.induct)
  case (1 t junk s i)
  have "i < error_num t" using 1(2) by (simp add: bruteforce.simps [of t junk s i] split: if_splits)
  then show ?case
    using 1 by (cases "error_code_to_string t junk (error_list t ! i) = s")
      (auto simp: bruteforce.simps [of t junk s i] dest!: Suc_leD)
qed

section \<open>The short text determines the code\<close>

text \<open>The names of the facilities have no dash and at most seven characters.\<close>

definition name_ok :: "string \<Rightarrow> bool" where
  "name_ok s \<longleftrightarrow> CHR ''-'' \<notin> set s \<and> length s \<le> 7"

definition names_ok :: "error_table \<Rightarrow> bool" where
  "names_ok t \<longleftrightarrow> name_ok (cstring (head8 t)) \<and> (\<forall>k < group_num t. name_ok (cstring (drop (8 * k + 4) (groups t))))"

lemma find_group_Some: "find_group g n s k = Some o1 \<Longrightarrow> k < n \<Longrightarrow> \<exists>j < n. o1 = 8 * j + 4"
proof (induction g n s k rule: find_group.induct)
  case (1 g n s k)
  show ?case
  proof (cases "le16 g (8 * k) \<le> s \<and> s < le16 g (8 * k) + le16 g (8 * k + 2)")
    case True
    then show ?thesis using 1(2,3) by (auto simp: find_group.simps [of g n s k])
  next
    case False
    then show ?thesis
      using 1(2,3) 1(1) [OF False] by (auto simp: find_group.simps [of g n s k] split: if_splits)
  qed
qed

lemma facility_ok: "names_ok t \<Longrightarrow> name_ok (facility t c)"
proof -
  assume n: "names_ok t"
  have "name_ok ''NS''" by (simp add: name_ok_def)
  then show ?thesis
    using n find_group_Some [of "groups t" "group_num t" _ 0]
    by (fastforce simp: facility_def names_ok_def Let_def split: option.splits)
qed

lemma short_code_text:
  assumes "table_ok t" "names_ok t" "i < error_num t"
  shows "short_code t c i = facility t c @ ''-'' @ dec (first_number t + i) @ ''-'' @ dec (lastBit (first_number t + i))"
proof -
  let ?n = "first_number t + i"
  have "?n < 10 ^ Suc 4" using le16_less [of "mid4 t" 0] assms by (simp add: first_number_def table_ok_def)
  then have "length (dec ?n) \<le> 5" using length_dec [of ?n 4] by simp
  moreover have "lastBit ?n < 10 ^ Suc 0" by (simp add: lastBit_def)
  then have "length (dec (lastBit ?n)) \<le> 1" using length_dec [of "lastBit ?n" 0] by simp
  moreover have "length (facility t c) \<le> 7" using facility_ok [OF assms(2)] by (simp add: name_ok_def)
  ultimately show ?thesis by (simp add: short_code_def snprintf16_def Let_def)
qed

lemma dash_split:
  assumes "CHR ''-'' \<notin> set a" "CHR ''-'' \<notin> set a'" "a @ CHR ''-'' # b = a' @ CHR ''-'' # b'"
  shows "a = a' \<and> b = b'"
proof -
  have t: "takeWhile (\<lambda>c. c \<noteq> CHR ''-'') (x @ CHR ''-'' # y) = x" if "CHR ''-'' \<notin> set x" for x y
    using that by (simp add: takeWhile_append2 takeWhile_tail) (metis takeWhile_eq_all_conv)
  then show ?thesis using assms by (metis append_same_eq list.inject same_append_eq)
qed

lemma dash_notin_hex8: "CHR ''-'' \<notin> set (hex8 w)"
proof
  assume "CHR ''-'' \<in> set (hex8 w)"
  then obtain c where c: "c \<in> set (hex_pad 8 (unat w))"
      "CHR ''-'' = (let k = of_char c :: nat in if 65 \<le> k then char_of (k + 32) else c)"
    by (auto simp: hex8_def)
  obtain d where d: "d < 16" "c = digit_char d" using set_hex_pad [OF c(1)] by blast
  then have k: "of_char c = (if d < 10 then 48 + d else 55 + d)" by (simp add: digit_char_def of_char_of)
  have "(of_char (CHR ''-'') :: nat) = (if d < 10 then 48 + d else 87 + d)"
    using c(2) d(1) k by (auto simp: Let_def of_char_of split: if_splits)
  then show False by (simp split: if_splits)
qed

lemma short_code_inj:
  assumes t: "table_ok t" "names_ok t" and i: "i < error_num t" and j: "j < error_num t" and e: "short_code t c i = short_code t c' j"
  shows "i = j"
proof -
  have f: "CHR ''-'' \<notin> set (facility t x)" for x using facility_ok [OF t(2), of x] by (simp add: name_ok_def)
  have "facility t c @ CHR ''-'' # (dec (first_number t + i) @ CHR ''-'' # dec (lastBit (first_number t + i)))
      = facility t c' @ CHR ''-'' # (dec (first_number t + j) @ CHR ''-'' # dec (lastBit (first_number t + j)))"
    using e unfolding short_code_text [OF t i] short_code_text [OF t j] by simp
  then have "dec (first_number t + i) @ CHR ''-'' # dec (lastBit (first_number t + i))
      = dec (first_number t + j) @ CHR ''-'' # dec (lastBit (first_number t + j))"
    using dash_split [OF f f] by blast
  then have "dec (first_number t + i) = dec (first_number t + j)"
    using dash_split [OF dash_notin_dec dash_notin_dec] by blast
  then show ?thesis by (simp add: dec_inj)
qed

lemma short_code_not_star:
  assumes t: "table_ok t" "names_ok t" and i: "i < error_num t"
  shows "short_code t c i \<noteq> snprintf16 (''*-'' @ hex8 junk)"
proof
  assume "short_code t c i = snprintf16 (''*-'' @ hex8 junk)"
  moreover have "snprintf16 (''*-'' @ hex8 junk) = ''*'' @ CHR ''-'' # hex8 junk"
    by (simp add: snprintf16_def hex8_def)
  ultimately have e: "facility t c @ CHR ''-'' # (dec (first_number t + i) @ CHR ''-'' # dec (lastBit (first_number t + i)))
      = ''*'' @ CHR ''-'' # hex8 junk"
    unfolding short_code_text [OF t i] by simp
  have "CHR ''-'' \<notin> set (facility t c)" using facility_ok [OF t(2), of c] by (simp add: name_ok_def)
  then have "dec (first_number t + i) @ CHR ''-'' # dec (lastBit (first_number t + i)) = hex8 junk"
    using dash_split [OF _ _ e] by simp
  then have "CHR ''-'' \<in> set (hex8 junk)" by (metis in_set_conv_decomp)
  then show False using dash_notin_hex8 by blast
qed

lemma bruteforce_resolves:
  assumes t: "table_ok t" "names_ok t" "distinct (error_list t)" and k: "k < error_num t" "k \<le> last_known t"
  shows "bruteforce t junk (short_code t (error_list t ! k) k) 0 = Some (error_list t ! k)"
proof (rule bruteforce_first)
  show "error_code_to_string t junk (error_list t ! k) = short_code t (error_list t ! k) k"
    using error_code_known [OF t(1) k(1) t(3)] k(2) by simp
  fix j assume j: "j < k"
  then have "j < error_num t" using k(1) by simp
  then show "error_code_to_string t junk (error_list t ! j) \<noteq> short_code t (error_list t ! k) k"
    using error_code_known [OF t(1) _ t(3), of j] short_code_inj [OF t(1,2) _ k(1)] short_code_not_star [OF t(1,2) k(1)] j
    by (metis less_irrefl_nat)
qed (use k in auto)

lemma sscanf_x_hex: "sscanf_x junk (''0x'' @ hex_pad 8 (unat (w :: u32))) = Some w"
proof -
  let ?h = "hex_pad 8 (unat w)"
  have ne: "[] \<noteq> ?h" by (metis hex_pad_Nil zero_neq_numeral)
  have "?h ! 0 \<in> set ?h" by (rule nth_mem) simp
  then have d: "digit_val (?h ! 0) < 16" by (rule hex_pad_digits)
  have r: "read_digits 16 ?h 0 = (unat w mod 16 ^ 8, [])"
    by (simp add: read_digits_all hex_pad_digits foldl_hex_pad)
  have w: "unat w < 2 ^ 32" using unsigned_less [of w, where ?'a = nat] by simp
  then have m: "unat w mod 16 ^ 8 = unat w" by simp
  have sg: "skip_sign (dropWhile isspace (''0x'' @ ?h)) = (False, ''0x'' @ ?h)" by (simp add: isspace_def)
  show ?thesis
    using ne d w unfolding sscanf_x_def sg Let_def prod.case by (simp add: r m [simplified])
qed

text \<open>
  C24. Resolving a hexadecimal code of the table and searching for the short text that this prints gives the code
  back, when the codes of the table are distinct, the index is within the known ones and the facility names are short
  and have no dash.
\<close>

theorem resolver_roundtrip:
  assumes "read_error_table (Some f) = Inr t" "names_ok t" "distinct (error_list t)" "k < error_num t" "k \<le> last_known t"
  shows "\<exists>s. resolver junk junk2 (Some f) [prog, ''-d'', ''0x'' @ hex_pad 8 (unat (error_list t ! k))] = Some (0, s) \<and>
    resolver junk junk2 (Some f) [prog, ''-b'', s] = Some (0, hex_lower (unat (error_list t ! k)))"
proof -
  let ?s = "short_code t (error_list t ! k) k"
  have t: "table_ok t" by (rule read_error_table_ok [OF assms(1)])
  have "length ?s < 16" by (simp add: short_code_def snprintf16_def Let_def)
  moreover have "error_code_to_string t junk (error_list t ! k) = ?s"
    using error_code_known [OF t assms(4,3)] assms(5) by simp
  ultimately show ?thesis
    using assms(1) bruteforce_resolves [OF t assms(2-5), of junk] sscanf_x_hex [of junk2 "error_list t ! k"]
    by (intro exI [of _ ?s]) (simp add: resolver_def)
qed

text \<open>A table with one group, \<open>NP\<close>, and two errors.\<close>

definition sample_file :: "u8 list" where
  "sample_file = [69, 0, 0, 0, 1, 0, 1, 0, 16, 0, 16, 0, 78, 80, 0, 0, 100, 0, 2, 0, 1, 0, 0x10, 0x80, 1, 0, 0x22, 0x80]"

definition sample_table :: error_table where
  "sample_table = \<lparr>head8 = [69, 0, 0, 0, 1, 0, 1, 0], groups = [16, 0, 16, 0, 78, 80, 0, 0], mid4 = [100, 0, 2, 0],
     error_list = [0x80100001, 0x80220001]\<rparr>"

lemma sample_read: "read_error_table (Some sample_file) = Inr sample_table"
  by (simp add: read_error_table_def sample_file_def sample_table_def fread_def le16_def join32_def push_bit_eq_mult)

theorem resolver_roundtrip_witness:
  "\<exists>s. resolver 0 0 (Some sample_file) [''r'', ''-d'', ''0x'' @ hex_pad 8 (unat (0x80100001 :: u32))] = Some (0, s) \<and>
    resolver 0 0 (Some sample_file) [''r'', ''-b'', s] = Some (0, hex_lower (unat (0x80100001 :: u32)))"
  using resolver_roundtrip [OF sample_read, of 0 0 0 "''r''"]
  by (simp add: sample_table_def names_ok_def name_ok_def cstring_def group_num_def error_num_def last_known_def le16_def char_of_def)

section \<open>The check digit\<close>

lemma digit_sum_acc: "digit_sum d ii = ii + digit_sum d 0"
proof (induction d arbitrary: ii rule: less_induct)
  case (less d)
  show ?case
  proof (cases "d div 10 = 0")
    case True
    then show ?thesis by (simp add: digit_sum.simps [of d ii] digit_sum.simps [of d 0])
  next
    case False
    then have "d div 10 < d" by simp
    from less.IH [OF this, of "ii + d mod 10"] less.IH [OF this, of "d mod 10"] show ?thesis
      using False by (simp add: digit_sum.simps [of d ii] digit_sum.simps [of d 0])
  qed
qed

lemma digit_sum_step: "digit_sum (10 * q + r) 0 = digit_sum q 0 + r" if "r < 10"
proof (cases "q = 0")
  case True
  then show ?thesis using that by (simp add: digit_sum.simps [of r 0] digit_sum.simps [of 0 0])
next
  case False
  then have "digit_sum (10 * q + r) 0 = digit_sum q r" using that by (simp add: digit_sum.simps [of "10 * q + r" 0])
  then show ?thesis using digit_sum_acc [of q r] by simp
qed

lemma digit_sum_split: "r < 10 ^ p \<Longrightarrow> digit_sum (q * 10 ^ p + r) 0 = digit_sum q 0 + digit_sum r 0"
proof (induction p arbitrary: r)
  case 0
  then show ?case by (simp add: digit_sum.simps [of 0 0])
next
  case (Suc p)
  have r: "r = 10 * (r div 10) + r mod 10" by simp
  have "r div 10 < 10 ^ p" using Suc.prems by (simp add: less_mult_imp_div_less)
  then have "digit_sum (q * 10 ^ p + r div 10) 0 = digit_sum q 0 + digit_sum (r div 10) 0" by (rule Suc.IH)
  moreover have "q * 10 ^ Suc p + r = 10 * (q * 10 ^ p + r div 10) + r mod 10" using r by simp
  moreover have "digit_sum r 0 = digit_sum (r div 10) 0 + r mod 10"
    using digit_sum_step [of "r mod 10" "r div 10"] by simp
  ultimately show ?case using digit_sum_step [of "r mod 10" "q * 10 ^ p + r div 10"] by (metis add.assoc mod_less_divisor zero_less_numeral)
qed

lemma lastBit_eq: "lastBit n = digit_sum n 0 mod 10"
  by (simp add: lastBit_def digit_sum.simps [of 0 0])

text \<open>The check digit of a short code detects every wrong digit: two numbers that differ in the digit at one
  position have different check digits.\<close>

lemma check_digit_detects:
  assumes "d < 10" "e < 10" "d \<noteq> e" "r < 10 ^ p"
  shows "lastBit ((10 * q + d) * 10 ^ p + r) \<noteq> lastBit ((10 * q + e) * 10 ^ p + r)"
proof -
  have "lastBit ((10 * q + x) * 10 ^ p + r) = (digit_sum q 0 + digit_sum r 0 + x) mod 10" if "x < 10" for x
    unfolding lastBit_eq digit_sum_split [OF assms(4)] digit_sum_step [OF that] by (simp add: add.commute add.left_commute)
  then show ?thesis
    using assms(1,2) mod_add_cancel_left [of "digit_sum q 0 + digit_sum r 0" d 10 e] assms(1-3) by (metis mod_less)
qed

lemma check_digit_detects_witness: "lastBit ((10 * 12 + 3) * 10 ^ 1 + 7) \<noteq> lastBit ((10 * 12 + 8) * 10 ^ 1 + 7)"
  by (rule check_digit_detects) simp_all

text \<open>A code whose index is past the known ones is printed as a star and a number that does not depend on the code:
  the argument of the format is missing.\<close>

lemma unknown_code_prints_junk:
  assumes "read_error_table file = Inr t" "distinct (error_list t)" "k < error_num t" "last_known t < k"
  shows "error_code_to_string t junk (error_list t ! k) = ''*-'' @ hex8 junk"
  using error_code_known [OF read_error_table_ok [OF assms(1)] assms(3,2)] assms(4)
  by (simp add: snprintf16_def hex8_def)

lemma unknown_code_prints_junk_witness:
  "error_code_to_string (sample_table\<lparr>head8 := [69, 0, 0, 0, 1, 0, 0, 0]\<rparr>) 7 0x80220001 = ''*-'' @ hex8 7"
proof -
  let ?t = "sample_table\<lparr>head8 := [69, 0, 0, 0, 1, 0, 0, 0]\<rparr>"
  have "read_error_table (Some (sample_file[6 := 0])) = Inr ?t"
    by (simp add: read_error_table_def sample_file_def sample_table_def fread_def le16_def join32_def push_bit_eq_mult)
  then show ?thesis
    using unknown_code_prints_junk [of _ ?t 1 7] by (simp add: sample_table_def error_num_def last_known_def le16_def)
qed

end
