(* ===== verification/ModuleInfo.thy ===== *)
theory ModuleInfo
  imports SelfTools C_Text
begin

text \<open>
  The module information of an ELF image: \<open>module_info_parser.c\<close> of \<open>psp2-kbl-elf-extract\<close> (the same file
  in \<open>psp2-syslibtrace-nids-extract\<close>) and of \<open>psp2-kernel-bootimage-extract\<close>, and the tool
  \<open>psp2-syslibtrace-nids-extract\<close> with its \<open>types.h\<close>. An image or a file is a byte list; reading outside of
  it, or using a byte that \<open>fread\<close> did not deliver, is a fault.
\<close>

section \<open>Big-endian numbers\<close>

fun be8 :: "u8 list \<Rightarrow> u8 option" where
  "be8 (a # _) = Some a"
| "be8 _ = None"

fun be16 :: "u8 list \<Rightarrow> u16 option" where
  "be16 (a # b # _) = Some (push_bit 8 (ucast a) OR ucast b)"
| "be16 _ = None"

fun be32 :: "u8 list \<Rightarrow> u32 option" where
  "be32 (a # b # c # d # _) = Some (push_bit 24 (ucast a) OR push_bit 16 (ucast b) OR push_bit 8 (ucast c) OR ucast d)"
| "be32 _ = None"

definition be64 :: "u8 list \<Rightarrow> u64 option" where
  "be64 p = do { a \<leftarrow> be32 p; b \<leftarrow> be32 (drop 4 p); Some (push_bit 32 (ucast a) OR ucast b) }"

definition wbe16 :: "u16 \<Rightarrow> u8 list" where
  "wbe16 v = [ucast (drop_bit 8 v), ucast v]"

definition wbe32 :: "u32 \<Rightarrow> u8 list" where
  "wbe32 v = [ucast (drop_bit 24 v), ucast (drop_bit 16 v), ucast (drop_bit 8 v), ucast v]"

text \<open>The low half goes to \<open>p + 4\<close> first, then the high half to \<open>p\<close>.\<close>

definition wbe64 :: "u64 \<Rightarrow> u8 list" where
  "wbe64 v = (let low = wbe32 (ucast v); v = drop_bit 32 v in wbe32 (ucast v) @ low)"

section \<open>Where the module information is\<close>

definition get8 :: "u8 list \<Rightarrow> nat \<Rightarrow> self_fault + nat" where
  "get8 bs off = (if off < length bs then Inr (unat (bs ! off)) else Inl OutOfFile)"

text \<open>\<open>strcmp\<close> and \<open>strncmp\<close> with a fixed string, its NUL included: bytes are read up to the first difference.\<close>

fun same_string :: "u8 list \<Rightarrow> nat \<Rightarrow> nat list \<Rightarrow> self_fault + bool" where
  "same_string bs off [] = Inr True"
| "same_string bs off (c # cs) = ebind (get8 bs off) (\<lambda>b. if b = c then same_string bs (off + 1) cs else Inr False)"

definition cstr :: "string \<Rightarrow> nat list" where
  "cstr s = map of_char s @ [0]"

definition add32 :: "nat \<Rightarrow> nat \<Rightarrow> nat" where "add32 a b = (a + b) mod 2 ^ 32"

definition sub32 :: "nat \<Rightarrow> nat \<Rightarrow> nat" where "sub32 a b = (a + 2 ^ 32 - b) mod 2 ^ 32"

text \<open>Fields of the section header \<open>i\<close>, and of the file header.\<close>

definition sh_field :: "u8 list \<Rightarrow> nat \<Rightarrow> nat \<Rightarrow> self_fault + nat" where
  "sh_field el i f = ebind (get32 el 0x20) (\<lambda>shoff. get32 el (shoff + 0x28 * i + f))"

definition sh_name :: "u8 list \<Rightarrow> nat \<Rightarrow> self_fault + nat" where "sh_name el i = sh_field el i 0"

definition sh_offset :: "u8 list \<Rightarrow> nat \<Rightarrow> self_fault + nat" where "sh_offset el i = sh_field el i 16"

definition e_shnum :: "u8 list \<Rightarrow> self_fault + nat" where "e_shnum el = get16 el 0x30"

definition e_shstrndx :: "u8 list \<Rightarrow> self_fault + nat" where "e_shstrndx el = get16 el 0x32"

definition rodata_name :: "nat list" where "rodata_name = cstr ''.sceModuleInfo.rodata''"

text \<open>The last part of both parsers, when no section gave an offset.\<close>

definition segment_info_offset :: "u8 list \<Rightarrow> self_fault + nat" where
  "segment_info_offset el = ebind (get16 el 0x10) (\<lambda>type. ebind (get32 el 0x18) (\<lambda>entry. ebind (get32 el 0x1C) (\<lambda>phoff.
     if type = 0xFE04 \<or> (type = 0xFE00 \<and> entry \<noteq> 0)
     then ebind (get32 el (phoff + 4)) (\<lambda>off. Inr (add32 off entry))
     else get32 el (phoff + 12))))"

text \<open>The loop of \<open>psp2-kbl-elf-extract\<close>: \<open>Inr None\<close> is the early return of 0.\<close>

function kbl_sections :: "u8 list \<Rightarrow> nat \<Rightarrow> nat \<Rightarrow> nat \<Rightarrow> self_fault + nat option" where
  "kbl_sections el num strndx i = (if i < num then
     ebind (sh_offset el strndx) (\<lambda>so.
       if so > 0x40000 then Inr None
       else ebind (sh_name el i) (\<lambda>name.
         if name > 0x4000 then Inr None
         else ebind (same_string el (so + name) rodata_name) (\<lambda>eq.
           if eq then ebind (sh_offset el i) (\<lambda>r. Inr (Some r))
           else kbl_sections el num strndx (i + 1))))
     else Inr (Some 0))"
  by auto
termination by (relation "measure (\<lambda>(el, num, strndx, i). num - i)") auto

declare kbl_sections.simps [simp del]

definition kbl_module_info_offset :: "u8 list \<Rightarrow> self_fault + nat" where
  "kbl_module_info_offset el = ebind (e_shnum el) (\<lambda>num.
     ebind (if num > 0 then ebind (e_shstrndx el) (\<lambda>x. kbl_sections el num x 0) else Inr (Some 0)) (\<lambda>r.
       case r of None \<Rightarrow> Inr 0 | Some ret \<Rightarrow> if ret = 0 then segment_info_offset el else Inr ret))"

text \<open>The loop of \<open>psp2-kernel-bootimage-extract\<close>: the last section of that name.\<close>

function bootimage_sections :: "u8 list \<Rightarrow> nat \<Rightarrow> nat \<Rightarrow> nat \<Rightarrow> nat \<Rightarrow> self_fault + nat" where
  "bootimage_sections el num strndx i ret = (if i < num then
     ebind (sh_offset el strndx) (\<lambda>so. ebind (sh_name el i) (\<lambda>name. ebind (same_string el (so + name) rodata_name) (\<lambda>eq.
       if eq then ebind (sh_offset el i) (\<lambda>r. bootimage_sections el num strndx (i + 1) r)
       else bootimage_sections el num strndx (i + 1) ret)))
     else Inr ret)"
  by auto
termination by (relation "measure (\<lambda>(el, num, strndx, i, ret). num - i)") auto

declare bootimage_sections.simps [simp del]

definition bootimage_module_info_offset :: "u8 list \<Rightarrow> self_fault + nat" where
  "bootimage_module_info_offset el = ebind (e_shnum el) (\<lambda>num.
     ebind (if num > 0 then ebind (e_shstrndx el) (\<lambda>x. bootimage_sections el num x 0 0) else Inr 0) (\<lambda>ret.
       if ret = 0 then segment_info_offset el else Inr ret))"

section \<open>psp2-syslibtrace-nids-extract\<close>

definition get_movw_value_from_instr :: "u32 \<Rightarrow> u32" where
  "get_movw_value_from_instr opcode = (drop_bit 8 opcode AND 0xFF) OR (push_bit 4 opcode AND 0x700)
     OR (drop_bit 7 opcode AND 0x800) OR (drop_bit 12 opcode AND 0xF000)"

text \<open>A string in a file: the bytes up to a NUL, at most \<open>n\<close>.\<close>

definition file_string :: "u8 list \<Rightarrow> nat \<Rightarrow> nat \<Rightarrow> self_fault + string" where
  "file_string f off n = (let bs = take n (drop off f) in
     if 0 \<in> set bs then Inr (map (\<lambda>b. char_of (unat b)) (takeWhile (\<lambda>b. b \<noteq> 0) bs)) else Inl OutOfFile)"

definition entry_line :: "bool \<Rightarrow> string \<Rightarrow> nat \<Rightarrow> nat \<Rightarrow> string" where
  "entry_line extra fname nid syscall = (let n = ''0x'' @ hex_pad 8 nid; b = (if syscall \<noteq> 0 then ''true'' else ''false'') in
     if extra then fname @ '','' @ n @ '','' @ b else n @ '','' @ fname @ '','' @ b)"

text \<open>
  The loop over the table of names: \<open>buf\<close> is the entry that was read last; at the end of the file \<open>fread\<close> leaves
  what it cannot fill, and without an end mark the loop goes on for ever.
\<close>

definition reread :: "u8 list \<Rightarrow> nat \<Rightarrow> u8 list \<Rightarrow> u8 list" where
  "reread f off buf = (let d = take (length buf) (drop off f) in d @ drop (length d) buf)"

partial_function (option) entries_loop ::
    "bool \<Rightarrow> u8 list \<Rightarrow> nat \<Rightarrow> nat \<Rightarrow> nat \<Rightarrow> nat \<Rightarrow> u8 list \<Rightarrow> string list \<Rightarrow> (self_fault + string list) option" where
  "entries_loop extra f text_off slide start i buf acc =
     (case ebind (get32 buf 8) (\<lambda>np. ebind (file_string f (sub32 (add32 text_off np) slide) 256) (\<lambda>name.
        ebind (get32 buf 4) (\<lambda>nid. ebind (get32 buf 0) (\<lambda>sc. Inr (acc @ [entry_line extra name nid sc]))))) of
        Inl e \<Rightarrow> Some (Inl e)
      | Inr acc \<Rightarrow>
        (if get32 (reread f (add32 text_off (add32 start (12 * (i + 1)))) buf) 4 = Inr 0xFFFFFFFF then Some (Inr acc)
         else entries_loop extra f text_off slide start (i + 1) (reread f (add32 text_off (add32 start (12 * (i + 1)))) buf) acc))"

text \<open>The search of the library and of the function.\<close>

fun find_lib :: "u8 list \<Rightarrow> nat \<Rightarrow> nat \<Rightarrow> u8 list \<Rightarrow> nat list \<Rightarrow> self_fault + nat option" where
  "find_lib f text_off slide tab [] = Inr None"
| "find_lib f text_off slide tab (i # is) = ebind (get32 tab (0x20 * i + 0x14)) (\<lambda>ln.
     ebind (same_string (take 27 (drop (sub32 (add32 text_off ln) slide) f)) 0 (cstr ''SceNidsymtblForDriver'')) (\<lambda>eq.
       if eq then Inr (Some i) else find_lib f text_off slide tab is))"

fun find_nid :: "u8 list \<Rightarrow> nat list \<Rightarrow> self_fault + nat option" where
  "find_nid nids [] = Inr None"
| "find_nid nids (i # is) = ebind (get32 nids (4 * i)) (\<lambda>n. if n = 0x138A9106 then Inr (Some i) else find_nid nids is)"

text \<open>What precedes the loop; it stops with a fault or with an exit code.\<close>

datatype tool_stop = Fault self_fault | Exit int

definition lift :: "self_fault + 'a \<Rightarrow> tool_stop + 'a" where
  "lift = map_sum Fault id"

definition exit_unless :: "bool \<Rightarrow> int \<Rightarrow> tool_stop + unit" where
  "exit_unless b code = (if b then Inr () else Inl (Exit code))"

text \<open>The offset of the text segment and its address, from the first 0x400 bytes.\<close>

definition text_segment :: "u8 list \<Rightarrow> tool_stop + nat \<times> nat" where
  "text_segment chunk = lift (ebind (get32 chunk 0x1C) (\<lambda>phoff. ebind (get32 chunk (phoff + 4)) (\<lambda>text_off.
     ebind (get32 chunk (phoff + 8)) (\<lambda>slide. Inr (text_off, slide)))))"

text \<open>The checks on the module information at \<open>mi\<close>.\<close>

definition check_module :: "u8 list \<Rightarrow> nat \<Rightarrow> tool_stop + unit" where
  "check_module f mi = ebind (exit_unless (mi \<noteq> 0) (-2)) (\<lambda>_.
     ebind (lift (same_string (take 0x20 (drop mi f)) 4 (cstr ''SceSysLibTrace''))) (\<lambda>eq. ebind (exit_unless eq (-3)) (\<lambda>_.
     ebind (lift (get8 f (mi + 0x1F))) (\<lambda>v. exit_unless (v = 6) (-4)))))"

text \<open>The table of exported libraries and the index in it of the library that is looked for.\<close>

definition export_library :: "u8 list \<Rightarrow> nat \<Rightarrow> nat \<Rightarrow> nat \<Rightarrow> tool_stop + u8 list \<times> nat" where
  "export_library f text_off slide mi = ebind (lift (get32 f (mi + 0x24))) (\<lambda>top. ebind (lift (get32 f (mi + 0x28))) (\<lambda>btm.
     ebind (lift (get8 f (add32 text_off top))) (\<lambda>sz. ebind (exit_unless (sz = 0x20) (-5)) (\<lambda>_.
     ebind (lift (slice f (add32 text_off top) (0x20 * (sub32 btm top div 0x20)))) (\<lambda>tab.
     ebind (lift (find_lib f text_off slide tab [0..<sub32 btm top div 0x20])) (\<lambda>lib.
       case lib of None \<Rightarrow> Inl (Exit (-6)) | Some l \<Rightarrow> Inr (tab, l)))))))"

text \<open>The offset in the text segment of the first instruction of the function that is looked for.\<close>

definition function_offset :: "u8 list \<Rightarrow> nat \<Rightarrow> nat \<Rightarrow> u8 list \<Rightarrow> nat \<Rightarrow> tool_stop + nat" where
  "function_offset f text_off slide tab l = ebind (lift (get16 tab (0x20 * l + 6))) (\<lambda>nfunc.
     ebind (lift (get32 tab (0x20 * l + 0x18))) (\<lambda>nt. ebind (lift (slice f (sub32 (add32 text_off nt) slide) (4 * nfunc))) (\<lambda>nids.
     ebind (lift (get32 tab (0x20 * l + 0x1C))) (\<lambda>et. ebind (lift (slice f (sub32 (add32 text_off et) slide) (4 * nfunc))) (\<lambda>ents.
     ebind (lift (find_nid nids [0..<nfunc])) (\<lambda>fi.
     ebind (case fi of None \<Rightarrow> Inr 0 | Some k \<Rightarrow> lift (ebind (get32 ents (4 * k)) (\<lambda>e. Inr (sub32 (sub32 e slide) 1)))) (\<lambda>instr.
     ebind (exit_unless (instr \<noteq> 0) (-7)) (\<lambda>_. Inr instr))))))))"

definition find_table :: "u8 list \<Rightarrow> tool_stop + nat \<times> nat \<times> nat" where
  "find_table f = ebind (text_segment (take 0x400 f)) (\<lambda>(text_off, slide). ebind (lift (kbl_module_info_offset (take 0x400 f))) (\<lambda>mi.
     ebind (check_module f mi) (\<lambda>_. ebind (export_library f text_off slide mi) (\<lambda>(tab, l).
     ebind (function_offset f text_off slide tab l) (\<lambda>instr. ebind (lift (slice f (add32 text_off instr) 4)) (\<lambda>code.
       case be32 code of None \<Rightarrow> Inl (Fault OutOfFile) | Some w \<Rightarrow> Inr (text_off, slide, unat (get_movw_value_from_instr w))))))))"

definition nids_extract :: "bool \<Rightarrow> u8 list \<Rightarrow> (tool_stop + string list) option" where
  "nids_extract extra f = (case find_table f of
       Inl e \<Rightarrow> Some (Inl e)
     | Inr (text_off, slide, start) \<Rightarrow>
       (case slice f (add32 text_off start) 12 of
          Inl e \<Rightarrow> Some (Inl (Fault e))
        | Inr buf \<Rightarrow> map_option lift (entries_loop extra f text_off slide start 0 buf [])))"

section \<open>The numbers are read back\<close>

lemma be32_join32: "be32 (a # b # c # d # r) = Some (join32 d c b a)"
  by (simp add: join32_def ac_simps)

lemma be32_wbe32: "be32 (wbe32 v @ r) = Some v"
  unfolding wbe32_def by (simp only: append_Cons be32_join32 join32_bytes32)

text \<open>Every 16, 32 and 64-bit number that is written big-endian is read back unchanged.\<close>

lemma big_endian_roundtrip: "be16 (wbe16 a) = Some a \<and> be32 (wbe32 b) = Some b \<and> be64 (wbe64 c) = Some c"
proof -
  have "push_bit 8 (ucast (ucast (drop_bit 8 a) :: u8) :: u16) OR ucast (ucast a :: u8) = a"
  proof (rule bit_word_eqI)
    fix n assume "n < LENGTH(16)"
    then consider "n < 8" | "8 \<le> n" "n < 16" by fastforce
    then show "bit (push_bit 8 (ucast (ucast (drop_bit 8 a) :: u8) :: u16) OR ucast (ucast a :: u8)) n = bit a n"
      by cases (auto simp: bit_simps)
  qed
  then have a: "be16 (wbe16 a) = Some a" by (simp add: wbe16_def)
  have "push_bit 32 (ucast (ucast (drop_bit 32 c) :: u32) :: u64) OR ucast (ucast c :: u32) = c"
  proof (rule bit_word_eqI)
    fix n assume "n < LENGTH(64)"
    then consider "n < 32" | "32 \<le> n" "n < 64" by fastforce
    then show "bit (push_bit 32 (ucast (ucast (drop_bit 32 c) :: u32) :: u64) OR ucast (ucast c :: u32)) n = bit c n"
      by cases (auto simp: bit_simps)
  qed
  moreover have "drop 4 (wbe32 x @ y) = y" for x y by (simp add: wbe32_def)
  ultimately have "be64 (wbe64 c) = Some c"
    using be32_wbe32 [of "ucast c" "[]"] by (simp add: be64_def wbe64_def Let_def be32_wbe32)
  then show ?thesis using a be32_wbe32 [of b "[]"] by simp
qed

text \<open>
  The encoding T3 of the Thumb instruction \<open>MOVW Rd, #imm16\<close>, as the two little-endian halfwords lie in memory: the
  16 bits of the number are spread over the fields \<open>imm4\<close>, \<open>i\<close>, \<open>imm3\<close> and \<open>imm8\<close>.
\<close>

definition thumb_movw :: "u8 \<Rightarrow> u16 \<Rightarrow> u8 list" where
  "thumb_movw rd imm = [0x40 OR ucast (drop_bit 12 imm), 0xF2 OR push_bit 2 (ucast (drop_bit 11 imm) AND 1),
     ucast imm, push_bit 4 (ucast (drop_bit 8 imm) AND 7) OR (rd AND 0xF)]"

lemma masks: "(0xFF :: u32) = mask 8" "(0x700 :: u32) = push_bit 8 (mask 3)" "(0xF000 :: u32) = push_bit 12 (mask 4)"
  by (simp_all add: mask_eq_exp_minus_1)

lemma bit_2048: "bit (0x800 :: u32) n \<longleftrightarrow> n = 11"
proof -
  have "(0x800 :: u32) = push_bit 11 1" by simp
  then have "bit (0x800 :: u32) n = bit (push_bit 11 (1 :: u32)) n" by (simp only:)
  also have "\<dots> \<longleftrightarrow> n = 11" unfolding bit_push_bit_iff by (auto simp: bit_1_iff simp del: push_bit_of_1 push_bit_numeral)
  finally show ?thesis .
qed

lemma masks8:  "(0x40 :: u8) = push_bit 6 (mask 1)" "(0xF2 :: u8) = push_bit 4 (mask 4) OR push_bit 1 (mask 1)" "(7 :: u8) = mask 3" "(0xF :: u8) = mask 4" "(1 :: u8) = mask 1"
  by (simp_all add: mask_eq_exp_minus_1)

lemma movw_bits: "bit (get_movw_value_from_instr w) n \<longleftrightarrow> (if n < 8 then bit w (n + 8) else if n < 11 then bit w (n - 4)
    else if n = 11 then bit w 18 else n < 16 \<and> bit w (n + 12))"
proof -
  consider "n < 8" | "n = 8" | "n = 9" | "n = 10" | "n = 11" | "n \<ge> 12" "n < 16" | "16 \<le> n" by fastforce
  then show ?thesis
    unfolding get_movw_value_from_instr_def masks bit_or_iff bit_and_iff bit_2048 by cases (auto simp: bit_simps add.commute)
qed

lemma join32_bits: "bit (join32 d c b a) n \<longleftrightarrow> (if n < 8 then bit d n else if n < 16 then bit c (n - 8) else if n < 24 then bit b (n - 16) else bit a (n - 24))"
proof -
  have "\<not> bit x k" if "8 \<le> k" for x :: u8 and k using u8_bit_high [OF that] .
  then show ?thesis
  unfolding join32_def by (cases "n < 32") (auto simp: bit_simps dest: bit_imp_le_length)
qed

text \<open>The decoder gives back the number of every \<open>MOVW\<close> instruction, for every register.\<close>

lemma movw_decodes: "map_option get_movw_value_from_instr (be32 (thumb_movw rd imm)) = Some (ucast imm)"
proof -
  have "bit (get_movw_value_from_instr (join32 (push_bit 4 (ucast (drop_bit 8 imm) AND 7) OR (rd AND 0xF)) (ucast imm)
      (0xF2 OR push_bit 2 (ucast (drop_bit 11 imm) AND 1)) (0x40 OR ucast (drop_bit 12 imm)))) n = bit (ucast imm :: u32) n"
    if n: "n < 32" for n
  proof -
    consider "n < 8" | "n = 8" | "n = 9" | "n = 10" | "n = 11" | "n = 12" | "n = 13" | "n = 14" | "n = 15" | "16 \<le> n"
      using n by fastforce
    then show ?thesis
      unfolding movw_bits join32_bits masks8 by cases (use n in \<open>auto simp: bit_simps dest: bit_imp_le_length\<close>)
  qed
  then show ?thesis
    unfolding thumb_movw_def be32_join32 by (auto intro!: bit_word_eqI)
qed

section \<open>The list of names\<close>

lemma reread_slice: "slice f off (length buf) = Inr bs \<Longrightarrow> reread f off buf = bs"
  by (auto simp: slice_def reread_def split: if_splits)

text \<open>The entry of the table at \<open>start\<close>: its three words and the string that it points to.\<close>

definition entry_at :: "u8 list \<Rightarrow> nat \<Rightarrow> nat \<Rightarrow> nat \<Rightarrow> nat \<Rightarrow> nat \<times> nat \<times> string \<Rightarrow> bool" where
  "entry_at f text_off slide start i e = (case e of (sc, nid, name) \<Rightarrow>
     \<exists>bs np. slice f (add32 text_off (add32 start (12 * i))) 12 = Inr bs \<and> get32 bs 0 = Inr sc \<and> get32 bs 4 = Inr nid
       \<and> get32 bs 8 = Inr np \<and> file_string f (sub32 (add32 text_off np) slide) 256 = Inr name)"

definition line_of :: "bool \<Rightarrow> nat \<times> nat \<times> string \<Rightarrow> string" where
  "line_of extra e = (case e of (sc, nid, name) \<Rightarrow> entry_line extra name nid sc)"

lemma entries_loop_lists:
  assumes n: "\<And>j. j < length es \<Longrightarrow> entry_at f t s st j (es ! j)"
    and stop: "slice f (add32 t (add32 st (12 * length es))) 12 = Inr lst" "get32 lst 4 = Inr 0xFFFFFFFF"
    and go: "\<And>j. 0 < j \<Longrightarrow> j < length es \<Longrightarrow> fst (snd (es ! j)) \<noteq> 0xFFFFFFFF"
  shows "i < length es \<Longrightarrow> slice f (add32 t (add32 st (12 * i))) 12 = Inr buf \<Longrightarrow>
    entries_loop extra f t s st i buf acc = Some (Inr (acc @ map (line_of extra) (drop i es)))"
proof (induction "length es - i" arbitrary: i buf acc)
  case 0
  then show ?case by simp
next
  case (Suc k)
  obtain sc nid name where e: "es ! i = (sc, nid, name)" by (cases "es ! i") auto
  obtain bs np where bs: "slice f (add32 t (add32 st (12 * i))) 12 = Inr bs" "get32 bs 0 = Inr sc" "get32 bs 4 = Inr nid"
      "get32 bs 8 = Inr np" "file_string f (sub32 (add32 t np) s) 256 = Inr name"
    using n [OF Suc.prems(1)] e by (auto simp: entry_at_def)
  have b: "buf = bs" using bs(1) Suc.prems(2) by simp
  have len: "length buf = 12" using Suc.prems(2) by (simp add: slice_at)
  have d: "drop i es = es ! i # drop (i + 1) es" using Suc.prems(1) by (simp add: Cons_nth_drop_Suc)
  have ln: "line_of extra (es ! i) = entry_line extra name nid sc" by (simp add: e line_of_def)
  let ?off = "add32 t (add32 st (12 * (i + 1)))"
  show ?case
  proof (cases "i + 1 < length es")
    case True
    obtain sc' nid' name' where e': "es ! (i + 1) = (sc', nid', name')" by (cases "es ! (i + 1)") auto
    obtain bs' where bs': "slice f ?off 12 = Inr bs'" "get32 bs' 4 = Inr nid'"
      using n [OF True] e' by (auto simp: entry_at_def)
    have "reread f ?off buf = bs'" by (rule reread_slice) (use len bs'(1) in simp)
    moreover have "nid' \<noteq> 0xFFFFFFFF" using go [of "i + 1"] True e' by simp
    moreover have "entries_loop extra f t s st (i + 1) bs' (acc @ [line_of extra (es ! i)])
        = Some (Inr ((acc @ [line_of extra (es ! i)]) @ map (line_of extra) (drop (i + 1) es)))"
      by (rule Suc.hyps(1)) (use Suc.hyps(2) True bs'(1) in auto)
    ultimately show ?thesis
      using bs b bs' d ln by (subst entries_loop.simps) simp
  next
    case False
    then have l: "i + 1 = length es" using Suc.prems(1) by simp
    have "reread f (add32 t (add32 st (12 * length es))) buf = lst" by (rule reread_slice) (use len stop(1) in simp)
    then show ?thesis
      using bs b d ln stop(2) l by (subst entries_loop.simps) simp
  qed
qed

text \<open>
  The loop prints one line for every entry of the table, in order, up to the entry whose number is \<open>0xFFFFFFFF\<close>,
  and then ends.
\<close>

lemma nids_listed:
  assumes "es \<noteq> []" and "\<forall>j < length es. entry_at f t s st j (es ! j)"
    and "slice f (add32 t (add32 st (12 * length es))) 12 = Inr lst" "get32 lst 4 = Inr 0xFFFFFFFF"
    and "\<forall>j < length es. 0 < j \<longrightarrow> fst (snd (es ! j)) \<noteq> 0xFFFFFFFF"
    and "slice f (add32 t (add32 st 0)) 12 = Inr buf"
  shows "entries_loop extra f t s st 0 buf [] = Some (Inr (map (line_of extra) es))"
  using entries_loop_lists [of es f t s st lst 0 buf extra "[]"] assms by simp

definition sample_table :: "u8 list" where
  "sample_table = [1, 0, 0, 0, 0xEF, 0xBE, 0xAD, 0xDE, 24, 0, 0, 0, 0, 0, 0, 0, 0xFF, 0xFF, 0xFF, 0xFF, 0, 0, 0, 0, 97, 98, 0]"

lemma get32_take:
  "get32 (a # b # c # d # bs) 0 = Inr (unat (join32 a b c d))"
  "get32 (x1 # x2 # x3 # x4 # a # b # c # d # bs) 4 = Inr (unat (join32 a b c d))"
  "get32 (x1 # x2 # x3 # x4 # x5 # x6 # x7 # x8 # a # b # c # d # bs) 8 = Inr (unat (join32 a b c d))"
  by (simp_all add: get32_def rd32_def)

lemma nids_listed_witness:
  "entries_loop False sample_table 0 0 0 0 (take 12 sample_table) [] = Some (Inr [entry_line False ''ab'' 0xDEADBEEF 1])"
proof -
  let ?e = "(1, 0xDEADBEEF, ''ab'') :: nat \<times> nat \<times> string"
  have sl: "slice sample_table 0 12 = Inr (take 12 sample_table)" "slice sample_table 12 12 = Inr (take 12 (drop 12 sample_table))"
    by (simp_all add: slice_def sample_table_def)
  have "get32 (take 12 sample_table) 0 = Inr 1" "get32 (take 12 sample_table) 4 = Inr 0xDEADBEEF" "get32 (take 12 sample_table) 8 = Inr 24"
    by (simp_all add: sample_table_def get32_take join32_def push_bit_eq_mult)
  moreover have "file_string sample_table 24 256 = Inr ''ab''"
    by (simp add: file_string_def sample_table_def char_of_def bit_Suc_0_iff)
  ultimately have "entry_at sample_table 0 0 0 0 ?e"
    using sl by (simp add: entry_at_def add32_def sub32_def)
  moreover have "get32 (take 12 (drop 12 sample_table)) 4 = Inr 0xFFFFFFFF"
    by (simp add: sample_table_def get32_take join32_def push_bit_eq_mult)
  ultimately have "entries_loop False sample_table 0 0 0 0 (take 12 sample_table) [] = Some (Inr (map (line_of False) [?e]))"
    using sl by (intro nids_listed [of _ _ _ _ _ "take 12 (drop 12 sample_table)"]) (auto simp: add32_def)
  then show ?thesis
    by (simp add: line_of_def)
qed

section \<open>The two parsers\<close>

definition named :: "u8 list \<Rightarrow> nat \<Rightarrow> nat \<Rightarrow> bool" where
  "named el x i \<longleftrightarrow> ebind (sh_offset el x) (\<lambda>so. ebind (sh_name el i) (\<lambda>n. same_string el (so + n) rodata_name)) = Inr True"

text \<open>The limits that \<open>psp2-kbl-elf-extract\<close> puts on the offsets.\<close>

definition in_limits :: "u8 list \<Rightarrow> nat \<Rightarrow> nat \<Rightarrow> bool" where
  "in_limits el x i \<longleftrightarrow> runs UNIV (\<lambda>so. so \<le> 0x40000) (sh_offset el x) \<and> runs UNIV (\<lambda>n. n \<le> 0x4000) (sh_name el i)"

lemma bootimage_unnamed:
  "bootimage_sections el num x i ret = Inr r \<Longrightarrow> (\<And>j. i \<le> j \<Longrightarrow> j < num \<Longrightarrow> \<not> named el x j) \<Longrightarrow> r = ret"
proof (induction el num x i ret rule: bootimage_sections.induct)
  case (1 el num x i ret)
  show ?case
  proof (cases "i < num")
    case False
    then show ?thesis using 1(3) by (simp add: bootimage_sections.simps [of el num x i ret])
  next
    case True
    then obtain so n b where s: "sh_offset el x = Inr so" "sh_name el i = Inr n" "same_string el (so + n) rodata_name = Inr b"
      using 1(3) by (auto simp: bootimage_sections.simps [of el num x i ret] ebind_Inr)
    then have "\<not> b" using 1(4) [of i] True by (simp add: named_def)
    then show ?thesis
      using 1(2) [OF True s] 1(3,4) s True by (simp add: bootimage_sections.simps [of el num x i ret])
  qed
qed

lemma sections_agree:
  "bootimage_sections el num x i 0 = Inr r \<Longrightarrow> (\<And>j. i \<le> j \<Longrightarrow> j < num \<Longrightarrow> in_limits el x j) \<Longrightarrow>
    (\<And>j k. i \<le> j \<Longrightarrow> j < k \<Longrightarrow> k < num \<Longrightarrow> named el x j \<Longrightarrow> \<not> named el x k) \<Longrightarrow> kbl_sections el num x i = Inr (Some r)"
proof (induction "num - i" arbitrary: i)
  case 0
  then show ?case by (simp add: bootimage_sections.simps [of el num x i 0] kbl_sections.simps [of el num x i])
next
  case (Suc m)
  then have i: "i < num" by simp
  then obtain so n b where s: "sh_offset el x = Inr so" "sh_name el i = Inr n" "same_string el (so + n) rodata_name = Inr b"
    using Suc.prems(1) by (auto simp: bootimage_sections.simps [of el num x i 0] ebind_Inr)
  have lim: "so \<le> 0x40000" "n \<le> 0x4000" using Suc.prems(2) [of i] i s by (auto simp: in_limits_def)
  show ?case
  proof (cases b)
    case True
    then obtain r1 where r1: "sh_offset el i = Inr r1" "bootimage_sections el num x (i + 1) r1 = Inr r"
      using Suc.prems(1) s i by (auto simp: bootimage_sections.simps [of el num x i 0] ebind_Inr)
    have "named el x i" using s True by (simp add: named_def)
    then have "\<not> named el x j" if "i + 1 \<le> j" "j < num" for j using Suc.prems(3) [of i j] that by simp
    then have "r = r1" by (rule bootimage_unnamed [OF r1(2)])
    then show ?thesis using s lim True i r1(1) by (simp add: kbl_sections.simps [of el num x i])
  next
    case False
    then have "bootimage_sections el num x (i + 1) 0 = Inr r"
      using Suc.prems(1) s i by (simp add: bootimage_sections.simps [of el num x i 0])
    then have "kbl_sections el num x (i + 1) = Inr (Some r)"
    proof (rule Suc.hyps(1) [rotated])
      show "in_limits el x j" if "i + 1 \<le> j" "j < num" for j using Suc.prems(2) [of j] that by simp
      show "\<not> named el x k" if "i + 1 \<le> j" "j < k" "k < num" "named el x j" for j k
        using Suc.prems(3) [of j k] that by simp
      show "m = num - (i + 1)" using Suc.hyps(2) by simp
    qed
    then show ?thesis using s lim False i by (simp add: kbl_sections.simps [of el num x i])
  qed
qed

text \<open>
  C25. The two parsers agree on every image that the one without limits reads without a fault, as long as its offsets are
  within the limits of the other and no two sections have the name that is looked for.
\<close>

theorem module_info_parsers_agree:
  assumes "bootimage_module_info_offset el = Inr r" and "e_shnum el = Inr num" and "e_shstrndx el = Inr x"
    and "\<forall>j < num. in_limits el x j" and "\<forall>j k. j < k \<and> k < num \<and> named el x j \<longrightarrow> \<not> named el x k"
  shows "kbl_module_info_offset el = Inr r"
proof (cases "num > 0")
  case True
  then obtain ret where "bootimage_sections el num x 0 0 = Inr ret" "(if ret = 0 then segment_info_offset el else Inr ret) = Inr r"
    using assms(1-3) by (auto simp: bootimage_module_info_offset_def ebind_Inr)
  moreover from this(1) have "kbl_sections el num x 0 = Inr (Some ret)"
    by (rule sections_agree) (use assms(4,5) in auto)
  ultimately show ?thesis using True assms(2,3) by (simp add: kbl_module_info_offset_def)
next
  case False
  then show ?thesis using assms(1-3) by (simp add: kbl_module_info_offset_def bootimage_module_info_offset_def)
qed

text \<open>An image with one section, whose name table and contents are the name itself.\<close>

definition sample_image :: "u8 list" where
  "sample_image = map (\<lambda>i. if i = 0x20 then 0x34 else if i = 0x30 then 1 else if i = 0x44 then 0x5C
     else if 0x5C \<le> i then of_nat (rodata_name ! (i - 0x5C)) else 0) [0..<114]"

lemma sample_get: "get32 sample_image 0x20 = Inr 0x34" "get16 sample_image 0x30 = Inr 1" "get16 sample_image 0x32 = Inr 0"
    "get32 sample_image 0x34 = Inr 0" "get32 sample_image 0x44 = Inr 0x5C"
  by (simp_all add: get32_def get16_def rd32_def rd16_def join32_def sample_image_def)

lemma sample_name: "same_string sample_image 0x5C rodata_name = Inr True"
  by (simp add: rodata_name_def cstr_def get8_def sample_image_def)

lemma sample_fields: "sh_offset sample_image 0 = Inr 0x5C" "sh_name sample_image 0 = Inr 0" "e_shnum sample_image = Inr 1" "e_shstrndx sample_image = Inr 0"
  by (simp_all add: sh_offset_def sh_name_def sh_field_def e_shnum_def e_shstrndx_def sample_get)

theorem module_info_parsers_agree_witness: "kbl_module_info_offset sample_image = Inr 0x5C"
proof (rule module_info_parsers_agree [OF _ sample_fields(3,4)])
  show "bootimage_module_info_offset sample_image = Inr 0x5C"
    by (simp add: bootimage_module_info_offset_def sample_fields sample_name bootimage_sections.simps)
  show "\<forall>j < 1. in_limits sample_image 0 j" by (simp add: in_limits_def sample_fields)
  show "\<forall>j k. j < k \<and> k < 1 \<and> named sample_image 0 j \<longrightarrow> \<not> named sample_image 0 k" by simp
qed

end
