(* ===== verification/BootImage.thy ===== *)
theory BootImage
  imports ModuleInfo
begin

text \<open>
  The extractor of kernel boot images, \<open>psp2-kernel-bootimage-extract/src/main.c\<close>: replacing a part of a path,
  the directories of a path, the old and the new format of the image. What the tool does to the file system is
  the list of its events. A \<open>fread\<close> that delivers too few bytes for what is then used is a fault.
\<close>

section \<open>Replacing in a string\<close>

fun begins :: "string \<Rightarrow> string \<Rightarrow> bool" where
  "begins [] s = True"
| "begins (c # cs) [] = False"
| "begins (c # cs) (d # s) = (c = d \<and> begins cs s)"

text \<open>\<open>strstr\<close>, as the offset of the first occurrence.\<close>

fun strstr :: "string \<Rightarrow> string \<Rightarrow> nat option" where
  "strstr [] rep = (if rep = [] then Some 0 else None)"
| "strstr (c # s) rep = (if begins rep (c # s) then Some 0 else map_option Suc (strstr s rep))"

lemma begins_length: "begins rep s \<Longrightarrow> length rep \<le> length s"
  by (induction rep s rule: begins.induct) auto

lemma strstr_length: "strstr s rep = Some k \<Longrightarrow> k + length rep \<le> length s"
proof (induction s arbitrary: k)
  case (Cons c s)
  show ?case
  proof (cases "begins rep (c # s)")
    case True
    then show ?thesis using Cons.prems begins_length [OF True] by simp
  next
    case False
    then show ?thesis using Cons by auto
  qed
qed (simp split: if_splits)

text \<open>The loop that counts, from the insert point on.\<close>

function count_rep :: "string \<Rightarrow> string \<Rightarrow> nat" where
  "count_rep ins rep = (if rep = [] then 0 else case strstr ins rep of None \<Rightarrow> 0
     | Some k \<Rightarrow> Suc (count_rep (drop (k + length rep) ins) rep))"
  by auto
termination
proof (relation "measure (\<lambda>(ins, rep). length ins)", simp, goal_cases)
  case (1 ins rep k)
  then show ?case using strstr_length [of ins rep k] by (cases rep) auto
qed

declare count_rep.simps [simp del]

text \<open>The loop that copies; \<open>ins - orig\<close> of a NULL \<open>ins\<close> would be a fault.\<close>

fun fill :: "nat \<Rightarrow> string \<Rightarrow> string \<Rightarrow> string \<Rightarrow> string option" where
  "fill 0 orig rep wth = Some orig"
| "fill (Suc n) orig rep wth = (case strstr orig rep of None \<Rightarrow> None
     | Some k \<Rightarrow> map_option (\<lambda>r. take k orig @ wth @ r) (fill n (drop (k + length rep) orig) rep wth))"

text \<open>The size of the result that is allocated.\<close>

definition replace_alloc :: "string \<Rightarrow> string \<Rightarrow> string \<Rightarrow> int" where
  "replace_alloc orig rep wth = int (length orig) + (int (length wth) - int (length rep)) * int (count_rep orig rep) + 1"

text \<open>The result: a NULL pointer for an empty \<open>rep\<close> (\<open>Inr None\<close>), a fault when the text does not fit what was allocated.\<close>

definition str_replace :: "string \<Rightarrow> string \<Rightarrow> string \<Rightarrow> self_fault + string option" where
  "str_replace orig rep wth = (if rep = [] then Inr None
     else case fill (count_rep orig rep) orig rep wth of None \<Rightarrow> Inl OutOfFile
       | Some r \<Rightarrow> if int (length r) + 1 \<le> replace_alloc orig rep wth then Inr (Some r) else Inl OutOfFile)"

section \<open>Files and directories\<close>

datatype event = Mkdir string | File string "u8 list"

text \<open>The text before the next slash, and what follows it.\<close>

definition split_slash :: "string \<Rightarrow> (string \<times> string) option" where
  "split_slash s = (if CHR ''/'' \<in> set s
     then Some (takeWhile (\<lambda>c. c \<noteq> CHR ''/'') s, tl (dropWhile (\<lambda>c. c \<noteq> CHR ''/'') s)) else None)"

text \<open>
  The loop of \<open>generateFolders\<close>. Source and target of the \<open>snprintf\<close> overlap; it is taken to append, as it does when the
  bytes are copied in order.
\<close>

function make_folders :: "string \<Rightarrow> string \<Rightarrow> event list" where
  "make_folders current folder = (case split_slash folder of None \<Rightarrow> []
     | Some (name, rest) \<Rightarrow> let current = take 255 (current @ ''/'' @ name) in Mkdir current # make_folders current rest)"
  by auto
termination
proof (relation "measure (\<lambda>(c, f). length f)", simp, goal_cases)
  case (1 current folder p name rest x)
  have "length (dropWhile (\<lambda>c. c \<noteq> CHR ''/'') folder) \<le> length folder" by (rule length_dropWhile_le)
  moreover have "dropWhile (\<lambda>c. c \<noteq> CHR ''/'') folder \<noteq> []" using 1 by (auto simp: split_slash_def split: if_splits)
  ultimately show ?case using 1 by (cases "dropWhile (\<lambda>c. c \<noteq> CHR ''/'') folder") (auto simp: split_slash_def split: if_splits)
qed

declare make_folders.simps [simp del]

text \<open>\<open>folder\<close> starts at the second character. Both copies go to arrays of 256 bytes.\<close>

definition generateFolders :: "string \<Rightarrow> string \<Rightarrow> self_fault + event list" where
  "generateFolders path dest = (if length path < 256 \<and> length dest < 256
     then Inr (make_folders dest (if path = [] then [] else tl path)) else Inl PathTooLong)"

section \<open>The old format\<close>

definition out_name :: "string \<Rightarrow> string \<Rightarrow> self_fault + string" where
  "out_name path out_dir = ebind (str_replace path ''os0:kd'' out_dir) (\<lambda>s. case s of None \<Rightarrow> Inl OutOfFile | Some s \<Rightarrow>
     ebind (str_replace s ''.skprx'' ''.elf'') (\<lambda>s. case s of None \<Rightarrow> Inl OutOfFile | Some s \<Rightarrow> Inr s))"

text \<open>One module: a 260-byte header with the size and the path, then the bytes. The result: the event and the next offset.\<close>

definition old_module :: "string \<Rightarrow> u8 list \<Rightarrow> nat \<Rightarrow> nat \<Rightarrow> self_fault + event \<times> nat" where
  "old_module out_dir f text_off offset = ebind (get32 f (add32 text_off offset)) (\<lambda>sz.
     ebind (file_string f (add32 text_off offset + 4) 256) (\<lambda>path. ebind (out_name path out_dir) (\<lambda>name.
     ebind (slice f (add32 text_off (add32 offset 260)) sz) (\<lambda>bs. Inr (File name bs, add32 offset (add32 260 sz))))))"

partial_function (option) old_loop ::
    "string \<Rightarrow> u8 list \<Rightarrow> nat \<Rightarrow> nat \<Rightarrow> nat \<Rightarrow> event list \<Rightarrow> (self_fault + event list) option" where
  "old_loop out_dir f text_off seg_size offset acc =
     (if add32 text_off offset < seg_size
      then (case old_module out_dir f text_off offset of
          Inl e \<Rightarrow> Some (Inl e)
        | Inr r \<Rightarrow> old_loop out_dir f text_off seg_size (snd r) (acc @ [fst r]))
      else Some (Inr acc))"

section \<open>The new format\<close>

text \<open>One entry of the table: the offsets of the path and of the file, both relative to \<open>slide\<close>, and the size.\<close>

definition new_module :: "bool \<Rightarrow> string \<Rightarrow> u8 list \<Rightarrow> nat \<Rightarrow> nat \<Rightarrow> u8 list \<Rightarrow> self_fault + event list" where
  "new_module pcff out_dir f seg_off slide entry = ebind (get32 entry 0) (\<lambda>po. ebind (get32 entry 4) (\<lambda>fo. ebind (get32 entry 8) (\<lambda>sz.
     ebind (file_string f (sub32 (add32 seg_off po) slide) 256) (\<lambda>path. ebind (generateFolders path out_dir) (\<lambda>dirs.
     ebind (if pcff then Inr (take 255 (out_dir @ ''/'' @ path)) else out_name path out_dir) (\<lambda>name.
     ebind (slice f (sub32 (add32 seg_off fo) slide) sz) (\<lambda>bs. Inr (dirs @ [File name bs]))))))))"

partial_function (option) new_loop ::
    "bool \<Rightarrow> string \<Rightarrow> u8 list \<Rightarrow> nat \<Rightarrow> nat \<Rightarrow> nat \<Rightarrow> nat \<Rightarrow> u8 list \<Rightarrow> event list \<Rightarrow> (self_fault + event list) option" where
  "new_loop pcff out_dir f seg_off slide start i entry acc =
     (case new_module pcff out_dir f seg_off slide entry of
        Inl e \<Rightarrow> Some (Inl e)
      | Inr evs \<Rightarrow>
        (if get32 (reread f (add32 seg_off (add32 start (12 * (i + 1)))) entry) 0 = Inr 0 then Some (Inr (acc @ evs))
         else new_loop pcff out_dir f seg_off slide start (i + 1) (reread f (add32 seg_off (add32 start (12 * (i + 1)))) entry) (acc @ evs)))"

section \<open>The program\<close>

definition BASE_VADDR :: nat where "BASE_VADDR = 0x81000000"

text \<open>The checks: the pcff mode, or the exit code.\<close>

definition check_image :: "u8 list \<Rightarrow> tool_stop + bool" where
  "check_image f = (let chunk = take 0x400 f in
     ebind (lift (slice chunk 0 8)) (\<lambda>m. ebind (exit_unless (m = elf_magic) (-3)) (\<lambda>_.
     ebind (lift (bootimage_module_info_offset chunk)) (\<lambda>mi. ebind (exit_unless (mi \<noteq> 0) (-4)) (\<lambda>_.
     ebind (lift (same_string (take 0x20 (drop mi f)) 4 (cstr ''SceSblPcffBin''))) (\<lambda>pcff.
     ebind (if pcff then Inr True else lift (same_string (take 0x20 (drop mi f)) 4 (cstr ''SceKernelBootimage''))) (\<lambda>ok.
     ebind (exit_unless ok (-3)) (\<lambda>_. Inr pcff))))))))"

definition extract_modules :: "bool \<Rightarrow> string \<Rightarrow> u8 list \<Rightarrow> (self_fault + event list) option" where
  "extract_modules pcff out_dir f = (let chunk = take 0x400 f in
     case ebind (get32 chunk 0x1C) (\<lambda>phoff. ebind (get32 chunk (phoff + 4)) (\<lambda>text_off.
       ebind (get32 chunk (text_off + 0xC0)) (\<lambda>sz. ebind (get32 chunk (phoff + 16)) (\<lambda>filesz.
         Inr (phoff, text_off, sub32 sz BASE_VADDR, filesz))))) of
       Inl e \<Rightarrow> Some (Inl e)
     | Inr (phoff, text_off, seg_size, filesz) \<Rightarrow>
       if seg_size = filesz then
         (case get32 chunk (text_off + 0xC4) of Inl e \<Rightarrow> Some (Inl e)
          | Inr o1 \<Rightarrow> old_loop out_dir f text_off seg_size (sub32 o1 BASE_VADDR) [])
       else
         (case get32 chunk (phoff + (if pcff then 0x20 else 0) + 4) of Inl e \<Rightarrow> Some (Inl e)
          | Inr seg_off \<Rightarrow>
            (let start = (if pcff then 0 else 0xE4) in
             case slice f (add32 seg_off start) 12 of Inl e \<Rightarrow> Some (Inl e)
             | Inr entry \<Rightarrow>
               (case get32 entry 0 of Inl e \<Rightarrow> Some (Inl e)
                | Inr po \<Rightarrow> new_loop pcff out_dir f seg_off (if pcff then po - po mod 0x10000 else BASE_VADDR) start 0 entry []))))"

definition bootimage_extract :: "string \<Rightarrow> u8 list \<Rightarrow> (tool_stop + event list) option" where
  "bootimage_extract out_dir f = (case check_image f of Inl e \<Rightarrow> Some (Inl e)
     | Inr pcff \<Rightarrow> map_option (\<lambda>r. ebind (lift r) (\<lambda>evs. Inr (Mkdir out_dir # evs))) (extract_modules pcff out_dir f))"

section \<open>What replacing does\<close>

text \<open>The reference: from left to right, every occurrence that does not overlap the one before.\<close>

function replace_all :: "string \<Rightarrow> string \<Rightarrow> string \<Rightarrow> string" where
  "replace_all rep wth [] = []"
| "replace_all rep wth (c # s) = (if rep \<noteq> [] \<and> begins rep (c # s) then wth @ replace_all rep wth (drop (length rep) (c # s))
     else c # replace_all rep wth s)"
  by pat_completeness auto
termination
proof (relation "measure (\<lambda>(r, w, s). length s)", simp, goal_cases)
  case (1 rep wth c s)
  then show ?case by (cases rep) auto
qed simp

declare replace_all.simps(2) [simp del]

lemma replace_all_strstr:
  assumes "rep \<noteq> []"
  shows "replace_all rep wth s = (case strstr s rep of None \<Rightarrow> s | Some k \<Rightarrow> take k s @ wth @ replace_all rep wth (drop (k + length rep) s))"
proof (induction s)
  case (Cons c s)
  then show ?case
    using assms by (auto simp: replace_all.simps(2) split: option.split)
qed (use assms in simp)

lemma fill_replaces:
  "rep \<noteq> [] \<Longrightarrow> \<exists>r. fill (count_rep orig rep) orig rep wth = Some r \<and> r = replace_all rep wth orig \<and>
    int (length r) = int (length orig) + (int (length wth) - int (length rep)) * int (count_rep orig rep)"
proof (induction orig rep rule: count_rep.induct)
  case (1 orig rep)
  show ?case
  proof (cases "strstr orig rep")
    case None
    then show ?thesis using 1(2) by (simp add: count_rep.simps [of orig rep] replace_all_strstr [OF 1(2), of _ orig])
  next
    case (Some k)
    let ?rest = "drop (k + length rep) orig"
    obtain r where r: "fill (count_rep ?rest rep) ?rest rep wth = Some r" "r = replace_all rep wth ?rest"
        "int (length r) = int (length ?rest) + (int (length wth) - int (length rep)) * int (count_rep ?rest rep)"
      using 1(1) [OF _ Some] 1(2) by auto
    have l: "k + length rep \<le> length orig" by (rule strstr_length [OF Some])
    have c: "count_rep orig rep = Suc (count_rep ?rest rep)"
      using Some 1(2) by (simp add: count_rep.simps [of orig rep])
    have "int (length (take k orig @ wth @ r)) = int (length orig) + (int (length wth) - int (length rep)) * int (count_rep orig rep)"
    proof -
      have "length (take k orig) = k" using l by simp
      then have "int (length (take k orig @ wth @ r)) = int k + int (length wth) + int (length r)" by simp
      moreover have "int (length ?rest) = int (length orig) - int k - int (length rep)" using l by (simp add: of_nat_diff)
      ultimately show ?thesis using r(3) c by (simp add: algebra_simps)
    qed
    moreover have "fill (count_rep orig rep) orig rep wth = Some (take k orig @ wth @ r)"
      using c Some r(1) by simp
    moreover have "take k orig @ wth @ r = replace_all rep wth orig"
      using replace_all_strstr [OF 1(2), of wth orig] Some r(2) by simp
    ultimately show ?thesis by metis
  qed
qed

text \<open>
  C26. \<open>str_replace\<close> replaces all occurrences, from left to right, and the text it builds with its terminator fills the
  memory that it allocated exactly: it never writes past the end, whether the replacement is longer or shorter.
\<close>

theorem str_replace_all:
  assumes "rep \<noteq> []"
  shows "str_replace orig rep wth = Inr (Some (replace_all rep wth orig)) \<and>
    int (length (replace_all rep wth orig)) + 1 = replace_alloc orig rep wth"
  using fill_replaces [OF assms, of orig wth] assms by (auto simp: str_replace_def replace_alloc_def)

theorem str_replace_all_witness: "str_replace ''os0:kd/a.skprx'' ''os0:kd'' ''out'' = Inr (Some ''out/a.skprx'')"
  using str_replace_all [of "''os0:kd''" "''os0:kd/a.skprx''" "''out''"] by (simp add: replace_all.simps(2))

section \<open>What is extracted\<close>

lemma old_loop_extracts:
  assumes "\<And>j. j < length es \<Longrightarrow> add32 t (offs j) < n \<and> old_module out f t (offs j) = Inr (es ! j, offs (Suc j))"
    and "\<not> add32 t (offs (length es)) < n"
  shows "i \<le> length es \<Longrightarrow> old_loop out f t n (offs i) acc = Some (Inr (acc @ drop i es))"
proof (induction "length es - i" arbitrary: i acc)
  case 0
  then have "i = length es" by simp
  then show ?case using assms(2) by (subst old_loop.simps) simp
next
  case (Suc k)
  then have i: "i < length es" by simp
  have "old_loop out f t n (offs i) acc = old_loop out f t n (offs (Suc i)) (acc @ [es ! i])"
    using assms(1) [OF i] by (subst old_loop.simps) simp
  also have "\<dots> = Some (Inr ((acc @ [es ! i]) @ drop (Suc i) es))"
    by (rule Suc.hyps(1)) (use Suc.hyps(2) in auto)
  finally show ?case using i by (simp add: Cons_nth_drop_Suc)
qed

text \<open>A module in the old format at an offset of the file: size, path in 256 bytes, contents.\<close>

definition packed_at :: "u8 list \<Rightarrow> nat \<Rightarrow> string \<times> u8 list \<Rightarrow> bool" where
  "packed_at f p m = (get32 f p = Inr (length (snd m)) \<and> file_string f (p + 4) 256 = Inr (fst m) \<and>
     slice f (p + 260) (length (snd m)) = Inr (snd m))"

text \<open>The offsets at which modules that follow each other begin.\<close>

definition packed_offset :: "nat \<Rightarrow> (string \<times> u8 list) list \<Rightarrow> nat \<Rightarrow> nat" where
  "packed_offset o1 ms j = o1 + sum_list (map (\<lambda>m. 260 + length (snd m)) (take j ms))"

lemma packed_offset_mono: "packed_offset o1 ms j \<le> packed_offset o1 ms (length ms)"
proof -
  let ?g = "\<lambda>m :: string \<times> u8 list. 260 + length (snd m)"
  have "sum_list (map ?g (take j ms @ drop j ms)) = sum_list (map ?g (take j ms)) + sum_list (map ?g (drop j ms))"
    by (simp only: map_append sum_list_append)
  then have "sum_list (map ?g ms) = sum_list (map ?g (take j ms)) + sum_list (map ?g (drop j ms))"
    by (simp only: append_take_drop_id)
  then show ?thesis by (simp add: packed_offset_def)
qed

lemma packed_offset_Suc: "j < length ms \<Longrightarrow> packed_offset o1 ms (Suc j) = packed_offset o1 ms j + (260 + length (snd (ms ! j)))"
  by (simp add: packed_offset_def take_Suc_conv_app_nth)

lemma packed_offset_less: "j < length ms \<Longrightarrow> packed_offset o1 ms j < packed_offset o1 ms (length ms)"
  using packed_offset_mono [of o1 ms "Suc j"] packed_offset_Suc [of j ms o1] by simp

lemma out_name_eq: "out_name path out = Inr (replace_all ''.skprx'' ''.elf'' (replace_all ''os0:kd'' out path))"
  using str_replace_all [of "''os0:kd''" path out]
    str_replace_all [of "''.skprx''" "replace_all ''os0:kd'' out path" "''.elf''"] by (simp add: out_name_def)

text \<open>The modules that the loop reaches: it compares the offset in the file with the size of the segment.\<close>

definition reached :: "nat \<Rightarrow> nat \<Rightarrow> nat \<Rightarrow> (string \<times> u8 list) list \<Rightarrow> nat" where
  "reached t n o1 ms = length (takeWhile (\<lambda>j. t + packed_offset o1 ms j < n) [0..<length ms])"

lemma reached_less: "j < reached t n o1 ms \<Longrightarrow> j < length ms \<and> t + packed_offset o1 ms j < n"
proof -
  assume j: "j < reached t n o1 ms"
  have "reached t n o1 ms \<le> length ms" unfolding reached_def using length_takeWhile_le [of _ "[0..<length ms]"] by simp
  moreover have "takeWhile (\<lambda>j. t + packed_offset o1 ms j < n) [0..<length ms] ! j = [0..<length ms] ! j"
    by (rule takeWhile_nth) (use j in \<open>simp add: reached_def\<close>)
  moreover have "takeWhile (\<lambda>j. t + packed_offset o1 ms j < n) [0..<length ms] ! j \<in> set (takeWhile (\<lambda>j. t + packed_offset o1 ms j < n) [0..<length ms])"
    by (rule nth_mem) (use j in \<open>simp add: reached_def\<close>)
  ultimately show ?thesis using j by (auto dest!: set_takeWhileD)
qed

lemma reached_stop: "reached t n o1 ms < length ms \<Longrightarrow> \<not> t + packed_offset o1 ms (reached t n o1 ms) < n"
  using nth_length_takeWhile [of "\<lambda>j. t + packed_offset o1 ms j < n" "[0..<length ms]"] by (simp add: reached_def)

text \<open>
  C27. Unpacking an image in the old format: when modules follow each other from \<open>o1\<close> on, the loop ends and writes, in order,
  every module whose offset in the file is below the size of the text segment, under its path in the output
  directory and with the extension \<open>.elf\<close>.
\<close>

theorem old_format_unpacked:
  assumes "\<forall>j < length ms. packed_at f (t + packed_offset o1 ms j) (ms ! j)"
    and "n \<le> t + packed_offset o1 ms (length ms)" and "t + packed_offset o1 ms (length ms) < 2 ^ 32"
  shows "old_loop out f t n o1 [] = Some (Inr (map (\<lambda>m.
    File (replace_all ''.skprx'' ''.elf'' (replace_all ''os0:kd'' out (fst m))) (snd m)) (take (reached t n o1 ms) ms)))"
proof -
  let ?r = "reached t n o1 ms"
  let ?es = "map (\<lambda>m. File (replace_all ''.skprx'' ''.elf'' (replace_all ''os0:kd'' out (fst m))) (snd m)) (take ?r ms)"
  let ?o = "packed_offset o1 ms"
  have r: "?r \<le> length ms" unfolding reached_def using length_takeWhile_le [of _ "[0..<length ms]"] by simp
  have step: "add32 t (?o j) < n \<and> old_module out f t (?o j) = Inr (?es ! j, ?o (Suc j))" if "j < length ?es" for j
  proof -
    have jr: "j < ?r" using that by simp
    then have j: "j < length ms" and jn: "t + ?o j < n" using reached_less by blast+
    have le: "?o j + (260 + length (snd (ms ! j))) = ?o (Suc j)" using packed_offset_Suc [OF j] by simp
    have lt: "t + ?o (Suc j) < 2 ^ 32" using packed_offset_mono [of o1 ms "Suc j"] assms(3) by linarith
    then have a: "add32 t (?o j) = t + ?o j" "add32 t (add32 (?o j) 260) = t + ?o j + 260"
        "add32 (?o j) (add32 260 (length (snd (ms ! j)))) = ?o (Suc j)"
      using le by (simp_all add: add32_def)
    have "packed_at f (t + ?o j) (ms ! j)" using assms(1) j by simp
    then have "old_module out f t (?o j) = Inr (?es ! j, ?o (Suc j))"
      using j jr by (simp add: old_module_def a packed_at_def out_name_eq)
    then show ?thesis using a jn by simp
  qed
  have "t + ?o ?r < 2 ^ 32" using packed_offset_mono [of o1 ms ?r] assms(3) by linarith
  moreover have "\<not> t + ?o ?r < n" using reached_stop [of t n o1 ms] r assms(2) by (cases "?r = length ms") auto
  ultimately have stop: "\<not> add32 t (?o (length ?es)) < n" using r by (simp add: add32_def)
  have "?o 0 = o1" by (simp add: packed_offset_def)
  then show ?thesis using old_loop_extracts [of ?es t ?o n out f, OF step stop, of 0 "[]"] by simp
qed

text \<open>An image with two modules of one and of no bytes behind eight bytes of the segment, at offset 300 of the file.\<close>

definition sample_old :: "u8 list" where
  "sample_old = map (\<lambda>i. if i = 308 then 1 else if i = 312 then 97 else if i = 568 then 7 else if i = 573 then 98 else 0) [0..<829]"

lemma sample_packed: "packed_at sample_old 308 (''a'', [7])" "packed_at sample_old 569 (''b'', [])"
  by (simp_all add: packed_at_def get32_def rd32_def join32_def file_string_def slice_def sample_old_def drop_map take_map
      takeWhile_map char_of_def bit_Suc_0_iff)

text \<open>The segment of this image has 529 bytes, both modules are in it; the second one is not reached.\<close>

theorem old_format_unpacked_witness:
  "old_loop ''o'' sample_old 300 529 8 [] = Some (Inr [File ''a'' [7]])"
proof -
  let ?ms = "[(''a'', [7]), (''b'', [])] :: (string \<times> u8 list) list"
  have o: "packed_offset 8 ?ms 0 = 8" "packed_offset 8 ?ms (Suc 0) = 269" "packed_offset 8 ?ms (Suc (Suc 0)) = 529"
    by (simp_all add: packed_offset_def)
  have r: "reached 300 529 8 ?ms = 1" by (simp add: reached_def o upt_rec)
  have "old_loop ''o'' sample_old 300 529 8 [] = Some (Inr (map (\<lambda>m.
      File (replace_all ''.skprx'' ''.elf'' (replace_all ''os0:kd'' ''o'' (fst m))) (snd m)) (take (reached 300 529 8 ?ms) ?ms)))"
    by (rule old_format_unpacked) (auto simp: o less_Suc_eq sample_packed)
  then show ?thesis by (simp add: r replace_all.simps(2))
qed

end
