(* ===== verification/ShipLog.thy ===== *)
theory ShipLog
  imports Vita_Prelude "HOL-Library.Sublist"
begin

text \<open>
  The kernel part of ShipLog 2.0, \<open>backdoor.exe/backdoor_exe.c\<close>, \<open>cj_net.c\<close> and \<open>utils.c\<close>: the log buffer that the
  debug handlers fill, the log file, and the thread that sends the buffer over the network or writes it to the file.
  The handlers and the rounds of the thread are functions of one state; without the network the thread is also given step
  by step, so that handlers come in between. The results of the network calls and of opening the file are arguments.
\<close>

section \<open>The buffer\<close>

definition BUF_SIZE :: nat where "BUF_SIZE = 1024 * 32"

text \<open>\<open>send_out\<close> is the bit \<open>SEND_OUT\<close> of the event flag.\<close>

record shiplog =
  buffer :: "u8 list"
  buf_pos :: nat
  log_file :: "u8 list"
  send_out :: bool
  is_connected :: bool
  sock :: int
  netEnable :: bool
  fileLog :: bool

definition shiplog_init :: "bool \<Rightarrow> bool \<Rightarrow> shiplog" where
  "shiplog_init net f = \<lparr>buffer = replicate BUF_SIZE 0, buf_pos = 0, log_file = [], send_out = False, is_connected = False,
     sock = -1, netEnable = net, fileLog = f\<rparr>"

definition bufLength :: "shiplog \<Rightarrow> nat" where "bufLength s = buf_pos s"

definition bufClear :: "shiplog \<Rightarrow> shiplog" where
  "bufClear s = s\<lparr>buffer := replicate BUF_SIZE 0, buf_pos := 0\<rparr>"

text \<open>\<open>opened\<close>: whether the log file could be opened; if not, the text is dropped.\<close>

definition log_write :: "bool \<Rightarrow> u8 list \<Rightarrow> shiplog \<Rightarrow> shiplog" where
  "log_write opened bs s = (if opened then s\<lparr>log_file := log_file s @ bs\<rparr> else s)"

definition log_reset :: "bool \<Rightarrow> shiplog \<Rightarrow> shiplog" where
  "log_reset opened s = (if opened then s\<lparr>log_file := []\<rparr> else s)"

definition stopSend :: "shiplog \<Rightarrow> shiplog" where "stopSend s = s\<lparr>send_out := False\<rparr>"

definition startSend :: "shiplog \<Rightarrow> shiplog" where "startSend s = s\<lparr>send_out := True\<rparr>"

text \<open>The whole buffer is written, also the part that is not filled.\<close>

definition make_room :: "bool \<Rightarrow> nat \<Rightarrow> shiplog \<Rightarrow> shiplog" where
  "make_room opened n s = (if buf_pos s + n > BUF_SIZE then bufClear (log_write opened (buffer s) s) else s)"

text \<open>\<open>text\<close> is what the format yields; \<open>snprintf\<close> keeps 511 bytes, \<open>strnlen\<close> stops at a NUL.\<close>

definition debugHandler :: "bool \<Rightarrow> u8 list \<Rightarrow> shiplog \<Rightarrow> shiplog" where
  "debugHandler opened txt s = (let bs = takeWhile (\<lambda>b. b \<noteq> 0) (take 511 txt); s = make_room opened (length bs) (stopSend s) in
     startSend (s\<lparr>buffer := put_bytes (buffer s) (buf_pos s) bs, buf_pos := buf_pos s + length bs\<rparr>))"

definition putchar_handler :: "bool \<Rightarrow> u8 \<Rightarrow> shiplog \<Rightarrow> shiplog" where
  "putchar_handler opened c s = (let s = make_room opened 1 (stopSend s) in
     startSend (s\<lparr>buffer := (buffer s)[buf_pos s := c], buf_pos := buf_pos s + 1\<rparr>))"

definition shipLogDumpToDisk :: "bool \<Rightarrow> shiplog \<Rightarrow> shiplog" where
  "shipLogDumpToDisk opened s = bufClear (log_write opened (take (buf_pos s) (buffer s)) s)"

section \<open>The thread\<close>

text \<open>
  The loop that sends: every call passes the whole length of the buffer again, from the place that was reached, so that
  \<open>mem\<close> is read behind the filled part and behind the buffer. \<open>rets n\<close> (at most the \<open>len\<close> that is offered each time) is the result of the \<open>n\<close>th call, which took so
  many of the bytes. \<open>Inl\<close>: a negative result was passed on to \<open>log_write\<close> as a length. The result is the last
  \<open>ret\<close>, and the bytes that were taken.
\<close>

partial_function (option) send_loop ::
    "(nat \<Rightarrow> int) \<Rightarrow> (nat \<Rightarrow> u8) \<Rightarrow> bool \<Rightarrow> nat \<Rightarrow> nat \<Rightarrow> nat \<Rightarrow> u8 list \<Rightarrow> (unit + int \<times> u8 list) option" where
  "send_loop rets mem flog len n sent acc = (if sent < len then
     (if rets n < 0 then Some (if flog then Inl () else Inr (rets n, acc))
      else send_loop rets mem flog len (n + 1) (sent + nat (rets n)) (acc @ map (\<lambda>i. mem (sent + i)) [0..<nat (rets n)]))
     else Some (Inr (0, acc)))"

text \<open>The network: the socket, the result of connecting, the results of sending, and the memory behind the buffer.\<close>

record network =
  new_sock :: int
  connected :: int
  sends :: "nat \<Rightarrow> int"
  behind :: "nat \<Rightarrow> u8"

definition buf_mem :: "shiplog \<Rightarrow> network \<Rightarrow> nat \<Rightarrow> u8" where
  "buf_mem s w i = (if i < length (buffer s) then buffer s ! i else behind w (i - length (buffer s)))"

definition try_connect :: "network \<Rightarrow> shiplog \<Rightarrow> shiplog" where
  "try_connect w s = (if netEnable s \<and> \<not> is_connected s
     then s\<lparr>sock := new_sock w, is_connected := connected w > -1\<rparr> else s)"

datatype round_result = Blocked | Crashed | Ends_never | Round shiplog "u8 list"

text \<open>One round of \<open>main_netdbg\<close>, with the bytes that the peer received.\<close>

definition net_round :: "bool \<Rightarrow> network \<Rightarrow> shiplog \<Rightarrow> round_result" where
  "net_round opened w s = (let s = try_connect w s in
     if bufLength s = 0 then Round s []
     else if is_connected s \<and> netEnable s then
       (if \<not> send_out s then Blocked
        else let s = s\<lparr>send_out := False\<rparr> in
          (case send_loop (sends w) (buf_mem s w) (fileLog s) (bufLength s) 0 0 [] of
             None \<Rightarrow> Ends_never
           | Some (Inl _) \<Rightarrow> Crashed
           | Some (Inr (ret, bs)) \<Rightarrow>
             let s = (if fileLog s then log_write opened bs s else s) in
             if ret < 0 then Round (s\<lparr>is_connected := False\<rparr>) bs else Round (bufClear s) bs))
     else if fileLog s then
       (if \<not> send_out s then Blocked
        else let s = s\<lparr>send_out := False\<rparr> in Round (bufClear (log_write opened (take (bufLength s) (buffer s)) s)) [])
     else Round s [])"

section \<open>Start and stop\<close>

text \<open>\<open>fini_netdbg\<close> closes the socket unless it is 0: also the initial -1. The socket that was closed, if any.\<close>

definition fini_netdbg :: "shiplog \<Rightarrow> int option \<times> shiplog" where
  "fini_netdbg s = (if sock s \<noteq> 0 then (Some (sock s), s\<lparr>sock := 0\<rparr>) else (None, s))"

text \<open>What is acquired when the module starts, and what \<open>module_stop\<close> gives back.\<close>

datatype resource = StdoutHook | NetEvent | NetThread | DebugHandler | PutcharHandler

definition module_start :: "bool \<Rightarrow> bool \<Rightarrow> resource list" where
  "module_start hooked thread_ok = (if hooked then [StdoutHook] else []) @ [NetEvent] @ (if thread_ok then [NetThread] else [])
     @ [DebugHandler, PutcharHandler]"

definition module_stop :: "bool \<Rightarrow> resource list" where
  "module_stop hooked = (if hooked then [StdoutHook] else [])"

section \<open>The thread, step by step\<close>

text \<open>
  The handlers and the dump call run in other threads, and nothing locks the buffer. So without the network a round of
  the thread is cut where another thread can come between: before it waits for the event, before the arguments of
  \<open>log_write\<close> are read, before the file is written (\<open>TWrite n\<close>: \<open>n\<close> is the length that was passed), and before the buffer
  is cleared. \<open>None\<close>: the thread is blocked.
\<close>

datatype thread_at = TTop | TWait | TArgs | TWrite nat | TClear

fun thread_step :: "bool \<Rightarrow> shiplog \<times> thread_at \<Rightarrow> (shiplog \<times> thread_at) option" where
  "thread_step opened (s, TTop) = Some (s, if bufLength s > 0 \<and> fileLog s then TWait else TTop)"
| "thread_step opened (s, TWait) = (if send_out s then Some (s\<lparr>send_out := False\<rparr>, TArgs) else None)"
| "thread_step opened (s, TArgs) = Some (s, TWrite (bufLength s))"
| "thread_step opened (s, TWrite n) = Some (log_write opened (take n (buffer s)) s, TClear)"
| "thread_step opened (s, TClear) = Some (bufClear s, TTop)"

lemma thread_round:
  assumes "\<not> netEnable s" "fileLog s" "0 < buf_pos s" "send_out s"
  shows "\<exists>s'. net_round opened w s = Round s' [] \<and>
    do { t \<leftarrow> thread_step opened (s, TTop); t \<leftarrow> thread_step opened t; t \<leftarrow> thread_step opened t; t \<leftarrow> thread_step opened t;
         thread_step opened t } = Some (s', TTop)"
  using assms by (simp add: net_round_def try_connect_def Let_def bufLength_def log_write_def)

section \<open>What is kept of the texts\<close>

text \<open>A call of a handler, of the dump function, or a step of the thread; the flag tells whether the log file can be opened
  then. A call of a handler or of the dump function is one step.\<close>

datatype step = Format "u8 list" | Putchar u8 | Dump | Thread

fun do_step :: "bool \<times> step \<Rightarrow> shiplog \<times> thread_at \<Rightarrow> (shiplog \<times> thread_at) option" where
  "do_step (opened, Format t) (s, p) = Some (debugHandler opened t s, p)"
| "do_step (opened, Putchar c) (s, p) = Some (putchar_handler opened c s, p)"
| "do_step (opened, Dump) (s, p) = Some (shipLogDumpToDisk opened s, p)"
| "do_step (opened, Thread) (s, p) = thread_step opened (s, p)"

fun do_steps :: "(bool \<times> step) list \<Rightarrow> shiplog \<times> thread_at \<Rightarrow> (shiplog \<times> thread_at) option" where
  "do_steps [] st = Some st"
| "do_steps (x # xs) st = do { st \<leftarrow> do_step x st; do_steps xs st }"

text \<open>The text of a step, and where the thread is when a text that comes may be lost: it will clear the buffer without
  having seen it.\<close>

fun logged :: "step \<Rightarrow> u8 list" where
  "logged (Format t) = takeWhile (\<lambda>b. b \<noteq> 0) (take 511 t)"
| "logged (Putchar c) = (if c = 0 then [] else [c])"
| "logged Dump = []"
| "logged Thread = []"

fun in_window :: "thread_at \<Rightarrow> bool" where
  "in_window (TWrite n) = True"
| "in_window TClear = True"
| "in_window p = False"

text \<open>The texts that come outside of this window, and whether all calls do.\<close>

fun kept :: "(bool \<times> step) list \<Rightarrow> shiplog \<times> thread_at \<Rightarrow> u8 list" where
  "kept [] st = []"
| "kept (x # xs) st = (if in_window (snd st) then [] else logged (snd x)) @ (case do_step x st of None \<Rightarrow> [] | Some st \<Rightarrow> kept xs st)"

fun undisturbed :: "(bool \<times> step) list \<Rightarrow> shiplog \<times> thread_at \<Rightarrow> bool" where
  "undisturbed [] st = True"
| "undisturbed (x # xs) st = ((snd x = Thread \<or> \<not> in_window (snd st)) \<and> (case do_step x st of None \<Rightarrow> True | Some st \<Rightarrow> undisturbed xs st))"

text \<open>What the log holds: the file and the filled part of the buffer, unless that is in the file already; without NUL bytes.\<close>

definition log_text :: "shiplog \<Rightarrow> thread_at \<Rightarrow> u8 list" where
  "log_text s p = filter (\<lambda>b. b \<noteq> 0) (log_file s @ (if p = TClear then [] else take (buf_pos s) (buffer s)))"

text \<open>The part of the buffer behind the position is zero.\<close>

definition log_ok :: "shiplog \<Rightarrow> bool" where
  "log_ok s \<longleftrightarrow> length (buffer s) = BUF_SIZE \<and> buf_pos s \<le> BUF_SIZE \<and> (\<forall>b \<in> set (drop (buf_pos s) (buffer s)). b = 0)"

definition stored :: "shiplog \<Rightarrow> u8 list" where
  "stored s = filter (\<lambda>b. b \<noteq> 0) (log_file s @ take (buf_pos s) (buffer s))"

lemma log_ok_init: "log_ok (shiplog_init net f)"
  by (simp add: log_ok_def shiplog_init_def)

lemma stored_whole: "log_ok s \<Longrightarrow> filter (\<lambda>b. b \<noteq> 0) (log_file s @ buffer s) = stored s"
proof -
  assume "log_ok s"
  then have "filter (\<lambda>b. b \<noteq> 0) (drop (buf_pos s) (buffer s)) = []" by (simp add: log_ok_def filter_empty_conv)
  moreover have "filter (\<lambda>b. b \<noteq> 0) (buffer s) = filter (\<lambda>b. b \<noteq> 0) (take (buf_pos s) (buffer s)) @ filter (\<lambda>b. b \<noteq> 0) (drop (buf_pos s) (buffer s))"
    by (metis append_take_drop_id filter_append)
  ultimately show ?thesis by (simp add: stored_def)
qed

text \<open>Both handlers add a text of at most the size of the buffer.\<close>

definition add_text :: "bool \<Rightarrow> u8 list \<Rightarrow> shiplog \<Rightarrow> shiplog" where
  "add_text opened bs s = (let s = make_room opened (length bs) (stopSend s) in
     startSend (s\<lparr>buffer := put_bytes (buffer s) (buf_pos s) bs, buf_pos := buf_pos s + length bs\<rparr>))"

lemma make_room_ok:
  assumes "log_ok s" "n \<le> BUF_SIZE"
  shows "log_ok (make_room opened n (stopSend s))" "buf_pos (make_room opened n (stopSend s)) + n \<le> BUF_SIZE"
    "netEnable (make_room opened n (stopSend s)) = netEnable s" "stored (make_room True n (stopSend s)) = stored s"
  using assms stored_whole [OF assms(1)]
  by (auto simp: make_room_def stopSend_def bufClear_def log_write_def log_ok_def stored_def)

lemma add_text_ok:
  assumes "log_ok s" "length bs \<le> BUF_SIZE"
  shows "log_ok (add_text opened bs s)" "send_out (add_text opened bs s)" "stored (add_text True bs s) = stored s @ filter (\<lambda>b. b \<noteq> 0) bs"
proof -
  have sub: "set (drop (buf_pos m + length bs) (buffer m)) \<subseteq> set (drop (buf_pos m) (buffer m))" for m :: shiplog
    by (rule set_drop_subset_set_drop) simp
  note m = make_room_ok(1-3) [OF assms, of opened] and t = make_room_ok(1-3) [OF assms, of True] make_room_ok(4) [OF assms]
  show "log_ok (add_text opened bs s)"
    using m(1,2) sub [of "make_room opened (length bs) (stopSend s)"] by (auto simp: add_text_def Let_def startSend_def log_ok_def put_bytes_def)
  show "send_out (add_text opened bs s)" by (simp add: add_text_def Let_def startSend_def)
  show "stored (add_text True bs s) = stored s @ filter (\<lambda>b. b \<noteq> 0) bs"
    using t unfolding t(4) [symmetric] by (simp add: add_text_def Let_def startSend_def stored_def put_bytes_def log_ok_def)
qed

text \<open>What is in the file, and the first part of the buffer, stays: in the buffer, or in front of it in the file.\<close>

lemma add_text_keeps:
  assumes "log_ok s" "length bs \<le> BUF_SIZE"
  shows "prefix (log_file s) (log_file (add_text opened bs s))"
    "prefix (log_file s @ take (min n (buf_pos s)) (buffer s))
      (log_file (add_text True bs s) @ take (min n (buf_pos (add_text True bs s))) (buffer (add_text True bs s)))"
proof -
  show "prefix (log_file s) (log_file (add_text opened bs s))"
    by (simp add: add_text_def Let_def startSend_def stopSend_def make_room_def bufClear_def log_write_def)
  show "prefix (log_file s @ take (min n (buf_pos s)) (buffer s))
      (log_file (add_text True bs s) @ take (min n (buf_pos (add_text True bs s))) (buffer (add_text True bs s)))"
  proof (cases "buf_pos s + length bs > BUF_SIZE")
    case True
    then show ?thesis
      by (auto simp: add_text_def Let_def startSend_def stopSend_def make_room_def bufClear_def log_write_def take_is_prefix
          intro: prefix_prefix)
  next
    case False
    have "prefix (take (min n (buf_pos s)) (buffer s)) (take (min n (buf_pos s + length bs)) (put_bytes (buffer s) (buf_pos s) bs))"
    proof -
      have "take (min n (buf_pos s)) (put_bytes (buffer s) (buf_pos s) bs) = take (min n (buf_pos s)) (buffer s)"
        using assms(1) by (simp add: put_bytes_def log_ok_def)
      moreover have "min n (buf_pos s) \<le> min n (buf_pos s + length bs)" by simp
      ultimately show ?thesis by (metis take_is_prefix take_take min.absorb1 min.commute)
    qed
    then show ?thesis
      using False by (simp add: add_text_def Let_def startSend_def stopSend_def make_room_def)
  qed
qed

lemma handler_adds: "debugHandler opened t s = add_text opened (logged (Format t)) s"
  "log_ok s \<Longrightarrow> putchar_handler opened c s = add_text opened [c] s"
proof -
  show "debugHandler opened t s = add_text opened (logged (Format t)) s" by (simp add: debugHandler_def add_text_def Let_def)
  have "xs[i := c] = put_bytes xs i [c]" if "i < length xs" for xs i
    using that by (simp add: put_bytes_def upd_conv_take_nth_drop)
  moreover assume "log_ok s"
  ultimately show "putchar_handler opened c s = add_text opened [c] s"
    using make_room_ok(1,2) [of s 1 opened] by (simp add: putchar_handler_def add_text_def Let_def log_ok_def BUF_SIZE_def)
qed

text \<open>The invariant, and what is held for the log while the thread is at \<open>p\<close>.\<close>

definition run_ok :: "shiplog \<times> thread_at \<Rightarrow> bool" where
  "run_ok st \<longleftrightarrow> log_ok (fst st) \<and> \<not> netEnable (fst st) \<and>
     (snd st = TTop \<and> 0 < buf_pos (fst st) \<or> snd st = TWait \<longrightarrow> send_out (fst st))"

fun held :: "shiplog \<times> thread_at \<Rightarrow> u8 list" where
  "held (s, TWrite n) = log_file s @ take (min n (buf_pos s)) (buffer s)"
| "held (s, TClear) = log_file s"
| "held (s, p) = log_file s @ take (buf_pos s) (buffer s)"

lemma add_text_net: "log_ok s \<Longrightarrow> length bs \<le> BUF_SIZE \<Longrightarrow> netEnable (add_text opened bs s) = netEnable s"
  using make_room_ok(3) [of s "length bs" opened] by (simp add: add_text_def Let_def startSend_def)

lemma add_text_run: "run_ok (s, p) \<Longrightarrow> length bs \<le> BUF_SIZE \<Longrightarrow> run_ok (add_text opened bs s, p)"
  by (simp add: run_ok_def add_text_ok add_text_net)

lemma logged_fits: "length (logged (Format t)) \<le> BUF_SIZE" "length [c] \<le> BUF_SIZE"
  using length_takeWhile_le [of "\<lambda>b. b \<noteq> 0" "take 511 t"] by (simp_all add: BUF_SIZE_def)

lemma do_step_ok:
  assumes "run_ok (s, p)"
  shows "\<exists>st. do_step (opened, x) (s, p) = Some st \<and> run_ok st"
proof (cases x)
  case (Format t)
  then show ?thesis using add_text_run [OF assms logged_fits(1), of opened t] by (simp add: handler_adds del: logged.simps)
next
  case (Putchar c)
  then show ?thesis using add_text_run [OF assms logged_fits(2), of opened c] assms by (simp add: handler_adds run_ok_def)
next
  case Dump
  then show ?thesis using assms by (auto simp: run_ok_def shipLogDumpToDisk_def bufClear_def log_write_def log_ok_def)
next
  case Thread
  then show ?thesis
    using assms by (cases p) (auto simp: run_ok_def bufLength_def bufClear_def log_write_def log_ok_def)
qed

lemma held_window: "in_window p \<Longrightarrow> \<exists>k. \<forall>s. held (s, p) = log_file s @ take (min k (buf_pos s)) (buffer s)"
proof (cases p)
  case TClear
  then show ?thesis by (intro exI [of _ 0]) simp
qed auto

lemma held_stored: "\<not> in_window p \<Longrightarrow> filter (\<lambda>b. b \<noteq> 0) (held (s, p)) = stored s"
  by (cases p) (simp_all add: stored_def)

lemma held_prefix: "in_window p \<Longrightarrow> log_ok s \<Longrightarrow> length bs \<le> BUF_SIZE \<Longrightarrow>
    subseq (filter (\<lambda>b. b \<noteq> 0) (held (s, p))) (filter (\<lambda>b. b \<noteq> 0) (held (add_text True bs s, p)))"
proof -
  assume "in_window p" "log_ok s" "length bs \<le> BUF_SIZE"
  then obtain k where "\<forall>s. held (s, p) = log_file s @ take (min k (buf_pos s)) (buffer s)" using held_window by blast
  then have "prefix (held (s, p)) (held (add_text True bs s, p))"
    using add_text_keeps(2) [OF \<open>log_ok s\<close> \<open>length bs \<le> BUF_SIZE\<close>, of k] by simp
  then show ?thesis by (intro subseq_filter prefix_imp_subseq)
qed

text \<open>A step of another thread, in the window and outside.\<close>

lemma held_step:
  assumes "run_ok (s, p)" "do_step (True, x) (s, p) = Some (s', p')"
  shows "in_window p \<Longrightarrow> subseq (filter (\<lambda>b. b \<noteq> 0) (held (s, p))) (filter (\<lambda>b. b \<noteq> 0) (held (s', p')))"
    "\<not> in_window p \<Longrightarrow> filter (\<lambda>b. b \<noteq> 0) (held (s', p')) = filter (\<lambda>b. b \<noteq> 0) (held (s, p)) @ logged x"
proof -
  have ok: "log_ok s" using assms(1) by (simp add: run_ok_def)
  have nz: "filter (\<lambda>b. b \<noteq> 0) (logged (Format t)) = logged (Format t)" for t by (auto simp: filter_id_conv dest: set_takeWhileD)
  show "subseq (filter (\<lambda>b. b \<noteq> 0) (held (s, p))) (filter (\<lambda>b. b \<noteq> 0) (held (s', p')))" if w: "in_window p"
  proof (cases x)
    case (Format t)
    then show ?thesis using assms(2) held_prefix [OF w ok logged_fits(1) [of t]] by (simp add: handler_adds del: logged.simps)
  next
    case (Putchar c)
    then show ?thesis using assms(2) held_prefix [OF w ok logged_fits(2) [of c]] ok by (auto simp: handler_adds)
  next
    case Dump
    obtain k where "\<forall>s. held (s, p) = log_file s @ take (min k (buf_pos s)) (buffer s)" using held_window [OF w] by blast
    moreover have "prefix (take (min k (buf_pos s)) (buffer s)) (take (buf_pos s) (buffer s))"
      by (metis min.cobounded2 min.absorb1 take_is_prefix take_take)
    ultimately have "prefix (held (s, p)) (held (s', p'))"
      using assms(2) by (auto simp: Dump shipLogDumpToDisk_def bufClear_def log_write_def)
    then show ?thesis by (intro subseq_filter prefix_imp_subseq)
  next
    case Thread
    have "prefix (take (min n m) xs) (take n xs)" for n m and xs :: "u8 list"
      by (metis min.cobounded1 min.absorb1 take_is_prefix take_take)
    then have "prefix (held (s, p)) (held (s', p'))"
      using w assms(2) by (cases p) (auto simp: Thread log_write_def bufClear_def)
    then show ?thesis by (intro subseq_filter prefix_imp_subseq)
  qed
  show "filter (\<lambda>b. b \<noteq> 0) (held (s', p')) = filter (\<lambda>b. b \<noteq> 0) (held (s, p)) @ logged x" if w: "\<not> in_window p"
  proof (cases x)
    case (Format t)
    then show ?thesis
      using assms(2) add_text_ok(3) [OF ok logged_fits(1) [of t]] w nz [of t] by (auto simp: handler_adds held_stored simp del: logged.simps(1))
  next
    case (Putchar c)
    then show ?thesis using assms(2) add_text_ok(3) [OF ok logged_fits(2), of c] w ok by (auto simp: handler_adds held_stored)
  next
    case Dump
    then show ?thesis
      using assms(2) w by (auto simp: held_stored stored_def shipLogDumpToDisk_def bufClear_def log_write_def)
  next
    case Thread
    then show ?thesis
      using w assms(2) by (cases p) (auto simp: bufLength_def split: if_splits)
  qed
qed

lemma do_steps_ok: "run_ok st \<Longrightarrow> \<exists>st'. do_steps xs st = Some st' \<and> run_ok st'"
proof (induction xs arbitrary: st)
  case (Cons x xs)
  obtain o1 y s p where "x = (o1, y)" "st = (s, p)" by (cases x, cases st)
  then obtain st1 where "do_step x st = Some st1" "run_ok st1" using do_step_ok Cons.prems by blast
  then show ?case using Cons.IH by auto
qed simp

lemma do_steps_keep:
  assumes "run_ok st" "do_steps xs st = Some st'" "\<forall>x \<in> set xs. fst x" "subseq K (filter (\<lambda>b. b \<noteq> 0) (held st))"
  shows "subseq (K @ kept xs st) (filter (\<lambda>b. b \<noteq> 0) (held st'))"
  using assms
proof (induction xs arbitrary: st K)
  case (Cons x xs)
  obtain y s p where x: "x = (True, y)" "st = (s, p)" using Cons.prems(3) by (cases x, cases st) auto
  obtain s1 p1 where st1: "do_step (True, y) (s, p) = Some (s1, p1)" "run_ok (s1, p1)" using do_step_ok Cons.prems(1) x by fastforce
  note h = held_step [OF Cons.prems(1) [unfolded x(2)] st1(1)]
  have "subseq (K @ (if in_window p then [] else logged y)) (filter (\<lambda>b. b \<noteq> 0) (held (s1, p1)))"
    using h Cons.prems(4) x(2) by (auto intro: subseq_order.trans)
  from Cons.IH [OF st1(2) _ _ this] show ?case using Cons.prems(2,3) st1(1) x by (auto split: if_splits)
qed simp

text \<open>The length passed to \<open>log_write\<close> is that of the buffer, as long as no other thread came in between.\<close>

fun aligned :: "shiplog \<times> thread_at \<Rightarrow> bool" where
  "aligned (s, TWrite n) \<longleftrightarrow> n = buf_pos s"
| "aligned (s, p) \<longleftrightarrow> True"

lemma undisturbed_step:
  assumes "run_ok (s, p)" "do_step (True, x) (s, p) = Some (s', p')" "x = Thread \<or> \<not> in_window p" "aligned (s, p)"
  shows "filter (\<lambda>b. b \<noteq> 0) (held (s', p')) = filter (\<lambda>b. b \<noteq> 0) (held (s, p)) @ logged x \<and> aligned (s', p')"
proof (cases "in_window p")
  case True
  then show ?thesis using assms by (cases p) (auto simp: log_write_def bufClear_def)
next
  case False
  moreover have "aligned (s', p')" using assms(2) False by (cases x; cases p) (auto simp: bufLength_def split: if_splits)
  ultimately show ?thesis using held_step(2) [OF assms(1,2)] by blast
qed

lemma do_steps_exact:
  assumes "run_ok st" "do_steps xs st = Some st'" "\<forall>x \<in> set xs. fst x" "undisturbed xs st" "aligned st"
  shows "filter (\<lambda>b. b \<noteq> 0) (held st') = filter (\<lambda>b. b \<noteq> 0) (held st) @ concat (map (logged \<circ> snd) xs) \<and> aligned st'"
  using assms
proof (induction xs arbitrary: st)
  case (Cons x xs)
  obtain y s p where x: "x = (True, y)" "st = (s, p)" using Cons.prems(3) by (cases x, cases st) auto
  obtain s1 p1 where st1: "do_step (True, y) (s, p) = Some (s1, p1)" "run_ok (s1, p1)" using do_step_ok Cons.prems(1) x by fastforce
  have "y = Thread \<or> \<not> in_window p" using Cons.prems(4) x by simp
  note h = undisturbed_step [OF Cons.prems(1) [unfolded x(2)] st1(1) this Cons.prems(5) [unfolded x(2)]]
  show ?case using Cons.IH [OF st1(2)] Cons.prems(2-4) st1(1) x h by simp
qed simp

lemma log_text_held: "subseq (filter (\<lambda>b. b \<noteq> 0) (held (s, p))) (log_text s p)" "aligned (s, p) \<Longrightarrow> log_text s p = filter (\<lambda>b. b \<noteq> 0) (held (s, p))"
proof -
  have "prefix (take (min n m) xs) (take m xs)" for n m and xs :: "u8 list"
    by (metis min.cobounded2 min.absorb1 take_is_prefix take_take)
  then have "prefix (held (s, p)) (log_file s @ (if p = TClear then [] else take (buf_pos s) (buffer s)))"
    by (cases p) simp_all
  then show "subseq (filter (\<lambda>b. b \<noteq> 0) (held (s, p))) (log_text s p)" unfolding log_text_def by (intro subseq_filter prefix_imp_subseq)
  show "aligned (s, p) \<Longrightarrow> log_text s p = filter (\<lambda>b. b \<noteq> 0) (held (s, p))" by (cases p) (simp_all add: log_text_def)
qed

text \<open>
  C32. Without network logging, for every interleaving of calls of the handlers, calls of the dump function and steps of the
  thread, the thread never blocks and the buffer is never overrun, whether the log file can be opened or not. When it can be
  opened each time (a file that is open takes every byte in the model; the code does not look at the result of \<open>ksceIoWrite\<close>), every text that comes while the thread is not between reading the arguments of \<open>log_write\<close> and the
  clearing of the buffer (\<open>in_window\<close>; the code has no lock) is in the log file or in the filled part of the buffer, in order, each
  line cut to 511 bytes; and when no call comes in between there, log file and buffer hold exactly the logged text, except for NUL
  bytes, from buffers that were written before they were full. A text that comes in that window, or whose buffer is
  cleared after the file could not be opened, is lost (lemmas \<open>text_in_window_lost\<close>, \<open>text_not_opened_lost\<close>). A call of a handler or of
  the dump function is one step: the model does not let two of them overlap each other or be cut by the thread.
\<close>

theorem shiplog_stores_all:
  "\<exists>s p. do_steps xs (shiplog_init False f, TTop) = Some (s, p) \<and> length (buffer s) = BUF_SIZE \<and> buf_pos s \<le> BUF_SIZE \<and>
    ((\<forall>x \<in> set xs. fst x) \<longrightarrow> subseq (kept xs (shiplog_init False f, TTop)) (log_text s p) \<and>
       (undisturbed xs (shiplog_init False f, TTop) \<longrightarrow> log_text s p = concat (map (logged \<circ> snd) xs)))"
proof -
  let ?st = "(shiplog_init False f, TTop)"
  have ok: "run_ok ?st" by (simp add: run_ok_def log_ok_init) (simp add: shiplog_init_def)
  have h: "filter (\<lambda>b. b \<noteq> 0) (held ?st) = []" by (simp add: shiplog_init_def)
  obtain s p where sp: "do_steps xs ?st = Some (s, p)" "run_ok (s, p)" using do_steps_ok [OF ok] by (metis surj_pair)
  have "subseq (kept xs ?st) (log_text s p)" if "\<forall>x \<in> set xs. fst x"
    using do_steps_keep [OF ok sp(1) that, of "[]"] log_text_held(1) [of s p] by (auto intro: subseq_order.trans)
  moreover have "log_text s p = concat (map (logged \<circ> snd) xs)" if "\<forall>x \<in> set xs. fst x" "undisturbed xs ?st"
    using do_steps_exact [OF ok sp(1) that] log_text_held(2) [of s p] h by simp
  ultimately show ?thesis using sp by (auto simp: run_ok_def log_ok_def)
qed

text \<open>A line, a round of the thread, a character.\<close>

definition demo_log :: "(bool \<times> step) list" where
  "demo_log = [(True, Format [72, 105]), (True, Thread), (True, Thread), (True, Thread), (True, Thread), (True, Thread), (True, Putchar 33)]"

lemma buffer_room: "length bs \<le> BUF_SIZE \<Longrightarrow> add_text opened bs (shiplog_init False f) =
    (shiplog_init False f)\<lparr>buffer := bs @ replicate (BUF_SIZE - length bs) 0, buf_pos := length bs, send_out := True\<rparr>"
  by (simp add: add_text_def Let_def startSend_def make_room_def stopSend_def shiplog_init_def put_bytes_def)

theorem shiplog_stores_all_witness:
  "\<exists>s p. do_steps demo_log (shiplog_init False True, TTop) = Some (s, p) \<and> log_text s p = [72, 105, 33]"
proof -
  have h: "debugHandler True [72, 105] (shiplog_init False True) =
      (shiplog_init False True)\<lparr>buffer := [72, 105] @ replicate (BUF_SIZE - 2) 0, buf_pos := 2, send_out := True\<rparr>"
    unfolding handler_adds(1) by (simp add: buffer_room BUF_SIZE_def)
  have u: "undisturbed demo_log (shiplog_init False True, TTop)"
    by (simp add: demo_log_def h bufLength_def bufClear_def log_write_def shiplog_init_def)
  have "\<forall>x \<in> set demo_log. fst x" by (simp add: demo_log_def)
  then show ?thesis using shiplog_stores_all [of demo_log True] u by (auto simp: demo_log_def)
qed

text \<open>What is lost: a text that comes while the thread writes, and a buffer that is cleared after the file was not opened.\<close>

lemma text_in_window_lost:
  assumes "do_steps [(opened, Format t), (opened', Thread)] (s, TClear) = Some (s', p)" "buf_pos s + 511 \<le> BUF_SIZE"
  shows "stored s' = filter (\<lambda>b. b \<noteq> 0) (log_file s)"
proof -
  have "length (takeWhile (\<lambda>b. b \<noteq> 0) (take 511 t)) \<le> 511" using length_takeWhile_le [of "\<lambda>b. b \<noteq> 0" "take 511 t"] by simp
  then show ?thesis
    using assms by (auto simp: debugHandler_def make_room_def stopSend_def startSend_def Let_def stored_def bufClear_def)
qed

lemma text_not_opened_lost:
  "stored (shipLogDumpToDisk False s) = filter (\<lambda>b. b \<noteq> 0) (log_file s)"
  "BUF_SIZE < buf_pos s + n \<Longrightarrow> stored (make_room False n s) = filter (\<lambda>b. b \<noteq> 0) (log_file s)"
  "thread_step False (s, TWrite n) = Some (s, TClear) \<and> thread_step opened (s, TClear) = Some (bufClear s, TTop)"
  by (simp_all add: stored_def shipLogDumpToDisk_def make_room_def bufClear_def log_write_def)

section \<open>What the network receives\<close>

lemma send_loop_sends:
  assumes "\<forall>n. 0 < rets n \<and> rets n \<le> int len" "sent \<le> 2 * len"
  shows "\<exists>m. send_loop rets mem flog len n sent acc = Some (Inr (0, acc @ map mem [sent..<m])) \<and> sent \<le> m \<and> len \<le> m
    \<and> (sent < len \<longrightarrow> m < 2 * len)"
  using assms(2)
proof (induction "len - sent" arbitrary: n sent acc rule: less_induct)
  case less
  show ?case
  proof (cases "sent < len")
    case False
    then show ?thesis by (subst send_loop.simps) (auto intro!: exI [of _ sent])
  next
    case True
    let ?r = "nat (rets n)"
    have r: "0 < ?r" "?r \<le> len" "\<not> rets n < 0" using assms(1) by (auto simp: nat_le_iff dest: spec [of _ n])
    have mp: "map (\<lambda>i. mem (sent + i)) [0..<?r] = map mem [sent..<sent + ?r]"
      by (rule nth_equalityI) auto
    obtain m where m: "send_loop rets mem flog len (n + 1) (sent + ?r) (acc @ map mem [sent..<sent + ?r])
        = Some (Inr (0, (acc @ map mem [sent..<sent + ?r]) @ map mem [sent + ?r..<m]))" "sent + ?r \<le> m" "len \<le> m"
        "sent + ?r < len \<longrightarrow> m < 2 * len"
    proof -
      have d: "len - (sent + ?r) < len - sent" using r True by linarith
      have b: "sent + ?r \<le> 2 * len" using r True by linarith
      show ?thesis using less.hyps [OF d b, of "n + 1" "acc @ map mem [sent..<sent + ?r]"] that by blast
    qed
    have e: "map mem [sent..<sent + ?r] @ map mem [sent + ?r..<m] = map mem [sent..<m]"
      using upt_add_eq_append [of sent "sent + ?r" "m - (sent + ?r)"] m(2) by (metis le_add1 le_add_diff_inverse map_append)
    have lt: "m < 2 * len"
    proof (cases "sent + ?r < len")
      case False
      have "m = sent + ?r"
      proof -
        have "send_loop rets mem flog len (n + 1) (sent + ?r) (acc @ map mem [sent..<sent + ?r]) = Some (Inr (0, acc @ map mem [sent..<sent + ?r]))"
          using False by (subst send_loop.simps) simp
        then have "map mem [sent + ?r..<m] = []" using m(1) by simp
        then show ?thesis using m(2) r(1) by auto
      qed
      then show ?thesis using True r by simp
    qed (use m(4) in blast)
    have "send_loop rets mem flog len n sent acc = send_loop rets mem flog len (n + 1) (sent + ?r) (acc @ map mem [sent..<sent + ?r])"
      using True r(3) by (subst send_loop.simps) (simp add: mp)
    then show ?thesis using m lt e by (intro exI [of _ m]) simp
  qed
qed

text \<open>
  C33. When every call takes some of the bytes offered, the loop ends after it has sent the filled part of the buffer, but
  not only that: as each call offers the full length again, up to a whole length of memory behind it is sent too.
\<close>

theorem send_loop_overrun:
  assumes "\<forall>n. 0 < rets n \<and> rets n \<le> int len" and "0 < len"
  shows "\<exists>m. send_loop rets mem flog len 0 0 [] = Some (Inr (0, map mem [0..<len] @ map mem [len..<m])) \<and> len \<le> m \<and> m < 2 * len"
proof -
  obtain m where m: "send_loop rets mem flog len 0 0 [] = Some (Inr (0, map mem [0..<m]))" "len \<le> m" "m < 2 * len"
    using send_loop_sends [OF assms(1), of 0 mem flog 0 "[]"] assms(2) by auto
  have "[0..<m] = [0..<len] @ [len..<m]"
    using upt_add_eq_append [of 0 len "m - len"] m(2) by simp
  then show ?thesis using m by (metis map_append)
qed

text \<open>Four bytes in the buffer and a first call that takes three of them: seven bytes are sent.\<close>

theorem send_loop_overrun_witness:
  "\<exists>m. send_loop (\<lambda>n. if n = 0 then 3 else 4) of_nat False 4 0 0 [] = Some (Inr (0, map of_nat [0..<4] @ map of_nat [4..<m])) \<and> 4 \<le> m \<and> m < 8"
  using send_loop_overrun [of "\<lambda>n. if n = 0 then 3 else 4" 4 of_nat False] by simp

end
