(* ===== verification/ShipConfig.thy ===== *)
theory ShipConfig
  imports LogSettings
begin

text \<open>
  The configuration application of ShipLog 2.0, \<open>common/settings.c\<close>, \<open>common/parser.c\<close>, \<open>config_app/main.c\<close>, \<open>menu.c\<close> and
  \<open>dialog.c\<close>: the settings, their file, and the pages of the menu as a state machine driven by the buttons and
  the text dialog. A write past an array is a fault, the value \<open>None\<close>. The conversions of IP addresses are those of the
  network library, arguments here.
\<close>

section \<open>Settings\<close>

record settings =
  s_ip :: string
  s_port :: int
  s_updated :: bool
  s_net :: int
  s_file :: int

definition setPort :: "int \<Rightarrow> settings \<Rightarrow> settings" where "setPort p s = s\<lparr>s_port := p\<rparr>"

definition setFile :: "int \<Rightarrow> settings \<Rightarrow> settings" where "setFile f s = s\<lparr>s_file := f\<rparr>"

definition setNet :: "int \<Rightarrow> settings \<Rightarrow> settings" where "setNet n s = s\<lparr>s_net := n\<rparr>"

definition updated :: "bool \<Rightarrow> settings \<Rightarrow> settings" where "updated b s = s\<lparr>s_updated := b\<rparr>"

definition setIP :: "string \<Rightarrow> settings \<Rightarrow> settings" where "setIP ip s = s\<lparr>s_ip := strncpy 15 ip\<rparr>"

text \<open>\<open>strcpy\<close> to 15 allocated bytes: without a NUL in the array the copy goes past both.\<close>

definition getIP :: "settings \<Rightarrow> string option" where
  "getIP s = (if CHR 0x00 \<in> set (s_ip s) then Some (takeWhile (\<lambda>c. c \<noteq> CHR 0x00) (s_ip s)) else None)"

definition settings_init :: settings where
  "settings_init = \<lparr>s_ip = replicate 15 (CHR 0x00), s_port = 0, s_updated = True, s_net = 0, s_file = 0\<rparr>"

section \<open>The configuration file\<close>

text \<open>
  \<open>inet_pton\<close> stores an address when the text is one; \<open>inet_ntop\<close> needs room for the text and its terminator.
\<close>

record inet =
  inet_pton :: "string \<Rightarrow> u32 option"
  inet_text :: "u32 \<Rightarrow> string"

definition inet_ntop :: "inet \<Rightarrow> u32 \<Rightarrow> nat \<Rightarrow> string option" where
  "inet_ntop e a n = (if length (inet_text e a) < n then Some (inet_text e a) else None)"

definition int32 :: "int \<Rightarrow> u8 list" where "int32 i = bytes32 (of_int i)"

definition saveConfig :: "inet \<Rightarrow> settings \<Rightarrow> u8 list option" where
  "saveConfig e s = do { ip \<leftarrow> getIP s;
     Some (int32 (s_net s) @ int32 (s_file s) @ bytes32 (case inet_pton e ip of None \<Rightarrow> 0 | Some a \<Rightarrow> a) @ int32 (s_port s)) }"

definition word_of :: "u8 list \<Rightarrow> nat \<Rightarrow> u32" where
  "word_of bs i = join32 (bs ! i) (bs ! (i + 1)) (bs ! (i + 2)) (bs ! (i + 3))"

text \<open>
  A short file leaves zeros. \<open>junk\<close> is what the uninitialised text holds when \<open>inet_ntop\<close> fails. \<open>False\<close>: no file.
\<close>

definition loadConfig :: "inet \<Rightarrow> string \<Rightarrow> u8 list option \<Rightarrow> settings \<Rightarrow> bool \<times> settings" where
  "loadConfig e junk file s = (case file of None \<Rightarrow> (False, s)
     | Some f \<Rightarrow> let c = take 16 (f @ replicate 16 0);
         ip = (case inet_ntop e (word_of c 8) 15 of None \<Rightarrow> junk | Some t \<Rightarrow> t)
       in (True, setPort (sint (word_of c 12)) (setNet (sint (word_of c 0)) (setFile (sint (word_of c 4)) (setIP ip s)))))"

section \<open>Pages\<close>

record ship =
  page :: int
  pos :: int
  max_pos :: int
  shown_dial :: bool
  conf :: settings
  config :: "u8 list option"
  dumps :: nat

text \<open>\<open>renderMenu\<close>: the number of entries of a page.\<close>

definition renderMenu :: "int \<Rightarrow> int" where
  "renderMenu p = (if p = 0 then 5 else if p = 1 then 4 else if p = 4 then 1 else 0)"

record buttons =
  cross :: bool
  down :: bool
  up :: bool
  circle :: bool

text \<open>The button cross; \<open>sPort\<close> has five bytes for the port and the terminator.\<close>

definition press_cross :: "inet \<Rightarrow> ship \<Rightarrow> ship option" where
  "press_cross e s =
    (if page s = 0 then
       (if pos s = 1 then Some (s\<lparr>dumps := dumps s + 1\<rparr>)
        else if pos s = 2 then Some (s\<lparr>page := 1, pos := 1\<rparr>)
        else if pos s = 3 then Some (s\<lparr>conf := updated False (setNet (if s_net (conf s) = 0 then 1 else 0) (conf s))\<rparr>)
        else if pos s = 4 then Some (s\<lparr>conf := updated False (setFile (if s_file (conf s) = 0 then 1 else 0) (conf s))\<rparr>)
        else if pos s = 5 then do { f \<leftarrow> saveConfig e (conf s); Some (s\<lparr>config := Some f, conf := updated True (conf s)\<rparr>) }
        else Some s)
     else if page s = 1 then
       (if pos s = 1 then do { ip \<leftarrow> getIP (conf s); Some (s\<lparr>shown_dial := True\<rparr>) }
        else if pos s = 2 then (if length (dec_int (s_port (conf s))) < 5 then Some (s\<lparr>shown_dial := True\<rparr>) else None)
        else if pos s = 3 then Some (s\<lparr>page := 0, pos := 2\<rparr>)
        else Some s)
     else if page s = 4 \<and> pos s = 1 then Some (s\<lparr>page := 0, pos := 2\<rparr>)
     else Some s)"

definition handleInput :: "inet \<Rightarrow> buttons \<Rightarrow> ship \<Rightarrow> ship option" where
  "handleInput e b s = do {
     s \<leftarrow> (if cross b then press_cross e s else Some s);
     Some (if down b \<and> pos s < max_pos s then s\<lparr>pos := pos s + 1\<rparr>
       else if up b \<and> pos s > 1 then s\<lparr>pos := pos s - 1\<rparr>
       else if circle b \<and> page s > 0 then s\<lparr>pos := page s + 1, page := 0\<rparr>
       else s) }"

text \<open>The dialog: still open, closed without a text, or with a text; \<open>userText\<close> has 32 bytes.\<close>

datatype dialog_status = Running | Closed | Entered "u16 list"

definition oslOskGetText :: "u16 list \<Rightarrow> string option" where
  "oslOskGetText t = do { bs \<leftarrow> utf16_to_utf8 t;
     let t = string_of (takeWhile (\<lambda>b. b \<noteq> 0) bs); if length t < 32 then Some t else None }"

definition handleDialog :: "dialog_status \<Rightarrow> ship \<Rightarrow> ship option" where
  "handleDialog d s = (case d of Running \<Rightarrow> Some s
     | Closed \<Rightarrow> Some (s\<lparr>shown_dial := False\<rparr>)
     | Entered t \<Rightarrow> do { t \<leftarrow> oslOskGetText t;
         Some (s\<lparr>shown_dial := False, conf :=
           (if page s = 1 \<and> pos s = 1 then updated False (setIP t (conf s))
            else if page s = 1 \<and> pos s = 2 then updated False (setPort (atoi t) (conf s)) else conf s)\<rparr>) })"

text \<open>One round of the main loop.\<close>

definition frame :: "inet \<Rightarrow> buttons \<Rightarrow> dialog_status \<Rightarrow> ship \<Rightarrow> ship option" where
  "frame e b d s = do {
     s \<leftarrow> (if shown_dial s then handleDialog d s else Some (s\<lparr>max_pos := renderMenu (page s)\<rparr>));
     if \<not> shown_dial s \<and> (cross b \<or> down b \<or> up b \<or> circle b) then handleInput e b s else Some s }"

text \<open>The start: without a file the defaults are saved and the welcome page is shown.\<close>

definition ship_start :: "inet \<Rightarrow> string \<Rightarrow> u8 list option \<Rightarrow> ship option" where
  "ship_start e junk file = (let s = \<lparr>page = 0, pos = 1, max_pos = 1, shown_dial = False, conf = settings_init, config = file, dumps = 0\<rparr>;
       (ok, c) = loadConfig e junk file (conf s) in
     if ok then Some (s\<lparr>conf := c\<rparr>)
     else let c = setNet 0 (setFile 0 (setPort 3333 (setIP ''192.168.1.1'' c))) in
       do { f \<leftarrow> saveConfig e c; Some (s\<lparr>page := 4, conf := c, config := Some f\<rparr>) })"

section \<open>Text\<close>

fun utf8_to_utf16 :: "u8 list \<Rightarrow> u16 list option" where
  "utf8_to_utf16 [] = None"
| "utf8_to_utf16 (c # src) =
    (if c = 0 then Some [0]
     else if c AND 0xE0 = 0xE0 then
       (case src of d # x # r \<Rightarrow> map_option (\<lambda>t. (push_bit 12 (ucast c AND 0xF) OR push_bit 6 (ucast d AND 0x3F) OR (ucast x AND 0x3F)) # t)
            (utf8_to_utf16 r)
        | _ \<Rightarrow> None)
     else if c AND 0xC0 = 0xC0 then
       (case src of d # r \<Rightarrow> map_option (\<lambda>t. (push_bit 6 (ucast c AND 0x1F) OR (ucast d AND 0x3F)) # t) (utf8_to_utf16 r) | _ \<Rightarrow> None)
     else map_option (\<lambda>t. ucast c # t) (utf8_to_utf16 src))"

section \<open>The states that can be reached\<close>

inductive reachable :: "inet \<Rightarrow> string \<Rightarrow> u8 list option \<Rightarrow> ship \<Rightarrow> bool" for e junk cf where
  start: "ship_start e junk cf = Some s \<Longrightarrow> reachable e junk cf s"
| frame: "reachable e junk cf s \<Longrightarrow> frame e b d s = Some s' \<Longrightarrow> reachable e junk cf s'"

definition ship_ok :: "ship \<Rightarrow> bool" where
  "ship_ok s \<longleftrightarrow> page s \<in> {0, 1, 4} \<and> 1 \<le> pos s \<and> pos s \<le> renderMenu (page s) \<and> (shown_dial s \<longrightarrow> max_pos s = 4 \<and> page s \<noteq> 4)"

lemma ship_start_ok: "ship_start e junk cf = Some s \<Longrightarrow> ship_ok s"
  by (auto simp: ship_start_def ship_ok_def renderMenu_def Let_def split: prod.splits if_splits option.splits bind_splits)

lemma press_cross_ok:
  assumes "press_cross e s = Some s'" "page s \<in> {0, 1, 4}" "1 \<le> pos s" "pos s \<le> renderMenu (page s)" "\<not> shown_dial s"
  shows "page s' \<in> {0, 1, 4} \<and> 1 \<le> pos s' \<and> pos s' \<le> renderMenu (page s') \<and> max_pos s' = max_pos s \<and>
    (page s' \<noteq> page s \<longrightarrow> pos s' \<le> 2) \<and> (page s' = page s \<longrightarrow> pos s' = pos s) \<and> (page s' = 4 \<longrightarrow> page s = 4) \<and> (shown_dial s' \<longrightarrow> page s' = 1 \<and> page s = 1)"
  using assms by (auto simp: press_cross_def renderMenu_def split: if_splits bind_splits)

lemma handleInput_ok:
  assumes "handleInput e b s = Some s'" "page s \<in> {0, 1, 4}" "1 \<le> pos s" "pos s \<le> renderMenu (page s)" "\<not> shown_dial s"
    "max_pos s = renderMenu (page s) \<or> max_pos s = 4 \<and> page s \<noteq> 4"
  shows "ship_ok s'"
proof -
  obtain s1 where s1: "(if cross b then press_cross e s else Some s) = Some s1"
    and s': "s' = (if down b \<and> pos s1 < max_pos s1 then s1\<lparr>pos := pos s1 + 1\<rparr>
       else if up b \<and> pos s1 > 1 then s1\<lparr>pos := pos s1 - 1\<rparr>
       else if circle b \<and> page s1 > 0 then s1\<lparr>pos := page s1 + 1, page := 0\<rparr> else s1)"
    using assms(1) by (auto simp: handleInput_def split: bind_splits)
  have i: "page s1 \<in> {0, 1, 4} \<and> 1 \<le> pos s1 \<and> pos s1 \<le> renderMenu (page s1) \<and> max_pos s1 = max_pos s \<and>
    (page s1 \<noteq> page s \<longrightarrow> pos s1 \<le> 2) \<and> (page s1 = page s \<longrightarrow> pos s1 = pos s) \<and> (page s1 = 4 \<longrightarrow> page s = 4) \<and> (shown_dial s1 \<longrightarrow> page s1 = 1 \<and> page s = 1)"
  proof (cases "cross b")
    case True
    then show ?thesis using press_cross_ok [OF _ assms(2-5)] s1 by simp
  qed (use s1 assms in auto)
  show ?thesis
    using i assms(2,6) unfolding s' by (auto simp: ship_ok_def renderMenu_def split: if_splits)
qed

lemma frame_ok:
  assumes "ship_ok s" "frame e b d s = Some s'"
  shows "ship_ok s'"
proof (cases "shown_dial s")
  case True
  then obtain s1 where s1: "handleDialog d s = Some s1"
      "(if \<not> shown_dial s1 \<and> (cross b \<or> down b \<or> up b \<or> circle b) then handleInput e b s1 else Some s1) = Some s'"
    using assms(2) by (auto simp: frame_def split: bind_splits)
  have k: "page s1 = page s" "pos s1 = pos s" "max_pos s1 = max_pos s" "ship_ok s1"
    using s1(1) assms(1) by (auto simp: handleDialog_def ship_ok_def split: dialog_status.splits bind_splits)
  then show ?thesis
    using s1(2) handleInput_ok [of e b s1 s'] assms(1) True by (auto simp: ship_ok_def split: if_splits)
next
  case False
  then have "(if cross b \<or> down b \<or> up b \<or> circle b then handleInput e b (s\<lparr>max_pos := renderMenu (page s)\<rparr>) else Some (s\<lparr>max_pos := renderMenu (page s)\<rparr>)) = Some s'"
    using assms(2) by (simp add: frame_def)
  then show ?thesis
    using handleInput_ok [of e b "s\<lparr>max_pos := renderMenu (page s)\<rparr>" s'] assms(1) False
    by (auto simp: ship_ok_def split: if_splits)
qed

text \<open>
  C34. In every state that the configuration application can reach, one of its three pages is shown and the selected
  entry is one of that page, whatever combination of buttons is pressed and whatever the text dialog answers.
\<close>

theorem ship_menu_inside:
  assumes "reachable e junk cf s"
  shows "page s \<in> {0, 1, 4} \<and> 1 \<le> pos s \<and> pos s \<le> renderMenu (page s)"
proof -
  have "ship_ok s" using assms by induction (auto intro: ship_start_ok frame_ok)
  then show ?thesis by (simp add: ship_ok_def)
qed

definition demo_net :: inet where
  "demo_net = \<lparr>inet_pton = (\<lambda>t. if t = ''192.168.1.1'' then Some 0x0101A8C0 else None), inet_text = (\<lambda>a. ''192.168.1.1'')\<rparr>"

definition no_buttons :: buttons where
  "no_buttons = \<lparr>cross = False, down = False, up = False, circle = False\<rparr>"

definition demo_settings :: settings where
  "demo_settings = setNet 0 (setFile 0 (setPort 3333 (setIP ''192.168.1.1'' settings_init)))"

definition demo_file :: "u8 list" where
  "demo_file = int32 0 @ int32 0 @ bytes32 0x0101A8C0 @ int32 3333"

definition demo_ship :: ship where
  "demo_ship = \<lparr>page = 4, pos = 1, max_pos = 1, shown_dial = False, conf = demo_settings, config = Some demo_file, dumps = 0\<rparr>"

lemma demo_ip: "getIP demo_settings = Some ''192.168.1.1''"
  by (simp add: getIP_def demo_settings_def setNet_def setFile_def setPort_def setIP_def strncpy_def settings_init_def)

lemma demo_saved: "saveConfig demo_net demo_settings = Some demo_file"
  unfolding saveConfig_def demo_ip
  by (simp add: demo_net_def demo_file_def demo_settings_def setNet_def setFile_def setPort_def setIP_def)

lemma demo_start: "ship_start demo_net junk None = Some demo_ship"
  unfolding ship_start_def loadConfig_def Let_def using demo_saved
  by (simp add: demo_settings_def demo_ship_def)

theorem ship_menu_inside_witness:
  "let s = demo_ship\<lparr>page := 0, pos := 3, max_pos := 5\<rparr> in page s \<in> {0, 1, 4} \<and> 1 \<le> pos s \<and> pos s \<le> renderMenu (page s)"
  unfolding Let_def
proof (rule ship_menu_inside)
  let ?b = "no_buttons\<lparr>cross := True\<rparr>" and ?d = "no_buttons\<lparr>down := True\<rparr>"
  have "frame demo_net ?b Running demo_ship = Some (demo_ship\<lparr>page := 0, pos := 2\<rparr>)"
    by (simp add: frame_def handleInput_def press_cross_def renderMenu_def demo_ship_def no_buttons_def)
  then have "reachable demo_net [] None (demo_ship\<lparr>page := 0, pos := 2\<rparr>)"
    using reachable.frame [OF reachable.start [OF demo_start]] by blast
  moreover have "frame demo_net ?d Running (demo_ship\<lparr>page := 0, pos := 2\<rparr>) = Some (demo_ship\<lparr>page := 0, pos := 3, max_pos := 5\<rparr>)"
    by (simp add: frame_def handleInput_def renderMenu_def demo_ship_def no_buttons_def)
  ultimately have "reachable demo_net [] None (demo_ship\<lparr>page := 0, pos := 3, max_pos := 5\<rparr>)"
    using reachable.frame by blast
  then show "reachable demo_net [] None (demo_ship\<lparr>page := 0, pos := 3, max_pos := 5\<rparr>)" .
qed

text \<open>When down is pressed together with cross on the address, the dialog opens for the address but the text that is
  entered becomes the port.\<close>

lemma dialog_misdirected:
  assumes "page s = 1" "pos s = 1" "\<not> shown_dial s" "getIP (conf s) = Some ip" "cross b" "down b" "oslOskGetText t = Some txt" "\<not> cross b' \<and> \<not> down b' \<and> \<not> up b' \<and> \<not> circle b'"
  shows "\<exists>s1 s2. frame e b d s = Some s1 \<and> shown_dial s1 \<and> frame e b' (Entered t) s1 = Some s2 \<and>
    s_ip (conf s2) = s_ip (conf s) \<and> s_port (conf s2) = atoi txt"
  using assms by (simp add: frame_def handleInput_def press_cross_def renderMenu_def handleDialog_def updated_def setPort_def)

lemma dialog_misdirected_witness:
  "\<exists>s1 s2. frame demo_net (no_buttons\<lparr>cross := True, down := True\<rparr>) Running (demo_ship\<lparr>page := 1\<rparr>) = Some s1 \<and> shown_dial s1 \<and>
    frame demo_net no_buttons (Entered [0x31, 0]) s1 = Some s2 \<and> s_ip (conf s2) = s_ip (conf (demo_ship\<lparr>page := 1\<rparr>)) \<and> s_port (conf s2) = atoi ''1''"
  by (rule dialog_misdirected [where ip = "''192.168.1.1''"])
     (use demo_ip in \<open>simp_all add: demo_ship_def no_buttons_def oslOskGetText_def string_of_def char_of_def bit_Suc_0_iff\<close>)

text \<open>With a port of five digits, opening the dialog for the port writes past the five bytes of its text.\<close>

lemma port_overflows:
  assumes "page s = 1" "pos s = 2" "s_port (conf s) \<ge> 10000"
  shows "press_cross e s = None"
proof -
  have "5 \<le> length (dec (n :: nat))" if "10000 \<le> n" for n
  proof -
    have d: "length (dec (n div k)) + 1 \<le> length (dec (n div (k div 10)))" if "k = 10 \<or> k = 100 \<or> k = 1000 \<or> k = 10000" for k
      using that \<open>10000 \<le> n\<close> by (auto simp: dec.simps [of n] dec.simps [of "n div 10"] dec.simps [of "n div 100"] dec.simps [of "n div 1000"] div_mult2_eq [symmetric])
    have "1 \<le> length (dec (n div 10000))" by (simp add: dec.simps [of "n div 10000"])
    then show ?thesis using d [of 10] d [of 100] d [of 1000] d [of 10000] by simp
  qed
  then have "5 \<le> length (dec_int (s_port (conf s)))" using assms(3) by (simp add: dec_int_def)
  then show ?thesis using assms by (simp add: press_cross_def)
qed

lemma port_overflows_witness: "press_cross demo_net (demo_ship\<lparr>page := 1, pos := 2, conf := setPort 65535 demo_settings\<rparr>) = None"
  by (rule port_overflows) (simp_all add: setPort_def)

section \<open>Saving and loading\<close>

lemma word_of_append: "length xs = i \<Longrightarrow> word_of (xs @ bytes32 w @ ys) i = w"
  by (auto simp: word_of_def nth_append bytes32_def join32_bytes32)

text \<open>
  What is saved is loaded again: switches, port and address, for an address whose text has at most 14 characters.
\<close>

lemma config_roundtrip:
  assumes "saveConfig e s = Some f" and "getIP s = Some t" "inet_pton e t = Some a" "inet_text e a = t" "length t < 15"
    and "s_net s \<in> {- (2 ^ 31)..<2 ^ 31}" "s_file s \<in> {- (2 ^ 31)..<2 ^ 31}" "s_port s \<in> {- (2 ^ 31)..<2 ^ 31}"
  shows "\<exists>s'. loadConfig e junk (Some f) s0 = (True, s') \<and> getIP s' = Some t \<and> s_port s' = s_port s \<and> s_net s' = s_net s \<and> s_file s' = s_file s"
proof -
  have f: "f = int32 (s_net s) @ int32 (s_file s) @ bytes32 a @ int32 (s_port s)"
    using assms(1-3) by (simp add: saveConfig_def)
  have "length f = 16" by (simp add: f int32_def)
  then have c: "take 16 (f @ replicate 16 0) = f" by simp
  have w0: "word_of f 0 = of_int (s_net s)" unfolding f int32_def using word_of_append [of "[]" 0] by simp
  have w4: "word_of f 4 = of_int (s_file s)" unfolding f int32_def by (rule word_of_append) simp
  have w8: "word_of f 8 = a"
    using word_of_append [of "int32 (s_net s) @ int32 (s_file s)" 8 a "int32 (s_port s)"] by (simp add: f int32_def)
  have w12: "word_of f 12 = of_int (s_port s)"
    using word_of_append [of "int32 (s_net s) @ int32 (s_file s) @ bytes32 a" 12 "of_int (s_port s)" "[]"] by (simp add: f int32_def)
  have si: "sint (of_int i :: u32) = i" if "i \<in> {- (2 ^ 31)..<2 ^ 31}" for i
    using that by (simp add: signed_of_int signed_take_bit_int_eq_self)
  have nz: "CHR 0x00 \<notin> set t" using assms(2) by (auto simp: getIP_def dest: set_takeWhileD split: if_splits)
  have "strncpy 15 t = t @ replicate (15 - length t) (CHR 0x00)"
    using assms(5) by (simp add: strncpy_def)
  moreover have "takeWhile (\<lambda>c. c \<noteq> CHR 0x00) (t @ replicate (15 - length t) (CHR 0x00)) = t"
    using nz assms(5) by (subst takeWhile_append2) (auto simp: takeWhile_eq_Nil_iff)
  ultimately have ip: "getIP (setIP t s1) = Some t" for s1
    using assms(5) by (simp add: getIP_def setIP_def)
  have g: "getIP (setPort p (setNet n (setFile fl s1))) = getIP s1" "s_port (setPort p s1) = p" "s_net (setPort p (setNet n s1)) = n"
      "s_file (setPort p (setNet n (setFile fl s1))) = fl" for p n fl s1
    by (simp_all add: getIP_def setPort_def setNet_def setFile_def)
  have n: "inet_ntop e a 15 = Some t" using assms(4,5) by (simp add: inet_ntop_def)
  show ?thesis
    unfolding loadConfig_def option.case Let_def c w0 w4 w8 w12 n si [OF assms(6)] si [OF assms(7)] si [OF assms(8)]
    by (intro exI conjI, rule refl) (simp_all add: g ip)
qed

lemma config_roundtrip_witness:
  "\<exists>s'. loadConfig demo_net [] (Some demo_file) settings_init = (True, s') \<and> getIP s' = Some ''192.168.1.1'' \<and>
    s_port s' = s_port demo_settings \<and> s_net s' = s_net demo_settings \<and> s_file s' = s_file demo_settings"
  by (rule config_roundtrip [OF demo_saved demo_ip])
     (simp_all add: demo_net_def demo_settings_def setNet_def setFile_def setPort_def setIP_def)

section \<open>Text of the dialog\<close>

lemma bit_masks16: "bit (0xFF80 :: u16) n \<longleftrightarrow> 7 \<le> n \<and> n < 16" "bit (0xF800 :: u16) n \<longleftrightarrow> 11 \<le> n \<and> n < 16"
   "bit (0xFF :: u16) n \<longleftrightarrow> n < 8" "bit (0xC0 :: u16) n \<longleftrightarrow> n = 6 \<or> n = 7" "bit (0x3F :: u16) n \<longleftrightarrow> n < 6" "bit (0x80 :: u16) n \<longleftrightarrow> n = 7"
   "bit (0xF :: u16) n \<longleftrightarrow> n < 4" "bit (0xE0 :: u16) n \<longleftrightarrow> n = 5 \<or> n = 6 \<or> n = 7" "bit (0x1F :: u16) n \<longleftrightarrow> n < 5"
   "bit (0x7C0 :: u16) n \<longleftrightarrow> 6 \<le> n \<and> n < 11" "bit (0xFC0 :: u16) n \<longleftrightarrow> 6 \<le> n \<and> n < 12" "bit (0xF000 :: u16) n \<longleftrightarrow> 12 \<le> n \<and> n < 16"
proof -
  have m: "bit (push_bit k (mask j) :: u16) n \<longleftrightarrow> k \<le> n \<and> n < k + j \<and> n < 16" for k j
    by (auto simp: bit_push_bit_iff bit_mask_iff dest: bit_imp_le_length)
  show "bit (0xFF80 :: u16) n \<longleftrightarrow> 7 \<le> n \<and> n < 16" using m [of 7 9] by (auto simp: mask_eq_exp_minus_1)
  show "bit (0xF800 :: u16) n \<longleftrightarrow> 11 \<le> n \<and> n < 16" using m [of 11 5] by (auto simp: mask_eq_exp_minus_1)
  show "bit (0xFF :: u16) n \<longleftrightarrow> n < 8" using m [of 0 8] by (auto simp: mask_eq_exp_minus_1)
  show "bit (0xC0 :: u16) n \<longleftrightarrow> n = 6 \<or> n = 7" using m [of 6 2] by (auto simp: mask_eq_exp_minus_1)
  show "bit (0x3F :: u16) n \<longleftrightarrow> n < 6" using m [of 0 6] by (auto simp: mask_eq_exp_minus_1)
  show "bit (0x80 :: u16) n \<longleftrightarrow> n = 7" using m [of 7 1] by (auto simp: mask_eq_exp_minus_1)
  show "bit (0xF :: u16) n \<longleftrightarrow> n < 4" using m [of 0 4] by (auto simp: mask_eq_exp_minus_1)
  show "bit (0xE0 :: u16) n \<longleftrightarrow> n = 5 \<or> n = 6 \<or> n = 7" using m [of 5 3] by (auto simp: mask_eq_exp_minus_1)
  show "bit (0x1F :: u16) n \<longleftrightarrow> n < 5" using m [of 0 5] by (auto simp: mask_eq_exp_minus_1)
  show "bit (0x7C0 :: u16) n \<longleftrightarrow> 6 \<le> n \<and> n < 11" using m [of 6 5] by (auto simp: mask_eq_exp_minus_1)
  show "bit (0xFC0 :: u16) n \<longleftrightarrow> 6 \<le> n \<and> n < 12" using m [of 6 6] by (auto simp: mask_eq_exp_minus_1)
  show "bit (0xF000 :: u16) n \<longleftrightarrow> 12 \<le> n \<and> n < 16" using m [of 12 4] by (auto simp: mask_eq_exp_minus_1)
qed

lemma bit_masks8: "bit (0xE0 :: u8) n \<longleftrightarrow> n = 5 \<or> n = 6 \<or> n = 7" "bit (0xC0 :: u8) n \<longleftrightarrow> n = 6 \<or> n = 7"
proof -
  have m: "bit (push_bit k (mask j) :: u8) n \<longleftrightarrow> k \<le> n \<and> n < k + j \<and> n < 8" for k j
    by (auto simp: bit_push_bit_iff bit_mask_iff dest: bit_imp_le_length)
  show "bit (0xE0 :: u8) n \<longleftrightarrow> n = 5 \<or> n = 6 \<or> n = 7" using m [of 5 3] by (auto simp: mask_eq_exp_minus_1)
  show "bit (0xC0 :: u8) n \<longleftrightarrow> n = 6 \<or> n = 7" using m [of 6 2] by (auto simp: mask_eq_exp_minus_1)
qed

lemmas utf_bits = bit_masks16 bit_masks8 bit_and_iff bit_or_iff bit_push_bit_iff bit_drop_bit_eq bit_unsigned_iff

declare bit_numeral_word_iff [simp del]

lemma high_zero: "(c :: u16) AND 0xFF80 = 0 \<Longrightarrow> bit c n \<Longrightarrow> n < 7" "(c :: u16) AND 0xF800 = 0 \<Longrightarrow> bit c n \<Longrightarrow> n < 11"
proof -
  have b: "n < 16" if "bit c n" using bit_imp_le_length [OF that] by simp
  have a: "\<not> (bit c n \<and> bit m n)" if "c AND m = 0" for m using arg_cong [OF that, of "\<lambda>w. bit w n"] by (simp add: bit_and_iff)
  show "c AND 0xFF80 = 0 \<Longrightarrow> bit c n \<Longrightarrow> n < 7" using b a [of "0xFF80"] by (auto simp: bit_masks16)
  show "c AND 0xF800 = 0 \<Longrightarrow> bit c n \<Longrightarrow> n < 11" using b a [of "0xF800"] by (auto simp: bit_masks16)
qed

lemma all_bits: "(x :: u8) AND m = m \<longleftrightarrow> (\<forall>n. bit m n \<longrightarrow> bit x n)"
proof
  assume e: "x AND m = m"
  show "\<forall>n. bit m n \<longrightarrow> bit x n" using arg_cong [OF e, of "\<lambda>w. bit w n" for n] by (auto simp: bit_and_iff)
next
  assume "\<forall>n. bit m n \<longrightarrow> bit x n"
  then show "x AND m = m" by (intro bit_eqI) (auto simp: bit_and_iff)
qed

lemma utf1_back: "c \<noteq> 0 \<Longrightarrow> c AND 0xFF80 = 0 \<Longrightarrow> utf8_to_utf16 (ucast (c AND 0xFF) # r) = map_option ((#) c) (utf8_to_utf16 r)"
proof -
  assume c: "c \<noteq> 0" "c AND 0xFF80 = 0"
  let ?x = "ucast (c AND 0xFF) :: u8"
  have "\<not> bit ?x 7" using high_zero(1) [OF c(2), of 7] by (auto simp: utf_bits)
  then have m: "?x AND 0xE0 \<noteq> 0xE0" "?x AND 0xC0 \<noteq> 0xC0" by (auto simp: all_bits bit_masks8)
  have u: "ucast ?x = c"
    using high_zero(1) [OF c(2)] by (intro bit_eqI) (force simp: utf_bits)
  then have "?x \<noteq> 0" using c(1) by (metis ucast_0)
  then show ?thesis using m u by simp
qed

lemma utf2_back:
  assumes "c AND 0xF800 = 0"
  shows "utf8_to_utf16 (utf8_bmp2 c @ r) = map_option ((#) c) (utf8_to_utf16 r)"
proof -
  let ?x = "ucast (drop_bit 6 c AND 0xFF OR 0xC0) :: u8" and ?d = "ucast (c AND 0x3F OR 0x80) :: u8"
  have "\<not> bit ?x 5" using high_zero(2) [OF assms, of 11] by (auto simp: utf_bits)
  then have m: "?x AND 0xE0 \<noteq> 0xE0" by (auto simp: all_bits bit_masks8)
  have m2: "?x AND 0xC0 = 0xC0" by (auto simp: all_bits utf_bits)
  then have "?x \<noteq> 0" by auto
  moreover have "(push_bit 6 (ucast ?x AND 0x1F) OR (ucast ?d AND 0x3F) :: u16) = c"
  proof (rule bit_word_eqI)
    fix n assume "n < LENGTH(16)"
    then consider "n < 6" | "6 \<le> n" "n < 11" | "11 \<le> n" "n < 16" by fastforce
    then show "bit (push_bit 6 (ucast ?x AND 0x1F) OR (ucast ?d AND 0x3F) :: u16) n = bit c n"
      by cases (use high_zero(2) [OF assms, of n] in \<open>auto simp: utf_bits\<close>)
  qed
  ultimately show ?thesis using m m2 by (simp add: utf8_bmp2_def)
qed

lemma utf3_back: "utf8_to_utf16 (utf8_bmp3 c @ r) = map_option ((#) c) (utf8_to_utf16 r)"
proof -
  let ?x = "ucast (drop_bit 12 c AND 0xF OR 0xE0) :: u8" and ?d = "ucast (drop_bit 6 c AND 0x3F OR 0x80) :: u8" and ?e = "ucast (c AND 0x3F OR 0x80) :: u8"
  have m: "?x AND 0xE0 = 0xE0" by (auto simp: all_bits utf_bits)
  then have "?x \<noteq> 0" by auto
  moreover have "(push_bit 12 (ucast ?x AND 0xF) OR push_bit 6 (ucast ?d AND 0x3F) OR (ucast ?e AND 0x3F) :: u16) = c"
  proof (rule bit_word_eqI)
    fix n assume "n < LENGTH(16)"
    then consider "n < 6" | "6 \<le> n" "n < 12" | "12 \<le> n" "n < 16" by fastforce
    then show "bit (push_bit 12 (ucast ?x AND 0xF) OR push_bit 6 (ucast ?d AND 0x3F) OR (ucast ?e AND 0x3F) :: u16) n = bit c n"
      by cases (auto simp: utf_bits)
  qed
  ultimately show ?thesis using m by (simp add: utf8_bmp3_def)
qed

lemma bmp_not_surrogate: "bmp c \<Longrightarrow> c AND 0xFC00 \<noteq> 0xD800"
  by (auto simp: bmp_def u16_masks)

text \<open>Text of the basic plane without surrogates that is converted to UTF-8 and back is unchanged.\<close>

lemma utf_roundtrip:
  assumes "list_all bmp cs"
  shows "Option.bind (utf16_to_utf8 (cs @ [0])) utf8_to_utf16 = Some (cs @ [0])"
proof -
  have "\<exists>bs. utf16_to_utf8 (cs @ [0]) = Some bs \<and> utf8_to_utf16 bs = Some (cs @ [0])"
    using assms
  proof (induction cs)
    case (Cons c cs)
    then obtain bs where bs: "utf16_to_utf8 (cs @ [0]) = Some bs" "utf8_to_utf16 bs = Some (cs @ [0])" by auto
    have c: "c \<noteq> 0" "c AND 0xFC00 \<noteq> 0xD800" using Cons.prems bmp_not_surrogate by (auto simp: bmp_def)
    show ?case
      using bs c utf1_back [of c bs] utf2_back [of c bs] utf3_back [of c bs]
      by (cases "c AND 0xFF80 = 0"; cases "c AND 0xF800 = 0") (auto simp del: utf8_to_utf16.simps(2))
  qed simp
  then show ?thesis by auto
qed

lemma utf_roundtrip_witness: "Option.bind (utf16_to_utf8 ([0x41, 0x3B1, 0x20AC] @ [0])) utf8_to_utf16 = Some ([0x41, 0x3B1, 0x20AC] @ [0])"
  by (rule utf_roundtrip) (simp add: bmp_def)

end
