(* ===== verification/Extract.thy ===== *)
theory Extract
  imports ModuleInfo Arzl
begin

text \<open>
  Two extractors that scan a file for modules: \<open>psp2-kbl-elf-extract/src/main.c\<close> (ELF files and ARZL-compressed data
  in a kernel boot loader) and \<open>kdump-extract/src/main.c\<close> (modules in a memory dump). Their output files
  are lists of names and contents.
\<close>

type_synonym out_file = "string \<times> u8 list"

section \<open>psp2-kbl-elf-extract\<close>

datatype kbl_fault = Image self_fault | Unarzl arzl_fault

definition image :: "self_fault + 'a \<Rightarrow> kbl_fault + 'a" where
  "image = map_sum Image id"

definition phdr_end :: "u8 list \<Rightarrow> nat \<Rightarrow> nat \<Rightarrow> self_fault + nat" where
  "phdr_end el phoff i = ebind (get32 el (phoff + 32 * i + 4)) (\<lambda>po. ebind (get32 el (phoff + 32 * i + 16)) (\<lambda>fs. Inr (add32 po fs)))"

text \<open>The largest end of the segments, if it is more than what was found before.\<close>

fun max_end :: "u8 list \<Rightarrow> nat \<Rightarrow> nat list \<Rightarrow> nat \<Rightarrow> self_fault + nat" where
  "max_end el phoff [] n = Inr n"
| "max_end el phoff (i # is) n = ebind (phdr_end el phoff i) (\<lambda>new_size.
     max_end el phoff is (if new_size > n then new_size else n))"

definition elf_size :: "u8 list \<Rightarrow> self_fault + nat" where
  "elf_size el = ebind (e_shnum el) (\<lambda>shnum.
     if shnum > 0 then ebind (sh_offset el (shnum - 1)) (\<lambda>o1. ebind (sh_field el (shnum - 1) 20) (\<lambda>s1. Inr (add32 o1 s1)))
     else ebind (get32 el 0x1C) (\<lambda>phoff. ebind (get16 el 0x2C) (\<lambda>phnum.
       let n = add32 phoff (32 * phnum); n = add32 n (0x10 - n mod 0x10)
       in max_end el phoff [0..<phnum] n)))"

definition extract_elf :: "string \<Rightarrow> u8 list \<Rightarrow> self_fault + out_file list" where
  "extract_elf out_path el = ebind (kbl_module_info_offset el) (\<lambda>mi.
     if mi = 0 then Inr [] else ebind (file_string el (mi + 4) (length el)) (\<lambda>modname. ebind (elf_size el) (\<lambda>n.
       ebind (slice el 0 n) (\<lambda>bs. Inr [(take 255 (out_path @ ''/'' @ modname @ ''.elf''), bs)]))))"

definition arzl_tag :: "u8 list" where "arzl_tag = [0x41, 0x52, 0x5A, 0x4C]"

text \<open>What is written for one offset; \<open>None\<close> when \<open>unarzl\<close> does not return.\<close>

definition kbl_at :: "(u32 \<Rightarrow> u64 \<times> u8 list) \<Rightarrow> string \<Rightarrow> u8 list \<Rightarrow> nat \<Rightarrow> (kbl_fault + out_file list) option" where
  "kbl_at alloc out_path buf offset = (let cur = drop offset buf in
     if take 8 cur = elf_magic then Some (image (extract_elf out_path cur))
     else if take 4 cur = arzl_tag then
       (case unarzl alloc cur (of_nat (length cur)) of None \<Rightarrow> None
        | Some (Inl f) \<Rightarrow> Some (Inl (Unarzl f))
        | Some (Inr (len, work)) \<Rightarrow> Some (image (ebind (slice work 0 8) (\<lambda>m.
            if m = elf_magic then extract_elf out_path work
            else ebind (slice work 0 (unat len)) (\<lambda>bs.
              Inr [(take 255 (out_path @ ''/lzra_decompressed_data_0x'' @ hex offset @ ''.bin''), bs)])))))
     else Some (Inr []))"

fun kbl_scan :: "(u32 \<Rightarrow> u64 \<times> u8 list) \<Rightarrow> string \<Rightarrow> u8 list \<Rightarrow> nat list \<Rightarrow> (kbl_fault + out_file list) option" where
  "kbl_scan alloc out_path buf [] = Some (Inr [])"
| "kbl_scan alloc out_path buf (i # is) = (case kbl_at alloc out_path buf i of None \<Rightarrow> None
     | Some (Inl e) \<Rightarrow> Some (Inl e)
     | Some (Inr fs) \<Rightarrow> map_option (\<lambda>r. ebind r (\<lambda>gs. Inr (fs @ gs))) (kbl_scan alloc out_path buf is))"

text \<open>The bound \<open>filesize-8\<close> is unsigned: a file of less than eight bytes is read past its end.\<close>

definition kbl_extract :: "(u32 \<Rightarrow> u64 \<times> u8 list) \<Rightarrow> string \<Rightarrow> u8 list \<Rightarrow> (kbl_fault + out_file list) option" where
  "kbl_extract alloc out_path buf = (if length buf < 8 then Some (Inl (Image OutOfFile))
     else kbl_scan alloc out_path buf [0..<length buf - 8])"

section \<open>kdump-extract\<close>

text \<open>
  The tool reads past the end of its input; \<open>mem\<close> is the memory from the start of the input on, \<open>sz\<close> the length of the
  input.
\<close>

type_synonym memory = "nat \<Rightarrow> u8"

definition mem32 :: "memory \<Rightarrow> nat \<Rightarrow> nat" where
  "mem32 mem a = unat (join32 (mem a) (mem (a + 1)) (mem (a + 2)) (mem (a + 3)))"

definition check :: "u8 list" where
  "check = [0x00, 0x00, 0x00, 0x00, 0x07, 0x00, 0x01, 0x01]"

text \<open>The search of the pattern; byte 6 may differ.\<close>

function find_pattern :: "memory \<Rightarrow> nat \<Rightarrow> nat \<Rightarrow> nat \<Rightarrow> nat" where
  "find_pattern mem sz off i = (if i < 8 \<and> off \<le> sz then
     (if mem (off + i) \<noteq> check ! i then (if i = 6 then find_pattern mem sz off (i + 1) else find_pattern mem sz (off + 1) 0)
      else find_pattern mem sz off (i + 1))
     else off)"
  by auto
termination by (relation "measures [\<lambda>(mem, sz, off, i). sz + 1 - off, \<lambda>(mem, sz, off, i). 8 - i]") auto

declare find_pattern.simps [simp del]

text \<open>The end of the segment: after a difference \<open>j\<close> is reset to 0 and then counted up.\<close>

partial_function (option) seg_end :: "memory \<Rightarrow> nat \<Rightarrow> nat \<Rightarrow> nat option" where
  "seg_end mem e j = (if j < 0x100 then
     (if mem (e + j) \<noteq> mem e then seg_end mem (e + 1) 1 else seg_end mem e (j + 1)) else Some e)"

text \<open>The two headers, and the file: the segment is at offset \<open>0xC0\<close>.\<close>

definition kdump_ehdr :: "nat \<Rightarrow> u8 list" where
  "kdump_ehdr ep = elf_magic @ replicate 8 0 @ [4, 0, 0x28, 0] @ bytes32 1 @ bytes32 (of_nat ep) @ bytes32 0x34 @ bytes32 0
     @ bytes32 0x05000000 @ [0x34, 0, 0x20, 0, 1, 0, 0, 0, 0, 0, 0, 0]"

definition kdump_phdr :: "nat \<Rightarrow> nat \<Rightarrow> u8 list" where
  "kdump_phdr vaddr n = bytes32 1 @ bytes32 0xC0 @ bytes32 (of_nat vaddr) @ bytes32 0 @ bytes32 (of_nat n) @ bytes32 (of_nat n)
     @ bytes32 5 @ bytes32 1"

definition kdump_elf :: "nat \<Rightarrow> nat \<Rightarrow> u8 list \<Rightarrow> u8 list" where
  "kdump_elf ep vaddr seg = write_at (write_at (write_at [] 0 (kdump_ehdr ep)) 0x34 (kdump_phdr vaddr (length seg))) 0xC0 seg"

text \<open>A string in memory, as far as \<open>snprintf\<close> into 128 bytes can show it.\<close>

definition mem_string :: "memory \<Rightarrow> nat \<Rightarrow> string" where
  "mem_string mem a = map (\<lambda>b. char_of (unat b)) (takeWhile (\<lambda>b. b \<noteq> 0) (map (\<lambda>i. mem (a + i)) [0..<127]))"

text \<open>One module found at \<open>off\<close>: the offset that corresponds to the address of sysmem, and the file written, if any.\<close>

definition kdump_module :: "memory \<Rightarrow> nat \<Rightarrow> nat \<Rightarrow> (nat \<times> out_file list) option" where
  "kdump_module mem off vaddr_off = (let mi = off + 4; ep = sub32 (mem32 mem (mi + 0x24)) 0x5C; start = sub32 mi ep in
     if 0 < start \<and> start < 2 ^ 31 then
       (case seg_end mem off 0 of None \<Rightarrow> None
        | Some e \<Rightarrow>
          let v = (if take 9 (mem_string mem (mi + 4)) = ''SceSysmem'' \<and> vaddr_off = 0 then start else vaddr_off) in
          Some (v, if v \<noteq> 0 then [(take 127 (mem_string mem (mi + 4) @ ''.elf''),
              kdump_elf ep (sub32 (add32 (mem32 mem 0) start) v) (map (\<lambda>i. mem (start + i)) [0..<sub32 e start]))] else []))
     else Some (vaddr_off, []))"

partial_function (option) kdump_loop :: "memory \<Rightarrow> nat \<Rightarrow> nat \<Rightarrow> nat \<Rightarrow> out_file list \<Rightarrow> out_file list option" where
  "kdump_loop mem sz off vaddr_off acc = (if off < sz then
     (if find_pattern mem sz off 0 < sz
      then (case kdump_module mem (find_pattern mem sz off 0) vaddr_off of None \<Rightarrow> None
            | Some r \<Rightarrow> kdump_loop mem sz (find_pattern mem sz off 0 + 1) (fst r) (acc @ snd r))
      else kdump_loop mem sz (find_pattern mem sz off 0 + 1) vaddr_off acc)
     else Some acc)"

definition kdump_extract :: "memory \<Rightarrow> nat \<Rightarrow> out_file list option" where
  "kdump_extract mem sz = kdump_loop mem sz 0 0 []"

section \<open>The size of an ELF file\<close>

lemma max_end_bound:
  "max_end el phoff is n = Inr r \<Longrightarrow> n \<le> r \<and> (\<forall>i \<in> set is. \<exists>e. phdr_end el phoff i = Inr e \<and> e \<le> r)"
proof (induction el phoff "is" n rule: max_end.induct)
  case (2 el phoff i "is" n)
  then obtain e where e: "phdr_end el phoff i = Inr e" "max_end el phoff is (if e > n then e else n) = Inr r"
    by (auto simp: ebind_Inr)
  from 2(1) [OF e] have "(if e > n then e else n) \<le> r \<and> (\<forall>i \<in> set is. \<exists>e. phdr_end el phoff i = Inr e \<and> e \<le> r)" .
  then show ?case using e(1) by (auto split: if_splits)
qed simp

lemma slice_take: "off + n \<le> k \<Longrightarrow> k \<le> length bs \<Longrightarrow> slice (take k bs) off n = slice bs off n"
  by (simp add: slice_def drop_take min_def)

lemma get32_len: "get32 bs off = Inr v \<Longrightarrow> off + 4 \<le> length bs \<and> v < 2 ^ 32"
proof -
  have "unat w < 2 ^ 32" for w :: u32 using unsigned_less [of w, where ?'a = nat] by simp
  then show "get32 bs off = Inr v \<Longrightarrow> off + 4 \<le> length bs \<and> v < 2 ^ 32"
    by (auto simp: get32_def rd32_def split: option.splits if_splits)
qed

text \<open>
  The ELF file that \<open>psp2-kbl-elf-extract\<close> writes for an image without section headers holds every segment of the
  image, whole and at its offset.
\<close>

lemma extracted_segments:
  assumes "extract_elf out el = Inr [(name, bs)]" and "e_shnum el = Inr 0" and "get32 el 0x1C = Inr phoff" and "get16 el 0x2C = Inr phnum"
    and "i < phnum" and "get32 el (phoff + 32 * i + 4) = Inr po" and "get32 el (phoff + 32 * i + 16) = Inr fs" and "po + fs < 2 ^ 32"
  shows "slice bs po fs = slice el po fs \<and> slice el po fs = Inr (take fs (drop po el)) \<and> length (take fs (drop po el)) = fs"
proof -
  obtain n where n: "elf_size el = Inr n" "slice el 0 n = Inr bs"
    using assms(1) by (auto simp: extract_elf_def ebind_Inr split: if_splits)
  then have r: "max_end el phoff [0..<phnum] (add32 (add32 phoff (32 * phnum)) (0x10 - add32 phoff (32 * phnum) mod 0x10)) = Inr n"
    using assms(2-4) by (simp add: elf_size_def Let_def)
  have "phdr_end el phoff i = Inr (po + fs)"
    using assms(6-8) by (simp add: phdr_end_def add32_def)
  then have "po + fs \<le> n" using max_end_bound [OF r] assms(5) by force
  moreover have "bs = take n el" "n \<le> length el" using n(2) by (auto simp: slice_def split: if_splits)
  ultimately show ?thesis by (simp add: slice_take) (simp add: slice_def)
qed

text \<open>An image with one segment of four bytes at its end and no sections.\<close>

definition sample_elf :: "u8 list" where
  "sample_elf = map (\<lambda>i. if i = 0x10 then 4 else if i = 0x11 then 0xFE else if i = 0x1C then 0x34 else if i = 0x2C then 1
     else if i = 0x38 then 0x60 else if i = 0x44 then 4 else if i = 0x62 then 9 else 0) [0..<0x66]"

lemma sample_elf_get: "get16 sample_elf 0x10 = Inr 0xFE04" "get32 sample_elf 0x18 = Inr 0" "get32 sample_elf 0x1C = Inr 0x34" "get16 sample_elf 0x2C = Inr 1"
    "get16 sample_elf 0x30 = Inr 0" "get32 sample_elf 0x38 = Inr 0x60" "get32 sample_elf 0x44 = Inr 4"
  by (simp_all add: get32_def get16_def rd32_def rd16_def join32_def push_bit_eq_mult sample_elf_def)

lemma sample_elf_extracted: "extract_elf ''o'' sample_elf = Inr [(''o/.elf'', take 0x64 sample_elf)]"
proof -
  have "kbl_module_info_offset sample_elf = Inr 0x60"
    by (simp add: kbl_module_info_offset_def e_shnum_def segment_info_offset_def sample_elf_get add32_def)
  moreover have "file_string sample_elf 0x64 (length sample_elf) = Inr []"
    by (simp add: file_string_def sample_elf_def drop_map take_map)
  moreover have "elf_size sample_elf = Inr 0x64"
    by (simp add: elf_size_def e_shnum_def sample_elf_get add32_def Let_def phdr_end_def)
  moreover have "length sample_elf = 0x66" by (simp add: sample_elf_def)
  ultimately show ?thesis by (simp add: extract_elf_def slice_def)
qed

lemma extracted_segments_witness: "slice (take 0x64 sample_elf) 0x60 4 = slice sample_elf 0x60 4"
  using extracted_segments [OF sample_elf_extracted, of "0x34" 1 0 "0x60" 4] by (simp add: e_shnum_def sample_elf_get)

section \<open>The scan of a memory dump\<close>

definition matches :: "memory \<Rightarrow> nat \<Rightarrow> bool" where
  "matches mem o1 \<longleftrightarrow> (\<forall>i < 8. i \<noteq> 6 \<longrightarrow> mem (o1 + i) = check ! i)"

lemma find_pattern_first:
  assumes "i \<le> 8" "off \<le> sz" "\<forall>k < i. k \<noteq> 6 \<longrightarrow> mem (off + k) = check ! k" "o1 = find_pattern mem sz off i"
  shows "off \<le> o1 \<and> (o1 \<le> sz \<longrightarrow> matches mem o1) \<and> o1 \<le> sz + 1 \<and> (\<forall>o2. off \<le> o2 \<and> o2 < o1 \<longrightarrow> \<not> matches mem o2)"
  using assms
proof (induction mem sz off i rule: find_pattern.induct)
  case (1 mem sz off i)
  show ?case
  proof (cases "i < 8")
    case False
    then have "i = 8" using 1(4) by simp
    then show ?thesis using 1(5-7) by (simp add: find_pattern.simps [of mem sz off] matches_def)
  next
    case True
    with 1(5) have c: "i < 8 \<and> off \<le> sz" by simp
    show ?thesis
    proof (cases "mem (off + i) \<noteq> check ! i")
      case False
      then have "find_pattern mem sz off i = find_pattern mem sz off (i + 1)" using c by (subst find_pattern.simps) simp
      then show ?thesis using 1(3) [OF c] False c 1(5-7) by (auto simp: less_Suc_eq)
    next
      case d: True
      show ?thesis
      proof (cases "i = 6")
        case True
        then have "find_pattern mem sz off i = find_pattern mem sz off (i + 1)" using c by (subst find_pattern.simps) simp
        then show ?thesis using 1(1) [OF c d True] c 1(5-7) True by (auto simp: less_Suc_eq)
      next
        case False
        then have e: "find_pattern mem sz off i = find_pattern mem sz (off + 1) 0" using c d by (subst find_pattern.simps) simp
        have nm: "\<not> matches mem off" using d False True by (auto simp: matches_def)
        show ?thesis
        proof (cases "off + 1 \<le> sz")
          case True
          then have "off + 1 \<le> o1 \<and> (o1 \<le> sz \<longrightarrow> matches mem o1) \<and> o1 \<le> sz + 1 \<and> (\<forall>o2. off + 1 \<le> o2 \<and> o2 < o1 \<longrightarrow> \<not> matches mem o2)"
            using 1(2) [OF c d False] 1(7) e by simp
          moreover have "o2 = off \<or> off + 1 \<le> o2" if "off \<le> o2" for o2 :: nat using that by linarith
          ultimately show ?thesis using nm by (metis Suc_eq_plus1 Suc_leD)
        next
          case False
          then have "o1 = off + 1" unfolding 1(7) e by (subst find_pattern.simps) simp
          then show ?thesis using nm c False by (auto simp: le_Suc_eq less_Suc_eq)
        qed
      qed
    qed
  qed
qed

text \<open>The search finds the first place at or after the offset where the pattern lies, with any byte at its index 6, or
  else stops behind the input.\<close>

lemma find_pattern_spec:
  assumes "off \<le> sz"
  shows "find_pattern mem sz off 0 = (if \<exists>o1. off \<le> o1 \<and> o1 \<le> sz \<and> matches mem o1 then LEAST o1. off \<le> o1 \<and> matches mem o1 else sz + 1)"
proof -
  let ?r = "find_pattern mem sz off 0"
  have f: "off \<le> ?r" "?r \<le> sz \<longrightarrow> matches mem ?r" "?r \<le> sz + 1" "\<forall>o2. off \<le> o2 \<and> o2 < ?r \<longrightarrow> \<not> matches mem o2"
    using find_pattern_first [of 0 off sz mem ?r] assms by auto
  show ?thesis
  proof (cases "?r \<le> sz")
    case True
    then have "(LEAST o1. off \<le> o1 \<and> matches mem o1) = ?r"
      using f by (intro Least_equality) (auto simp: not_less [symmetric])
    then show ?thesis using True f by auto
  next
    case False
    then have "?r = sz + 1" using f(3) by simp
    then show ?thesis using f(4) by auto
  qed
qed

text \<open>A dump with the pattern at offset 3, its byte 6 changed to 5.\<close>

definition sample_dump :: memory where
  "sample_dump i = (if i = 3 + 4 then 7 else if i = 3 + 6 then 5 else if i = 3 + 7 then 1 else 0)"

lemma find_pattern_spec_witness: "find_pattern sample_dump 20 0 0 = 3"
proof -
  have m: "matches sample_dump 3" by (auto simp: matches_def sample_dump_def check_def numeral_eq_Suc less_Suc_eq)
  have n: "\<not> matches sample_dump o1" if "o1 < 3" for o1
  proof -
    have "sample_dump (o1 + 4) \<noteq> check ! 4" using that by (auto simp: sample_dump_def check_def)
    then show ?thesis unfolding matches_def by (intro notI) (drule spec [of _ 4], simp)
  qed
  have "(LEAST o1. 0 \<le> o1 \<and> matches sample_dump o1) = 3"
    by (rule Least_equality) (use m n in \<open>auto simp: not_less [symmetric]\<close>)
  moreover have "\<exists>o1. 0 \<le> o1 \<and> o1 \<le> 20 \<and> matches sample_dump o1" using m by (intro exI [of _ 3]) simp
  ultimately show ?thesis using find_pattern_spec [of 0 20 sample_dump] by simp
qed

definition uniform :: "memory \<Rightarrow> nat \<Rightarrow> bool" where
  "uniform mem e \<longleftrightarrow> (\<forall>k < 0x100. mem (e + k) = mem e)"


lemma seg_end_here:
  "uniform mem e \<Longrightarrow> j \<le> 0x100 \<Longrightarrow> seg_end mem e j = Some e"
proof (induction "0x100 - j" arbitrary: j)
  case 0
  then show ?case by (subst seg_end.simps) simp
next
  case (Suc n)
  then have "seg_end mem e (j + 1) = Some e" by (intro Suc.hyps(1)) auto
  moreover have "mem (e + j) = mem e" "j < 0x100" using Suc by (auto simp: uniform_def)
  ultimately show ?case by (subst seg_end.simps) simp
qed

lemma seg_end_next:
  "\<not> uniform mem e \<Longrightarrow> j \<le> 0x100 \<Longrightarrow> \<forall>k < j. mem (e + k) = mem e \<Longrightarrow> seg_end mem e j = seg_end mem (e + 1) 1"
proof (induction "0x100 - j" arbitrary: j)
  case 0
  then show ?case by (auto simp: uniform_def)
next
  case (Suc n)
  then have j: "j < 0x100" by simp
  show ?case
  proof (cases "mem (e + j) = mem e")
    case True
    then have "seg_end mem e (j + 1) = seg_end mem (e + 1) 1"
      using Suc j by (intro Suc.hyps(1)) (auto simp: less_Suc_eq)
    then show ?thesis using True j by (subst seg_end.simps) simp
  next
    case False
    then show ?thesis using j by (subst seg_end.simps) simp
  qed
qed

lemma seg_end_first:
  "uniform mem u \<Longrightarrow> e \<le> u \<Longrightarrow> (\<And>e'. e \<le> e' \<Longrightarrow> e' < u \<Longrightarrow> \<not> uniform mem e') \<Longrightarrow> j \<le> 1 \<Longrightarrow> seg_end mem e j = Some u"
proof (induction "u - e" arbitrary: e j)
  case 0
  then show ?case using seg_end_here [of mem e j] by simp
next
  case (Suc n)
  have "\<not> uniform mem e" using Suc.prems(3) [of e] Suc.hyps(2) by simp
  moreover have "\<forall>k < j. mem (e + k) = mem e" using Suc.prems(4) by (auto simp: le_Suc_eq)
  ultimately have "seg_end mem e j = seg_end mem (e + 1) 1" using seg_end_next [of mem e j] Suc.prems(4) by simp
  also have "\<dots> = Some u"
    by (rule Suc.hyps(1)) (use Suc.hyps(2) Suc.prems(1,3) in auto)
  finally show ?case .
qed

text \<open>The loop that looks for the end of a segment ends whenever 256 equal bytes follow at some place, and its result is the
  first such place at or after the pattern.\<close>

lemma seg_end_spec:
  assumes "e \<le> u" and "uniform mem u"
  shows "seg_end mem e 0 = Some (LEAST e'. e \<le> e' \<and> uniform mem e')"
proof (rule seg_end_first)
  let ?l = "LEAST e'. e \<le> e' \<and> uniform mem e'"
  have l: "e \<le> ?l \<and> uniform mem ?l" by (rule LeastI [of _ u]) (use assms in simp)
  then show "uniform mem ?l" "e \<le> ?l" by simp_all
  show "\<not> uniform mem e'" if "e \<le> e'" "e' < ?l" for e'
    using not_less_Least [OF that(2)] that(1) by simp
qed simp

lemma seg_end_spec_witness: "seg_end (\<lambda>i. if i < 7 then of_nat i else 0) 5 0 = Some 7"
proof -
  let ?m = "\<lambda>i :: nat. if i < 7 then of_nat i else (0 :: u8)"
  have u: "uniform ?m 7" by (simp add: uniform_def)
  have n: "\<not> uniform ?m e" if "e < 7" "5 \<le> e" for e
  proof -
    have "e = 5 \<or> e = 6" using that by linarith
    then have "?m (e + 2) \<noteq> ?m e" by auto
    then show ?thesis unfolding uniform_def by (intro notI) (drule spec [of _ 2], simp)
  qed
  have "(LEAST e. 5 \<le> e \<and> uniform ?m e) = 7"
    by (rule Least_equality) (use u n in \<open>auto simp: not_less [symmetric]\<close>)
  then show ?thesis using seg_end_spec [of 5 7 ?m] u by simp
qed

section \<open>The file of a module\<close>

lemma length_kdump_headers: "length (kdump_ehdr ep) = 52" "length (kdump_phdr v n) = 32"
  by (simp_all add: kdump_ehdr_def kdump_phdr_def elf_magic_def)

lemma length_write_at: "bs \<noteq> [] \<Longrightarrow> length (write_at f off bs) = max (length f) (off + length bs)"
  by (auto simp: write_at_def)

lemma kdump_elf_eq: "seg \<noteq> [] \<Longrightarrow> kdump_elf ep v seg = kdump_ehdr ep @ kdump_phdr v (length seg) @ replicate 108 0 @ seg"
proof -
  assume seg: "seg \<noteq> []"
  have ne: "kdump_ehdr ep \<noteq> []" "kdump_phdr v n \<noteq> []" for n
    using length_kdump_headers by (metis list.size(3) zero_neq_numeral)+
  have a: "write_at [] 0 (kdump_ehdr ep) = kdump_ehdr ep" using ne by (simp add: write_at_def)
  have b: "write_at (kdump_ehdr ep) 0x34 (kdump_phdr v (length seg)) = kdump_ehdr ep @ kdump_phdr v (length seg)"
    using ne by (simp add: write_at_def length_kdump_headers)
  show ?thesis unfolding kdump_elf_def a b using seg by (simp add: write_at_def length_kdump_headers)
qed

lemma slice_append: "length xs = off \<Longrightarrow> n \<le> length ys \<Longrightarrow> slice (xs @ ys) off n = Inr (take n ys)"
  by (simp add: slice_def)

lemma get32_append: "length xs = off \<Longrightarrow> get32 (xs @ bytes32 w @ ys) off = Inr (unat w)"
  by (auto simp: get32_def rd32_def nth_append bytes32_def join32_bytes32)

text \<open>
  The ELF file of a module in a memory dump has one segment: its program header gives the offset and the length
  under which the bytes of the dump are found in the file, and the address of the module.
\<close>

lemma kdump_elf_layout:
  assumes "seg \<noteq> []" and "length seg < 2 ^ 32" and "vaddr < 2 ^ 32"
  shows "take 8 (kdump_elf ep vaddr seg) = elf_magic \<and> get32 (kdump_elf ep vaddr seg) 0x1C = Inr 0x34 \<and>
    get32 (kdump_elf ep vaddr seg) (0x34 + 4) = Inr 0xC0 \<and> get32 (kdump_elf ep vaddr seg) (0x34 + 8) = Inr vaddr \<and>
    get32 (kdump_elf ep vaddr seg) (0x34 + 16) = Inr (length seg) \<and> slice (kdump_elf ep vaddr seg) 0xC0 (length seg) = Inr seg \<and>
    length (kdump_elf ep vaddr seg) = 0xC0 + length seg"
proof -
  let ?f = "kdump_elf ep vaddr seg" and ?n = "length seg"
  let ?tail = "replicate 108 0 @ seg"
  note eq = kdump_elf_eq [OF assms(1), of ep vaddr]
  have un: "unat (of_nat x :: u32) = x" if "x < 2 ^ 32" for x using that by (simp add: unsigned_of_nat take_bit_nat_eq_self)
  let ?h = "elf_magic @ replicate 8 0 @ [4, 0, 0x28, 0] @ bytes32 1 @ bytes32 (of_nat ep)"
  have f1: "?f = ?h @ bytes32 0x34 @ (bytes32 0 @ bytes32 0x05000000 @ [0x34, 0, 0x20, 0, 1, 0, 0, 0, 0, 0, 0, 0] @ kdump_phdr vaddr ?n @ ?tail)"
    unfolding eq kdump_ehdr_def by simp
  have 1: "get32 ?f 0x1C = Inr 0x34" unfolding f1 by (subst get32_append) (simp_all add: elf_magic_def)
  have f2: "?f = (kdump_ehdr ep @ bytes32 1) @ bytes32 0xC0 @ (bytes32 (of_nat vaddr) @ bytes32 0 @ bytes32 (of_nat ?n) @ bytes32 (of_nat ?n)
      @ bytes32 5 @ bytes32 1 @ ?tail)"
    unfolding eq kdump_phdr_def by simp
  have 2: "get32 ?f (0x34 + 4) = Inr 0xC0" unfolding f2 by (subst get32_append) (simp_all add: length_kdump_headers)
  have f3: "?f = (kdump_ehdr ep @ bytes32 1 @ bytes32 0xC0) @ bytes32 (of_nat vaddr) @ (bytes32 0 @ bytes32 (of_nat ?n) @ bytes32 (of_nat ?n)
      @ bytes32 5 @ bytes32 1 @ ?tail)"
    unfolding eq kdump_phdr_def by simp
  have 3: "get32 ?f (0x34 + 8) = Inr vaddr" unfolding f3 by (subst get32_append) (simp_all add: length_kdump_headers un [OF assms(3)])
  have f4: "?f = (kdump_ehdr ep @ bytes32 1 @ bytes32 0xC0 @ bytes32 (of_nat vaddr) @ bytes32 0) @ bytes32 (of_nat ?n) @ (bytes32 (of_nat ?n)
      @ bytes32 5 @ bytes32 1 @ ?tail)"
    unfolding eq kdump_phdr_def by simp
  have 4: "get32 ?f (0x34 + 16) = Inr ?n" unfolding f4 by (subst get32_append) (simp_all add: length_kdump_headers un [OF assms(2)])
  have f5: "?f = (kdump_ehdr ep @ kdump_phdr vaddr ?n @ replicate 108 0) @ seg" unfolding eq by simp
  have 5: "slice ?f 0xC0 ?n = Inr seg" unfolding f5 by (subst slice_append) (simp_all add: length_kdump_headers)
  have 6: "length ?f = 0xC0 + ?n" unfolding f5 by (simp add: length_kdump_headers)
  have "take 8 ?f = elf_magic" unfolding f1 by (simp add: elf_magic_def)
  then show ?thesis using 1 2 3 4 5 6 by simp
qed

lemma kdump_elf_layout_witness: "slice (kdump_elf 0 0x51000000 [7]) 0xC0 1 = Inr [7]"
  using kdump_elf_layout [where seg = "[7]" and vaddr = "0x51000000" and ep = 0] by simp

end
