(* ===== verification/KernelDump.thy ===== *)
theory KernelDump
  imports Extract
begin

text \<open>
  Parts that read memory of the running system and write it out: the kernel dump of \<open>Kdumper/src/main.c\<close>, the dump of the
  physical memory of \<open>physmem-dumper/src/kernel.c\<close>, and the reading of a SELF segment in \<open>FAGDec/src/kplugin/kentente.c\<close>.
  What the exploit, the memory management unit and the kernel's file and network calls deliver are arguments. The
  last section joins \<open>Kdumper\<close> to \<open>kdump-extract\<close>, which reads its dumps.
\<close>

section \<open>Kdumper: keys\<close>

text \<open>\<open>keys\<close> is the table \<open>buttons\<close>, \<open>pads n\<close> are the buttons that the \<open>n\<close>th call of the pad reports. The key, the number of calls and the new \<open>prev\<close>.\<close>

definition released :: "u32 \<Rightarrow> u32 \<Rightarrow> u32" where
  "released prev pad = prev XOR (pad AND prev)"

partial_function (option) get_key :: "u32 list \<Rightarrow> (nat \<Rightarrow> u32) \<Rightarrow> nat \<Rightarrow> u32 \<Rightarrow> (u32 \<times> nat \<times> u32) option" where
  "get_key keys pads n prev = (case find (\<lambda>b. released prev (pads n) AND b \<noteq> 0) keys of
     Some b \<Rightarrow> Some (b, n + 1, pads n) | None \<Rightarrow> get_key keys pads (n + 1) (pads n))"

section \<open>Kdumper: reading the kernel\<close>

text \<open>\<open>voiceDef\<close> has \<open>0x100\<close> words; all of its accesses are at constant places.\<close>

definition voice_init :: "u32 list" where
  "voice_init = [0x66647662, 0x00010001, 0x40, 0x40] @ replicate 0xFC 0"

definition zero_words :: "nat \<Rightarrow> nat \<Rightarrow> u32 list \<Rightarrow> u32 list" where
  "zero_words k n v = take k v @ replicate n 0 @ drop (k + n) v"

definition set_preset :: "nat \<Rightarrow> u32 \<Rightarrow> u32 \<Rightarrow> u32 list \<Rightarrow> u32 list" where
  "set_preset i src sz v = (let base = 0x130 + i * 0x18 in
     (zero_words (base div 4) 6 v)[(base + 0x08) div 4 := src - of_nat base, (base + 0x0C) div 4 := sz])"

text \<open>The part that \<open>leak_sysmem_ngsuser\<close> and \<open>kernel_read_ngsuser\<close> share: the presets and the planted arguments of a copy.\<close>

definition plant_copy :: "u32 \<Rightarrow> u32 \<Rightarrow> u32 \<Rightarrow> u32 list \<Rightarrow> u32 list" where
  "plant_copy dst src len v = (let v = v[0x0C := 0x130, 0x0D := 2];
     v = set_preset 1 0x40 0xA0 (set_preset 0 0 (- (0x148 + 2 * 0x18) + 0xA0) v)
     in (zero_words 0x10 0x28 v)[0x11 := dst, 0x12 := src, 0x17 := len])"

text \<open>\<open>probe p\<close>: with the definition at \<open>p\<close> the call does not return \<open>INVALID_PARAM\<close>. The loops over the stack in steps of two.\<close>

definition scan_stack :: "(u32 \<Rightarrow> bool) \<Rightarrow> (u32 \<Rightarrow> u32) \<Rightarrow> nat \<Rightarrow> u32 option" where
  "scan_stack probe ptr start =
     find (\<lambda>a. probe (ptr a)) (map (\<lambda>k. of_nat (start + 2 * k)) [0..<(0x03000000 + 1 - start) div 2])"

definition voice_xor :: "u32 \<Rightarrow> u32" where "voice_xor a = a XOR 0x9E28DCCE"

definition leak_kstack_ngsuser :: "(u32 \<Rightarrow> bool) \<Rightarrow> u32" where
  "leak_kstack_ngsuser probe = (case scan_stack probe voice_xor 0x01800000 of Some a \<Rightarrow> a AND 0xFFFFF000
     | None \<Rightarrow> (case scan_stack probe id 0 of Some a \<Rightarrow> a AND 0xFFFFF000 | None \<Rightarrow> 0xFFFF))"

text \<open>The pointer that is left in the description of the rack, if a probe succeeds.\<close>

definition find_voice :: "(u32 \<Rightarrow> bool) \<Rightarrow> u32 \<Rightarrow> u32 option" where
  "find_voice probe kstack = (case scan_stack probe voice_xor (unat kstack) of Some a \<Rightarrow> Some (voice_xor a)
     | None \<Rightarrow> scan_stack probe id (unat kstack))"

definition leak_kstack_motiondev :: "u32 list \<Rightarrow> u32" where
  "leak_kstack_motiondev info = (info ! 3) AND 0xFFFFF000"

definition leak_sysmem_motiondev :: "u32 list \<Rightarrow> u32" where
  "leak_sysmem_motiondev info = (info ! 0 - 0x27000) AND 0xFFFF0000"

text \<open>\<open>kernel_read_ngs\<close> reads word by word; the words of \<open>inbuf\<close> for each.\<close>

definition kernel_read_ngs :: "u32 \<Rightarrow> u32 \<Rightarrow> nat \<Rightarrow> (u32 \<times> u32) list" where
  "kernel_read_ngs kstack src n =
     map (\<lambda>i. (src + 4 * of_nat i - (kstack + 0xAF0 - 0x30), 0xFFFFFFFF)) [0..<(n + 3) div 4]"

lemma length_zero_words: "k + n \<le> length v \<Longrightarrow> length (zero_words k n v) = length v"
  by (simp add: zero_words_def)

lemma zero_words_nth: "k + n \<le> length v \<Longrightarrow> i < length v \<Longrightarrow>
    zero_words k n v ! i = (if k \<le> i \<and> i < k + n then 0 else v ! i)"
  by (auto simp: zero_words_def nth_append min_def intro!: arg_cong [of _ _ "nth v"])

lemma length_plant_copy: "length v = 0x100 \<Longrightarrow> length (plant_copy dst src len v) = 0x100"
  by (simp add: plant_copy_def set_preset_def Let_def length_zero_words)

lemma plant_copy_nth:
  assumes "length v = 0x100" "i < 0x100"
  shows "plant_copy dst src len v ! i = (if i = 0x11 then dst else if i = 0x12 then src else if i = 0x17 then len
    else if 0x10 \<le> i \<and> i < 0x38 then 0
    else if i = 0x4E then 0xFFFFFED0 else if i = 0x4F then 0xFFFFFF28 else if i = 0x54 then 0xFFFFFEF8 else if i = 0x55 then 0xA0
    else if 0x4C \<le> i \<and> i < 0x58 then 0 else if i = 0x0C then 0x130 else if i = 0x0D then 2 else v ! i)"
  using assms by (simp add: plant_copy_def set_preset_def Let_def length_zero_words zero_words_nth nth_list_update)

text \<open>What one read leaves behind in the definition does not reach the next one.\<close>

lemma plant_copy_again:
  assumes "length v = 0x100"
  shows "plant_copy dst src len (plant_copy dst' src' len' v) = plant_copy dst src len v"
  by (rule nth_equalityI) (simp_all add: assms length_plant_copy plant_copy_nth)

lemma scan_stack_hit: "scan_stack probe ptr start = Some a \<Longrightarrow> probe (ptr a)"
  by (auto simp: scan_stack_def find_Some_iff)

lemma find_voice_probes: "find_voice probe kstack = Some p \<Longrightarrow> probe p"
  by (auto simp: find_voice_def dest!: scan_stack_hit split: option.splits)

lemma scan_stack_none:
  assumes "scan_stack probe ptr start = None" "start \<le> a" "a < 0x03000000" "even (a - start)"
  shows "\<not> probe (ptr (of_nat a))"
proof -
  obtain k where "a - start = 2 * k" using assms(4) by (rule evenE)
  then have k: "a = start + 2 * k" using assms(2) by linarith
  then have "k \<in> set [0..<(0x03000000 + 1 - start) div 2]" using assms(3) by auto
  then have "of_nat a \<in> set (map (\<lambda>k. of_nat (start + 2 * k)) [0..<(0x03000000 + 1 - start) div 2])"
    unfolding k by (auto simp del: upt_conv_Cons)
  then show ?thesis using assms(1) unfolding scan_stack_def find_None_iff by blast
qed

section \<open>Kdumper: finding the base of SceSysmem\<close>

definition sysmem_magic :: "u8 list" where
  "sysmem_magic = [0x07, 0x00, 0x01, 0x01, 0x53, 0x63, 0x65, 0x53, 0x79, 0x73, 0x6D, 0x65, 0x6D, 0x00]"

text \<open>
  \<open>kread a\<close> are the 4096 bytes of the kernel at \<open>a\<close>, \<open>behind\<close> the memory behind the buffer: \<open>memcmp\<close> reads up to 13 bytes
  of it.
\<close>

definition match_at :: "u8 list \<Rightarrow> nat \<Rightarrow> bool" where
  "match_at m j \<longleftrightarrow> take 14 (drop j m) = sysmem_magic"

partial_function (option) find_sysmem :: "(u32 \<Rightarrow> u8 list) \<Rightarrow> u8 list \<Rightarrow> u32 \<Rightarrow> nat \<Rightarrow> u32 option" where
  "find_sysmem kread behind leaked i = (case find (match_at (kread (leaked + of_nat i * 0x1000) @ behind)) [0..<0x1000] of
     Some j \<Rightarrow> Some (leaked + of_nat i * 0x1000 + of_nat j)
   | None \<Rightarrow> find_sysmem kread behind leaked (i + 1))"

definition sysmem_base :: "u32 \<Rightarrow> u32" where
  "sysmem_base found = (found - 0x24750) AND 0xFFFFF000"

section \<open>Kdumper: the dump\<close>

definition page_count :: nat where "page_count = 0x65 + 0xD2 + 0x100"

text \<open>\<open>kdump_info\<close>: 0x58 bytes in front of the pages.\<close>

definition kdump_info :: "u32 \<Rightarrow> u32 \<Rightarrow> u32 \<Rightarrow> u32 list \<Rightarrow> u8 list" where
  "kdump_info sysmem leaked kstack info = bytes32 sysmem @ bytes32 0x58 @ bytes32 leaked @ bytes32 kstack
     @ concat (map bytes32 info)"

text \<open>
  The loop over the pages: \<open>send n\<close> is the result of the \<open>n\<close>th send, and the number of bytes the peer got. A page whose
  send fails is read and sent again, one that is sent in part is not.
\<close>

partial_function (option) dump_pages :: "(nat \<Rightarrow> int) \<Rightarrow> (u32 \<Rightarrow> u8 list) \<Rightarrow> u32 \<Rightarrow> nat \<Rightarrow> nat \<Rightarrow> u8 list \<Rightarrow> u8 list option" where
  "dump_pages send kread base n i acc = (if i < page_count then
     (if send n \<ge> 0 then dump_pages send kread base (n + 1) (i + 1) (acc @ take (nat (send n)) (kread (base + of_nat i * 0x1000)))
      else dump_pages send kread base (n + 1) i acc)
     else Some acc)"

text \<open>The result of sending the information is not checked.\<close>

definition kernel_dump :: "(nat \<Rightarrow> int) \<Rightarrow> (u32 \<Rightarrow> u8 list) \<Rightarrow> u32 \<Rightarrow> u32 \<Rightarrow> u32 \<Rightarrow> u32 list \<Rightarrow> u8 list option" where
  "kernel_dump send kread base leaked kstack info =
     dump_pages send kread base 1 0 (take (nat (send 0)) (kdump_info base leaked kstack info))"

section \<open>physmem-dumper\<close>

text \<open>\<open>translate\<close> is the address translation of the processor, a physical address for the start of a virtual page.\<close>

definition pa2va :: "(u32 \<Rightarrow> u32) \<Rightarrow> u32 \<Rightarrow> u32" where
  "pa2va translate pa = (case find (\<lambda>i. pa AND 0xFFFFF000 = translate (of_nat i * 0x1000) AND 0xFFFFF000) [0..<0x100000] of
     Some i \<Rightarrow> of_nat i * 0x1000 + (pa AND 0xFFF) | None \<Rightarrow> 0)"

text \<open>
  The loop that writes one megabyte: \<open>wr n k\<close> is the result of the \<open>n\<close>th write, of \<open>k\<close> bytes. \<open>write\<close> is compared as an
  unsigned number; \<open>Inl\<close> is the error branch. The bytes that reached the file.
\<close>

partial_function (option) write_loop :: "(nat \<Rightarrow> nat \<Rightarrow> int) \<Rightarrow> u8 list \<Rightarrow> nat \<Rightarrow> nat \<Rightarrow> nat \<Rightarrow> u8 list \<Rightarrow> (u8 list + u8 list) option" where
  "write_loop wr mem len n write acc =
     (if nat ((int write + wr n (len - write)) mod 2 ^ 32) < len
      then (if nat ((int write + wr n (len - write)) mod 2 ^ 32) \<ge> 2 ^ 31
            then Some (Inl (acc @ take (nat (wr n (len - write))) (drop write mem)))
            else write_loop wr mem len (n + 1) (nat ((int write + wr n (len - write)) mod 2 ^ 32))
              (acc @ take (nat (wr n (len - write))) (drop write mem)))
      else Some (Inr (acc @ take (nat (wr n (len - write))) (drop write mem))))"

definition section_entry :: "nat \<Rightarrow> u32" where
  "section_entry i = push_bit 20 (of_nat i) OR 0x10592"

text \<open>\<open>mapped e\<close> is the megabyte that the processor shows at \<open>0x3E000000\<close> when the table has the entry \<open>e\<close> for it.\<close>

fun phy_mem_dump :: "(nat \<Rightarrow> nat \<Rightarrow> nat \<Rightarrow> int) \<Rightarrow> (u32 \<Rightarrow> u8 list) \<Rightarrow> nat list \<Rightarrow> u8 list \<Rightarrow> u8 list option" where
  "phy_mem_dump wr mapped [] f = Some f"
| "phy_mem_dump wr mapped (i # is) f = (case write_loop (wr i) (mapped (section_entry i)) 0x100000 0 0 [] of
     None \<Rightarrow> None
   | Some (Inl bs) \<Rightarrow> Some (f @ bs)
   | Some (Inr bs) \<Rightarrow> phy_mem_dump wr mapped is (f @ bs))"

section \<open>kentente: feeding a segment to the decrypter\<close>

text \<open>
  The loop over the blocks of an encrypted segment. \<open>rd n k\<close> is the result of the \<open>n\<close>th read, of \<open>k\<close> bytes; \<open>src\<close> is what
  follows in the file, \<open>buf\<close> the filled part of the data buffer. \<open>Inl\<close>: a negative result is taken as a huge number of
  bytes. \<open>decr b\<close> is what the decrypter leaves in the buffer in place of a block. The blocks that are passed on, and the bytes
  that are written to the temporary file.
\<close>

partial_function (option) feed_loop ::
    "(u8 list \<Rightarrow> u8 list) \<Rightarrow> (nat \<Rightarrow> nat \<Rightarrow> int) \<Rightarrow> nat \<Rightarrow> u8 list \<Rightarrow> nat \<Rightarrow> nat \<Rightarrow> u8 list \<Rightarrow> u8 list list \<Rightarrow> u8 list \<Rightarrow> (unit + u8 list list \<times> u8 list) option" where
  "feed_loop decr rd n src len to_read buf blocks wfd =
     (if len = 0 \<or> rd n to_read = 0 then Some (Inr (blocks, wfd))
      else if rd n to_read < 0 then Some (Inl ())
      else if nat (rd n to_read) < to_read
        then feed_loop decr rd (n + 1) (drop (nat (rd n to_read)) src) (len - nat (rd n to_read)) (to_read - nat (rd n to_read))
          (buf @ take (nat (rd n to_read)) src) blocks wfd
        else feed_loop decr rd (n + 1) (drop (nat (rd n to_read)) src) (len - nat (rd n to_read)) (min 0x10000 (len - nat (rd n to_read)))
          [] (blocks @ [buf @ take (nat (rd n to_read)) src]) (wfd @ take to_read (decr (buf @ take (nat (rd n to_read)) src))))"

definition feed_segment :: "(u8 list \<Rightarrow> u8 list) \<Rightarrow> (nat \<Rightarrow> nat \<Rightarrow> int) \<Rightarrow> u8 list \<Rightarrow> nat \<Rightarrow> (unit + u8 list list \<times> u8 list) option" where
  "feed_segment decr rd src len = feed_loop decr rd 0 src len (min 0x10000 len) [] [] []"

section \<open>Lemmas on the loops\<close>

text \<open>A key is reported when it was down at one call of the pad and is up at the next.\<close>

lemma bit_released: "bit (released prev pad) k \<longleftrightarrow> bit prev k \<and> \<not> bit pad k"
  by (auto simp: released_def bit_simps)

lemma get_key_released:
  assumes "get_key keys pads n prev = Some r"
  shows "case r of (b, m, p) \<Rightarrow> b \<in> set keys \<and> n < m \<and> p = pads (m - 1) \<and>
    released (if m = n + 1 then prev else pads (m - 2)) p AND b \<noteq> 0"
proof (rule get_key.raw_induct [OF _ assms, where P = "\<lambda>keys pads n prev r. case r of (b, m, p) \<Rightarrow>
    b \<in> set keys \<and> n < m \<and> p = pads (m - 1) \<and> released (if m = n + 1 then prev else pads (m - 2)) p AND b \<noteq> 0"])
  fix f keys pads n prev and r :: "u32 \<times> nat \<times> u32"
  assume IH: "\<And>keys pads n prev r. f keys pads n prev = Some r \<Longrightarrow> case r of (b, m, p) \<Rightarrow>
      b \<in> set keys \<and> n < m \<and> p = pads (m - 1) \<and> released (if m = n + 1 then prev else pads (m - 2)) p AND b \<noteq> 0"
    and body: "(case find (\<lambda>b. released prev (pads n) AND b \<noteq> 0) keys of
       Some b \<Rightarrow> Some (b, n + 1, pads n) | None \<Rightarrow> f keys pads (n + 1) (pads n)) = Some r"
  show "case r of (b, m, p) \<Rightarrow>
      b \<in> set keys \<and> n < m \<and> p = pads (m - 1) \<and> released (if m = n + 1 then prev else pads (m - 2)) p AND b \<noteq> 0"
  proof (cases "find (\<lambda>b. released prev (pads n) AND b \<noteq> 0) keys")
    case None
    then have "f keys pads (n + 1) (pads n) = Some r" using body by simp
    from IH [OF this] show ?thesis by (auto simp del: One_nat_def split: if_splits)
  next
    case (Some k)
    then have "r = (k, n + 1, pads n)" using body by simp
    moreover have "k \<in> set keys" "released prev (pads n) AND k \<noteq> 0" using Some by (auto simp: find_Some_iff)
    ultimately show ?thesis by simp
  qed
qed

lemma write_loop_no_error:
  assumes "write_loop wr mem len n w acc = Some r"
  shows "len \<le> 2 ^ 31 \<longrightarrow> (\<exists>bs. r = Inr bs)"
proof (rule write_loop.raw_induct [OF _ assms, where P = "\<lambda>wr mem len n w acc r. len \<le> 2 ^ 31 \<longrightarrow> (\<exists>bs. r = Inr bs)"])
  fix f wr and mem :: "u8 list" and len n w :: nat and acc and r :: "u8 list + u8 list"
  let ?w = "nat ((int w + wr n (len - w)) mod 2 ^ 32)" and ?acc = "acc @ take (nat (wr n (len - w))) (drop w mem)"
  assume IH: "\<And>wr mem len n w acc r. f wr mem len n w acc = Some r \<Longrightarrow> len \<le> 2 ^ 31 \<longrightarrow> (\<exists>bs. r = Inr bs)"
    and body: "(if ?w < len then (if ?w \<ge> 2 ^ 31 then Some (Inl ?acc) else f wr mem len (n + 1) ?w ?acc) else Some (Inr ?acc)) = Some r"
  show "len \<le> 2 ^ 31 \<longrightarrow> (\<exists>bs. r = Inr bs)"
    using body IH [of wr mem len "n + 1" ?w ?acc r] by (cases "?w < len"; cases "?w \<ge> 2 ^ 31") auto
qed

lemma write_loop_writes:
  assumes "\<forall>n k. 0 < k \<longrightarrow> 0 < wr n k \<and> wr n k \<le> int k" and "w < len" "len \<le> 2 ^ 31" "length mem = len"
  shows "write_loop wr mem len n w acc = Some (Inr (acc @ drop w mem))"
  using assms(2)
proof (induction "len - w" arbitrary: n w acc rule: less_induct)
  case less
  define r where "r = wr n (len - w)"
  have "0 < len - w" using less.prems by simp
  then have r: "0 < r" "r \<le> int (len - w)" unfolding r_def using assms(1) by blast+
  then have e: "nat ((int w + r) mod 2 ^ 32) = w + nat r" using less.prems assms(3) by (simp add: nat_add_distrib)
  have t: "take (nat r) (drop w mem) @ drop (w + nat r) mem = drop w mem"
    by (metis append_take_drop_id drop_drop add.commute)
  show ?case
  proof (cases "w + nat r < len")
    case True
    then have "write_loop wr mem len (n + 1) (w + nat r) (acc @ take (nat r) (drop w mem)) =
        Some (Inr ((acc @ take (nat r) (drop w mem)) @ drop (w + nat r) mem))"
      using less.hyps [of "w + nat r" "n + 1" "acc @ take (nat r) (drop w mem)"] r less.prems by simp
    then show ?thesis
      using True assms(3) t unfolding write_loop.simps [of wr mem len n w acc] r_def [symmetric] e by simp
  next
    case False
    then have "take (nat r) (drop w mem) = drop w mem" using assms(4) by simp
    then show ?thesis
      using False unfolding write_loop.simps [of wr mem len n w acc] r_def [symmetric] e by simp
  qed
qed

section \<open>Feeding a segment\<close>

text \<open>The reference: the bytes in pieces of \<open>0x10000\<close>, the last one shorter.\<close>

function pieces :: "'a list \<Rightarrow> 'a list list" where
  "pieces xs = (if xs = [] then [] else take 0x10000 xs # pieces (drop 0x10000 xs))"
  by auto
termination by (relation "measure length") auto

declare pieces.simps [simp del]

lemma concat_pieces: "concat (pieces xs) = xs"
  by (induction xs rule: pieces.induct) (subst pieces.simps, simp)

lemma feed_loop_pieces:
  assumes "\<forall>n k. 0 < k \<longrightarrow> 0 < rd n k \<and> rd n k \<le> int k"
    and "len \<le> length src" "k \<le> len" "0 < len \<longrightarrow> 0 < k"
  shows "\<exists>w. feed_loop decr rd n src len k buf bs wfd = Some (Inr (bs @ (if len = 0 then []
      else (buf @ take k src) # pieces (take (len - k) (drop k src))), w)) \<and>
    ((\<forall>n k. rd n k = int k) \<and> (\<forall>b. length (decr b) = length b) \<and> buf = [] \<longrightarrow> w = wfd @ concat (map decr (if len = 0 then []
      else take k src # pieces (take (len - k) (drop k src)))))"
  using assms(2-4)
proof (induction len arbitrary: n src k buf bs wfd rule: less_induct)
  case (less len)
  show ?case
  proof (cases "len = 0")
    case True
    then show ?thesis by (subst feed_loop.simps) simp
  next
    case False
    then have k: "0 < k" using less.prems by simp
    define r where "r = nat (rd n k)"
    have "0 < rd n k \<and> rd n k \<le> int k" using assms(1) k by blast
    then have r: "0 < r" "r \<le> k" "rd n k = int r" by (auto simp: r_def)
    show ?thesis
    proof (cases "r < k")
      case True
      have t: "(buf @ take r src) @ take (k - r) (drop r src) = buf @ take k src"
        using r(2) by (metis append_assoc le_add_diff_inverse take_add)
      have d: "take (len - r - (k - r)) (drop (k - r) (drop r src)) = take (len - k) (drop k src)"
        using r(2) less.prems by simp
      have "\<exists>w. feed_loop decr rd (n + 1) (drop r src) (len - r) (k - r) (buf @ take r src) bs wfd =
          Some (Inr (bs @ (if len - r = 0 then [] else ((buf @ take r src) @ take (k - r) (drop r src)) #
            pieces (take (len - r - (k - r)) (drop (k - r) (drop r src)))), w)) \<and>
          ((\<forall>n k. rd n k = int k) \<and> (\<forall>b. length (decr b) = length b) \<and> buf @ take r src = [] \<longrightarrow> w = wfd @ concat (map decr (if len - r = 0 then []
            else take (k - r) (drop r src) # pieces (take (len - r - (k - r)) (drop (k - r) (drop r src))))))"
        by (rule less.IH) (use less.prems r True False in auto)
      then obtain w where "feed_loop decr rd (n + 1) (drop r src) (len - r) (k - r) (buf @ take r src) bs wfd =
          Some (Inr (bs @ (buf @ take k src) # pieces (take (len - k) (drop k src)), w))"
        unfolding t d using True less.prems(2) by auto
      moreover have "\<not> (\<forall>n k. rd n k = int k)" using True r(3) by (metis nat_less_le of_nat_eq_iff)
      ultimately show ?thesis
        using True False r unfolding feed_loop.simps [of decr rd n src len k] by auto
    next
      case False2: False
      then have rk: "r = k" using r(2) by simp
      let ?rest = "drop k src" and ?l = "len - k"
      have "\<exists>w. feed_loop decr rd (n + 1) ?rest ?l (min 0x10000 ?l) [] (bs @ [buf @ take k src]) (wfd @ take k (decr (buf @ take k src))) =
          Some (Inr ((bs @ [buf @ take k src]) @ (if ?l = 0 then [] else
            ([] @ take (min 0x10000 ?l) ?rest) # pieces (take (?l - min 0x10000 ?l) (drop (min 0x10000 ?l) ?rest))), w)) \<and>
        ((\<forall>n k. rd n k = int k) \<and> (\<forall>b. length (decr b) = length b) \<and> [] = ([] :: u8 list) \<longrightarrow> w = (wfd @ take k (decr (buf @ take k src))) @ concat (map decr
          (if ?l = 0 then [] else take (min 0x10000 ?l) ?rest # pieces (take (?l - min 0x10000 ?l) (drop (min 0x10000 ?l) ?rest)))))"
        by (rule less.IH) (use less.prems k in auto)
      then obtain w where w: "feed_loop decr rd (n + 1) ?rest ?l (min 0x10000 ?l) [] (bs @ [buf @ take k src]) (wfd @ take k (decr (buf @ take k src))) =
          Some (Inr ((bs @ [buf @ take k src]) @ (if ?l = 0 then [] else
            ([] @ take (min 0x10000 ?l) ?rest) # pieces (take (?l - min 0x10000 ?l) (drop (min 0x10000 ?l) ?rest))), w))"
        "(\<forall>n k. rd n k = int k) \<and> (\<forall>b. length (decr b) = length b) \<longrightarrow> w = (wfd @ take k (decr (buf @ take k src))) @ concat (map decr
          (if ?l = 0 then [] else ([] @ take (min 0x10000 ?l) ?rest) # pieces (take (?l - min 0x10000 ?l) (drop (min 0x10000 ?l) ?rest))))"
        unfolding append_Nil by blast
      have p: "(if ?l = 0 then [] else ([] @ take (min 0x10000 ?l) ?rest) # pieces (take (?l - min 0x10000 ?l) (drop (min 0x10000 ?l) ?rest)))
          = pieces (take ?l ?rest)"
      proof (cases "?l \<le> 0x10000")
        case True
        then show ?thesis using less.prems
          by (auto simp: pieces.simps [of "take ?l ?rest"] pieces.simps [of "[]"] min_def)
      next
        case False
        then show ?thesis using less.prems
          by (auto simp: pieces.simps [of "take ?l ?rest"] min_def drop_take)
      qed
      have "feed_loop decr rd n src len k buf bs wfd =
          feed_loop decr rd (n + 1) ?rest ?l (min 0x10000 ?l) [] (bs @ [buf @ take k src]) (wfd @ take k (decr (buf @ take k src)))"
        using False r rk unfolding feed_loop.simps [of decr rd n src len k] by simp
      moreover have "(\<forall>b. length (decr b) = length b) \<longrightarrow> take k (decr (take k src)) = decr (take k src)" by simp
      ultimately show ?thesis
        using w False unfolding p by auto
    qed
  qed
qed

text \<open>
  C31. However the kernel divides its reads, the decrypter gets the bytes of the segment in blocks of \<open>0x10000\<close>, none twice
  and none left out, and the loop ends; when every read is complete the temporary file gets what the decrypter left of every block.
\<close>

theorem segment_fed_in_blocks:
  assumes "\<forall>n k. 0 < k \<longrightarrow> 0 < rd n k \<and> rd n k \<le> int k" and "len \<le> length src"
  shows "\<exists>w. feed_segment decr rd src len = Some (Inr (pieces (take len src), w)) \<and>
    ((\<forall>n k. rd n k = int k) \<and> (\<forall>b. length (decr b) = length b) \<longrightarrow> w = concat (map decr (pieces (take len src))))"
proof -
  have p: "(if len = 0 then [] else ([] @ take (min 0x10000 len) src) # pieces (take (len - min 0x10000 len) (drop (min 0x10000 len) src)))
      = pieces (take len src)"
    using assms(2) by (auto simp: pieces.simps [of "take len src"] pieces.simps [of "[]"] min_def drop_take)
  show ?thesis
    using feed_loop_pieces [OF assms, of "min 0x10000 len" decr 0 "[]" "[]" "[]"] p unfolding feed_segment_def append_Nil by auto
qed

text \<open>Reads that are cut: the block is complete, but only the bytes of the last read are written to the temporary file.\<close>

theorem segment_fed_in_blocks_witness:
  "\<exists>w. feed_segment id (\<lambda>n k. if n = 0 then min 3 (int k) else int k) (replicate 5 7) 5 = Some (Inr (pieces (replicate 5 7), w)) \<and>
    ((\<forall>(n :: nat) k. (if n = 0 then min 3 (int k) else int k) = int k) \<and> (\<forall>b :: u8 list. length (id b) = length b) \<longrightarrow>
      w = concat (map id (pieces (replicate 5 7))))"
proof -
  have "\<forall>n k. 0 < k \<longrightarrow> 0 < (if n = 0 then min 3 (int k) else int k) \<and> (if n = (0 :: nat) then min 3 (int k) else int k) \<le> int k" by auto
  from segment_fed_in_blocks [OF this, of 5 "replicate 5 7" id]
  show ?thesis unfolding length_replicate take_replicate min.idem using le_refl by blast
qed

lemma feed_writes_part: "feed_segment id (\<lambda>n k. if n = 0 then min 3 (int k) else int k) [1, 2, 3, 4, 5] 5 = Some (Inr ([[1, 2, 3, 4, 5]], [1, 2]))"
  unfolding feed_segment_def
  by (subst feed_loop.simps, simp, subst feed_loop.simps, simp, subst feed_loop.simps, simp)

section \<open>The physical memory\<close>

lemma phy_mem_dump_appends:
  assumes "\<forall>i n k. 0 < k \<longrightarrow> 0 < wr i n k \<and> wr i n k \<le> int k" and "\<forall>e. length (mapped e) = 0x100000"
  shows "phy_mem_dump wr mapped is f = Some (f @ concat (map (\<lambda>i. mapped (section_entry i)) is))"
proof (induction "is" arbitrary: f)
  case (Cons i "is")
  have "write_loop (wr i) (mapped (section_entry i)) 0x100000 0 0 [] = Some (Inr ([] @ drop 0 (mapped (section_entry i))))"
    by (rule write_loop_writes) (use assms in auto)
  then show ?case using Cons by simp
qed simp

text \<open>The physical address of the section in an entry.\<close>

lemma section_entry_base: "i < 0x1000 \<Longrightarrow> section_entry i AND 0xFFF00000 = of_nat i * 0x100000"
proof -
  assume i: "i < 0x1000"
  have m: "bit (0xFFF00000 :: u32) n \<longleftrightarrow> 20 \<le> n \<and> n < 32" for n
  proof -
    have "bit (push_bit 20 (mask 12) :: u32) n \<longleftrightarrow> 20 \<le> n \<and> n < 32"
      by (auto simp: bit_push_bit_iff bit_mask_iff dest: bit_imp_le_length)
    then show ?thesis by (simp add: mask_eq_exp_minus_1)
  qed
  have l: "bit (0x10592 :: u32) n \<Longrightarrow> n < 20" for n
  proof -
    have "(0x10592 :: u32) = take_bit 20 0x10592" by simp
    then show "bit (0x10592 :: u32) n \<Longrightarrow> n < 20" by (metis bit_take_bit_iff)
  qed
  have "section_entry i AND 0xFFF00000 = push_bit 20 (of_nat i)"
  proof (rule bit_word_eqI)
    fix n assume "n < LENGTH(32)"
    then show "bit (section_entry i AND 0xFFF00000) n = bit (push_bit 20 (of_nat i) :: u32) n"
      using l [of n] by (auto simp: section_entry_def bit_and_iff bit_or_iff bit_push_bit_iff m simp del: bit_numeral_word_iff)
  qed
  then show ?thesis by (simp add: push_bit_eq_mult mult.commute)
qed

text \<open>
  C30. When every write takes some of its bytes, the dump holds the physical memory of the whole range in order; and
  whatever the writes return, the branch that reports a failed write is never taken.
\<close>

theorem physical_memory_dumped:
  assumes "\<forall>i n k. 0 < k \<longrightarrow> 0 < wr i n k \<and> wr i n k \<le> int k"
    and "\<forall>e. mapped e = map (\<lambda>k. phys ((e AND 0xFFF00000) + of_nat k)) [0..<0x100000]" and "m \<le> 0x1000"
  shows "phy_mem_dump wr mapped [l..<m] [] = Some (concat (map (\<lambda>i. map (\<lambda>k. phys (of_nat i * 0x100000 + of_nat k)) [0..<0x100000]) [l..<m])) \<and>
    (\<forall>wr' mem n w acc bs. write_loop wr' mem 0x100000 n w acc \<noteq> Some (Inl bs))"
proof
  have l: "\<forall>e. length (mapped e) = 0x100000" using assms(2) by simp
  have e: "map (\<lambda>i. mapped (section_entry i)) [l..<m] = map (\<lambda>i. map (\<lambda>k. phys (of_nat i * 0x100000 + of_nat k)) [0..<0x100000]) [l..<m]"
    using assms(3) by (intro map_cong) (simp_all add: spec [OF assms(2)] section_entry_base del: upt_conv_Cons)
  then show "phy_mem_dump wr mapped [l..<m] [] = Some (concat (map (\<lambda>i. map (\<lambda>k. phys (of_nat i * 0x100000 + of_nat k)) [0..<0x100000]) [l..<m]))"
    using phy_mem_dump_appends [OF assms(1) l, of "[l..<m]" "[]"] unfolding e by simp
  show "\<forall>wr' mem n w acc bs. write_loop wr' mem 0x100000 n w acc \<noteq> Some (Inl bs)"
    using write_loop_no_error by fastforce
qed

theorem physical_memory_dumped_witness:
  "phy_mem_dump (\<lambda>i n k. int k) (\<lambda>e. map (\<lambda>k. ucast ((e AND 0xFFF00000) + of_nat k)) [0..<0x100000]) [0x402..<0x600] [] =
      Some (concat (map (\<lambda>i. map (\<lambda>k. ucast (of_nat i * 0x100000 + of_nat k :: u32)) [0..<0x100000]) [0x402..<0x600])) \<and>
    (\<forall>wr' mem n w acc bs. write_loop wr' mem 0x100000 n w acc \<noteq> Some (Inl bs))"
  by (rule physical_memory_dumped) auto

section \<open>The base of SceSysmem\<close>

lemma find_sysmem_first:
  assumes "match_at (kread (leaked + of_nat m * 0x1000) @ behind) j" "j < 0x1000"
    and "\<forall>k < j. \<not> match_at (kread (leaked + of_nat m * 0x1000) @ behind) k"
    and "\<forall>i. n \<le> i \<and> i < m \<longrightarrow> (\<forall>k < 0x1000. \<not> match_at (kread (leaked + of_nat i * 0x1000) @ behind) k)" "n \<le> m"
  shows "find_sysmem kread behind leaked n = Some (leaked + of_nat m * 0x1000 + of_nat j)"
  using assms(4,5)
proof (induction "m - n" arbitrary: n)
  case 0
  have "find (match_at (kread (leaked + of_nat m * 0x1000) @ behind)) [0..<0x1000] = Some j"
    using assms(1-3) by (auto simp: find_Some_iff intro: exI [of _ j] simp del: upt_conv_Cons)
  then show ?case using 0 by (subst find_sysmem.simps) simp
next
  case (Suc d)
  then have "find (match_at (kread (leaked + of_nat n * 0x1000) @ behind)) [0..<0x1000] = None"
    by (auto simp: find_None_iff simp del: upt_conv_Cons)
  then have "find_sysmem kread behind leaked n = find_sysmem kread behind leaked (n + 1)"
    by (subst find_sysmem.simps) simp
  also have "\<dots> = Some (leaked + of_nat m * 0x1000 + of_nat j)"
    by (rule Suc.hyps(1)) (use Suc in auto)
  finally show ?case .
qed

text \<open>Without the magic in any single page, for example when it crosses the end of one, the search does not return.\<close>

lemma find_sysmem_never:
  assumes "\<forall>i. \<forall>k < 0x1000. \<not> match_at (kread (leaked + of_nat i * 0x1000) @ behind) k"
  shows "find_sysmem kread behind leaked n = None"
proof (cases "find_sysmem kread behind leaked n")
  case (Some r)
  let ?P = "\<lambda>kread behind leaked n r. (\<forall>i. \<forall>k < 0x1000. \<not> match_at (kread (leaked + of_nat i * 0x1000) @ behind) k) \<longrightarrow> False"
  have "?P kread behind leaked n r"
  proof (rule find_sysmem.raw_induct [OF _ Some, where P = ?P], intro impI)
    fix f kread and behind :: "u8 list" and leaked :: u32 and i :: nat and r :: u32
    assume IH: "\<And>kread behind leaked i r. f kread behind leaked i = Some r \<Longrightarrow> ?P kread behind leaked i r"
      and body: "(case find (match_at (kread (leaked + of_nat i * 0x1000) @ behind)) [0..<0x1000] of
         Some j \<Rightarrow> Some (leaked + of_nat i * 0x1000 + of_nat j) | None \<Rightarrow> f kread behind leaked (i + 1)) = Some r"
      and no: "\<forall>i. \<forall>k < 0x1000. \<not> match_at (kread (leaked + of_nat i * 0x1000) @ behind) k"
    have "find (match_at (kread (leaked + of_nat i * 0x1000) @ behind)) [0..<0x1000] = None"
      using no by (auto simp: find_None_iff simp del: upt_conv_Cons)
    then have "f kread behind leaked (i + 1) = Some r" using body by simp
    from IH [OF this] no show False by blast
  qed
  then show ?thesis using assms by blast
qed simp

lemma sysmem_base_back:
  assumes "base AND 0xFFF = 0" "r < 0x1000"
  shows "sysmem_base (base + 0x24750 + of_nat r) = base"
proof -
  have low: "bit (of_nat r :: u32) n \<Longrightarrow> n < 12" for n
  proof -
    have "take_bit 12 r = r" using assms(2) by (simp add: take_bit_nat_eq_self)
    moreover assume "bit (of_nat r :: u32) n"
    then have "bit r n" by (simp add: bit_of_nat_iff)
    ultimately show "n < 12" using bit_take_bit_iff [of 12 r n] by simp
  qed
  have m: "bit (0xFFF :: u32) n \<longleftrightarrow> n < 12" "bit (0xFFFFF000 :: u32) n \<longleftrightarrow> 12 \<le> n \<and> n < 32" for n
  proof -
    have "bit (push_bit k (mask j) :: u32) n \<longleftrightarrow> k \<le> n \<and> n < k + j \<and> n < 32" for k j
      by (auto simp: bit_push_bit_iff bit_mask_iff dest: bit_imp_le_length)
    from this [of 0 12] this [of 12 20] show "bit (0xFFF :: u32) n \<longleftrightarrow> n < 12" "bit (0xFFFFF000 :: u32) n \<longleftrightarrow> 12 \<le> n \<and> n < 32"
      by (auto simp: mask_eq_exp_minus_1)
  qed
  have high: "bit base n \<Longrightarrow> 12 \<le> n" for n
    using arg_cong [OF assms(1), of "\<lambda>w. bit w n"] m(1) [of n] by (auto simp: bit_and_iff not_less simp del: bit_numeral_word_iff)
  have "base AND of_nat r = 0"
    by (rule bit_eqI) (use low high in \<open>fastforce simp: bit_and_iff\<close>)
  then have "base + of_nat r = base OR of_nat r" by (rule disjunctive_add_eq_or)
  moreover have "(base OR of_nat r) AND 0xFFFFF000 = base"
  proof (rule bit_word_eqI)
    fix n assume "n < LENGTH(32)"
    then show "bit ((base OR of_nat r) AND 0xFFFFF000) n = bit base n"
      using low [of n] high [of n] m(2) [of n] by (auto simp: bit_and_iff bit_or_iff simp del: bit_numeral_word_iff)
  qed
  ultimately show ?thesis by (simp add: sysmem_base_def add.commute add.left_commute)
qed

section \<open>The kernel dump\<close>

lemma dump_pages_skip:
  assumes "\<forall>j. n \<le> j \<and> j < m \<longrightarrow> send j < 0" "n \<le> m" "i < page_count"
  shows "dump_pages send kread base n i acc = dump_pages send kread base m i acc"
  using assms(1,2)
proof (induction "m - n" arbitrary: n)
  case (Suc d)
  then have "send n < 0" by auto
  then have "dump_pages send kread base n i acc = dump_pages send kread base (n + 1) i acc"
    using assms(3) by (subst dump_pages.simps) simp
  also have "\<dots> = dump_pages send kread base m i acc"
    by (rule Suc.hyps(1)) (use Suc in auto)
  finally show ?case .
qed simp

lemma dump_pages_all:
  assumes "\<forall>n. \<exists>m \<ge> n. send m \<ge> 0" "\<forall>a. length (kread a) = 0x1000" "i \<le> page_count" "\<forall>j \<ge> n. send j < 0 \<or> send j = 0x1000"
  shows "dump_pages send kread base n i acc =
    Some (acc @ concat (map (\<lambda>i. kread (base + of_nat i * 0x1000)) [i..<page_count]))"
  using assms(3,4)
proof (induction "page_count - i" arbitrary: i n acc)
  case 0
  then show ?case by (subst dump_pages.simps) simp
next
  case (Suc d)
  then have i: "i < page_count" by linarith
  define m where "m = (LEAST m. n \<le> m \<and> send m \<ge> 0)"
  have "\<exists>m. n \<le> m \<and> send m \<ge> 0" using assms(1) by blast
  then have m: "n \<le> m" "send m \<ge> 0" unfolding m_def by (metis (mono_tags, lifting) LeastI)+
  then have s: "send m = 0x1000" using Suc.prems(2) by force
  have "\<forall>j. n \<le> j \<and> j < m \<longrightarrow> send j < 0"
  proof (intro allI impI)
    fix j assume j: "n \<le> j \<and> j < m"
    then have "\<not> (n \<le> j \<and> send j \<ge> 0)" unfolding m_def using not_less_Least by blast
    then show "send j < 0" using j by simp
  qed
  from dump_pages_skip [OF this m(1) i]
  have "dump_pages send kread base n i acc = dump_pages send kread base m i acc" .
  also have "\<dots> = dump_pages send kread base (m + 1) (i + 1) (acc @ kread (base + of_nat i * 0x1000))"
  proof -
    have "take (nat (send m)) (kread (base + of_nat i * 0x1000)) = kread (base + of_nat i * 0x1000)"
      by (rule take_all) (simp add: s assms(2))
    then show ?thesis unfolding dump_pages.simps [of send kread base m i acc] using i m(2) by simp
  qed
  also have "\<dots> = Some ((acc @ kread (base + of_nat i * 0x1000)) @ concat (map (\<lambda>i. kread (base + of_nat i * 0x1000)) [i + 1..<page_count]))"
    by (rule Suc.hyps(1)) (use Suc.hyps(2) Suc.prems(2) m(1) i in auto)
  finally show ?case using i by (simp add: upt_conv_Cons)
qed

lemma length_kdump_info: "length (kdump_info b l k info) = 16 + 4 * length info"
  by (induction info) (auto simp: kdump_info_def)

text \<open>The pages of the kernel from \<open>base\<close> on.\<close>

definition kernel_pages :: "(u32 \<Rightarrow> u8) \<Rightarrow> u32 \<Rightarrow> u8 list" where
  "kernel_pages kmem base = map (\<lambda>k. kmem (base + of_nat k)) [0..<page_count * 0x1000]"

lemma concat_pages: "concat (map (\<lambda>i. map (\<lambda>k. kmem (base + of_nat i * 0x1000 + of_nat k)) [0..<0x1000]) [0..<n]) =
    map (\<lambda>k. kmem (base + of_nat k)) [0..<n * 0x1000]"
proof (induction n)
  case (Suc n)
  have "[0..<Suc n * 0x1000] = [0..<n * 0x1000] @ [n * 0x1000..<Suc n * 0x1000]"
    using upt_add_eq_append [of 0 "n * 0x1000" "0x1000"] by (simp add: add.commute del: upt_conv_Cons)
  moreover have "[n * 0x1000..<Suc n * 0x1000] = map (\<lambda>k. n * 0x1000 + k) [0..<0x1000]"
    by (rule nth_equalityI) (simp_all del: upt_conv_Cons)
  ultimately show ?case using Suc.IH by (simp add: add.assoc comp_def del: upt_conv_Cons)
qed simp

lemma dump_pages_kernel:
  assumes "\<forall>n > 0. send n < 0 \<or> send n = 0x1000" "\<forall>n. \<exists>m \<ge> n. send m \<ge> 0"
  shows "dump_pages send (\<lambda>a. map (\<lambda>k. kmem (a + of_nat k)) [0..<0x1000]) base 1 0 acc = Some (acc @ kernel_pages kmem base)"
proof -
  let ?kread = "\<lambda>a. map (\<lambda>k. kmem (a + of_nat k)) [0..<0x1000]"
  have "dump_pages send ?kread base 1 0 acc = Some (acc @ concat (map (\<lambda>i. ?kread (base + of_nat i * 0x1000)) [0..<page_count]))"
    by (rule dump_pages_all) (use assms in auto)
  then show ?thesis unfolding kernel_pages_def concat_pages [of kmem base page_count, symmetric] by simp
qed

text \<open>
  C29. When the information block of 0x58 bytes (its array has 0x12 words) is sent whole by the first call of send, and every
  later call either fails or takes a whole page of 0x1000 bytes, then the dump ends as long as sends succeed again and
  again, however often they fail in between; the peer then has the information block followed by every page of the range
  once and in order. The conditions are needed: the code looks only at the sign of a result, so a page that is sent in part
  is never completed, and a first send that fails is not repeated.
\<close>

theorem kernel_dump_complete:
  assumes "send 0 = 0x58" "length info = 0x12" "\<forall>n > 0. send n < 0 \<or> send n = 0x1000" "\<forall>n. \<exists>m \<ge> n. send m \<ge> 0"
  shows "kernel_dump send (\<lambda>a. map (\<lambda>k. kmem (a + of_nat k)) [0..<0x1000]) base leaked kstack info =
    Some (kdump_info base leaked kstack info @ kernel_pages kmem base)"
proof -
  have "take (nat (send 0)) (kdump_info base leaked kstack info) = kdump_info base leaked kstack info"
    using assms(1,2) by (simp add: length_kdump_info)
  then show ?thesis unfolding kernel_dump_def using dump_pages_kernel [OF assms(3,4)] by simp
qed

theorem kernel_dump_complete_witness:
  "kernel_dump (\<lambda>n. if n = 0 then 0x58 else if even n then 0x1000 else -1) (\<lambda>a. map (\<lambda>k. ucast (a + of_nat k)) [0..<0x1000]) 0x51000000 0 0
      (replicate 0x12 0) = Some (kdump_info 0x51000000 0 0 (replicate 0x12 0) @ kernel_pages ucast 0x51000000)"
proof -
  have "\<exists>m\<ge>n. 0 \<le> (if m = 0 then 0x58 else if even m then 0x1000 else -1 :: int)" for n :: nat
    by (rule exI [of _ "2 * n"]) simp
  then show ?thesis by (intro kernel_dump_complete) auto
qed

section \<open>From the dump to the modules\<close>

lemma kernel_pages_nth: "k < page_count * 0x1000 \<Longrightarrow> kernel_pages kmem base ! k = kmem (base + of_nat k)"
  by (simp add: kernel_pages_def del: upt_conv_Cons)

lemma length_kernel_pages: "length (kernel_pages kmem base) = page_count * 0x1000"
  by (simp add: kernel_pages_def del: upt_conv_Cons)

lemma sub_mod:
  fixes a b c m :: nat
  assumes "c \<le> b" "c \<le> m"
  shows "((a + b) mod m + m - c) mod m = (a + (b - c)) mod m"
proof -
  have "((a + b) mod m + m - c) mod m = ((a + b) mod m + (m - c)) mod m" using assms(2) by simp
  also have "\<dots> = (a + b + (m - c)) mod m" by (rule mod_add_left_eq)
  also have "a + b + (m - c) = a + (b - c) + m" using assms by simp
  finally show ?thesis by simp
qed

lemma address_in_dump:
  assumes "0x58 \<le> s"
  shows "sub32 (add32 (unat (base :: u32)) s) 0x58 = unat (base + of_nat (s - 0x58))"
proof -
  have "unat (base + of_nat (s - 0x58)) = (unat base + (s - 0x58)) mod 2 ^ 32"
    by (simp only: unat_word_ariths unsigned_of_nat take_bit_eq_mod len_bit0 len_num1) (simp add: mod_add_right_eq)
  moreover have "sub32 (add32 (unat base) s) 0x58 = (unat base + (s - 0x58)) mod 2 ^ 32"
    unfolding sub32_def add32_def by (rule sub_mod [OF assms]) simp
  ultimately show ?thesis by simp
qed

text \<open>
  What \<open>kdump-extract\<close> looks for, in terms of the bytes of the dump: the start of a module information with the attributes 7
  and a second version byte of 1 (the first may be anything), preceded by four zeros, at an offset from which the entry field
  (0x5C behind the offset of the information in its segment) leads back to a positive start; the segment ends at the first
  place from there on where 256 equal bytes follow.
\<close>

definition info_at :: "memory \<Rightarrow> nat \<Rightarrow> bool" where
  "info_at mem o1 \<longleftrightarrow> mem o1 = 0 \<and> mem (o1 + 1) = 0 \<and> mem (o1 + 2) = 0 \<and> mem (o1 + 3) = 0 \<and> mem (o1 + 4) = 7 \<and> mem (o1 + 5) = 0 \<and> mem (o1 + 7) = 1"

definition seg_entry :: "memory \<Rightarrow> nat \<Rightarrow> nat" where
  "seg_entry mem o1 = sub32 (mem32 mem (o1 + 0x28)) 0x5C"

definition seg_start :: "memory \<Rightarrow> nat \<Rightarrow> nat" where
  "seg_start mem o1 = sub32 (o1 + 4) (seg_entry mem o1)"

definition seg_stop :: "memory \<Rightarrow> nat \<Rightarrow> nat" where
  "seg_stop mem o1 = (LEAST e. o1 \<le> e \<and> (\<forall>k < 0x100. mem (e + k) = mem e))"

definition module_at :: "memory \<Rightarrow> nat \<Rightarrow> bool" where
  "module_at mem o1 \<longleftrightarrow> info_at mem o1 \<and> 0 < seg_start mem o1 \<and> seg_start mem o1 < 2 ^ 31"

definition name_at :: "memory \<Rightarrow> nat \<Rightarrow> string" where
  "name_at mem o1 = mem_string mem (o1 + 8)"

lemma matches_info: "matches mem o1 = info_at mem o1"
proof -
  have "matches mem o1 \<longleftrightarrow> (\<forall>i \<in> {0, 1, 2, 3, 4, 5, 7}. mem (o1 + i) = check ! i)"
  proof -
    have "i < 8 \<and> i \<noteq> 6 \<longleftrightarrow> i \<in> {0, 1, 2, 3, 4, 5, 7}" for i :: nat by auto
    then have "(\<forall>i. i < 8 \<and> i \<noteq> 6 \<longrightarrow> mem (o1 + i) = check ! i) \<longleftrightarrow> (\<forall>i. i \<in> {0, 1, 2, 3, 4, 5, 7} \<longrightarrow> mem (o1 + i) = check ! i)"
      by (simp only:)
    then show ?thesis unfolding matches_def Ball_def by blast
  qed
  then show ?thesis by (simp add: info_at_def check_def)
qed

text \<open>An ELF file with a single segment, at offset 0xC0.\<close>

definition single_program :: "u8 list \<Rightarrow> nat \<Rightarrow> nat \<Rightarrow> u8 list \<Rightarrow> bool" where
  "single_program elf ep vaddr seg \<longleftrightarrow> begins_elf elf \<and> field elf 0x18 4 ep \<and> field elf 0x1C 4 0x34 \<and> field elf 0x2C 2 1 \<and>
     field elf 0x34 4 1 \<and> field elf 0x38 4 0xC0 \<and> field elf 0x3C 4 vaddr \<and> field elf 0x44 4 (length seg) \<and>
     length elf = 0xC0 + length seg \<and> holds elf 0xC0 seg"

lemma kdump_elf_program:
  assumes "seg \<noteq> []" "length seg < 2 ^ 32" "ep < 2 ^ 32" "vaddr < 2 ^ 32"
  shows "single_program (kdump_elf ep vaddr seg) ep vaddr seg"
proof -
  let ?f = "kdump_elf ep vaddr seg"
  note l = kdump_elf_layout [OF assms(1,2,4), of ep]
  note eq = kdump_elf_eq [OF assms(1), of ep vaddr]
  have un: "unat (of_nat ep :: u32) = ep" using assms(3) by (simp add: unsigned_of_nat take_bit_nat_eq_self)
  obtain r1 where r1: "?f = (elf_magic @ replicate 8 0 @ [4, 0, 0x28, 0] @ bytes32 1) @ bytes32 (of_nat ep) @ r1"
    unfolding eq kdump_ehdr_def by simp
  have 1: "get32 ?f 0x18 = Inr ep" unfolding r1 by (subst get32_append) (simp_all add: elf_magic_def un)
  obtain r2 where r2: "?f = kdump_ehdr ep @ bytes32 1 @ r2" unfolding eq kdump_phdr_def by simp
  have 2: "get32 ?f 0x34 = Inr 1" unfolding r2 by (subst get32_append) (simp_all add: length_kdump_headers)
  obtain h r3 where r3: "?f = h @ [1, 0] @ r3" "length h = 0x2C"
  proof
    show "?f = (elf_magic @ replicate 8 0 @ [4, 0, 0x28, 0] @ bytes32 1 @ bytes32 (of_nat ep) @ bytes32 0x34 @ bytes32 0
      @ bytes32 0x05000000 @ [0x34, 0, 0x20, 0]) @ [1, 0] @ [0, 0, 0, 0, 0, 0] @ kdump_phdr vaddr (length seg) @ replicate 108 0 @ seg"
      unfolding eq kdump_ehdr_def by simp
  qed (simp add: elf_magic_def)
  have 3: "get16 ?f 0x2C = Inr 1" unfolding r3(1) using r3(2) by (simp add: get16_def rd16_def nth_append)
  show ?thesis
    unfolding single_program_def field_get using l 1 2 3
    by (auto simp: begins_elf_def elf_magic_def holds_def slice_def add.commute split: if_splits)
qed

section \<open>The whole run of kdump-extract\<close>

fun module_files :: "memory \<Rightarrow> nat \<Rightarrow> nat list \<Rightarrow> out_file list option" where
  "module_files mem v [] = Some []"
| "module_files mem v (o1 # os) = (case kdump_module mem o1 v of None \<Rightarrow> None
     | Some r \<Rightarrow> map_option ((@) (snd r)) (module_files mem (fst r) os))"

lemma filter_least:
  assumes "l \<le> p" "p < n" "P p" "\<And>k. l \<le> k \<Longrightarrow> k < p \<Longrightarrow> \<not> P k"
  shows "filter P [l..<n] = p # filter P [p + 1..<n]"
proof -
  have "[l..<n] = [l..<p] @ p # [p + 1..<n]"
    using assms(1,2) by (metis Suc_eq_plus1 le_add_diff_inverse less_imp_le_nat upt_add_eq_append upt_conv_Cons)
  then show ?thesis using assms(3,4) by (auto simp: filter_empty_conv)
qed

text \<open>The loop visits the matches of the pattern in order.\<close>

lemma kdump_loop_matches:
  "off \<le> sz \<Longrightarrow> kdump_loop mem sz off v acc = map_option ((@) acc) (module_files mem v (filter (matches mem) [off..<sz]))"
proof (induction "sz - off" arbitrary: off v acc rule: less_induct)
  case less
  show ?case
  proof (cases "\<exists>p. off \<le> p \<and> p < sz \<and> matches mem p")
    case False
    then have p: "find_pattern mem sz off 0 \<ge> sz" "find_pattern mem sz off 0 \<le> sz + 1"
      using find_pattern_first [of 0 off sz mem "find_pattern mem sz off 0"] less.prems by (auto simp: not_less le_Suc_eq)
    have "filter (matches mem) [off..<sz] = []" using False by (auto simp: filter_empty_conv)
    moreover have "kdump_loop mem sz (find_pattern mem sz off 0 + 1) v acc = Some acc"
      using p(1) by (subst kdump_loop.simps) simp
    ultimately show ?thesis using p by (subst kdump_loop.simps) simp
  next
    case True
    define p where "p = find_pattern mem sz off 0"
    have p: "off \<le> p" "p < sz" "matches mem p" "\<And>k. off \<le> k \<Longrightarrow> k < p \<Longrightarrow> \<not> matches mem k"
      using find_pattern_first [of 0 off sz mem p] True less.prems unfolding p_def
      by (auto simp: not_less [symmetric])
    have f: "filter (matches mem) [off..<sz] = p # filter (matches mem) [p + 1..<sz]"
      by (rule filter_least) (use p in auto)
    have IH: "kdump_loop mem sz (p + 1) w b = map_option ((@) b) (module_files mem w (filter (matches mem) [p + 1..<sz]))" for w b
      by (rule less.hyps) (use p in auto)
    show ?thesis
      using p(1,2) IH by (subst kdump_loop.simps) (auto simp: f option.map_comp comp_def append_assoc [abs_def] simp flip: p_def split: option.split intro!: option.map_cong)
  qed
qed

text \<open>One match, when the start of SceSysmem is known (\<open>v\<close> is its offset), and before.\<close>

definition file_at :: "memory \<Rightarrow> nat \<Rightarrow> nat \<Rightarrow> out_file" where
  "file_at mem v o1 = (take 127 (name_at mem o1 @ ''.elf''), kdump_elf (seg_entry mem o1) (sub32 (add32 (mem32 mem 0) (seg_start mem o1)) v)
     (map (\<lambda>i. mem (seg_start mem o1 + i)) [0..<sub32 (seg_stop mem o1) (seg_start mem o1)]))"

lemma kdump_module_at:
  assumes "matches mem o1" "module_at mem o1 \<longrightarrow> seg_end mem o1 0 = Some (seg_stop mem o1)"
  shows "kdump_module mem o1 v = (if \<not> module_at mem o1 then Some (v, [])
    else let w = if take 9 (name_at mem o1) = ''SceSysmem'' \<and> v = 0 then seg_start mem o1 else v in
      Some (w, if w \<noteq> 0 then [file_at mem w o1] else []))"
proof -
  have "sub32 (mem32 mem (o1 + 4 + 0x24)) 0x5C = seg_entry mem o1" by (simp add: seg_entry_def add.assoc)
  then show ?thesis
    using assms by (auto simp: kdump_module_def module_at_def matches_info Let_def file_at_def name_at_def seg_start_def add.assoc)
qed

lemma file_at_program:
  assumes "\<forall>i < length f. mem i = f ! i" "f = kdump_info base leaked kstack info @ kernel_pages kmem base" "mem32 mem 0 = unat base"
    and "length info = 0x12" "length f < 2 ^ 32" "0x58 \<le> seg_start mem o1" "seg_start mem o1 < seg_stop mem o1" "seg_stop mem o1 \<le> length f"
  shows "single_program (snd (file_at mem 0x58 o1)) (seg_entry mem o1) (unat (base + of_nat (seg_start mem o1 - 0x58)))
    (map (\<lambda>k. kmem (base + of_nat (seg_start mem o1 - 0x58) + of_nat k)) [0..<seg_stop mem o1 - seg_start mem o1])"
proof -
  let ?s = "seg_start mem o1" and ?e = "seg_stop mem o1"
  have n: "sub32 ?e ?s = ?e - ?s"
    using assms(5-8) unfolding sub32_def diff_add_assoc2 [OF less_imp_le [OF assms(7)], of "2 ^ 32"] mod_add_self2 by (intro mod_less) linarith
  have m: "mem (?s + k) = kmem (base + of_nat (?s - 0x58) + of_nat k)" if "k < ?e - ?s" for k
  proof -
    have "?s + k < length f" using that assms(8) by linarith
    then have "mem (?s + k) = kernel_pages kmem base ! (?s + k - 0x58)"
      using assms(1,2,4,6) by (simp add: nth_append length_kdump_info)
    also have "\<dots> = kmem (base + of_nat (?s + k - 0x58))"
      using that assms(2,4,6,8) by (intro kernel_pages_nth) (simp add: length_kdump_info length_kernel_pages)
    also have "?s + k - 0x58 = ?s - 0x58 + k" using assms(6) by simp
    finally show ?thesis by (simp add: add.assoc)
  qed
  have map: "map (\<lambda>i. mem (?s + i)) [0..<?e - ?s] = map (\<lambda>k. kmem (base + of_nat (?s - 0x58) + of_nat k)) [0..<?e - ?s]"
    by (rule map_cong) (simp_all add: m)
  have "seg_entry mem o1 < 2 ^ 32" by (simp add: seg_entry_def sub32_def)
  moreover have "unat (base + of_nat (?s - 0x58)) < 2 ^ 32" using unsigned_less [of "base + of_nat (?s - 0x58)", where ?'a = nat] by simp
  ultimately show ?thesis
    unfolding file_at_def snd_conv assms(3) address_in_dump [OF assms(6)] n map
    by (intro kdump_elf_program) (use assms(5,7,8) in auto)
qed

lemma module_files_known:
  assumes "\<forall>o1 \<in> set os. matches mem o1 \<and> (module_at mem o1 \<longrightarrow> seg_end mem o1 0 = Some (seg_stop mem o1))" "v \<noteq> 0"
  shows "module_files mem v os = Some (map (file_at mem v) (filter (module_at mem) os))"
  using assms by (induction os) (simp_all add: kdump_module_at)

lemma module_files_first:
  assumes "\<forall>o1 \<in> set os. matches mem o1 \<and> (module_at mem o1 \<longrightarrow> seg_end mem o1 0 = Some (seg_stop mem o1))"
    and "filter (module_at mem) os = p # ps" "take 9 (name_at mem p) = ''SceSysmem''"
  shows "module_files mem 0 os = Some (map (file_at mem (seg_start mem p)) (filter (module_at mem) os))"
  using assms
proof (induction os)
  case (Cons o1 os)
  show ?case
  proof (cases "module_at mem o1")
    case False
    then show ?thesis using Cons by (simp add: kdump_module_at)
  next
    case True
    then have "p = o1" "seg_start mem p \<noteq> 0" using Cons.prems(2) by (auto simp: module_at_def)
    then show ?thesis using True Cons.prems module_files_known [of os mem "seg_start mem p"] by (simp add: kdump_module_at Let_def)
  qed
qed simp

text \<open>
  C28. \<open>kdump-extract\<close> run over a dump of \<open>Kdumper\<close>: the run ends and writes one file for each module information it finds
  in the dump, in order, each an ELF file with one segment: the bytes that the kernel has from the start to the end of the
  module's segment, at the address at which they are in the kernel. Conditions: the dump was received whole (as in the
  property on the dump), the first module information with a plausible start is that of SceSysmem and its segment starts
  with the pages, at 0x58; every module information that is found belongs to a segment which lies in the pages, that
  is, it starts at or behind 0x58 and the first 256 equal bytes behind the information begin behind the start and not
  behind the end of the dump. \<open>mem\<close> is the memory of the tool, the dump and what happens to follow it.
\<close>

theorem dumped_module_in_place:
  assumes dump: "kernel_dump send (\<lambda>a. map (\<lambda>k. kmem (a + of_nat k)) [0..<0x1000]) base leaked kstack info = Some f"
      "send 0 = 0x58" "length info = 0x12" "\<forall>n > 0. send n < 0 \<or> send n = 0x1000" "\<forall>n. \<exists>m \<ge> n. send m \<ge> 0"
    and tool: "\<forall>i < length f. mem i = f ! i"
    and sysmem: "filter (module_at mem) [0..<length f] = p # ps" "take 9 (name_at mem p) = ''SceSysmem''" "seg_start mem p = 0x58"
    and inside: "\<And>o1. o1 < length f \<Longrightarrow> module_at mem o1 \<Longrightarrow> 0x58 \<le> seg_start mem o1 \<and>
      (\<exists>e \<ge> o1. seg_start mem o1 < seg_stop mem o1 \<and> e \<le> length f \<and> (\<forall>k < 0x100. mem (e + k) = mem e))"
  shows "\<exists>files. kdump_extract mem (length f) = Some files \<and> list_all2 (\<lambda>o1 (name, elf).
    name = take 127 (name_at mem o1 @ ''.elf'') \<and>
    (let addr = base + of_nat (seg_start mem o1 - 0x58) in single_program elf (seg_entry mem o1) (unat addr)
       (map (\<lambda>k. kmem (addr + of_nat k)) [0..<seg_stop mem o1 - seg_start mem o1]))) (filter (module_at mem) [0..<length f]) files"
proof -
  let ?info = "kdump_info base leaked kstack info"
  have "take (nat (send 0)) ?info = ?info" using dump(2,3) by (simp add: length_kdump_info)
  then have f: "f = ?info @ kernel_pages kmem base"
    using dump(1) dump_pages_kernel [OF dump(4,5)] by (simp add: kernel_dump_def)
  have len: "length f = 0x58 + page_count * 0x1000" "length f < 2 ^ 32"
    using dump(3) by (simp_all add: f length_kdump_info length_kernel_pages page_count_def)
  have b: "mem32 mem 0 = unat base"
    using tool len by (simp add: f kdump_info_def bytes32_def mem32_def join32_bytes32)
  have seg: "seg_end mem o1 0 = Some (seg_stop mem o1)" "seg_stop mem o1 \<le> length f" "seg_start mem o1 < seg_stop mem o1" "0x58 \<le> seg_start mem o1"
    if at: "o1 < length f" "module_at mem o1" for o1
  proof -
    obtain e where e: "o1 \<le> e" "e \<le> length f" "uniform mem e" "seg_start mem o1 < seg_stop mem o1" "0x58 \<le> seg_start mem o1"
      using inside [OF at] by (auto simp: uniform_def)
    show "seg_end mem o1 0 = Some (seg_stop mem o1)" using seg_end_spec [OF e(1,3)] by (simp add: seg_stop_def uniform_def)
    have "seg_stop mem o1 \<le> e" unfolding seg_stop_def by (rule Least_le) (use e(1,3) in \<open>simp add: uniform_def\<close>)
    then show "seg_stop mem o1 \<le> length f" "seg_start mem o1 < seg_stop mem o1" "0x58 \<le> seg_start mem o1" using e by simp_all
  qed
  let ?os = "filter (matches mem) [0..<length f]"
  have os: "filter (module_at mem) ?os = filter (module_at mem) [0..<length f]"
    by (auto simp: matches_info module_at_def intro: filter_cong)
  have "module_files mem 0 ?os = Some (map (file_at mem (seg_start mem p)) (filter (module_at mem) ?os))"
    by (rule module_files_first [where ps = ps]) (use sysmem os seg in auto)
  then have run: "kdump_extract mem (length f) = Some (map (file_at mem 0x58) (filter (module_at mem) [0..<length f]))"
    unfolding os sysmem(3) kdump_extract_def by (simp add: kdump_loop_matches)
  have "single_program (snd (file_at mem 0x58 o1)) (seg_entry mem o1) (unat (base + of_nat (seg_start mem o1 - 0x58)))
      (map (\<lambda>k. kmem (base + of_nat (seg_start mem o1 - 0x58) + of_nat k)) [0..<seg_stop mem o1 - seg_start mem o1])"
    if o1: "o1 < length f" "module_at mem o1" for o1
    by (rule file_at_program [OF tool f b]) (use o1 seg [OF o1] len dump(3) in auto)
  then show ?thesis
    unfolding run by (auto simp: list_all2_map2 Let_def file_at_def intro!: list.rel_refl_strong)
qed

text \<open>A dump of a kernel at address 0 whose first page holds a SceSysmem of 0x35 bytes.\<close>

definition demo_kernel :: "u32 \<Rightarrow> u8" where
  "demo_kernel a = (let k = unat a in
     if k = 0x10 then 7 else if k = 0x13 then 1 else if k = 0x34 then 0x6C
     else if 0x14 \<le> k \<and> k < 0x1D then of_char (''SceSysmem'' ! (k - 0x14)) else 0)"

definition demo_dump :: "u8 list" where
  "demo_dump = kdump_info 0 0 0 (replicate 0x12 0) @ kernel_pages demo_kernel 0"

definition demo_mem :: memory where
  "demo_mem i = (if i < length demo_dump then demo_dump ! i else 0)"

lemma length_demo_dump: "length demo_dump = 0x58 + page_count * 0x1000"
  by (simp add: demo_dump_def length_kdump_info length_kernel_pages)

lemma demo_mem_page: "k < 0x200 \<Longrightarrow> demo_mem (0x58 + k) = (if k = 0x10 then 7 else if k = 0x13 then 1 else if k = 0x34 then 0x6C
    else if 0x14 \<le> k \<and> k < 0x1D then of_char (''SceSysmem'' ! (k - 0x14)) else 0)"
  by (simp add: demo_mem_def demo_dump_def nth_append length_kdump_info length_kernel_pages kernel_pages_nth page_count_def
      demo_kernel_def unsigned_of_nat take_bit_nat_eq_self)

lemma sysmem_letter: "i < 9 \<Longrightarrow> of_char (''SceSysmem'' ! i) \<noteq> (0 :: u8) \<and> of_char (''SceSysmem'' ! i) \<noteq> (7 :: u8) \<and> of_char (''SceSysmem'' ! i) \<noteq> (0x6C :: u8)"
proof -
  assume "i < 9"
  then have "i \<in> {0, 1, 2, 3, 4, 5, 6, 7, 8}" by auto
  then show ?thesis by auto
qed

lemma demo_seven: "demo_mem x = 7 \<Longrightarrow> x = 0x68"
proof -
  assume x: "demo_mem x = 7"
  then have l: "x < length demo_dump" by (auto simp: demo_mem_def split: if_splits)
  have i: "set (kdump_info 0 0 0 (replicate 0x12 0)) \<subseteq> {0, 0x58}" by (auto simp: kdump_info_def bytes32_def)
  have "\<not> x < 0x58"
  proof
    assume "x < 0x58"
    then have "demo_mem x = kdump_info 0 0 0 (replicate 0x12 0) ! x" "x < length (kdump_info 0 0 0 (replicate 0x12 0))"
      using l by (simp_all add: demo_mem_def demo_dump_def nth_append length_kdump_info)
    then have "demo_mem x \<in> {0, 0x58}" using i nth_mem by fastforce
    then show False using x by auto
  qed
  then obtain k where k: "x = 0x58 + k" by (metis add.commute le_add_diff_inverse2 not_less)
  have "k < page_count * 0x1000" using l by (simp add: k length_demo_dump)
  then have "demo_mem x = demo_kernel (of_nat k)" "unat (of_nat k :: u32) = k"
    by (simp_all add: k demo_mem_def demo_dump_def nth_append length_kdump_info length_kernel_pages kernel_pages_nth page_count_def
        unsigned_of_nat take_bit_nat_eq_self)
  moreover have "k - 0x14 < 9 \<or> \<not> (0x14 \<le> k \<and> k < 0x1D)" by linarith
  ultimately show ?thesis using x sysmem_letter [of "k - 0x14"] by (auto simp: demo_kernel_def k split: if_splits)
qed

lemma demo_ep: "mem32 demo_mem 0x8C = 0x6C"
  using demo_mem_page [of "0x34"] demo_mem_page [of "0x35"] demo_mem_page [of "0x36"] demo_mem_page [of "0x37"]
  by (simp add: mem32_def join32_def)

lemma demo_sysmem: "seg_entry demo_mem 0x64 = 0x10" "seg_start demo_mem 0x64 = 0x58"
  by (simp_all add: seg_entry_def seg_start_def demo_ep sub32_def)

lemma demo_uniform: "k < 0x100 \<Longrightarrow> demo_mem (0x8D + k) = 0"
  using demo_mem_page [of "0x35 + k"] by simp

lemma demo_stop: "seg_stop demo_mem 0x64 = 0x8D"
  unfolding seg_stop_def
proof (rule Least_equality)
  show "0x64 \<le> (0x8D :: nat) \<and> (\<forall>k<0x100. demo_mem (0x8D + k) = demo_mem 0x8D)"
    using demo_uniform [of 0] by (simp add: demo_uniform)
  fix e assume e: "0x64 \<le> e \<and> (\<forall>k<0x100. demo_mem (e + k) = demo_mem e)"
  show "0x8D \<le> e"
  proof (rule ccontr)
    assume "\<not> 0x8D \<le> e"
    then have k: "0x8C - e < 0x100" "e + (0x8C - e) = 0x8C" "0x8D - e < 0x100" "e + (0x8D - e) = 0x8D" using e by simp_all
    then have "demo_mem 0x8C = demo_mem 0x8D" using e by metis
    then show False using demo_mem_page [of "0x34"] demo_uniform [of 0] by simp
  qed
qed

lemma demo_name: "take 9 (name_at demo_mem 0x64) = ''SceSysmem''"
proof -
  have c: "demo_mem (0x6C + i) = (if i < 9 then of_char (''SceSysmem'' ! i) else 0)" if "i < 32" for i
    using demo_mem_page [of "0x14 + i"] that by simp
  let ?m = "map (\<lambda>i. demo_mem (0x6C + i)) [0..<127]"
  have "takeWhile (\<lambda>b. b \<noteq> 0) ?m = take 9 ?m"
    by (rule takeWhile_eq_take_P_nth) (use c [of 9] sysmem_letter in \<open>auto simp: c simp del: upt_conv_Cons\<close>)
  also have "\<dots> = map (\<lambda>i. demo_mem (0x6C + i)) [0..<9]" by (simp add: take_map del: upt_conv_Cons)
  also have "\<dots> = map (\<lambda>i. of_char (''SceSysmem'' ! i)) [0..<9]" by (rule map_cong) (simp_all add: c del: upt_conv_Cons)
  also have "\<dots> = map of_char ''SceSysmem''" by (simp add: upt_rec)
  finally show ?thesis by (simp add: name_at_def mem_string_def char_of_def bit_Suc_0_iff)
qed

lemma demo_modules: "filter (module_at demo_mem) [0..<length demo_dump] = [0x64]"
proof -
  have i: "info_at demo_mem 0x64"
    using demo_mem_page [of "0xC"] demo_mem_page [of "0xD"] demo_mem_page [of "0xE"] demo_mem_page [of "0xF"] demo_mem_page [of "0x10"]
      demo_mem_page [of "0x11"] demo_mem_page [of "0x13"] by (simp add: info_at_def)
  have n: "\<not> module_at demo_mem x" if "x \<noteq> 0x64" for x
    using demo_seven [of "x + 4"] that by (auto simp: module_at_def info_at_def)
  have "filter (module_at demo_mem) [0..<length demo_dump] = 0x64 # filter (module_at demo_mem) [0x64 + 1..<length demo_dump]"
    by (rule filter_least) (use i n in \<open>auto simp: module_at_def demo_sysmem length_demo_dump page_count_def\<close>)
  moreover have "filter (module_at demo_mem) [0x64 + 1..<length demo_dump] = []" using n by (auto simp: filter_empty_conv)
  ultimately show ?thesis by simp
qed

text \<open>The one module of this dump is written, with its address 0.\<close>

theorem dumped_module_in_place_witness:
  "\<exists>name elf. kdump_extract demo_mem (length demo_dump) = Some [(name, elf)] \<and>
    single_program elf 0x10 0 (map (\<lambda>k. demo_kernel (of_nat k)) [0..<0x35])"
proof -
  let ?send = "\<lambda>n :: nat. if n = 0 then 0x58 else (0x1000 :: int)"
  have d: "kernel_dump ?send (\<lambda>a. map (\<lambda>k. demo_kernel (a + of_nat k)) [0..<0x1000]) 0 0 0 (replicate 0x12 0) = Some demo_dump"
    unfolding kernel_dump_def demo_dump_def by (subst dump_pages_kernel) (auto simp: length_kdump_info)
  have u: "\<exists>e \<ge> 0x64. seg_start demo_mem 0x64 < seg_stop demo_mem 0x64 \<and> e \<le> length demo_dump \<and> (\<forall>k < 0x100. demo_mem (e + k) = demo_mem e)"
    by (rule exI [of _ "0x8D"]) (use demo_uniform [of 0] in \<open>simp add: demo_sysmem demo_stop demo_uniform length_demo_dump page_count_def\<close>)
  have inside: "0x58 \<le> seg_start demo_mem x \<and>
      (\<exists>e \<ge> x. seg_start demo_mem x < seg_stop demo_mem x \<and> e \<le> length demo_dump \<and> (\<forall>k < 0x100. demo_mem (e + k) = demo_mem e))"
    if "x < length demo_dump" "module_at demo_mem x" for x
  proof -
    have "x \<in> set (filter (module_at demo_mem) [0..<length demo_dump])" using that by simp
    then have "x = 0x64" unfolding demo_modules by simp
    then show ?thesis using u by (simp add: demo_sysmem)
  qed
  have "\<exists>files. kdump_extract demo_mem (length demo_dump) = Some files \<and> list_all2 (\<lambda>o1 (name, elf).
    name = take 127 (name_at demo_mem o1 @ ''.elf'') \<and>
    (let addr = 0 + of_nat (seg_start demo_mem o1 - 0x58) in single_program elf (seg_entry demo_mem o1) (unat addr)
       (map (\<lambda>k. demo_kernel (addr + of_nat k)) [0..<seg_stop demo_mem o1 - seg_start demo_mem o1]))) (filter (module_at demo_mem) [0..<length demo_dump]) files"
    by (rule dumped_module_in_place [OF d _ _ _ _ _ demo_modules demo_name demo_sysmem(2) inside]) (auto simp: demo_mem_def)
  then show ?thesis unfolding demo_modules by (auto simp: list_all2_Cons1 demo_sysmem demo_stop Let_def)
qed

end
