(* ===== verification/IoPlus.thy ===== *)
theory IoPlus
  imports C_Text
begin

text \<open>
  The kernel plugins \<open>ioPlus\<close>: of version 0.1 the overlay hook, of version 0.2 (\<open>ioPlus-0.2/src/ioplus.c\<close>) the hooks that
  retry a failed call with the rights of the kernel and the table of virtual devices. The original functions and those of
  the kernel are arguments.
\<close>

section \<open>Version 0.1\<close>

text \<open>\<open>src\<close> and \<open>dst\<close> of an overlay; an invalid source is replaced by the destination.\<close>

definition overlay_src :: "string \<Rightarrow> string \<Rightarrow> string" where
  "overlay_src src dst = (if take 8 src = ''invalid:'' then strncpy 292 dst else src)"

section \<open>Version 0.2: retrying\<close>

text \<open>\<open>_sceIoMkdir_patched\<close>, \<open>_sceIoRmdir_patched\<close> and \<open>_sceIoRemove_patched\<close>: the path is copied to 128 bytes.\<close>

definition k_path :: "string \<Rightarrow> string" where
  "k_path path = strncpy 128 path"

definition retry :: "(string \<Rightarrow> int) \<Rightarrow> (string \<Rightarrow> int) \<Rightarrow> string \<Rightarrow> int" where
  "retry orig kern path = (let ret = orig path in if ret < 0 then kern (k_path path) else ret)"

section \<open>Version 0.2: virtual devices\<close>

record PdDevice =
  pd_name :: string
  v_name :: string
  name_len :: nat
  pd_pid :: nat

definition MAX_DEVICES :: nat where "MAX_DEVICES = 10"

definition no_devices :: "PdDevice list" where
  "no_devices = replicate MAX_DEVICES \<lparr>pd_name = [], v_name = [], name_len = 0, pd_pid = 0\<rparr>"

datatype io_fault = NoColon | NameTooLong | PathTooLong

text \<open>The name of a device with its colon.\<close>

definition device_part :: "string \<Rightarrow> io_fault + string" where
  "device_part s = (if CHR '':'' \<in> set s then Inr (takeWhile (\<lambda>c. c \<noteq> CHR '':'') s @ '':'') else Inl NoColon)"

text \<open>The loop that looks for a slot: the second condition is not the \<open>else\<close> of the first.\<close>

fun choose_slot :: "string \<Rightarrow> PdDevice list \<Rightarrow> int \<Rightarrow> int \<Rightarrow> int" where
  "choose_slot pd [] i slot = slot"
| "choose_slot pd (d # ds) i slot =
    (let slot = (if name_len d \<noteq> 0 \<and> take (length pd - 1) (pd_name d) = butlast pd then -2 else slot);
         slot = (if slot = -1 then i else slot)
     in choose_slot pd ds (i + 1) slot)"

text \<open>\<open>SceFios2KernelForDriver_0F456345\<close> after the original call; both names have 18 bytes.\<close>

definition add_device :: "nat \<Rightarrow> string \<Rightarrow> string \<Rightarrow> PdDevice list \<Rightarrow> io_fault + PdDevice list" where
  "add_device pid old_path new_path ds = (if take 2 new_path \<noteq> ''PD'' then Inr ds
     else ebind (device_part old_path) (\<lambda>dev. ebind (device_part new_path) (\<lambda>pd.
       let slot = choose_slot pd ds 0 (-1) in
       if slot \<ge> 0 then
         (if length dev < 18 \<and> length pd < 18
          then Inr (ds[nat slot := \<lparr>pd_name = pd, v_name = dev, name_len = length dev, pd_pid = pid\<rparr>])
          else Inl NameTooLong)
       else Inr ds)))"

text \<open>The kernel: whether a path exists, and opening a path for a process and for the kernel.\<close>

record io_env =
  path_exists :: "string \<Rightarrow> bool"
  open_for :: "nat \<Rightarrow> string \<Rightarrow> int"
  open_kernel :: "string \<Rightarrow> int"

definition collect :: "io_env \<Rightarrow> PdDevice list \<Rightarrow> PdDevice list" where
  "collect k ds = map (\<lambda>d. if path_exists k (pd_name d) then d else d\<lparr>name_len := 0\<rparr>) ds"

definition decrypt_keyword :: string where "decrypt_keyword = ''iop-decrypt:''"

text \<open>The loop over the devices. \<open>strncat\<close> is given the size of the whole array, not what is left of it.\<close>

fun open_devices :: "io_env \<Rightarrow> string \<Rightarrow> PdDevice list \<Rightarrow> int \<Rightarrow> io_fault + int" where
  "open_devices k rest [] ret = Inr ret"
| "open_devices k rest (d # ds) ret = (if name_len d = 0 then open_devices k rest ds ret
     else if name_len d + length rest \<ge> 128 then Inl PathTooLong
     else (let ret = open_for k (pd_pid d) (take (name_len d) (v_name d) @ rest)
       in if ret \<ge> 0 then Inr ret else open_devices k rest ds ret))"

definition open_patched :: "io_env \<Rightarrow> nat \<Rightarrow> string \<Rightarrow> PdDevice list \<Rightarrow> io_fault + int \<times> PdDevice list" where
  "open_patched k pid path ds = (let ds = collect k ds; ret = open_for k pid path; ret2 = open_kernel k path in
     if ret \<ge> 0 then Inr (ret, ds)
     else if ret2 \<ge> 0 then Inr (ret2, ds)
     else if take 12 path = decrypt_keyword then ebind (open_devices k (drop 12 path) ds ret2) (\<lambda>r. Inr (r, ds))
     else Inr (ret2, ds))"

section \<open>Version 0.2: starting and stopping\<close>

text \<open>The hooks 1 to 5 are installed; the first identifier keeps the 0 it has as a static variable. Stopping releases
  every identifier that is not negative.\<close>

definition start_hooks :: "(nat \<Rightarrow> int) \<Rightarrow> int list" where
  "start_hooks install = 0 # map install [1..<6]"

definition stop_hooks :: "int list \<Rightarrow> nat list" where
  "stop_hooks uids = filter (\<lambda>i. uids ! i \<ge> 0) [0..<6]"

lemma stop_releases_uninstalled: "0 \<in> set (stop_hooks (start_hooks install))"
  by (simp add: stop_hooks_def start_hooks_def)

lemma stop_releases_installed: "0 < i \<Longrightarrow> i < 6 \<Longrightarrow> i \<in> set (stop_hooks (start_hooks install)) \<longleftrightarrow> install i \<ge> 0"
  by (simp add: stop_hooks_def start_hooks_def nth_Cons')

section \<open>Which slots are used\<close>

lemma choose_slot_taken: "slot \<noteq> -1 \<Longrightarrow> choose_slot pd ds i slot = slot \<or> choose_slot pd ds i slot = -2"
proof (induction ds arbitrary: i slot)
  case (Cons d ds)
  show ?case
  proof (cases "name_len d \<noteq> 0 \<and> take (length pd - 1) (pd_name d) = butlast pd")
    case True
    then show ?thesis using Cons.IH [of "-2" "i + 1"] by simp
  next
    case False
    then show ?thesis using Cons by auto
  qed
qed simp

lemma choose_slot_first: "ds \<noteq> [] \<Longrightarrow> choose_slot pd ds 0 (-1) = 0 \<or> choose_slot pd ds 0 (-1) = -2"
proof (cases ds)
  case (Cons d es)
  then show ?thesis using choose_slot_taken [of "-2" pd es 1] choose_slot_taken [of 0 pd es 1] by (auto simp: Let_def)
qed simp

text \<open>The calls of the two hooks in any order; a fault ends the run.\<close>

datatype io_call = Resolve nat string string | Open io_env nat string

fun io_step :: "io_call \<Rightarrow> PdDevice list \<Rightarrow> io_fault + PdDevice list" where
  "io_step (Resolve pid old_path new_path) ds = add_device pid old_path new_path ds"
| "io_step (Open k pid path) ds = ebind (open_patched k pid path ds) (\<lambda>(r, ds). Inr ds)"

fun io_steps :: "io_call list \<Rightarrow> PdDevice list \<Rightarrow> io_fault + PdDevice list" where
  "io_steps [] ds = Inr ds"
| "io_steps (c # cs) ds = ebind (io_step c ds) (io_steps cs)"

definition only_first :: "PdDevice list \<Rightarrow> bool" where
  "only_first ds \<longleftrightarrow> length ds = MAX_DEVICES \<and> (\<forall>i < length ds. 0 < i \<longrightarrow> name_len (ds ! i) = 0)"

lemma collect_only_first: "only_first ds \<Longrightarrow> only_first (collect k ds)"
  by (simp add: only_first_def collect_def)

lemma add_device_only_first:
  assumes o: "only_first ds"
  shows "runs UNIV only_first (add_device pid old_path new_path ds)"
proof -
  have ne: "ds \<noteq> []" using o by (auto simp: only_first_def MAX_DEVICES_def)
  have slot: "only_first (ds[nat (choose_slot pd ds 0 (-1)) := d])" if "choose_slot pd ds 0 (-1) \<ge> 0" for pd d
    using choose_slot_first [OF ne, of pd] o that by (auto simp: only_first_def)
  show ?thesis
  proof (cases "device_part old_path")
    case (Inr dev)
    then show ?thesis
      using o slot by (cases "device_part new_path") (simp_all add: add_device_def Let_def)
  qed (use o in \<open>simp add: add_device_def\<close>)
qed

lemma io_step_only_first: "only_first ds \<Longrightarrow> runs UNIV only_first (io_step c ds)"
proof (cases c)
  case (Open k pid path)
  assume o: "only_first ds"
  have "runs UNIV (\<lambda>(r, ds). only_first ds) (open_patched k pid path ds)"
    using collect_only_first [OF o, of k]
    by (cases "open_devices k (drop 12 path) (collect k ds) (open_kernel k path)") (simp_all add: open_patched_def Let_def)
  then show ?thesis unfolding Open io_step.simps by (rule runs_ebind) auto
qed (simp add: add_device_only_first)

lemma io_steps_only_first: "runs UNIV only_first (io_steps cs no_devices)"
proof -
  have "runs UNIV only_first (io_steps cs ds)" if "only_first ds" for ds
    using that
  proof (induction cs arbitrary: ds)
    case (Cons c cs)
    then show ?case by (auto intro!: runs_ebind [OF io_step_only_first])
  qed simp
  moreover have "only_first no_devices" by (simp add: only_first_def no_devices_def)
  ultimately show ?thesis by blast
qed

text \<open>
  C35. Although the table has ten slots, every device is stored in the first one: whatever calls are made, a new device
  replaces the one before, and no other slot is ever in use.
\<close>

theorem one_device_only:
  "runs UNIV (\<lambda>ds. length ds = 10 \<and> list_all (\<lambda>d. name_len d = 0) (tl ds)) (io_steps cs no_devices)"
  using io_steps_only_first
proof (rule runs_mono)
  fix ds assume "only_first ds"
  then show "length ds = 10 \<and> list_all (\<lambda>d. name_len d = 0) (tl ds)"
    by (simp add: only_first_def MAX_DEVICES_def list_all_length nth_tl)
qed simp

section \<open>What an open returns\<close>

text \<open>The paths that are tried for a process, in order.\<close>

definition tries :: "io_env \<Rightarrow> nat \<Rightarrow> string \<Rightarrow> PdDevice list \<Rightarrow> int list" where
  "tries k pid path ds = [open_for k pid path, open_kernel k path] @
     (if take 12 path = decrypt_keyword
      then map (\<lambda>d. open_for k (pd_pid d) (take (name_len d) (v_name d) @ drop 12 path)) (filter (\<lambda>d. name_len d \<noteq> 0) (collect k ds)) else [])"

lemma open_devices_tries:
  assumes "\<forall>d \<in> set ds. name_len d + length rest < 128"
  shows "open_devices k rest ds ret = Inr (case find (\<lambda>r. r \<ge> 0) (map (\<lambda>d. open_for k (pd_pid d) (take (name_len d) (v_name d) @ rest))
      (filter (\<lambda>d. name_len d \<noteq> 0) ds)) of Some r \<Rightarrow> r
    | None \<Rightarrow> last (ret # map (\<lambda>d. open_for k (pd_pid d) (take (name_len d) (v_name d) @ rest)) (filter (\<lambda>d. name_len d \<noteq> 0) ds)))"
  using assms
proof (induction ds arbitrary: ret)
  case (Cons d ds)
  then show ?case by (auto simp: Let_def split: option.split)
qed simp

text \<open>
  Opening gives the first success among the call itself, the call with kernel rights and, for a path with the keyword,
  the path on every device in use; without one the result of the last attempt. A short path never overruns the array.
\<close>

lemma open_first_success:
  assumes "length path \<le> 122" "\<forall>d \<in> set ds. name_len d < 18"
  shows "open_patched k pid path ds = Inr (case find (\<lambda>r. r \<ge> 0) (tries k pid path ds) of Some r \<Rightarrow> r | None \<Rightarrow> last (tries k pid path ds), collect k ds)"
proof -
  have "\<forall>d \<in> set (collect k ds). name_len d + length (drop 12 path) < 128"
    using assms by (fastforce simp: collect_def)
  then show ?thesis
    by (auto simp: open_patched_def tries_def Let_def open_devices_tries split: option.split)
qed

text \<open>A kernel in which only the path on the device can be opened, and the table after such a device was added.\<close>

definition demo_io :: io_env where
  "demo_io = \<lparr>path_exists = (\<lambda>_. True), open_for = (\<lambda>pid path. if path = ''app0:a'' then 7 else -1), open_kernel = (\<lambda>_. -2)\<rparr>"

definition demo_table :: "PdDevice list" where
  "demo_table = no_devices[0 := \<lparr>pd_name = ''PD1:'', v_name = ''app0:'', name_len = 5, pd_pid = 3\<rparr>]"

lemma demo_table_reached: "io_steps [Resolve 3 ''app0:x'' ''PD1:y''] no_devices = Inr demo_table"
  by (simp add: add_device_def device_part_def no_devices_def MAX_DEVICES_def demo_table_def Let_def numeral_eq_Suc)

lemma open_first_success_witness:
  "open_patched demo_io 9 ''iop-decrypt:a'' demo_table = Inr (7, demo_table)"
proof -
  have "\<forall>d \<in> set demo_table. name_len d < 18" by (simp add: demo_table_def no_devices_def MAX_DEVICES_def numeral_eq_Suc)
  moreover have "collect demo_io demo_table = demo_table" by (simp add: collect_def demo_io_def)
  moreover have "filter (\<lambda>d. name_len d \<noteq> 0) demo_table = [\<lparr>pd_name = ''PD1:'', v_name = ''app0:'', name_len = 5, pd_pid = 3\<rparr>]"
    by (simp add: demo_table_def no_devices_def MAX_DEVICES_def numeral_eq_Suc)
  ultimately show ?thesis
    using open_first_success [of "''iop-decrypt:a''" demo_table demo_io 9]
    by (simp add: tries_def demo_io_def decrypt_keyword_def)
qed

section \<open>When a path overruns the array\<close>

lemma open_devices_unused: "\<forall>d \<in> set ds. name_len d = 0 \<Longrightarrow> open_devices k rest ds ret = Inr ret"
  by (induction ds) simp_all

lemma open_devices_first:
  assumes "only_first ds"
  shows "open_devices k rest ds ret = Inl e \<longleftrightarrow>
    e = PathTooLong \<and> name_len (ds ! 0) \<noteq> 0 \<and> name_len (ds ! 0) + length rest \<ge> 128"
proof (cases ds)
  case (Cons d es)
  have "\<forall>x \<in> set es. name_len x = 0" using assms by (force simp: only_first_def Cons in_set_conv_nth)
  then show ?thesis by (auto simp: Cons Let_def open_devices_unused)
qed (use assms in \<open>simp add: only_first_def MAX_DEVICES_def\<close>)

text \<open>
  C36. After any calls, an open overruns the array for the new path exactly if the call itself and the call with
  kernel rights fail, the path has the keyword, a device is stored that still exists, and its name and what follows the keyword have
  128 characters or more together.
\<close>

theorem open_overruns:
  assumes "io_steps cs no_devices = Inr ds"
  shows "open_patched k pid path ds = Inl e \<longleftrightarrow> e = PathTooLong \<and> open_for k pid path < 0 \<and> open_kernel k path < 0
    \<and> take 12 path = ''iop-decrypt:'' \<and> name_len (ds ! 0) \<noteq> 0 \<and> path_exists k (pd_name (ds ! 0))
    \<and> name_len (ds ! 0) + (length path - 12) \<ge> 128"
proof -
  have o: "only_first ds" using io_steps_only_first [of cs] assms by simp
  then have "0 < length ds" by (simp add: only_first_def MAX_DEVICES_def)
  then have "collect k ds ! 0 = (if path_exists k (pd_name (ds ! 0)) then ds ! 0 else (ds ! 0)\<lparr>name_len := 0\<rparr>)"
    by (simp add: collect_def)
  then have "open_devices k (drop 12 path) (collect k ds) ret = Inl e \<longleftrightarrow> e = PathTooLong \<and> path_exists k (pd_name (ds ! 0))
      \<and> name_len (ds ! 0) \<noteq> 0 \<and> name_len (ds ! 0) + (length path - 12) \<ge> 128" for ret
    using open_devices_first [OF collect_only_first [OF o, of k]] by auto
  then show ?thesis
    by (cases "open_devices k (drop 12 path) (collect k ds) (open_kernel k path)")
       (auto simp: open_patched_def Let_def decrypt_keyword_def)
qed

theorem open_overruns_witness:
  "open_patched demo_io 9 (''iop-decrypt:'' @ replicate 123 (CHR ''x'')) demo_table = Inl PathTooLong"
  using open_overruns [OF demo_table_reached, of demo_io 9 "''iop-decrypt:'' @ replicate 123 (CHR ''x'')" PathTooLong]
  by (simp add: demo_io_def demo_table_def no_devices_def MAX_DEVICES_def numeral_eq_Suc)

end
