(* ===== verification/FagGames.thy ===== *)
theory FagGames
  imports FagMenu BootImage
begin

text \<open>
  The list of games of the FAGDec application: \<open>sfo.c\<close> (titles in parameter files), \<open>utils.c\<close> and \<open>game.c\<close>
  (\<open>src/FAGDec/src/app/\<close>). A menu is here the list of its items and the selection, which \<open>FagMenu\<close> shows its
  linked entries to stand for. Directories and files are arguments.
\<close>

section \<open>Parameter files\<close>

text \<open>\<open>strcmp\<close> with the string at an offset, and the copy of that string by \<open>strncpy\<close>; both may read behind the buffer.\<close>

fun str_eq_at :: "u8 list \<Rightarrow> nat \<Rightarrow> u8 list \<Rightarrow> self_fault + bool" where
  "str_eq_at buf off [] = (case rd8 buf off of None \<Rightarrow> Inl OutOfFile | Some b \<Rightarrow> Inr (b = 0))"
| "str_eq_at buf off (c # cs) = (case rd8 buf off of None \<Rightarrow> Inl OutOfFile
     | Some b \<Rightarrow> if b = c then str_eq_at buf (off + 1) cs else Inr False)"

fun copy_str :: "u8 list \<Rightarrow> nat \<Rightarrow> nat \<Rightarrow> self_fault + u8 list" where
  "copy_str buf off 0 = Inr []"
| "copy_str buf off (Suc n) = (case rd8 buf off of None \<Rightarrow> Inl OutOfFile
     | Some b \<Rightarrow> if b = 0 then Inr [] else ebind (copy_str buf (off + 1) n) (\<lambda>r. Inr (b # r)))"

text \<open>
  The loop over the entries, \<open>n\<close> of which are left: the result and the contents of \<open>string\<close>, if written. With \<open>len = 0\<close>,
  which no caller passes, the source also clears the byte in front of \<open>string\<close> (\<open>string[length - 1]\<close>); the result lists
  only the bytes of \<open>string\<close> itself and does not show that write.
\<close>

fun sfo_loop :: "u8 list \<Rightarrow> nat \<Rightarrow> nat \<Rightarrow> u8 list \<Rightarrow> nat \<Rightarrow> nat \<Rightarrow> nat \<Rightarrow> self_fault + int \<times> u8 list option" where
  "sfo_loop buf ko vo name len 0 i = Inr (-2, None)"
| "sfo_loop buf ko vo name len (Suc n) i =
     ebind (get16 buf (20 + 16 * i)) (\<lambda>no. ebind (str_eq_at buf (ko + no) name) (\<lambda>eq.
       if eq then ebind (get32 buf (20 + 16 * i + 12)) (\<lambda>d. ebind (copy_str buf (vo + d) len) (\<lambda>s.
           Inr (0, Some ((s @ replicate (len - length s) 0)[len - 1 := 0]))))
       else sfo_loop buf ko vo name len n (i + 1)))"

definition SFO_MAGIC :: nat where "SFO_MAGIC = 0x46535000"

definition getSfoString :: "u8 list \<Rightarrow> u8 list \<Rightarrow> nat \<Rightarrow> self_fault + int \<times> u8 list option" where
  "getSfoString buf name len = ebind (get32 buf 0) (\<lambda>magic. if magic \<noteq> SFO_MAGIC then Inr (-1, None)
     else ebind (get32 buf 8) (\<lambda>ko. ebind (get32 buf 12) (\<lambda>vo. ebind (get32 buf 16) (\<lambda>n. sfo_loop buf ko vo name len n 0))))"

section \<open>Games\<close>

datatype GameType = SELF_NP | SELF_SYSTEM

record GameEntry =
  game_title :: string
  game_titleid :: string
  game_type :: GameType
  menu_index :: nat

text \<open>Which paths exist, the contents of files, and the names in \<open>ur0:/appmeta\<close> (\<open>None\<close>: not opened).\<close>

record vita_files =
  path_there :: "string \<Rightarrow> bool"
  file_bytes :: "string \<Rightarrow> u8 list option"
  appmeta :: "string list option"

definition DEVICES :: "string list" where "DEVICES = [''ux0:'', ''gro0:'', ''grw0:'']"

text \<open>\<open>getPathDevice\<close>; the buffer of the caller has \<open>room\<close> bytes, which it is not told.\<close>

fun getPathDevice :: "nat \<Rightarrow> vita_files \<Rightarrow> string list \<Rightarrow> self_fault + string option" where
  "getPathDevice room v [] = Inr None"
| "getPathDevice room v (p # ps) = (if length p \<ge> room then Inl PathTooLong
     else if path_there v p then Inr (Some p) else getPathDevice room v ps)"

definition on_devices :: "string \<Rightarrow> string \<Rightarrow> string \<Rightarrow> string list" where
  "on_devices dir titleid rest = map (\<lambda>d. d @ ''/'' @ dir @ ''/'' @ titleid @ ''/'' @ rest) DEVICES"

definition in_app_or_patch :: "nat \<Rightarrow> vita_files \<Rightarrow> string \<Rightarrow> string \<Rightarrow> self_fault + string option" where
  "in_app_or_patch room v titleid rest = ebind (getPathDevice room v (on_devices ''app'' titleid rest)) (\<lambda>r. case r of
     Some p \<Rightarrow> Inr (Some p) | None \<Rightarrow> getPathDevice room v (on_devices ''patch'' titleid rest))"

definition checkIfPFS :: "vita_files \<Rightarrow> string \<Rightarrow> self_fault + bool" where
  "checkIfPFS v titleid = ebind (in_app_or_patch 128 v titleid ''sce_pfs'') (\<lambda>r. Inr (r \<noteq> None))"

definition getSfoBuffer :: "vita_files \<Rightarrow> string \<Rightarrow> self_fault + u8 list option" where
  "getSfoBuffer v titleid = ebind (in_app_or_patch 1024 v titleid ''sce_sys/param.sfo'') (\<lambda>r. Inr (case r of None \<Rightarrow> None
     | Some p \<Rightarrow> (case file_bytes v p of None \<Rightarrow> None | Some bs \<Rightarrow> if length bs < 20 then None else Some bs)))"

fun gameCount :: "vita_files \<Rightarrow> string list \<Rightarrow> self_fault + nat" where
  "gameCount v [] = Inr 0"
| "gameCount v (t # ts) = ebind (checkIfPFS v t) (\<lambda>p. ebind (gameCount v ts) (\<lambda>n. Inr (if p then n + 1 else n)))"

text \<open>The array \<open>games\<close> up to \<open>games_index\<close>, how many it has room for, and the menu.\<close>

record game_list =
  games :: "GameEntry list"
  games_room :: nat
  game_menu :: listing

definition gameAdd :: "string \<Rightarrow> string \<Rightarrow> GameType \<Rightarrow> game_list \<Rightarrow> self_fault + game_list" where
  "gameAdd ttl titleid gt g = (if length (games g) < games_room g then
     Inr (g\<lparr>games := games g @ [\<lparr>game_title = ttl, game_titleid = take 20 titleid, game_type = gt, menu_index = length (fst (game_menu g))\<rparr>],
       game_menu := meaning (Add 0 MENU_NORMAL ttl (Some gameEntryCB)) (game_menu g)\<rparr>)
     else Inl OutOfFile)"

text \<open>The title is what comes before the first NUL, with blanks for line ends.\<close>

definition title_text :: "u8 list \<Rightarrow> string" where
  "title_text bs = map (\<lambda>b. if b = 10 then CHR '' '' else char_of (unat b)) (takeWhile (\<lambda>b. b \<noteq> 0) bs)"

definition STITLE :: "u8 list" where "STITLE = [0x53, 0x54, 0x49, 0x54, 0x4C, 0x45]"

text \<open>One round of the second reading of the directory. \<open>getSfoString\<close> writes into \<open>games[games_index]\<close>.\<close>

definition game_found :: "vita_files \<Rightarrow> string \<Rightarrow> game_list \<Rightarrow> self_fault + game_list" where
  "game_found v name g = ebind (checkIfPFS v name) (\<lambda>p. if \<not> p then Inr g
     else ebind (getSfoBuffer v name) (\<lambda>b. case b of None \<Rightarrow> Inr g
       | Some sfo \<Rightarrow> if length (games g) < games_room g then ebind (getSfoString sfo STITLE 128) (\<lambda>(res, s). case s of
             Some s \<Rightarrow> gameAdd (title_text s) name SELF_NP g | None \<Rightarrow> Inr g)
           else Inl OutOfFile))"

fun games_found :: "vita_files \<Rightarrow> string list \<Rightarrow> game_list \<Rightarrow> self_fault + game_list" where
  "games_found v [] g = Inr g"
| "games_found v (t # ts) g = ebind (game_found v t g) (games_found v ts)"

definition system_paths :: "string list" where
  "system_paths = [''os0:'', ''vs0:'', ''ux0:/os0_em'', ''ux0:/vs0_em'', ''ux0:/app_em'', ''ux0:/patch_em'']"

fun add_systems :: "string list \<Rightarrow> game_list \<Rightarrow> self_fault + game_list" where
  "add_systems [] g = Inr g"
| "add_systems (p # ps) g = ebind (gameAdd p ''SYSTEM'' SELF_SYSTEM g) (add_systems ps)"

definition menu_title :: "string \<Rightarrow> game_list \<Rightarrow> game_list" where
  "menu_title s g = g\<lparr>game_menu := meaning (Add 0 MENU_TITLE s None) (game_menu g)\<rparr>"

definition games_head :: listing where
  "games_head = fold meaning [Add 0 MENU_TITLE ''FRENCH-AMERICAN GAME DECRYPTER'' None,
     Add 0 MENU_SUBTITLE ''REV ENG BY @CelesteBlue123 (HE IS AMAZING)'' None, Add 0 MENU_SUBTITLE ''DEVELOPED BY @dots_tb'' None,
     Add 0 MENU_NORMAL ''Decrypt modules in list'' (Some gameStatusCB), Retype 3 MENU_START,
     Add 0 MENU_NORMAL ''Further Credits'' (Some gameCreditCB), Retype 4 MENU_BACK, Add 0 MENU_TITLE ''SYSTEM:'' None] ([], None)"

text \<open>
  \<open>gameGenerateMenu\<close>: the games and the value of \<open>menu_start_index\<close>; \<open>None\<close>: the directory cannot be opened and the
  result is NULL. The second loop also looks at the empty name that is left when the directory has ended.
\<close>

definition gameGenerateMenu :: "vita_files \<Rightarrow> self_fault + (game_list \<times> nat) option" where
  "gameGenerateMenu v = ebind (case appmeta v of None \<Rightarrow> Inr 0 | Some ts \<Rightarrow> gameCount v ts) (\<lambda>n.
     ebind (add_systems system_paths \<lparr>games = [], games_room = n + 6, game_menu = games_head\<rparr>) (\<lambda>g.
     let g = menu_title ''PFS TITLES FOUND:'' g in case appmeta v of None \<Rightarrow> Inr None
     | Some ts \<Rightarrow> ebind (games_found v (ts @ [[]]) g) (\<lambda>g'. Inr (Some (g', length (fst (game_menu g)))))))"

text \<open>The game that \<open>gameEntryCB\<close> opens for an entry of the menu.\<close>

definition gameEntry :: "nat \<Rightarrow> nat \<Rightarrow> nat \<Rightarrow> int \<Rightarrow> int option" where
  "gameEntry start sys amount idx = (if idx - int start < 0 then Some (int sys + 1 + idx - int start)
     else if idx - int start \<le> int amount then Some (idx - int start + int sys) else None)"

section \<open>Looking up a string\<close>

text \<open>A parameter file with the given keys and values, in this order; what else it holds is free.\<close>

definition sfo_is :: "u8 list \<Rightarrow> (u8 list \<times> u8 list) list \<Rightarrow> bool" where
  "sfo_is buf kvs \<longleftrightarrow> get32 buf 0 = Inr SFO_MAGIC \<and> (\<exists>ko vo. get32 buf 8 = Inr ko \<and> get32 buf 12 = Inr vo \<and>
     get32 buf 16 = Inr (length kvs) \<and> (\<forall>i < length kvs. \<exists>no d. get16 buf (20 + 16 * i) = Inr no \<and>
       get32 buf (20 + 16 * i + 12) = Inr d \<and> holds buf (ko + no) (fst (kvs ! i) @ [0]) \<and> holds buf (vo + d) (snd (kvs ! i) @ [0])
       \<and> 0 \<notin> set (fst (kvs ! i)) \<and> 0 \<notin> set (snd (kvs ! i))))"

lemma holds_Cons: "holds f off (x # xs) \<longleftrightarrow> rd8 f off = Some x \<and> holds f (off + 1) xs"
proof -
  have "(\<forall>i < length (x # xs). f ! (off + i) = (x # xs) ! i) \<longleftrightarrow> f ! off = x \<and> (\<forall>i < length xs. f ! (off + 1 + i) = xs ! i)"
    by (auto simp: less_Suc_eq_0_disj)
  then show ?thesis by (cases xs) (auto simp: holds_nth rd8_def)
qed

lemma str_eq_at_holds:
  assumes "holds buf off (k @ [0])" "0 \<notin> set k" "0 \<notin> set name"
  shows "str_eq_at buf off name = Inr (k = name)"
  using assms
proof (induction name arbitrary: off k)
  case Nil
  then show ?case by (cases k) (auto simp: holds_Cons)
next
  case (Cons c cs)
  then show ?case by (cases k) (auto simp: holds_Cons)
qed

lemma copy_str_holds:
  assumes "holds buf off (s @ [0])" "0 \<notin> set s"
  shows "copy_str buf off n = Inr (take n s)"
  using assms
proof (induction n arbitrary: off s)
  case (Suc n)
  then show ?case by (cases s) (auto simp: holds_Cons)
qed simp

text \<open>What \<open>strncpy\<close> and the final assignment leave in an array of \<open>len\<close> bytes.\<close>

definition in_array :: "nat \<Rightarrow> u8 list \<Rightarrow> u8 list" where
  "in_array len s = (take len s @ replicate (len - length s) 0)[len - 1 := 0]"

lemma sfo_loop_finds:
  assumes "\<forall>j < length kvs. \<exists>no d. get16 buf (20 + 16 * (i + j)) = Inr no \<and> get32 buf (20 + 16 * (i + j) + 12) = Inr d \<and>
      holds buf (ko + no) (fst (kvs ! j) @ [0]) \<and> holds buf (vo + d) (snd (kvs ! j) @ [0]) \<and>
      0 \<notin> set (fst (kvs ! j)) \<and> 0 \<notin> set (snd (kvs ! j))" and "0 \<notin> set name"
  shows "sfo_loop buf ko vo name len (length kvs) i =
    Inr (case map_of kvs name of None \<Rightarrow> (-2, None) | Some s \<Rightarrow> (0, Some (in_array len s)))"
  using assms(1)
proof (induction kvs arbitrary: i)
  case (Cons kv kvs)
  have t: "\<forall>j < length kvs. \<exists>no d. get16 buf (20 + 16 * (i + 1 + j)) = Inr no \<and> get32 buf (20 + 16 * (i + 1 + j) + 12) = Inr d \<and>
      holds buf (ko + no) (fst (kvs ! j) @ [0]) \<and> holds buf (vo + d) (snd (kvs ! j) @ [0]) \<and>
      0 \<notin> set (fst (kvs ! j)) \<and> 0 \<notin> set (snd (kvs ! j))"
  proof (intro allI impI)
    fix j assume "j < length kvs"
    then have "Suc j < length (kv # kvs)" by simp
    from Cons.prems [rule_format, OF this] show "\<exists>no d. get16 buf (20 + 16 * (i + 1 + j)) = Inr no \<and> get32 buf (20 + 16 * (i + 1 + j) + 12) = Inr d \<and>
      holds buf (ko + no) (fst (kvs ! j) @ [0]) \<and> holds buf (vo + d) (snd (kvs ! j) @ [0]) \<and>
      0 \<notin> set (fst (kvs ! j)) \<and> 0 \<notin> set (snd (kvs ! j))" by simp
  qed
  obtain no d where h: "get16 buf (20 + 16 * i) = Inr no" "get32 buf (20 + 16 * i + 12) = Inr d" "holds buf (ko + no) (fst kv @ [0])"
      "holds buf (vo + d) (snd kv @ [0])" "0 \<notin> set (fst kv)" "0 \<notin> set (snd kv)"
    using Cons.prems [rule_format, of 0] by auto
  have m: "len - min k len = len - k" for k by (simp add: min_def)
  show ?case
    using Cons.IH [OF t] h str_eq_at_holds [OF h(3,5) assms(2)] copy_str_holds [OF h(4,6)]
    by (cases kv) (simp add: in_array_def m)
qed simp

lemma sfo_lookup:
  assumes "sfo_is buf kvs" and "0 \<notin> set name"
  shows "getSfoString buf name len = Inr (case map_of kvs name of None \<Rightarrow> (-2, None) | Some s \<Rightarrow> (0, Some (in_array len s)))"
proof -
  obtain ko vo where h: "get32 buf 0 = Inr SFO_MAGIC" "get32 buf 8 = Inr ko" "get32 buf 12 = Inr vo" "get32 buf 16 = Inr (length kvs)"
    "\<forall>i < length kvs. \<exists>no d. get16 buf (20 + 16 * i) = Inr no \<and>
       get32 buf (20 + 16 * i + 12) = Inr d \<and> holds buf (ko + no) (fst (kvs ! i) @ [0]) \<and> holds buf (vo + d) (snd (kvs ! i) @ [0])
       \<and> 0 \<notin> set (fst (kvs ! i)) \<and> 0 \<notin> set (snd (kvs ! i))"
    using assms(1) unfolding sfo_is_def by blast
  show ?thesis
    using h(1-4) sfo_loop_finds [of kvs buf 0 ko vo name len] h(5) assms(2) by (simp add: getSfoString_def)
qed

text \<open>C23. In a well-formed parameter file the value of the first entry with the name is found, and -2 is returned without
  one; an entry is never missed and nothing outside of the file is read.\<close>

theorem sfo_string_found:
  assumes "sfo_is buf kvs" and "0 \<notin> set name"
  shows "getSfoString buf name len = Inr (case map_of kvs name of None \<Rightarrow> (-2, None) | Some s \<Rightarrow> (0, Some (in_array len s)))"
  using assms by (rule sfo_lookup)

text \<open>A parameter file with a category and a title.\<close>

definition sample_sfo :: "u8 list" where
  "sample_sfo = [0, 0x50, 0x53, 0x46, 1, 1, 0, 0, 52, 0, 0, 0, 60, 0, 0, 0, 2, 0, 0, 0,
     0, 0, 4, 2, 2, 0, 0, 0, 2, 0, 0, 0, 0, 0, 0, 0,
     2, 0, 4, 2, 3, 0, 0, 0, 3, 0, 0, 0, 2, 0, 0, 0,
     0x43, 0, 0x54, 0, 0, 0, 0, 0,
     0x67, 0, 0x41, 0x42, 0]"

lemma sample_sfo_fields:
  "get32 sample_sfo 0 = Inr SFO_MAGIC" "get32 sample_sfo 8 = Inr 52" "get32 sample_sfo 12 = Inr 60" "get32 sample_sfo 16 = Inr 2"
  "get16 sample_sfo 20 = Inr 0" "get32 sample_sfo 32 = Inr 0" "get16 sample_sfo 36 = Inr 2" "get32 sample_sfo 48 = Inr 2"
  by (simp_all add: sample_sfo_def get32_def get16_def rd32_def rd16_def join32_def SFO_MAGIC_def)

lemma sample_sfo_holds: "holds sample_sfo 52 [0x43, 0]" "holds sample_sfo 60 [0x67, 0]" "holds sample_sfo 54 [0x54, 0]"
  "holds sample_sfo 62 [0x41, 0x42, 0]"
  by (simp_all add: holds_def sample_sfo_def)

theorem sfo_string_found_witness:
  "getSfoString sample_sfo [0x54] 128 = Inr (0, Some (in_array 128 [0x41, 0x42])) \<and> getSfoString sample_sfo [0x41] 128 = Inr (-2, None)"
proof -
  have "i = 0 \<or> i = 1" if "i < length [([0x43 :: u8], [0x67 :: u8]), ([0x54], [0x41, 0x42])]" for i :: nat using that by auto
  then have "sfo_is sample_sfo [([0x43], [0x67]), ([0x54], [0x41, 0x42])]"
    unfolding sfo_is_def using sample_sfo_fields sample_sfo_holds by fastforce
  from sfo_string_found [OF this, of "[0x54]" 128] sfo_string_found [OF this, of "[0x41]" 128]
  show ?thesis by simp
qed

text \<open>A header that promises an entry is enough to be read beyond.\<close>

lemma sfo_overreads:
  "getSfoString [0, 0x50, 0x53, 0x46, 0, 0, 0, 0, 0, 0, 0, 0, 0, 0, 0, 0, 1, 0, 0, 0] name len = Inl OutOfFile"
  by (simp add: getSfoString_def get32_def rd32_def join32_def SFO_MAGIC_def get16_def rd16_def sfo_loop.simps(2) [of _ _ _ _ _ 0])

section \<open>The menu of games\<close>

definition entry_of :: "GameEntry \<Rightarrow> item" where
  "entry_of g = new_item MENU_NORMAL (game_title g) (Some gameEntryCB)"

text \<open>Where the entry of the \<open>k\<close>th game is: after six entries, and after one more title for the games behind the systems.\<close>

definition place :: "nat \<Rightarrow> nat" where
  "place k = (if k < 6 then k + 6 else k + 7)"

definition found_title :: item where "found_title = new_item MENU_TITLE ''PFS TITLES FOUND:'' None"

definition placed :: "game_list \<Rightarrow> bool" where
  "placed g \<longleftrightarrow> 6 \<le> length (games g) \<and> length (games g) \<le> games_room g \<and> (\<forall>k < length (games g). menu_index (games g ! k) = place k) \<and>
     fst (game_menu g) = fst games_head @ map entry_of (take 6 (games g)) @ found_title # map entry_of (drop 6 (games g))"

lemma fst_meaning_Add [simp]: "fst (meaning (Add a dt s cb) l) = fst l @ [new_item dt s cb]"
  by (cases l) simp

lemma length_head: "length (fst games_head) = 6"
  by (simp add: games_head_def)

lemma head_opens_nothing: "i < 6 \<Longrightarrow> it_cb (fst games_head ! i) \<noteq> Some gameEntryCB"
  by (auto simp: games_head_def less_Suc_eq numeral_eq_Suc new_item_def content_def new_entry_def)

lemma gameAdd_placed:
  assumes "placed g" "gameAdd ttl titleid gt g = Inr g'"
  shows "placed g' \<and> length (games g') = length (games g) + 1"
proof -
  let ?e = "\<lparr>game_title = ttl, game_titleid = take 20 titleid, game_type = gt, menu_index = length (fst (game_menu g))\<rparr>"
  have g': "games g' = games g @ [?e]" "fst (game_menu g') = fst (game_menu g) @ [entry_of ?e]" "games_room g' = games_room g"
      "length (games g) < games_room g"
    using assms(2) by (auto simp: gameAdd_def entry_of_def split: if_splits)
  moreover have "length (fst (game_menu g)) = place (length (games g))"
    using assms(1) by (simp add: placed_def place_def length_head)
  ultimately show ?thesis
    using assms(1) by (auto simp: placed_def nth_append less_Suc_eq)
qed

lemma gameAdd_room: "gameAdd ttl titleid gt g = Inr g' \<Longrightarrow> games_room g' = games_room g"
  by (auto simp: gameAdd_def split: if_splits)

lemma game_found_cases:
  assumes "game_found v t g = Inr g'"
  shows "g' = g \<or> (\<exists>s. gameAdd s t SELF_NP g = Inr g')"
proof -
  obtain p where p: "checkIfPFS v t = Inr p" using assms by (auto simp: game_found_def ebind_Inr)
  show ?thesis
  proof (cases p)
    case True
    obtain b where b: "getSfoBuffer v t = Inr b" using assms p True by (auto simp: game_found_def ebind_Inr)
    show ?thesis
      using assms p True b
      by (cases b) (auto simp: game_found_def ebind_Inr split: if_splits option.splits)
  qed (use assms p in \<open>simp add: game_found_def\<close>)
qed

lemma game_found_placed: "placed g \<Longrightarrow> game_found v t g = Inr g' \<Longrightarrow> placed g' \<and> games_room g' = games_room g"
  using game_found_cases gameAdd_placed gameAdd_room by blast

lemma games_found_placed: "placed g \<Longrightarrow> games_found v ts g = Inr g' \<Longrightarrow> placed g' \<and> games_room g' = games_room g"
proof (induction ts arbitrary: g)
  case (Cons t ts)
  then obtain g1 where g1: "game_found v t g = Inr g1" "games_found v ts g1 = Inr g'" by (auto simp: ebind_Inr)
  from game_found_placed [OF Cons.prems(1) g1(1)] Cons.IH [OF _ g1(2)] show ?case by simp
qed simp

definition systems_list :: "nat \<Rightarrow> game_list" where
  "systems_list n = \<lparr>games = map (\<lambda>k. \<lparr>game_title = system_paths ! k, game_titleid = ''SYSTEM'', game_type = SELF_SYSTEM, menu_index = k + 6\<rparr>) [0..<6],
     games_room = n + 6, game_menu = fold meaning (map (\<lambda>k. Add 0 MENU_NORMAL (system_paths ! k) (Some gameEntryCB)) [0..<6]) games_head\<rparr>"

lemma add_systems_list: "add_systems system_paths \<lparr>games = [], games_room = n + 6, game_menu = games_head\<rparr> = Inr (systems_list n)"
  by (simp add: system_paths_def gameAdd_def systems_list_def upt_rec length_head)

lemma fst_fold_add: "fst (fold meaning (map (\<lambda>k. Add 0 dt (p k) cb) ks) l) = fst l @ map (\<lambda>k. new_item dt (p k) cb) ks"
  by (induction ks arbitrary: l) simp_all

lemma systems_placed: "placed (menu_title ''PFS TITLES FOUND:'' (systems_list n))"
    "length (fst (game_menu (menu_title ''PFS TITLES FOUND:'' (systems_list n)))) = 13"
  by (simp_all add: placed_def menu_title_def systems_list_def fst_fold_add place_def length_head found_title_def entry_of_def
      comp_def del: upt_conv_Cons upt_rec_numeral)

lemma gameGenerateMenu_placed:
  assumes "gameGenerateMenu v = Inr (Some (g, start))"
  shows "placed g \<and> start = 13"
proof -
  obtain n ts where "appmeta v = Some ts" "games_found v (ts @ [[]]) (menu_title ''PFS TITLES FOUND:'' (systems_list n)) = Inr g"
      "start = length (fst (game_menu (menu_title ''PFS TITLES FOUND:'' (systems_list n))))"
    using assms by (auto simp: gameGenerateMenu_def add_systems_list ebind_Inr Let_def split: option.splits)
  then show ?thesis using systems_placed [of n] games_found_placed by auto
qed

text \<open>C22. Every entry of the finished menu that opens a game opens the one whose title it shows: the index arithmetic of
  \<open>gameEntryCB\<close> over the headings is the inverse of the positions given out by \<open>gameAdd\<close>.\<close>

theorem menu_entry_opens_game:
  assumes "gameGenerateMenu v = Inr (Some (g, start))" and "i < length (fst (game_menu g))"
    and "it_cb (fst (game_menu g) ! i) = Some gameEntryCB"
  shows "\<exists>k < length (games g). gameEntry start 6 (length (games g)) (int i) = Some (int k) \<and> menu_index (games g ! k) = i \<and>
    fst (game_menu g) ! i = new_item MENU_NORMAL (game_title (games g ! k)) (Some gameEntryCB)"
proof -
  have p: "placed g" "start = 13" using gameGenerateMenu_placed [OF assms(1)] by simp_all
  then have its: "fst (game_menu g) = fst games_head @ map entry_of (take 6 (games g)) @ found_title # map entry_of (drop 6 (games g))"
    and n: "6 \<le> length (games g)" and ix: "\<forall>k < length (games g). menu_index (games g ! k) = place k" by (simp_all add: placed_def)
  have t: "it_cb found_title = None" by (simp add: found_title_def new_item_def content_def new_entry_def)
  have "\<exists>k < length (games g). i = place k \<and> fst (game_menu g) ! i = entry_of (games g ! k)"
  proof (cases "i < 6")
    case True
    then show ?thesis using head_opens_nothing [OF True] assms(3) by (simp add: its nth_append length_head)
  next
    case False
    then consider "i < 12" | "i = 12" | "13 \<le> i" by linarith
    then show ?thesis
    proof cases
      case 1
      then have "fst (game_menu g) ! i = entry_of (games g ! (i - 6))" "i = place (i - 6)" "i - 6 < length (games g)"
        using False n by (auto simp: its nth_append length_head place_def)
      then show ?thesis by blast
    next
      case 2
      then show ?thesis using assms(3) t n by (simp add: its nth_append length_head)
    next
      case 3
      then obtain j where j: "i = 13 + j" by (auto simp: le_iff_add)
      then have "6 + j < length (games g)" using assms(2) n by (simp add: its length_head)
      moreover have "fst (game_menu g) ! i = entry_of (games g ! (6 + j))"
        using n \<open>6 + j < length (games g)\<close> by (simp add: its nth_append length_head j)
      moreover have "i = place (6 + j)" by (simp add: place_def j)
      ultimately show ?thesis by blast
    qed
  qed
  then obtain k where k: "k < length (games g)" "i = place k" "fst (game_menu g) ! i = entry_of (games g ! k)" by blast
  have "gameEntry start 6 (length (games g)) (int i) = Some (int k)"
    using k(1,2) p(2) by (auto simp: gameEntry_def place_def)
  then show ?thesis using k ix by (auto simp: entry_of_def)
qed

text \<open>A card with one game.\<close>

definition one_game :: vita_files where
  "one_game = \<lparr>path_there = (\<lambda>p. p \<in> {''ux0:/app/PCSE1/sce_pfs'', ''ux0:/app/PCSE1/sce_sys/param.sfo''}),
     file_bytes = (\<lambda>p. Some ([0, 0x50, 0x53, 0x46, 1, 1, 0, 0, 36, 0, 0, 0, 43, 0, 0, 0, 1, 0, 0, 0,
       0, 0, 4, 2, 2, 0, 0, 0, 2, 0, 0, 0, 0, 0, 0, 0] @ STITLE @ [0] @ [0x41, 0x0A, 0x42, 0])), appmeta = Some [''PCSE1'', ''OTHER'']\<rparr>"

lemma find_append: "find P (xs @ ys) = (case find P xs of None \<Rightarrow> find P ys | Some x \<Rightarrow> Some x)"
  by (induction xs) auto

lemma getPathDevice_short: "\<forall>p \<in> set ps. length p < room \<Longrightarrow> getPathDevice room v ps = Inr (find (path_there v) ps)"
  by (induction ps) auto

lemma in_app_or_patch_short:
  assumes "length t + length rest + 13 < room"
  shows "in_app_or_patch room v t rest = Inr (find (path_there v) (on_devices ''app'' t rest @ on_devices ''patch'' t rest))"
proof -
  have "getPathDevice room v (on_devices ''app'' t rest) = Inr (find (path_there v) (on_devices ''app'' t rest))"
    "getPathDevice room v (on_devices ''patch'' t rest) = Inr (find (path_there v) (on_devices ''patch'' t rest))"
    by (rule getPathDevice_short, use assms in \<open>simp add: on_devices_def DEVICES_def\<close>)+
  then show ?thesis by (simp add: in_app_or_patch_def find_append split: option.split)
qed

text \<open>Whether a title has protected files.\<close>

definition pfs :: "vita_files \<Rightarrow> string \<Rightarrow> bool" where
  "pfs v t = (find (path_there v) (on_devices ''app'' t ''sce_pfs'' @ on_devices ''patch'' t ''sce_pfs'') \<noteq> None)"

lemma checkIfPFS_short: "length t \<le> 107 \<Longrightarrow> checkIfPFS v t = Inr (pfs v t)"
  by (simp add: checkIfPFS_def pfs_def in_app_or_patch_short)

lemma gameCount_short: "\<forall>t \<in> set ts. length t \<le> 107 \<Longrightarrow> gameCount v ts = Inr (length (filter (pfs v) ts))"
  by (induction ts) (simp_all add: checkIfPFS_short)

definition sfo_files_ok :: "vita_files \<Rightarrow> bool" where
  "sfo_files_ok v \<longleftrightarrow> (\<forall>p bs. file_bytes v p = Some bs \<and> 20 \<le> length bs \<longrightarrow> (\<exists>r. getSfoString bs STITLE 128 = Inr r))"

lemma game_found_fits:
  assumes "length t \<le> 107" "sfo_files_ok v" "pfs v t \<longrightarrow> length (games g) < games_room g"
  shows "\<exists>g'. game_found v t g = Inr g' \<and> games_room g' = games_room g \<and>
    length (games g') \<le> length (games g) + (if pfs v t then 1 else 0)"
proof (cases "pfs v t")
  case True
  obtain b where b: "getSfoBuffer v t = Inr b" "\<forall>bs. b = Some bs \<longrightarrow> (\<exists>r. getSfoString bs STITLE 128 = Inr r)"
    using assms(1,2) by (auto simp: getSfoBuffer_def in_app_or_patch_short sfo_files_ok_def split: option.split)
  show ?thesis
  proof (cases b)
    case (Some sfo)
    then obtain res s where "getSfoString sfo STITLE 128 = Inr (res, s)" using b(2) by auto
    then show ?thesis
      using True assms b(1) Some by (cases s) (simp_all add: game_found_def checkIfPFS_short gameAdd_def)
  qed (use True assms b in \<open>simp add: game_found_def checkIfPFS_short\<close>)
qed (use assms in \<open>simp add: game_found_def checkIfPFS_short\<close>)

lemma games_found_fits:
  assumes "\<forall>t \<in> set ts. length t \<le> 107" "sfo_files_ok v" "length (games g) + length (filter (pfs v) ts) \<le> games_room g"
  shows "\<exists>g'. games_found v ts g = Inr g' \<and> games_room g' = games_room g"
  using assms(1,3)
proof (induction ts arbitrary: g)
  case (Cons t ts)
  then obtain g1 where "game_found v t g = Inr g1" "games_room g1 = games_room g"
      "length (games g1) \<le> length (games g) + (if pfs v t then 1 else 0)"
    using game_found_fits [OF _ assms(2), of t g] by (auto split: if_splits)
  then show ?case using Cons.IH [of g1] Cons.prems by (auto split: if_splits)
qed simp

text \<open>The array that is allocated after the first reading of the directory holds all that the second one finds: with
  short names, readable parameter files and no protected files under the empty name the menu is made without a fault.\<close>

lemma games_fit:
  assumes "appmeta v = Some ts" "\<forall>t \<in> set ts. length t \<le> 107" "sfo_files_ok v" "\<not> pfs v []"
  shows "\<exists>g. gameGenerateMenu v = Inr (Some (g, 13)) \<and> length (games g) \<le> games_room g \<and> games_room g = length (filter (pfs v) ts) + 6"
proof -
  let ?g = "menu_title ''PFS TITLES FOUND:'' (systems_list (length (filter (pfs v) ts)))"
  have r: "games_room ?g = length (filter (pfs v) ts) + 6" "length (games ?g) = 6" by (simp_all add: menu_title_def systems_list_def)
  then obtain g where g: "games_found v (ts @ [[]]) ?g = Inr g" "games_room g = games_room ?g"
    using games_found_fits [of "ts @ [[]]" v ?g] assms(2-4) by auto
  have "length (games g) \<le> games_room g"
    using games_found_placed [OF systems_placed(1) g(1)] by (simp add: placed_def)
  then show ?thesis
    using g r assms(1) by (simp add: gameGenerateMenu_def gameCount_short [OF assms(2)] add_systems_list Let_def systems_placed(2))
qed

lemma one_game_sfo: "getSfoString (the (file_bytes one_game p)) STITLE 128 = Inr (0, Some (in_array 128 [0x41, 0x0A, 0x42]))"
proof -
  let ?f = "the (file_bytes one_game p)"
  have f: "get32 ?f 0 = Inr SFO_MAGIC" "get32 ?f 8 = Inr 36" "get32 ?f 12 = Inr 43" "get32 ?f 16 = Inr 1"
    "get16 ?f 20 = Inr 0" "get32 ?f 32 = Inr 0" "holds ?f 36 (STITLE @ [0])" "holds ?f 43 [0x41, 0x0A, 0x42, 0]"
    by (simp_all add: one_game_def get32_def get16_def rd32_def rd16_def join32_def SFO_MAGIC_def STITLE_def holds_def)
  have "sfo_is ?f [(STITLE, [0x41, 0x0A, 0x42])]"
    unfolding sfo_is_def using f by (auto simp: STITLE_def)
  then show ?thesis using sfo_lookup [of ?f "[(STITLE, [0x41, 0x0A, 0x42])]" STITLE 128] by (simp add: STITLE_def)
qed

lemma one_game_files: "sfo_files_ok one_game" "\<not> pfs one_game []" "pfs one_game ''PCSE1''" "\<not> pfs one_game ''OTHER''"
  using one_game_sfo
  by (auto simp: sfo_files_ok_def pfs_def on_devices_def DEVICES_def one_game_def)

lemma games_fit_witness:
  "\<exists>g. gameGenerateMenu one_game = Inr (Some (g, 13)) \<and> length (games g) \<le> games_room g \<and> games_room g = 7"
proof -
  have "\<forall>t \<in> set [''PCSE1'', ''OTHER'']. length t \<le> 107" by simp
  from games_fit [OF _ this one_game_files(1,2)] show ?thesis
    by (simp add: one_game_files) (simp add: one_game_def)
qed

lemma one_game_menu: "\<exists>g. gameGenerateMenu one_game = Inr (Some (g, 13)) \<and> length (fst (game_menu g)) = 14 \<and>
    fst (game_menu g) ! 13 = new_item MENU_NORMAL ''A B'' (Some gameEntryCB)"
proof -
  let ?g = "menu_title ''PFS TITLES FOUND:'' (systems_list 1)"
  have r: "length (games ?g) < games_room ?g" by (simp add: menu_title_def systems_list_def)
  have z: "takeWhile (\<lambda>b. b \<noteq> 0) ((replicate 125 (0 :: u8))[124 := 0]) = []"
    by (subst takeWhile_eq_Nil_iff) (simp add: hd_conv_nth)
  have t: "title_text (in_array 128 [0x41, 0x0A, 0x42]) = ''A B''"
    using z by (simp add: title_text_def in_array_def char_of_def bit_Suc_0_iff)
  have b: "getSfoBuffer one_game ''PCSE1'' = Inr (Some (the (file_bytes one_game [])))"
    by (simp add: getSfoBuffer_def in_app_or_patch_short) (simp add: one_game_def on_devices_def DEVICES_def STITLE_def)
  obtain g where g: "gameAdd ''A B'' ''PCSE1'' SELF_NP ?g = Inr g" "fst (game_menu g) = fst (game_menu ?g) @ [new_item MENU_NORMAL ''A B'' (Some gameEntryCB)]"
    using r by (simp add: gameAdd_def)
  have "game_found one_game ''PCSE1'' ?g = Inr g"
    using r t g(1) by (simp add: game_found_def checkIfPFS_short one_game_files b one_game_sfo)
  moreover have "game_found one_game ''OTHER'' g = Inr g" "game_found one_game [] g = Inr g"
    by (simp_all add: game_found_def checkIfPFS_short one_game_files)
  moreover have "appmeta one_game = Some [''PCSE1'', ''OTHER'']" by (simp add: one_game_def)
  moreover have "gameCount one_game [''PCSE1'', ''OTHER''] = Inr 1"
    by (subst gameCount_short) (simp_all add: one_game_files)
  ultimately have "gameGenerateMenu one_game = Inr (Some (g, 13))"
    by (simp add: gameGenerateMenu_def add_systems_list Let_def systems_placed(2))
  then show ?thesis using g(2) systems_placed(2) [of 1] by (auto simp: nth_append)
qed

theorem menu_entry_opens_game_witness:
  "\<exists>g k. gameGenerateMenu one_game = Inr (Some (g, 13)) \<and> gameEntry 13 6 (length (games g)) 13 = Some (int k) \<and>
    menu_index (games g ! k) = 13 \<and> new_item MENU_NORMAL ''A B'' (Some gameEntryCB) = new_item MENU_NORMAL (game_title (games g ! k)) (Some gameEntryCB)"
proof -
  obtain g where g: "gameGenerateMenu one_game = Inr (Some (g, 13))" "length (fst (game_menu g)) = 14"
      "fst (game_menu g) ! 13 = new_item MENU_NORMAL ''A B'' (Some gameEntryCB)" using one_game_menu by blast
  have "it_cb (fst (game_menu g) ! 13) = Some gameEntryCB" by (simp add: g(3) new_item_def content_def new_entry_def)
  from menu_entry_opens_game [OF g(1) _ this] g show ?thesis by force
qed

end
