(* ===== verification/FagQueue.thy ===== *)
theory FagQueue
  imports FagGames "HOL-Library.Sublist"
begin

text \<open>
  The queue of modules of FAGDec, \<open>src/FAGDec/src/app/dump.c\<close>: the menu in which modules wait under the title of their
  game, and the thread that works through it. The devices, licences and files are arguments.
\<close>

section \<open>The queue\<close>

text \<open>A label as a C string.\<close>

definition label_text :: "string \<Rightarrow> string" where
  "label_text s = takeWhile (\<lambda>c. c \<noteq> CHR 0x00) s"

text \<open>\<open>MenuFindType\<close> on a list: it searches from the end.\<close>

definition find_last :: "MenuType \<Rightarrow> item list \<Rightarrow> nat option" where
  "find_last t its = find (\<lambda>i. it_type (its ! i) = t) (rev [0..<length its])"

definition dumpGenerateMenu :: listing where
  "dumpGenerateMenu = meaning (Add 0 MENU_TITLE ''Modules to be decrypted'' None) ([], None)"

text \<open>\<open>titleid\<close> is that of the current game, \<open>text\<close> the label of the module in the menu of modules. \<open>None\<close>: a NULL pointer is read.\<close>

definition dumpAddEntry :: "string \<Rightarrow> string \<Rightarrow> listing \<Rightarrow> listing option" where
  "dumpAddEntry titleid text l = (case find_last MENU_DISABLE (fst l) of None \<Rightarrow> None | Some k \<Rightarrow>
     let n = length (fst l); title = (label_text (it_label (fst l ! k)) \<noteq> titleid);
         l = (if title then meaning (Add 0 MENU_SUBTITLE titleid None) l else l);
         l = meaning (Add 0 MENU_NORMAL text (Some dumpModuleEntryCB)) l;
         e = length (fst l) - 1
     in (case snd l of None \<Rightarrow> None
       | Some s \<Rightarrow> Some (if s = e - 1 \<or> title \<and> s = n - 1 then (fst l, Some e) else l)))"

text \<open>\<open>dumpAllCB\<close> over the entries behind the selected one.\<close>

fun dumpAllCB :: "string \<Rightarrow> item list \<Rightarrow> listing \<Rightarrow> listing option" where
  "dumpAllCB titleid [] l = Some l"
| "dumpAllCB titleid (it # its) l = (if it_type it = MENU_NONE
     then Option.bind (dumpAddEntry titleid (label_text (it_label it)) l) (dumpAllCB titleid its) else dumpAllCB titleid its l)"

text \<open>Cross (\<open>dumpModuleEntryCB\<close>) and circle (\<open>handleSpecInput\<close> in \<open>main.c\<close>) on the queue.\<close>

definition unmark_entry :: "listing \<Rightarrow> listing" where
  "unmark_entry l = (case snd l of None \<Rightarrow> l
     | Some s \<Rightarrow> if it_type (fst l ! s) = MENU_WARNING then meaning (Retype s MENU_NONE) l else l)"

definition press_circle :: "listing \<Rightarrow> listing" where
  "press_circle l = (case snd l of None \<Rightarrow> l
     | Some s \<Rightarrow> if it_type (fst l ! s) = MENU_WARNING then meaning (Remove s) l else meaning (Retype s MENU_WARNING) l)"

datatype queue_op = Queue string string | Circle | Cross | Arrow bool

fun queue_step :: "queue_op \<Rightarrow> listing \<Rightarrow> listing option" where
  "queue_step (Queue titleid path) l = dumpAddEntry titleid path l"
| "queue_step Circle l = Some (press_circle l)"
| "queue_step Cross l = Some (unmark_entry l)"
| "queue_step (Arrow down) l = Some (meaning (if down then Down else Up) l)"

fun queue_steps :: "queue_op list \<Rightarrow> listing \<Rightarrow> listing option" where
  "queue_steps [] l = Some l"
| "queue_steps (x # xs) l = Option.bind (queue_step x l) (queue_steps xs)"

section \<open>The titles of queued modules\<close>

text \<open>The modules of a queue, each with the subtitle above it.\<close>

fun queued :: "string \<Rightarrow> item list \<Rightarrow> (string \<times> string) list" where
  "queued t [] = []"
| "queued t (it # its) = (case it_draw it of
     MENU_SUBTITLE \<Rightarrow> queued (label_text (it_label it)) its
   | MENU_NORMAL \<Rightarrow> (t, it_label it) # queued t its
   | MENU_TITLE \<Rightarrow> queued t its)"

fun title_after :: "string \<Rightarrow> item list \<Rightarrow> string" where
  "title_after t [] = t"
| "title_after t (it # its) = title_after (if it_draw it = MENU_SUBTITLE then label_text (it_label it) else t) its"

lemma queued_append: "queued t (xs @ ys) = queued t xs @ queued (title_after t xs) ys"
  by (induction xs arbitrary: t) (simp_all split: MenuDrawType.split)

lemma title_after_append: "title_after t (xs @ ys) = title_after (title_after t xs) ys"
  by (induction xs arbitrary: t) simp_all

lemma title_after_normal: "\<forall>it \<in> set xs. it_draw it = MENU_NORMAL \<Longrightarrow> title_after t xs = t"
  by (induction xs arbitrary: t) simp_all

lemma find_last_simps: "find_last t [] = None"
  "find_last t (its @ [it]) = (if it_type it = t then Some (length its) else find_last t its)"
proof -
  show "find_last t [] = None" by (simp add: find_last_def)
  have "find (\<lambda>i. it_type ((its @ [it]) ! i) = t) (rev [0..<length its]) = find (\<lambda>i. it_type (its ! i) = t) (rev [0..<length its])"
    by (rule find_cong) (simp_all add: nth_append)
  then show "find_last t (its @ [it]) = (if it_type it = t then Some (length its) else find_last t its)"
    by (simp add: find_last_def)
qed

text \<open>The last title of a queue decides where a new module is put.\<close>

lemma find_last_split:
  assumes "find_last t its = Some k"
  shows "k < length its \<and> it_type (its ! k) = t \<and> (\<forall>i. k < i \<and> i < length its \<longrightarrow> it_type (its ! i) \<noteq> t)"
  using assms
proof (induction its rule: rev_induct)
  case (snoc it its)
  then show ?case by (auto simp: find_last_simps nth_append less_Suc_eq split: if_splits)
qed (simp add: find_last_simps)

lemma find_last_first: "its \<noteq> [] \<Longrightarrow> it_type (hd its) = t \<Longrightarrow> find_last t its \<noteq> None"
  by (induction its rule: rev_induct) (auto simp: find_last_simps hd_append split: if_splits)

definition queue_ok :: "listing \<Rightarrow> bool" where
  "queue_ok l \<longleftrightarrow> fst l \<noteq> [] \<and> it_draw (hd (fst l)) = MENU_TITLE \<and> label_text (it_label (hd (fst l))) = ''Modules to be decrypted'' \<and>
     (\<forall>it \<in> set (tl (fst l)). it_draw it \<noteq> MENU_TITLE) \<and>
     (\<forall>it \<in> set (fst l). (it_draw it = MENU_NORMAL) = (it_type it \<noteq> MENU_DISABLE)) \<and> selection_ok l"

lemma new_item_fields [simp]: "it_draw (new_item dt s cb) = dt" "it_type (new_item dt s cb) = (if dt \<noteq> MENU_NORMAL then MENU_DISABLE else MENU_NONE)"
  "it_label (new_item dt s cb) = strncpy 128 s"
  by (simp_all add: new_item_def content_def new_entry_def)

lemma label_text_strncpy:
  assumes "CHR 0x00 \<notin> set s" "length s < n"
  shows "label_text (strncpy n s) = s"
proof -
  have "takeWhile (\<lambda>c. c \<noteq> CHR 0x00) (s @ replicate (n - length s) (CHR 0x00)) = s @ takeWhile (\<lambda>c. c \<noteq> CHR 0x00) (replicate (n - length s) (CHR 0x00))"
    by (rule takeWhile_append2) (use assms(1) in auto)
  also have "\<dots> = s" by (cases "n - length s") simp_all
  finally show ?thesis using assms(2) by (simp add: label_text_def strncpy_def)
qed

lemma queue_ok_start: "queue_ok dumpGenerateMenu"
  by (simp add: queue_ok_def dumpGenerateMenu_def selection_ok_def label_text_strncpy)

lemma queue_ok_append:
  assumes "queue_ok l" "dt \<noteq> MENU_TITLE"
  shows "queue_ok (meaning (Add 0 dt s cb) l)"
proof -
  have "selection_ok (meaning (Add 0 dt s cb) l)" using assms(1) by (intro selection_ok_meaning) (auto simp: queue_ok_def)
  then show ?thesis using assms by (auto simp: queue_ok_def)
qed

text \<open>The title under which a new module lands.\<close>

lemma queue_title:
  assumes "queue_ok l" "find_last MENU_DISABLE (fst l) = Some k"
  shows "label_text (it_label (fst l ! k)) = (if k = 0 then ''Modules to be decrypted'' else title_after [] (fst l))"
proof -
  let ?its = "fst l"
  have k: "k < length ?its" "it_type (?its ! k) = MENU_DISABLE" "\<forall>i. k < i \<and> i < length ?its \<longrightarrow> it_type (?its ! i) \<noteq> MENU_DISABLE"
    using find_last_split [OF assms(2)] by auto
  have its: "?its = take k ?its @ ?its ! k # drop (Suc k) ?its" by (rule id_take_nth_drop [OF k(1)])
  have "\<forall>it \<in> set (drop (Suc k) ?its). it_draw it = MENU_NORMAL"
  proof
    fix it assume "it \<in> set (drop (Suc k) ?its)"
    then obtain i where "it = ?its ! (Suc k + i)" "Suc k + i < length ?its" by (auto simp: in_set_conv_nth)
    then show "it_draw it = MENU_NORMAL" using k(3) assms(1) by (auto simp: queue_ok_def)
  qed
  then have t: "title_after [] ?its = (if it_draw (?its ! k) = MENU_SUBTITLE then label_text (it_label (?its ! k)) else title_after [] (take k ?its))"
    by (subst its) (simp add: title_after_append title_after_normal)
  show ?thesis
  proof (cases "k = 0")
    case True
    then show ?thesis using assms(1) by (cases ?its) (simp_all add: queue_ok_def)
  next
    case False
    then have "?its ! k \<in> set (tl ?its)" using k(1) by (cases ?its) (auto simp: nth_Cons')
    then have "it_draw (?its ! k) \<noteq> MENU_TITLE" "it_draw (?its ! k) \<noteq> MENU_NORMAL" using assms(1) k(1,2) by (auto simp: queue_ok_def)
    then have "it_draw (?its ! k) = MENU_SUBTITLE" by (cases "it_draw (?its ! k)") auto
    then show ?thesis using False t by simp
  qed
qed

lemma dumpAddEntry_queues:
  assumes "queue_ok l" "CHR 0x00 \<notin> set titleid" "length titleid \<le> 20"
  shows "\<exists>l'. dumpAddEntry titleid path l = Some l' \<and> queue_ok l' \<and> queued [] (fst l') = queued [] (fst l) @ [(titleid, strncpy 128 path)]"
proof -
  obtain k where k: "find_last MENU_DISABLE (fst l) = Some k"
  proof -
    have "hd (fst l) \<in> set (fst l)" using assms(1) by (simp add: queue_ok_def)
    then have "(it_draw (hd (fst l)) = MENU_NORMAL) = (it_type (hd (fst l)) \<noteq> MENU_DISABLE)" using assms(1) unfolding queue_ok_def by blast
    then have "it_type (hd (fst l)) = MENU_DISABLE" using assms(1) by (simp add: queue_ok_def)
    then have "find_last MENU_DISABLE (fst l) \<noteq> None" using find_last_first [of "fst l"] assms(1) by (simp add: queue_ok_def)
    then show "(\<And>k. find_last MENU_DISABLE (fst l) = Some k \<Longrightarrow> thesis) \<Longrightarrow> thesis" by blast
  qed
  define title where "title = (label_text (it_label (fst l ! k)) \<noteq> titleid)"
  define l1 where "l1 = (if title then meaning (Add 0 MENU_SUBTITLE titleid None) l else l)"
  define l2 where "l2 = meaning (Add 0 MENU_NORMAL path (Some dumpModuleEntryCB)) l1"
  have ok: "queue_ok l1" "queue_ok l2" using assms(1) by (simp_all add: l1_def l2_def queue_ok_append)
  have "titleid \<noteq> ''Modules to be decrypted''" using assms(3) by auto
  then have "title_after [] (fst l1) = titleid"
    using queue_title [OF assms(1) k] assms(2,3) by (auto simp: l1_def title_def title_after_append label_text_strncpy split: if_splits)
  moreover have "queued [] (fst l1) = queued [] (fst l)" by (simp add: l1_def queued_append)
  ultimately have q: "queued [] (fst l2) = queued [] (fst l) @ [(titleid, strncpy 128 path)]"
    by (simp add: l2_def queued_append)
  obtain s where s: "snd l2 = Some s" by (cases l1; cases "snd l1") (auto simp: l2_def)
  let ?e = "length (fst l2) - 1"
  have e: "fst l2 ! ?e = new_item MENU_NORMAL path (Some dumpModuleEntryCB)" "?e < length (fst l2)" by (simp_all add: l2_def)
  have "queue_ok (fst l2, Some ?e)"
    using ok(2) e by (auto simp: queue_ok_def selection_ok_def enabled_def)
  moreover have "dumpAddEntry titleid path l = Some (if s = ?e - 1 \<or> title \<and> s = length (fst l) - 1 then (fst l2, Some ?e) else l2)"
    using k s by (simp add: dumpAddEntry_def Let_def title_def [symmetric] l1_def [symmetric] l2_def [symmetric])
  ultimately show ?thesis using ok(2) q by auto
qed

text \<open>Marking, deleting and moving keep the queue well formed; only deleting changes what is queued.\<close>

lemma queue_ok_retype:
  assumes "queue_ok l" "snd l = Some s" "t \<noteq> MENU_DISABLE"
  shows "queue_ok (meaning (Retype s t) l) \<and> queued u (fst (meaning (Retype s t) l)) = queued u (fst l)"
proof -
  obtain its where l: "l = (its, Some s)" using assms(2) by (cases l) simp
  have s: "s < length its" "enabled its s" using assms(1) by (simp_all add: queue_ok_def selection_ok_def l)
  let ?it = "(its ! s)\<lparr>it_type := t\<rparr>"
  have m: "meaning (Retype s t) l = (its[s := ?it], Some s)" using s by (simp add: l)
  have n: "it_draw (its ! s) = MENU_NORMAL" using assms(1) s by (simp add: queue_ok_def l enabled_def)
  have "its = take s its @ its ! s # drop (Suc s) its" by (rule id_take_nth_drop [OF s(1)])
  moreover have u: "its[s := ?it] = take s its @ ?it # drop (Suc s) its" by (rule upd_conv_take_nth_drop [OF s(1)])
  ultimately have "queued u (its[s := ?it]) = queued u its"
    using n by (metis (no_types, lifting) queued_append queued.simps(2) item.simps(1,6) item.update_convs(2) item.select_convs(1,4) item.surjective)
  moreover have "selection_ok (its[s := ?it], Some s)"
    using s assms(3) by (simp add: selection_ok_def enabled_def)
  moreover have "s \<noteq> 0" using n assms(1) by (cases its) (auto simp: queue_ok_def l)
  then have "hd (its[s := ?it]) = hd its" "tl (its[s := ?it]) = (tl its)[s - 1 := ?it]" using s(1) by (cases its; cases s; simp)+
  ultimately show ?thesis
    using assms(1,3) n by (auto simp: m queue_ok_def l dest!: set_update_subset_insert [THEN subsetD])
qed

lemma subseq_insert: "subseq (xs @ ys) (xs @ y # ys)"
  by (induction xs) auto

lemma queue_ok_remove:
  assumes "queue_ok l" "snd l = Some s"
  shows "queue_ok (meaning (Remove s) l) \<and> subseq (queued u (fst (meaning (Remove s) l))) (queued u (fst l))"
proof -
  obtain its where l: "l = (its, Some s)" using assms(2) by (cases l) simp
  have s: "s < length its" "enabled its s" using assms(1) by (simp_all add: queue_ok_def selection_ok_def l)
  then have n: "it_draw (its ! s) = MENU_NORMAL" using assms(1) by (simp add: queue_ok_def l enabled_def)
  have i: "its = take s its @ its ! s # drop (Suc s) its" by (rule id_take_nth_drop [OF s(1)])
  have "queued u its = queued u (take s its) @ (title_after u (take s its), it_label (its ! s)) # queued (title_after u (take s its)) (drop (Suc s) its)"
    by (subst i) (simp add: queued_append n)
  moreover have "queued u (without s its) = queued u (take s its) @ queued (title_after u (take s its)) (drop (Suc s) its)"
    by (simp add: without_def queued_append)
  ultimately have q: "subseq (queued u (without s its)) (queued u its)" by (simp add: subseq_insert)
  have "s \<noteq> 0" using n assms(1) by (cases its) (auto simp: queue_ok_def l)
  then have h: "without s its \<noteq> []" "hd (without s its) = hd its" "set (tl (without s its)) \<subseteq> set (tl its)" "set (without s its) \<subseteq> set its"
    using s(1) by (cases its; cases s; auto simp: without_def dest: in_set_takeD in_set_dropD)+
  have "selection_ok (meaning (Remove s) l)" using assms(1) by (intro selection_ok_meaning) (auto simp: queue_ok_def)
  then show ?thesis using assms(1) q h s(1) by (auto simp: queue_ok_def l)
qed

text \<open>What the user asked for, in order.\<close>

fun requests :: "queue_op list \<Rightarrow> (string \<times> string) list" where
  "requests [] = []"
| "requests (Queue t p # xs) = (t, strncpy 128 p) # requests xs"
| "requests (_ # xs) = requests xs"

definition titles_ok :: "queue_op list \<Rightarrow> bool" where
  "titles_ok xs \<longleftrightarrow> (\<forall>t p. Queue t p \<in> set xs \<longrightarrow> length t \<le> 20 \<and> CHR 0x00 \<notin> set t)"

lemma queue_step_keeps:
  assumes "queue_ok l" "titles_ok [x]"
  shows "\<exists>l'. queue_step x l = Some l' \<and> queue_ok l' \<and> subseq (queued [] (fst l')) (queued [] (fst l) @ requests [x]) \<and>
    (x \<noteq> Circle \<longrightarrow> queued [] (fst l') = queued [] (fst l) @ requests [x])"
proof (cases x)
  case (Queue t p)
  then have "CHR 0x00 \<notin> set t" "length t \<le> 20" using assms(2) by (auto simp: titles_ok_def)
  from dumpAddEntry_queues [OF assms(1) this, of p] show ?thesis by (auto simp: Queue)
next
  case Circle
  then show ?thesis
    using assms(1) queue_ok_retype [OF assms(1)] queue_ok_remove [OF assms(1)] by (auto simp: press_circle_def split: option.split)
next
  case Cross
  then show ?thesis
    using assms(1) queue_ok_retype [OF assms(1)] by (auto simp: unmark_entry_def split: option.split)
next
  case (Arrow down)
  have "selection_ok (meaning (if down then Down else Up) l)" using assms(1) by (intro selection_ok_meaning) (auto simp: queue_ok_def)
  moreover have "fst (meaning (if down then Down else Up) l) = fst l" by (cases l) simp
  ultimately show ?thesis using assms(1) by (auto simp: Arrow queue_ok_def)
qed

lemma queue_steps_keep:
  assumes "queue_ok l" "titles_ok xs"
  shows "\<exists>l'. queue_steps xs l = Some l' \<and> queue_ok l' \<and> subseq (queued [] (fst l')) (queued [] (fst l) @ requests xs) \<and>
    (Circle \<notin> set xs \<longrightarrow> queued [] (fst l') = queued [] (fst l) @ requests xs)"
  using assms
proof (induction xs arbitrary: l)
  case (Cons x xs)
  have r: "requests (x # xs) = requests [x] @ requests xs" by (cases x) simp_all
  have t: "titles_ok [x]" "titles_ok xs" using Cons.prems(2) by (auto simp: titles_ok_def)
  obtain l1 where l1: "queue_step x l = Some l1" "queue_ok l1" "subseq (queued [] (fst l1)) (queued [] (fst l) @ requests [x])"
      "x \<noteq> Circle \<longrightarrow> queued [] (fst l1) = queued [] (fst l) @ requests [x]"
    using queue_step_keeps [OF Cons.prems(1) t(1)] by blast
  obtain l2 where l2: "queue_steps xs l1 = Some l2" "queue_ok l2" "subseq (queued [] (fst l2)) (queued [] (fst l1) @ requests xs)"
      "Circle \<notin> set xs \<longrightarrow> queued [] (fst l2) = queued [] (fst l1) @ requests xs"
    using Cons.IH [OF l1(2) t(2)] by blast
  have "subseq (queued [] (fst l1) @ requests xs) ((queued [] (fst l) @ requests [x]) @ requests xs)"
    using l1(3) by (simp only: subseq_append)
  then have "subseq (queued [] (fst l2)) ((queued [] (fst l) @ requests [x]) @ requests xs)"
    by (rule subseq_order.trans [OF l2(3)])
  then show ?case using l1 l2 unfolding r by auto
qed simp

section \<open>The thread that works through the queue\<close>

text \<open>
  What the thread finds: which directories can be mounted, the first entry of a licence directory with the result of the
  read (\<open>None\<close>: not opened), the name of the licence, the first \<open>0x1000\<close> bytes of a module, and whether all files of a
  module could be written in the end.
\<close>

record fag_world =
  w_files :: vita_files
  w_mounts :: "string \<Rightarrow> bool"
  w_licence_dir :: "string \<Rightarrow> (int \<times> string) option"
  w_rif_name :: string
  w_self :: "string \<Rightarrow> u8 list option"
  w_written :: "string \<Rightarrow> bool"

text \<open>Mounting and unmounting, and a module with its title id, \<open>path_id\<close>, \<open>self_type\<close>, licence and the path for its authentication data.\<close>

datatype work = Mounted string | Unmounted | Decrypted string string int nat "string option" string

text \<open>The variables that live through the loop.\<close>

record walk =
  w_title :: string
  w_auth :: bool
  w_system :: bool
  w_rif :: string

text \<open>The title that is asked for is not used: the path is made of the current game.\<close>

definition gamePfsDecrypt :: "fag_world \<Rightarrow> string \<Rightarrow> string option" where
  "gamePfsDecrypt w current = find (w_mounts w) (map (\<lambda>d. d @ ''/app/'' @ current) DEVICES)"

text \<open>The two loops that look for a licence, with \<open>res\<close> and \<open>rif_path\<close>.\<close>

fun find_rif_file :: "fag_world \<Rightarrow> string \<Rightarrow> string list \<Rightarrow> int \<times> string \<Rightarrow> int \<times> string" where
  "find_rif_file w t [] r = r"
| "find_rif_file w t (d # ds) r = (let p = d @ ''license/app/'' @ t @ ''/'' @ w_rif_name w in
     if path_there (w_files w) p then (0, p) else find_rif_file w t ds (-1, p))"

fun find_rif_dir :: "fag_world \<Rightarrow> string \<Rightarrow> string list \<Rightarrow> int \<times> string \<Rightarrow> int \<times> string" where
  "find_rif_dir w t [] r = r"
| "find_rif_dir w t (d # ds) r = (let p = d @ ''license/app/'' @ t in case w_licence_dir w p of
     None \<Rightarrow> find_rif_dir w t ds (fst r, p)
   | Some (res, name) \<Rightarrow> if res > 0 then (0, p @ ''/'' @ name) else find_rif_dir w t ds (res, p))"

definition find_rif :: "fag_world \<Rightarrow> string \<Rightarrow> int \<times> string" where
  "find_rif w t = (let r = find_rif_file w t DEVICES (0, []) in if fst r \<noteq> 0 then find_rif_dir w t DEVICES r else r)"

text \<open>What follows the device; and the name of the second directory, cut to 20 characters. Without a colon or slash NULL is used.\<close>

definition dumpFindPath :: "string \<Rightarrow> self_fault + string" where
  "dumpFindPath path = (case dropWhile (\<lambda>c. c \<noteq> CHR '':'') path of [] \<Rightarrow> Inl OutOfFile
     | _ # r \<Rightarrow> Inr (if take 1 r = ''/'' then tl r else r))"

definition dumpExtractTitleId :: "string \<Rightarrow> self_fault + string" where
  "dumpExtractTitleId path = ebind (dumpFindPath path) (\<lambda>r. case dropWhile (\<lambda>c. c \<noteq> CHR ''/'') r of [] \<Rightarrow> Inl OutOfFile
     | _ # r \<Rightarrow> if CHR ''/'' \<in> set r then Inr (take 20 (takeWhile (\<lambda>c. c \<noteq> CHR ''/'') r)) else Inl OutOfFile)"

definition contains :: "string \<Rightarrow> string \<Rightarrow> bool" where
  "contains s t = (strstr s t \<noteq> None)"

text \<open>\<open>path_id\<close>, \<open>self_type\<close> and \<open>rifpath\<close> of a module, and what changes in the variables.\<close>

definition path_id_of :: "string \<Rightarrow> int" where
  "path_id_of path = (if contains path ''app_em'' then 23 else if contains path ''patch_em'' then 24
     else if contains path ''vs0_em'' then 3 else if contains path ''os0_em'' then 2 else -1)"

definition module_params :: "fag_world \<Rightarrow> walk \<Rightarrow> string \<Rightarrow> self_fault + walk \<times> int \<times> nat \<times> string option" where
  "module_params w st path = (if \<not> w_system st then Inr (st, -1, 1, Some (w_rif st))
     else (let stype = (if contains path ''os0'' \<and> contains path ''.skprx'' then 0 else 1); pid = path_id_of path in
       if pid = 24 \<or> pid = 23 then ebind (dumpExtractTitleId path) (\<lambda>t.
         let rif = ''ux0:app_em/'' @ t @ ''/sce_sys/package/work.bin'' in
         Inr (st\<lparr>w_auth := True, w_title := t, w_rif := rif\<rparr>, pid, stype, if path_there (w_files w) rif then Some rif else None))
       else Inr (st, pid, stype, None)))"

text \<open>\<open>out\<close> is the path of the temporary ELF file.\<close>

definition auth_path :: "walk \<Rightarrow> string \<Rightarrow> self_fault + string" where
  "auth_path st out = (let old = out @ ''.auth'' in
     if \<not> w_auth st then (case strstr old ''.temp'' of None \<Rightarrow> Inl OutOfFile | Some k \<Rightarrow> Inr (take k old @ ''.auth''))
     else (case strstr old (w_title st) of None \<Rightarrow> Inl OutOfFile
       | Some k \<Rightarrow> Inr (take (k + length (w_title st) + 1) old @ ''self_auth.bin'')))"

text \<open>
  One module: the variables, what is done, and whether the end of the loop body is reached. When the module cannot be read
  its buffer is freed and then used.
\<close>

definition module_step :: "fag_world \<Rightarrow> walk \<Rightarrow> string \<Rightarrow> self_fault + walk \<times> work list \<times> bool" where
  "module_step w st path = ebind (dumpFindPath path) (\<lambda>rel. case w_self w path of None \<Rightarrow> Inl OutOfFile
     | Some self \<Rightarrow> ebind (module_params w st path) (\<lambda>(st, pid, stype, rif).
         let decrypt = ebind (auth_path st (''ux0:/FAGDec/'' @ rel @ ''.elf.temp'')) (\<lambda>a.
           Inr (st, [Decrypted path (w_title st) pid stype rif a], w_written w path)) in
         if w_auth st then ebind (get64 self 0x38) (\<lambda>ao. ebind (get32 self (ao + 12)) (\<lambda>ty.
           if ty \<noteq> 8 then Inr (st, [], False) else decrypt))
         else decrypt))"

definition dumpSkipGame :: "item list \<Rightarrow> item list" where
  "dumpSkipGame its = dropWhile (\<lambda>it. it_type it \<noteq> MENU_DISABLE) its"

definition leave :: "item list \<Rightarrow> work list" where
  "leave its = (if its = [] \<or> it_draw (hd its) = MENU_SUBTITLE then [Unmounted] else [])"

text \<open>The loop; \<open>current\<close> is the title id of the game that is open in the other menu.\<close>

function dump_walk :: "fag_world \<Rightarrow> string \<Rightarrow> item list \<Rightarrow> walk \<Rightarrow> self_fault + work list" where
  "dump_walk w current [] st = Inr []"
| "dump_walk w current (it # its) st = (case it_draw it of
     MENU_SUBTITLE \<Rightarrow> (let t = take 20 (label_text (it_label it)) in
       if t = ''SYSTEM'' then dump_walk w current its (st\<lparr>w_title := t, w_auth := False, w_system := True\<rparr>)
       else (case gamePfsDecrypt w current of
         None \<Rightarrow> dump_walk w current (dumpSkipGame its) (st\<lparr>w_title := t, w_auth := True, w_system := False\<rparr>)
       | Some d \<Rightarrow> if fst (find_rif w t) \<noteq> 0
           then ebind (dump_walk w current (dumpSkipGame its) (st\<lparr>w_title := t, w_auth := True, w_system := False, w_rif := snd (find_rif w t)\<rparr>))
             (\<lambda>r. Inr (Mounted d # r))
           else ebind (dump_walk w current its (st\<lparr>w_title := t, w_auth := True, w_system := False, w_rif := snd (find_rif w t)\<rparr>))
             (\<lambda>r. Inr (Mounted d # leave its @ r))))
   | MENU_NORMAL \<Rightarrow> (case module_step w st (label_text (it_label it)) of Inl e \<Rightarrow> Inl e
       | Inr (st, done, at_end) \<Rightarrow> ebind (dump_walk w current its st) (\<lambda>r. Inr (done @ (if at_end then leave its else []) @ r)))
   | MENU_TITLE \<Rightarrow> ebind (dump_walk w current its st) (\<lambda>r. Inr (leave its @ r)))"
  by pat_completeness auto
termination
  by (relation "measure (\<lambda>(w, c, its, st). length its)")
     (auto simp: dumpSkipGame_def le_imp_less_Suc length_dropWhile_le)

section \<open>What is decrypted\<close>

declare dump_walk.simps(2) [simp del]

fun decryptions :: "work list \<Rightarrow> (string \<times> string) list" where
  "decryptions [] = []"
| "decryptions (Decrypted path t pid stype rif a # ws) = (t, path) # decryptions ws"
| "decryptions (_ # ws) = decryptions ws"

lemma decryptions_append: "decryptions (xs @ ys) = decryptions xs @ decryptions ys"
  by (induction xs rule: decryptions.induct) simp_all

lemma decryptions_leave [simp]: "decryptions (leave its) = []"
  by (simp add: leave_def)

definition licensed :: "fag_world \<Rightarrow> string \<Rightarrow> bool" where
  "licensed w t \<longleftrightarrow> fst (find_rif w t) = 0"

text \<open>The type in the header of a module; the thread decrypts those of games (8) and passes over the others.\<close>

definition self_type :: "fag_world \<Rightarrow> string \<Rightarrow> nat option" where
  "self_type w path = (case w_self w path of None \<Rightarrow> None | Some self \<Rightarrow>
     (case ebind (get64 self 0x38) (\<lambda>ao. get32 self (ao + 12)) of Inl _ \<Rightarrow> None | Inr ty \<Rightarrow> Some ty))"

definition of_game :: "fag_world \<Rightarrow> string \<times> string \<Rightarrow> bool" where
  "of_game w m \<longleftrightarrow> self_type w (snd m) = Some 8"

text \<open>A module that the thread can handle: its path has a device, it can be read, and when it is that of a game, it lies under its title.\<close>

definition module_ok :: "fag_world \<Rightarrow> string \<Rightarrow> string \<Rightarrow> bool" where
  "module_ok w t path \<longleftrightarrow> self_type w path \<noteq> None \<and> (\<exists>rel. dumpFindPath path = Inr rel \<and>
     (self_type w path = Some 8 \<longrightarrow> contains (''ux0:/FAGDec/'' @ rel @ ''.elf.temp.auth'') t))"

lemma module_step_ok:
  assumes "module_ok w (w_title st) path" "w_auth st" "\<not> w_system st"
  shows "\<exists>evs b. module_step w st path = Inr (st, evs, b) \<and> decryptions evs = filter (of_game w) [(w_title st, path)]"
proof -
  obtain rel ty where p: "dumpFindPath path = Inr rel" "self_type w path = Some ty"
      "ty = 8 \<Longrightarrow> contains (''ux0:/FAGDec/'' @ rel @ ''.elf.temp.auth'') (w_title st)"
    using assms(1) by (auto simp: module_ok_def)
  then obtain self ao where "w_self w path = Some self" "get64 self 0x38 = Inr ao" "get32 self (ao + 12) = Inr ty"
    by (auto simp: self_type_def ebind_Inr split: option.splits sum.splits)
  then show ?thesis
    using p assms(2,3) by (cases "ty = 8") (auto simp: of_game_def module_step_def module_params_def auth_path_def contains_def Let_def)
qed

text \<open>The queue as the thread needs it: games only, with the titles and the modules in order.\<close>

definition games_only :: "item list \<Rightarrow> bool" where
  "games_only its \<longleftrightarrow> (\<forall>it \<in> set its. it_draw it \<noteq> MENU_TITLE \<and> (it_draw it = MENU_NORMAL) = (it_type it \<noteq> MENU_DISABLE) \<and>
     (it_draw it = MENU_SUBTITLE \<longrightarrow> label_text (it_label it) \<noteq> ''SYSTEM'' \<and> length (label_text (it_label it)) \<le> 20))"

definition chosen :: "fag_world \<Rightarrow> (string \<times> string) list \<Rightarrow> (string \<times> string) list" where
  "chosen w ms = filter (licensed w \<circ> fst) (map (\<lambda>(t, p). (t, label_text p)) ms)"

lemma chosen_append: "chosen w (xs @ ys) = chosen w xs @ chosen w ys"
  by (simp add: chosen_def)

lemma chosen_skip:
  assumes "games_only its" "\<not> licensed w t"
  shows "chosen w (queued t its) = chosen w (queued u (dumpSkipGame its))"
  using assms
proof (induction its)
  case (Cons it its)
  then have IH: "chosen w (queued t its) = chosen w (queued u (dumpSkipGame its))"
    and it: "it_draw it \<noteq> MENU_TITLE" "(it_draw it = MENU_NORMAL) = (it_type it \<noteq> MENU_DISABLE)" by (simp_all add: games_only_def)
  show ?case
  proof (cases "it_draw it")
    case MENU_NORMAL
    then show ?thesis using IH it Cons.prems(2) by (simp add: dumpSkipGame_def chosen_def)
  qed (use it in \<open>simp_all add: dumpSkipGame_def\<close>)
qed (simp add: dumpSkipGame_def)

lemma skip_head: "dumpSkipGame its = [] \<or> it_type (hd (dumpSkipGame its)) = MENU_DISABLE"
  using hd_dropWhile [of "\<lambda>it. it_type it \<noteq> MENU_DISABLE" its] by (auto simp: dumpSkipGame_def)

lemma games_only_skip: "games_only its \<Longrightarrow> games_only (dumpSkipGame its)"
  unfolding games_only_def dumpSkipGame_def by (meson set_dropWhileD)

lemma skip_game:
  assumes "games_only its"
  shows "dumpSkipGame its = [] \<or> it_draw (hd (dumpSkipGame its)) = MENU_SUBTITLE"
proof (cases "dumpSkipGame its = []")
  case False
  then have "hd (dumpSkipGame its) \<in> set (dumpSkipGame its)" by simp
  then have "it_draw (hd (dumpSkipGame its)) \<noteq> MENU_TITLE \<and>
      (it_draw (hd (dumpSkipGame its)) = MENU_NORMAL) = (it_type (hd (dumpSkipGame its)) \<noteq> MENU_DISABLE)"
    using games_only_skip [OF assms] by (auto simp: games_only_def)
  then show ?thesis using skip_head [of its] False by (cases "it_draw (hd (dumpSkipGame its))") auto
qed simp

text \<open>Without the data of the current game every game is passed over.\<close>

lemma walk_unmounted:
  assumes "gamePfsDecrypt w current = None" "games_only its" "its = [] \<or> it_draw (hd its) = MENU_SUBTITLE"
  shows "dump_walk w current its st = Inr []"
  using assms(2,3)
proof (induction "length its" arbitrary: its st rule: less_induct)
  case less
  show ?case
  proof (cases its)
    case (Cons it rest)
    have g: "games_only rest" using less.prems(1) by (simp add: games_only_def Cons)
    have it: "it_draw it = MENU_SUBTITLE" "label_text (it_label it) \<noteq> ''SYSTEM''" "take 20 (label_text (it_label it)) = label_text (it_label it)"
      using less.prems by (auto simp: games_only_def Cons)
    have l: "length (dumpSkipGame rest) < length its" by (simp add: Cons dumpSkipGame_def le_imp_less_Suc length_dropWhile_le)
    show ?thesis
      using less.hyps [OF l games_only_skip [OF g] skip_game [OF g]] it assms(1) by (simp add: Cons dump_walk.simps(2) Let_def)
  qed simp
qed

lemma walk_decrypts:
  assumes "gamePfsDecrypt w current = Some d" "games_only its"
    and "\<forall>(t, p) \<in> set (chosen w (queued t its)). module_ok w t p"
    and "w_title st = t \<and> w_auth st \<and> \<not> w_system st \<and> licensed w t \<or> its = [] \<or> it_draw (hd its) = MENU_SUBTITLE"
  shows "\<exists>evs. dump_walk w current its st = Inr evs \<and> decryptions evs = filter (of_game w) (chosen w (queued t its))"
  using assms(2-)
proof (induction "length its" arbitrary: its st t rule: less_induct)
  case less
  show ?case
  proof (cases its)
    case Nil
    then show ?thesis by (simp add: chosen_def)
  next
    case (Cons it rest)
    have g: "games_only rest" using less.prems(1) by (simp add: games_only_def Cons)
    show ?thesis
    proof (cases "it_draw it")
      case MENU_TITLE
      then show ?thesis using less.prems(1) by (simp add: games_only_def Cons)
    next
      case MENU_NORMAL
      then have st: "w_title st = t" "w_auth st" "\<not> w_system st" "licensed w t" using less.prems(3) by (auto simp: Cons)
      let ?p = "label_text (it_label it)"
      have c: "chosen w (queued t its) = (t, ?p) # chosen w (queued t rest)"
        using st(4) by (simp add: Cons MENU_NORMAL chosen_def)
      then have "module_ok w (w_title st) ?p" using less.prems(2) st(1) by simp
      from module_step_ok [OF this st(2,3)] obtain evs b where m: "module_step w st ?p = Inr (st, evs, b)" "decryptions evs = filter (of_game w) [(t, ?p)]"
        using st(1) by auto
      obtain r where "dump_walk w current rest st = Inr r" "decryptions r = filter (of_game w) (chosen w (queued t rest))"
        using less.hyps [of rest t st] g st less.prems(2) c by (auto simp: Cons)
      then show ?thesis
        using m c by (simp add: Cons dump_walk.simps(2) MENU_NORMAL decryptions_append)
    next
      case MENU_SUBTITLE
      let ?t = "label_text (it_label it)"
      have it: "?t \<noteq> ''SYSTEM''" "take 20 ?t = ?t" using less.prems(1) MENU_SUBTITLE by (auto simp: games_only_def Cons)
      let ?st = "st\<lparr>w_title := ?t, w_auth := True, w_system := False, w_rif := snd (find_rif w ?t)\<rparr>"
      have c: "chosen w (queued t its) = chosen w (queued ?t rest)" by (simp add: Cons MENU_SUBTITLE)
      show ?thesis
      proof (cases "licensed w ?t")
        case True
        obtain r where "dump_walk w current rest ?st = Inr r" "decryptions r = filter (of_game w) (chosen w (queued ?t rest))"
          using less.hyps [of rest ?t ?st] g True less.prems(2) c by (auto simp: Cons)
        then show ?thesis
          using it True c assms(1) by (simp add: Cons dump_walk.simps(2) MENU_SUBTITLE Let_def licensed_def decryptions_append)
      next
        case False
        let ?rest = "dumpSkipGame rest"
        have l: "length ?rest < length its" by (simp add: Cons dumpSkipGame_def le_imp_less_Suc length_dropWhile_le)
        have s: "chosen w (queued ?t rest) = chosen w (queued ?t ?rest)" by (rule chosen_skip [OF g False])
        obtain r where "dump_walk w current ?rest ?st = Inr r" "decryptions r = filter (of_game w) (chosen w (queued ?t ?rest))"
          using less.hyps [OF l games_only_skip [OF g], of ?t ?st] skip_game [OF g] less.prems(2) c s by auto
        then show ?thesis
          using it False c s assms(1) by (simp add: Cons dump_walk.simps(2) MENU_SUBTITLE Let_def licensed_def)
      qed
    qed
  qed
qed

section \<open>From the user to the decrypter\<close>

lemma subseq_set: "subseq xs ys \<Longrightarrow> set xs \<subseteq> set ys"
  by (auto elim: list_emb_set)

definition subtitles :: "item list \<Rightarrow> string set" where
  "subtitles its = {label_text (it_label it) | it. it \<in> set its \<and> it_draw it = MENU_SUBTITLE}"

lemma subtitles_append: "subtitles (xs @ ys) = subtitles xs \<union> subtitles ys"
  by (auto simp: subtitles_def)

lemma subtitles_retype: "subtitles (fst (meaning (Retype k t) l)) \<subseteq> subtitles (fst l)"
proof (cases l)
  case (Pair its sel)
  have "label_text (it_label it) \<in> subtitles its"
    if it: "it \<in> set (its[k := (its ! k)\<lparr>it_type := t\<rparr>])" "it_draw it = MENU_SUBTITLE" "k < length its" for it
  proof -
    have "it \<in> set its \<or> it = (its ! k)\<lparr>it_type := t\<rparr>" using set_update_subset_insert it(1) by fastforce
    then have "it \<in> set its \<or> it_draw (its ! k) = MENU_SUBTITLE \<and> it_label it = it_label (its ! k)" using it(2) by auto
    then show ?thesis using it(2,3) nth_mem by (fastforce simp: subtitles_def)
  qed
  then show ?thesis by (auto simp: Pair subtitles_def)
qed

lemma subtitles_remove: "subtitles (fst (meaning (Remove k) l)) \<subseteq> subtitles (fst l)"
  by (cases l) (auto simp: subtitles_def without_def dest: in_set_takeD in_set_dropD)

lemma subtitles_step:
  assumes "queue_step x l = Some l'" "titles_ok [x]"
  shows "subtitles (fst l') \<subseteq> subtitles (fst l) \<union> fst ` set (requests [x])"
proof (cases x)
  case (Queue t p)
  have n: "label_text (strncpy 128 t) = t" using assms(2) by (auto simp: Queue titles_ok_def intro: label_text_strncpy)
  have i: "subtitles [new_item MENU_SUBTITLE t cb] = {t}" "subtitles [new_item MENU_NORMAL q cb] = {}"
      "subtitles [new_item MENU_SUBTITLE t cb, new_item MENU_NORMAL q cb'] = {t}" for q cb cb'
    using n by (auto simp: subtitles_def intro: exI [of _ "new_item MENU_SUBTITLE t cb"])
  show ?thesis
    using assms(1) by (auto simp: Queue dumpAddEntry_def Let_def subtitles_append i split: option.splits if_splits)
next
  case Circle
  have "subtitles (fst (press_circle l)) \<subseteq> subtitles (fst l)"
    unfolding press_circle_def using subtitles_retype subtitles_remove by (simp split: option.split)
  then show ?thesis using assms(1) Circle by auto
next
  case Cross
  have "subtitles (fst (unmark_entry l)) \<subseteq> subtitles (fst l)"
    unfolding unmark_entry_def using subtitles_retype by (simp split: option.split)
  then show ?thesis using assms(1) Cross by auto
next
  case (Arrow down)
  then show ?thesis using assms(1) by (cases l; cases down) auto
qed

lemma subtitles_steps:
  assumes "queue_steps xs l = Some l'" "titles_ok xs"
  shows "subtitles (fst l') \<subseteq> subtitles (fst l) \<union> fst ` set (requests xs)"
  using assms
proof (induction xs arbitrary: l)
  case (Cons x xs)
  have r: "requests (x # xs) = requests [x] @ requests xs" by (cases x) simp_all
  have t: "titles_ok [x]" "titles_ok xs" using Cons.prems(2) by (auto simp: titles_ok_def)
  obtain l1 where l1: "queue_step x l = Some l1" "queue_steps xs l1 = Some l'" using Cons.prems(1) by (auto simp: bind_eq_Some_conv)
  show ?case using Cons.IH [OF l1(2) t(2)] subtitles_step [OF l1(1) t(1)] unfolding r by auto
qed simp

lemma dump_walk_title:
  assumes "it_draw (hd its) = MENU_TITLE" "its \<noteq> []" "dump_walk w current (tl its) st = Inr evs"
  shows "dump_walk w current its st = Inr (leave (tl its) @ evs)"
  using assms by (cases its) (simp_all add: dump_walk.simps(2))

lemma queue_games_only:
  assumes "titles_ok xs" "\<forall>(t, p) \<in> set (requests xs). t \<noteq> ''SYSTEM''" "queue_steps xs dumpGenerateMenu = Some l" "queue_ok l"
  shows "games_only (tl (fst l))"
proof -
  have sub: "subtitles (fst l) \<subseteq> fst ` set (requests xs)" using subtitles_steps [OF assms(3,1)] by (auto simp: dumpGenerateMenu_def subtitles_def)
  have short: "t \<noteq> ''SYSTEM'' \<and> length t \<le> 20" if "t \<in> subtitles (fst l)" for t
  proof -
    obtain p where p: "(t, p) \<in> set (requests xs)" using sub \<open>t \<in> subtitles (fst l)\<close> by fastforce
    have "(t, p) \<in> set (requests xs) \<Longrightarrow> titles_ok xs \<Longrightarrow> length t \<le> 20"
      by (induction xs rule: requests.induct) (auto simp: titles_ok_def)
    then show ?thesis using p assms(1,2) by auto
  qed
  show "games_only (tl (fst l))"
    unfolding games_only_def
  proof
    fix it assume it: "it \<in> set (tl (fst l))"
    then have "it \<in> set (fst l)" using assms(4) by (auto simp: queue_ok_def dest: list.set_sel(2))
    moreover have "it_draw it = MENU_SUBTITLE \<Longrightarrow> label_text (it_label it) \<in> subtitles (fst l)"
      using \<open>it \<in> set (fst l)\<close> by (auto simp: subtitles_def)
    ultimately show "it_draw it \<noteq> MENU_TITLE \<and> (it_draw it = MENU_NORMAL) = (it_type it \<noteq> MENU_DISABLE) \<and>
       (it_draw it = MENU_SUBTITLE \<longrightarrow> label_text (it_label it) \<noteq> ''SYSTEM'' \<and> length (label_text (it_label it)) \<le> 20)"
      using short it assms(4) by (auto simp: queue_ok_def)
  qed
qed

lemma queue_head:
  assumes "games_only its" "subseq (queued [] its) (requests xs)" "\<And>p. ([], p) \<notin> set (requests xs)"
  shows "its = [] \<or> it_draw (hd its) = MENU_SUBTITLE"
proof (cases its)
  case (Cons it rest)
  have "it_draw it \<noteq> MENU_NORMAL"
  proof
    assume "it_draw it = MENU_NORMAL"
    then have "([], it_label it) \<in> set (queued [] its)" by (simp add: Cons)
    then show False using assms(3) subseq_set [OF assms(2)] by blast
  qed
  moreover have "it_draw it \<noteq> MENU_TITLE" using assms(1) by (simp add: Cons games_only_def)
  ultimately show ?thesis using Cons by (cases "it_draw it") auto
qed simp

text \<open>What the user asked for and there is a licence for.\<close>

definition wanted :: "fag_world \<Rightarrow> queue_op list \<Rightarrow> (string \<times> string) list" where
  "wanted w xs = chosen w (requests xs)"

text \<open>Of these the modules of games, as long as the game that is open in the other menu can be mounted.\<close>

definition to_decrypt :: "fag_world \<Rightarrow> string \<Rightarrow> queue_op list \<Rightarrow> (string \<times> string) list" where
  "to_decrypt w current xs = (if gamePfsDecrypt w current = None then [] else filter (of_game w) (wanted w xs))"


text \<open>A card on which everything can be mounted and every module has the type of a game.\<close>

definition demo_world :: fag_world where
  "demo_world = \<lparr>w_files = \<lparr>path_there = (\<lambda>p. True), file_bytes = (\<lambda>_. None), appmeta = None\<rparr>, w_mounts = (\<lambda>_. True),
     w_licence_dir = (\<lambda>_. None), w_rif_name = ''a.rif'',
     w_self = (\<lambda>_. Some (replicate 0x38 0 @ [0x40, 0, 0, 0, 0, 0, 0, 0] @ replicate 12 0 @ [8, 0, 0, 0])), w_written = (\<lambda>_. True)\<rparr>"

lemma demo_licensed: "licensed demo_world t"
  by (simp add: licensed_def find_rif_def DEVICES_def demo_world_def Let_def)

definition demo_start :: walk where "demo_start = \<lparr>w_title = [], w_auth = False, w_system = False, w_rif = []\<rparr>"


section \<open>What goes wrong\<close>

text \<open>The directory that is mounted is that of the game open in the other menu, not the one of the modules.\<close>

lemma mounts_current: "gamePfsDecrypt w current = Some d \<Longrightarrow> \<exists>dev \<in> set DEVICES. d = dev @ ''/app/'' @ current"
  by (auto simp: gamePfsDecrypt_def find_Some_iff dest: nth_mem)

text \<open>An empty licence directory on the last device that has one counts as a licence, whose path is that of a directory.\<close>

lemma empty_licence_dir:
  assumes "\<forall>p. \<not> path_there (w_files w) p" and "w_licence_dir w = (\<lambda>p. Some (0, []))"
  shows "find_rif w t = (0, ''grw0:license/app/'' @ t)"
  using assms by (simp add: find_rif_def DEVICES_def Let_def)

text \<open>After one module of \<open>app_em\<close> or \<open>patch_em\<close> the flag stays set: system modules behind it are skipped.\<close>

lemma auth_flag_stays:
  assumes "w_system st" "path_id_of p = 23 \<or> path_id_of p = 24" "module_params w st p = Inr (st', r)"
    and "path_id_of q = -1" "dumpFindPath q = Inr rel" "w_self w q = Some self" "get64 self 0x38 = Inr ao" "get32 self (ao + 12) = Inr ty" "ty \<noteq> 8"
  shows "module_step w st' q = Inr (st', [], False)"
proof -
  have "w_auth st'" "w_system st'" using assms(1-3) by (auto simp: module_params_def Let_def ebind_Inr)
  then show ?thesis using assms(4-) by (simp add: module_step_def module_params_def Let_def)
qed

text \<open>A module that cannot be read: its buffer is used after it was freed.\<close>

lemma unread_module_faults: "dumpFindPath p = Inr rel \<Longrightarrow> w_self w p = None \<Longrightarrow> module_step w st p = Inl OutOfFile"
  by (simp add: module_step_def)

text \<open>Before the first game the uninitialised mount point is unmounted.\<close>

lemma unmounts_nothing:
  assumes "it_draw it = MENU_TITLE" "it_draw it' = MENU_SUBTITLE" "dump_walk w current (it # it' # its) st = Inr evs"
  shows "hd evs = Unmounted"
  using assms by (auto simp: dump_walk.simps(2) [of w current it] leave_def ebind_Inr)

end
