(* ===== verification/FagDraw.thy ===== *)
theory FagDraw
  imports FagQueue
begin

text \<open>
  What of a FAGDec menu is on the screen: \<open>drawMenu\<close> of \<open>src/FAGDec/src/app/draw.c\<close>, which also scrolls, and the log of
  \<open>status.c\<close>. Drawing gives the calls of the vita2d library; the heap of the entries is that of \<open>FagMenu\<close>. One frame
  is refined to a window over the list of items, and the window follows the selection.
\<close>

section \<open>Drawing\<close>

datatype colour = INACTIVE_COL | ACTIVE_COL | RGBA8 nat nat nat nat

text \<open>A text has its place, its colour and its size in tenths.\<close>

datatype draw_call = Draw_text int int colour nat string | Draw_more int int int | Draw_rectangle int int int int colour

fun item_height :: "MenuDrawType \<Rightarrow> nat" where
  "item_height MENU_NORMAL = 20"
| "item_height MENU_TITLE = 25"
| "item_height MENU_SUBTITLE = 15"

fun item_font :: "MenuDrawType \<Rightarrow> nat" where
  "item_font MENU_NORMAL = 10"
| "item_font MENU_TITLE = 12"
| "item_font MENU_SUBTITLE = 8"

text \<open>The mark in front of an entry, what it adds to \<open>x\<close>, and the colour.\<close>

definition entry_mark :: "MenuType \<Rightarrow> int \<Rightarrow> int \<Rightarrow> draw_call list \<times> int \<times> colour" where
  "entry_mark t x y = (case t of
     MENU_BACK \<Rightarrow> ([Draw_text x y INACTIVE_COL 10 ''[O]''], 25, INACTIVE_COL)
   | MENU_BAD \<Rightarrow> ([Draw_text x y (RGBA8 255 0 0 225) 10 ''[#]''], 25, RGBA8 255 0 0 225)
   | MENU_WARNING \<Rightarrow> ([Draw_text x y (RGBA8 255 162 68 225) 10 ''[!]''], 25, RGBA8 255 162 68 225)
   | MENU_START \<Rightarrow> ([Draw_text x y INACTIVE_COL 10 ''[START]''], 85, INACTIVE_COL)
   | _ \<Rightarrow> ([], 0, INACTIVE_COL))"

text \<open>
  In a pane 50 bytes of the label are copied to \<open>text[50]\<close> on the stack, and the terminator is written behind the array, to
  \<open>text[50]\<close>: undefined behaviour in C. The model assumes that this byte belongs to nothing else, so that it ends
  the text and changes nothing more. On the full screen a label without a terminator is read beyond its end (\<open>None\<close>).
\<close>

definition entry_text :: "MenuPaneSide \<Rightarrow> string \<Rightarrow> string option" where
  "entry_text p s = (if p \<noteq> PANE_FULLSCREEN then Some (label_text (strncpy 50 (label_text s)))
     else if CHR 0x00 \<in> set s then Some (label_text s) else None)"

definition draw_entry :: "Menu \<Rightarrow> item \<Rightarrow> bool \<Rightarrow> int \<Rightarrow> int \<Rightarrow> draw_call list option" where
  "draw_entry m it is_sel x y = (let (mark, dx, color) = entry_mark (it_type it) x y; x = x + dx;
     color = (if is_sel then ACTIVE_COL else color);
     rect = (if pane m \<noteq> PANE_FULLSCREEN \<and> menu_active m then [Draw_rectangle x 535 480 5 ACTIVE_COL] else [])
   in map_option (\<lambda>t. mark @ rect @ [Draw_text x y color (item_font (it_draw it)) t]) (entry_text (pane m) (it_label it)))"

text \<open>The position of the selected entry, if there is one.\<close>

definition selected :: "heap \<Rightarrow> Menu \<Rightarrow> int option option" where
  "selected h m = (case entry_selected m of None \<Rightarrow> Some None | Some p \<Rightarrow> map_option (\<lambda>s. Some (position s)) (h p))"

text \<open>The loop over the entries, at the height \<open>y\<close>: the new \<open>entry_bottom\<close> and the calls.\<close>

partial_function (option) draw_loop :: "heap \<Rightarrow> Menu \<Rightarrow> int \<Rightarrow> ptr \<Rightarrow> nat \<Rightarrow> int \<Rightarrow> draw_call list \<Rightarrow> (int \<times> draw_call list) option" where
  "draw_loop h m x c y bottom acc = (case c of None \<Rightarrow> Some (bottom, acc)
     | Some a \<Rightarrow> do { e \<leftarrow> h a;
         if position e < entry_top m then draw_loop h m x (nxt e) y bottom acc
         else (let bottom = (if y + 45 < 540 then position e else bottom) in
           if position e > bottom then Some (bottom, acc @ [Draw_more x (int y + 20) (entry_index m - position e)])
           else do { let y = y + item_height (draw_type e);
             sel \<leftarrow> selected h m;
             calls \<leftarrow> draw_entry m (content e) (sel = Some (position e)) x (int y);
             draw_loop h m x (nxt e) y bottom (acc @ calls) }) })"

text \<open>The window moves by one entry up before drawing, or down after it.\<close>

definition scroll_back :: "int option \<Rightarrow> Menu \<Rightarrow> Menu" where
  "scroll_back sel m = (let m = m\<lparr>entry_top := (case sel of Some s \<Rightarrow> if s < entry_top m then entry_top m - 1 else entry_top m
       | None \<Rightarrow> 0)\<rparr> in if entry_top m < 0 then m\<lparr>entry_top := 0\<rparr> else m)"

definition scroll_on :: "int option \<Rightarrow> Menu \<Rightarrow> Menu" where
  "scroll_on sel m = (case sel of Some s \<Rightarrow> if s > entry_bottom m then m\<lparr>entry_top := entry_top m + 1\<rparr> else m | None \<Rightarrow> m)"

definition drawMenu :: "heap \<Rightarrow> Menu \<Rightarrow> (Menu \<times> draw_call list) option" where
  "drawMenu h m = (if \<not> visible m then Some (m, []) else do {
     sel \<leftarrow> selected h m;
     let m = scroll_back sel m;
     (bottom, calls) \<leftarrow> draw_loop h m (if pane m = PANE_RIGHT then 600 else 0) (entry_start m) 0 (entry_bottom m) [];
     Some (scroll_on sel (m\<lparr>entry_bottom := bottom\<rparr>), calls) })"

text \<open>The frames between two presses of a button.\<close>

fun frames :: "heap \<Rightarrow> nat \<Rightarrow> Menu \<Rightarrow> Menu option" where
  "frames h 0 m = Some m"
| "frames h (Suc n) m = Option.bind (drawMenu h m) (\<lambda>(m, _). frames h n m)"

section \<open>The log\<close>

text \<open>\<open>statusAddLog\<close>: \<open>text\<close> is the formatted message. The buffer has 128 bytes; \<open>None\<close>: overrun.\<close>

definition statusAddLog :: "MenuType \<Rightarrow> string \<Rightarrow> listing \<Rightarrow> listing option" where
  "statusAddLog level msg l = (if length msg \<ge> 128 then None else
     (let l' = meaning (Retype (length (fst l)) level) (meaning (Add 0 MENU_NORMAL msg None) l) in
      Some (if level \<noteq> MENU_NONE then (fst l', Some (length (fst l))) else l')))"

text \<open>\<open>statusGenerateMenu\<close> adds the headings to the menu there is.\<close>

definition statusGenerateMenu :: "listing \<Rightarrow> listing" where
  "statusGenerateMenu l = (let n = length (fst l) in fold meaning [Add 0 MENU_TITLE ''FRENCH-AMERICAN GAME DECRYPTER'' None,
     Add 0 MENU_SUBTITLE ''REV ENG BY @CelesteBlue123 (LIKE REALLY AMAZING <3)'' None, Add 0 MENU_SUBTITLE ''DEVELOPED BY @dots_tb'' None,
     Add 0 MENU_NORMAL ''START DECRYPT(ELF)'' (Some statusStartElfCB), Add 0 MENU_NORMAL ''START DECRYPT(SELF)'' (Some statusStartSelfCB),
     Retype (n + 4) MENU_START, Add 0 MENU_NORMAL ''Back to Main'' (Some statusBackCB), Retype (n + 5) MENU_BACK,
     Add 0 MENU_TITLE ''LOG:'' None] l)"

text \<open>Every time the menu is opened it grows by its seven headings.\<close>

lemma status_menu_grows: "length (fst (statusGenerateMenu l)) = length (fst l) + 7"
  by (cases l) (simp add: statusGenerateMenu_def Let_def)

section \<open>The window over the list of items\<close>

record view =
  v_top :: int
  v_bottom :: int

text \<open>The entries from the position \<open>i\<close> on that are drawn, with the height of their text, and the new bottom.\<close>

fun draw_items :: "int \<Rightarrow> item list \<Rightarrow> int \<Rightarrow> nat \<Rightarrow> int \<Rightarrow> int \<times> (int \<times> nat) list" where
  "draw_items tp [] i y bottom = (bottom, [])"
| "draw_items tp (it # its) i y bottom = (if i < tp then draw_items tp its (i + 1) y bottom
     else (let bottom = (if y + 45 < 540 then i else bottom) in
       if i > bottom then (bottom, [])
       else (let y = y + item_height (it_draw it); r = draw_items tp its (i + 1) y bottom in (fst r, (i, y) # snd r))))"

definition scroll_up :: "nat option \<Rightarrow> int \<Rightarrow> int" where
  "scroll_up sel tp = max 0 (case sel of Some s \<Rightarrow> if int s < tp then tp - 1 else tp | None \<Rightarrow> 0)"

definition shown :: "listing \<Rightarrow> view \<Rightarrow> int \<times> (int \<times> nat) list" where
  "shown l v = draw_items (scroll_up (snd l) (v_top v)) (fst l) 0 0 (v_bottom v)"

definition next_frame :: "listing \<Rightarrow> view \<Rightarrow> view" where
  "next_frame l v = (let tp = scroll_up (snd l) (v_top v); b = fst (shown l v) in
     \<lparr>v_top = (case snd l of Some s \<Rightarrow> if int s > b then tp + 1 else tp | None \<Rightarrow> tp), v_bottom = b\<rparr>)"

text \<open>How many entries from the start of a list fit, at the height \<open>y\<close>; the first always does when it is drawn at the top.\<close>

fun fitting :: "item list \<Rightarrow> nat \<Rightarrow> nat" where
  "fitting [] y = 0"
| "fitting (it # its) y = (if y + 45 < 540 then Suc (fitting its (y + item_height (it_draw it))) else 0)"

lemma draw_items_fitting:
  assumes "tp \<le> i"
  shows "fst (draw_items tp its i y (i - 1)) = i + int (fitting its y) - 1 \<and>
    map fst (snd (draw_items tp its i y (i - 1))) = map (\<lambda>k. i + int k) [0..<fitting its y]"
  using assms
proof (induction its arbitrary: i y)
  case (Cons it its)
  show ?case
  proof (cases "y + 45 < 540")
    case True
    have "map (\<lambda>k. i + 1 + int k) [0..<n] = map (\<lambda>k. i + int k) [1..<Suc n]" for n
      by (rule nth_equalityI) (simp_all del: upt_Suc)
    then have "(i + 0) # map (\<lambda>k. i + 1 + int k) [0..<n] = map (\<lambda>k. i + int k) [0..<Suc n]" for n
      by (subst (2) upt_conv_Cons) simp_all
    then show ?thesis
      using Cons.IH [of "i + 1" "y + item_height (it_draw it)"] Cons.prems True by (simp add: Let_def)
  qed (use Cons.prems in \<open>simp add: Let_def\<close>)
qed simp

lemma draw_items_skip: "i + int k \<le> tp \<Longrightarrow> k \<le> length its \<Longrightarrow> draw_items tp its i y b = draw_items tp (drop k its) (i + int k) y b"
proof (induction k arbitrary: its i)
  case (Suc k)
  then obtain it r where its: "its = it # r" by (cases its) auto
  have "draw_items tp r (i + 1) y b = draw_items tp (drop k r) (i + 1 + int k) y b"
    by (rule Suc.IH) (use Suc.prems its in auto)
  then show ?case using Suc.prems by (simp add: its add.assoc)
qed simp

text \<open>The last entry on the screen when the entry at \<open>t\<close> is at the top.\<close>

definition last_shown :: "item list \<Rightarrow> nat \<Rightarrow> nat" where
  "last_shown its t = t + fitting (drop t its) 0 - 1"

lemma draw_items_top:
  assumes "t < length its"
  shows "fst (draw_items (int t) its 0 0 b) = int (last_shown its t) \<and> t \<le> last_shown its t \<and>
    map fst (snd (draw_items (int t) its 0 0 b)) = map int [t..<Suc (last_shown its t)]"
proof -
  obtain it r where d: "drop t its = it # r" using assms by (cases "drop t its") auto
  have b: "draw_items (int t) (drop t its) (int t) 0 b = draw_items (int t) (drop t its) (int t) 0 (int t - 1)"
    by (simp add: d Let_def)
  have f: "1 \<le> fitting (drop t its) 0" by (simp add: d)
  have m: "map (\<lambda>k. int t + int k) [0..<fitting (drop t its) 0] = map int [t..<Suc (last_shown its t)]"
    by (rule nth_equalityI) (use f in \<open>auto simp: last_shown_def nth_append simp del: upt_Suc\<close>)
  show ?thesis
    using draw_items_skip [of 0 t "int t" its 0 b] draw_items_fitting [of "int t" "int t" "drop t its" 0] assms f m
    by (auto simp: b last_shown_def)
qed

text \<open>One frame: the window is at rest, or its top moves by one towards the selected entry.\<close>

lemma next_frame_top:
  assumes "t < length its" "s < length its" "v_top v = int t"
  shows "v_top (next_frame (its, Some s) v) = (if s < t then int t - 1 else if s > last_shown its t then int t + 1 else int t)"
proof (cases "s < t")
  case True
  moreover have "t - 1 \<le> last_shown its (t - 1)" by (rule conjunct1 [OF conjunct2 [OF draw_items_top]]) (use assms in simp)
  ultimately have "s \<le> last_shown its (t - 1)" "int t - 1 = int (t - 1)" "t - 1 < length its"
    using assms by auto
  then show ?thesis using True assms draw_items_top [of "t - 1" its "v_bottom v"]
    by (simp add: next_frame_def shown_def scroll_up_def Let_def)
next
  case False
  then show ?thesis using assms draw_items_top [of t its "v_bottom v"]
    by (simp add: next_frame_def shown_def scroll_up_def Let_def)
qed

lemma frames_reach:
  assumes "t < length its" "s < length its" "v_top v = int t" "nat \<bar>int s - int t\<bar> \<le> n"
  shows "\<exists>u. v_top ((next_frame (its, Some s) ^^ n) v) = int u \<and> u \<le> s \<and> s \<le> last_shown its u"
  using assms
proof (induction n arbitrary: t v)
  case 0
  then show ?case using draw_items_top [of t its "v_bottom v"] by auto
next
  case (Suc n)
  have st: "(next_frame (its, Some s) ^^ Suc n) v = (next_frame (its, Some s) ^^ n) (next_frame (its, Some s) v)"
    by (simp only: funpow_Suc_right comp_apply)
  have tl: "t \<le> last_shown its t" using draw_items_top Suc.prems(1) by blast
  obtain t' where t': "v_top (next_frame (its, Some s) v) = int t'" "t' < length its" "nat \<bar>int s - int t'\<bar> \<le> n \<or> t' = t \<and> t \<le> s \<and> s \<le> last_shown its t"
  proof (cases "s < t")
    case True
    then show ?thesis using that [of "t - 1"] next_frame_top [of t its s v] Suc.prems by auto
  next
    case False
    then show ?thesis using that [of "t + 1"] that [of t] next_frame_top [of t its s v] Suc.prems
      by (cases "s > last_shown its t") (use tl in auto)
  qed
  show ?case
  proof (cases "nat \<bar>int s - int t'\<bar> \<le> n")
    case True
    then show ?thesis unfolding st using Suc.IH [of t' "next_frame (its, Some s) v"] t' Suc.prems by blast
  next
    case False
    then have f: "t' = t" "t \<le> s" "s \<le> last_shown its t" using t' by auto
    have fix_step: "v_top w = int t \<Longrightarrow> v_top ((next_frame (its, Some s) ^^ k) w) = int t" for k w
      using f next_frame_top [of t its s] Suc.prems by (induction k) auto
    show ?thesis unfolding st using fix_step t'(1) f by blast
  qed
qed

section \<open>A frame is a step of the window\<close>

definition menu_view :: "Menu \<Rightarrow> view" where
  "menu_view m = \<lparr>v_top = entry_top m, v_bottom = entry_bottom m\<rparr>"

definition readable :: "Menu \<Rightarrow> item list \<Rightarrow> bool" where
  "readable m its \<longleftrightarrow> pane m = PANE_FULLSCREEN \<longrightarrow> (\<forall>it \<in> set its. CHR 0x00 \<in> set (it_label it))"

lemma entry_text_readable: "readable m its \<Longrightarrow> it \<in> set its \<Longrightarrow> \<exists>t. entry_text (pane m) (it_label it) = Some t"
  by (auto simp: readable_def entry_text_def)

lemma selected_menu:
  assumes "menu_is h m as its sel"
  shows "selected h m = Some (map_option int sel)"
proof (cases sel)
  case None
  then show ?thesis using assms by (simp add: selected_def menu_is_def)
next
  case (Some s)
  then have s: "s < length as" "linked h as int" "entry_selected m = at as s" using assms by (auto simp: menu_is_def)
  obtain d where "h (as ! s) = Some d" "position d = int s" using linkedE [OF s(2,1)] by blast
  then show ?thesis using s Some by (simp add: selected_def links)
qed

lemma map_int_eq [simp]: "map_option int sel = Some (int i) \<longleftrightarrow> sel = Some i"
  by (cases sel) auto

lemma draw_loop_items:
  assumes "menu_is h m as its sel" "readable m its" "i \<le> length as"
  shows "\<exists>calls. draw_loop h m x (at as i) y b acc = Some (fst (draw_items (entry_top m) (drop i its) (int i) y b), acc @ calls) \<and>
    (\<forall>(k, y') \<in> set (snd (draw_items (entry_top m) (drop i its) (int i) y b)).
      set (the (draw_entry m (its ! nat k) (sel = Some (nat k)) x (int y'))) \<subseteq> set calls)"
  using assms(3)
proof (induction "length as - i" arbitrary: i y b acc)
  case 0
  then have "i = length as" "length its = length as" using assms(1) by (auto simp: menu_is_def)
  then show ?case by (subst draw_loop.simps) (simp add: links)
next
  case (Suc n)
  then have i: "i < length as" by simp
  have m: "linked h as int" "its = items h as" "length its = length as" using assms(1) by (auto simp: menu_is_def)
  obtain e where e: "h (as ! i) = Some e" "nxt e = at as (Suc i)" "position e = int i"
    using linkedE [OF m(1) i] by blast
  have it: "its ! i = content e" using items_nth [OF i, of h e] e(1) m by simp
  have d: "drop i its = content e # drop (Suc i) its" using i m(3) it by (metis Cons_nth_drop_Suc)
  have rest: "\<exists>calls. draw_loop h m x (at as (Suc i)) y b acc =
      Some (fst (draw_items (entry_top m) (drop (Suc i) its) (int i + 1) y b), acc @ calls) \<and>
      (\<forall>(k, y') \<in> set (snd (draw_items (entry_top m) (drop (Suc i) its) (int i + 1) y b)).
        set (the (draw_entry m (its ! nat k) (sel = Some (nat k)) x (int y'))) \<subseteq> set calls)" for y b acc
    using Suc.hyps(1) [of "Suc i" y b acc] Suc.hyps(2) i by (simp add: add.commute)
  define b' where "b' = (if y < 495 then int i else b)"
  define y' where "y' = y + item_height (draw_type e)"
  consider "int i < entry_top m" | "\<not> int i < entry_top m" "b' < int i" | "\<not> int i < entry_top m" "\<not> b' < int i" by blast
  then show ?case
  proof cases
    case 1
    then show ?thesis using rest [of y b acc] e i d by (subst draw_loop.simps) (simp add: links)
  next
    case 2
    then have y: "\<not> y < 495" "b < int i" by (auto simp: b'_def split: if_splits)
    have "draw_loop h m x (at as i) y b acc = Some (b, acc @ [Draw_more x (int y + 20) (entry_index m - int i)])"
      using e i 2 y by (subst draw_loop.simps) (simp add: links Let_def)
    then show ?thesis using 2 y by (simp add: d Let_def)
  next
    case 3
    obtain t where t: "entry_text (pane m) (it_label (content e)) = Some t"
      using entry_text_readable [OF assms(2)] it i m(3) by (metis nth_mem)
    then have "\<exists>cs. draw_entry m (content e) (sel = Some i) x (int y') = Some cs"
      by (simp add: draw_entry_def Let_def split: prod.split)
    then obtain cs where cs: "draw_entry m (content e) (sel = Some i) x (int y') = Some cs" by blast
    obtain calls where calls: "draw_loop h m x (at as (Suc i)) y' b' (acc @ cs) =
        Some (fst (draw_items (entry_top m) (drop (Suc i) its) (int i + 1) y' b'), (acc @ cs) @ calls)"
      "\<forall>(k, y'') \<in> set (snd (draw_items (entry_top m) (drop (Suc i) its) (int i + 1) y' b')).
        set (the (draw_entry m (its ! nat k) (sel = Some (nat k)) x (int y''))) \<subseteq> set calls"
      using rest [of y' b' "acc @ cs"] by blast
    have eq: "draw_loop h m x (at as i) y b acc = draw_loop h m x (at as (Suc i)) y' b' (acc @ cs)"
      using 3 e i cs selected_menu [OF assms(1)]
      by (subst draw_loop.simps) (cases "y < 495"; simp add: links b'_def y'_def Let_def)
    have D: "draw_items (entry_top m) (drop i its) (int i) y b =
        (fst (draw_items (entry_top m) (drop (Suc i) its) (int i + 1) y' b'),
         (int i, y') # snd (draw_items (entry_top m) (drop (Suc i) its) (int i + 1) y' b'))"
      using 3 by (cases "y < 495") (simp_all add: d b'_def y'_def Let_def)
    show ?thesis
      by (rule exI [of _ "cs @ calls"]) (use calls cs it in \<open>auto simp: eq D\<close>)
  qed
qed

text \<open>The frame of a menu: the window moves as on the list, and the entries of the window are drawn.\<close>

lemma drawMenu_window:
  assumes "menu_is h m as its sel" "visible m" "readable m its"
  shows "\<exists>m' calls. drawMenu h m = Some (m', calls) \<and> menu_is h m' as its sel \<and> visible m' \<and> pane m' = pane m \<and>
    menu_view m' = next_frame (its, sel) (menu_view m) \<and>
    (\<forall>(k, y) \<in> set (snd (shown (its, sel) (menu_view m))).
      set (the (draw_entry m (its ! nat k) (sel = Some (nat k)) (if pane m = PANE_RIGHT then 600 else 0) (int y))) \<subseteq> set calls)"
proof -
  define tp where "tp = scroll_up sel (entry_top m)"
  define m1 where "m1 = m\<lparr>entry_top := tp\<rparr>"
  define x :: int where "x = (if pane m = PANE_RIGHT then 600 else 0)"
  have m1: "menu_is h m1 as its sel" "readable m1 its" using assms by (simp_all add: m1_def menu_is_def readable_def)
  have de: "draw_entry m1 it s x y = draw_entry m it s x y" for it s x y by (simp add: m1_def draw_entry_def)
  have its: "length its = length as" "entry_start m = at as 0" using assms(1) by (auto simp: menu_is_def)
  obtain calls where c: "draw_loop h m1 x (at as 0) 0 (entry_bottom m) [] = Some (fst (shown (its, sel) (menu_view m)), calls)"
    "\<forall>(k, y) \<in> set (snd (shown (its, sel) (menu_view m))).
      set (the (draw_entry m (its ! nat k) (sel = Some (nat k)) x (int y))) \<subseteq> set calls"
    using draw_loop_items [OF m1, of 0 x 0 "entry_bottom m" "[]"]
    by (auto simp: shown_def menu_view_def de) (auto simp: m1_def tp_def)
  define b where "b = fst (shown (its, sel) (menu_view m))"
  have "scroll_back (map_option int sel) m = m1"
    by (cases sel) (simp_all add: scroll_back_def m1_def tp_def scroll_up_def Let_def)
  moreover have "entry_start m1 = at as 0" "entry_bottom m1 = entry_bottom m" "pane m1 = pane m" using its by (simp_all add: m1_def)
  ultimately have ev: "drawMenu h m = Some (scroll_on (map_option int sel) (m1\<lparr>entry_bottom := b\<rparr>), calls)"
    using assms(2) c(1) unfolding drawMenu_def selected_menu [OF assms(1)] by (simp add: b_def x_def)
  show ?thesis unfolding ev
    using assms c(2) by (cases sel) (simp_all add: scroll_on_def m1_def menu_is_def menu_view_def next_frame_def Let_def b_def tp_def x_def)
qed

lemma frames_window:
  assumes "menu_is h m as its sel" "visible m" "readable m its"
  shows "\<exists>m'. frames h n m = Some m' \<and> menu_is h m' as its sel \<and> visible m' \<and> pane m' = pane m \<and>
    menu_view m' = (next_frame (its, sel) ^^ n) (menu_view m)"
  using assms
proof (induction n arbitrary: m)
  case (Suc n)
  obtain m1 calls where m1: "drawMenu h m = Some (m1, calls)" "menu_is h m1 as its sel" "visible m1" "pane m1 = pane m"
    "menu_view m1 = next_frame (its, sel) (menu_view m)"
    using drawMenu_window [OF Suc.prems] by blast
  then have "readable m1 its" using Suc.prems(3) by (simp add: readable_def)
  from Suc.IH [OF m1(2,3) this] m1 show ?case by (auto simp: funpow_Suc_right simp del: funpow.simps)
qed simp

text \<open>A negative \<open>entry_top\<close>, as the button up leaves it at the first entry, is 0 after one frame.\<close>

lemma frames_reach_any:
  assumes "s < length its" "v_top v < int (length its)" "nat \<bar>int s - v_top v\<bar> \<le> n"
  shows "\<exists>u. v_top ((next_frame (its, Some s) ^^ n) v) = int u \<and> u \<le> s \<and> s \<le> last_shown its u"
proof (cases "v_top v < 0")
  case False
  then show ?thesis using frames_reach [of "nat (v_top v)" its s v n] assms by auto
next
  case True
  then obtain n' where n': "n = Suc n'" using assms(3) by (cases n) auto
  define w where "w = next_frame (its, Some s) v"
  have st: "(next_frame (its, Some s) ^^ n) v = (next_frame (its, Some s) ^^ n') w"
    by (simp only: n' w_def funpow_Suc_right comp_apply)
  have its: "0 < length its" using assms(1) by linarith
  have w: "v_top w = (if s > last_shown its 0 then 1 else 0)"
    using True draw_items_top [OF its, of "v_bottom v"]
    by (simp add: w_def next_frame_def shown_def scroll_up_def Let_def)
  have "(if s > last_shown its 0 then 1 else 0) < length its" using assms(1) by auto
  moreover have "nat \<bar>int s - int (if s > last_shown its 0 then 1 else 0)\<bar> \<le> n'" using assms(3) True by (auto simp: n')
  ultimately show ?thesis
    unfolding st using frames_reach [of "if s > last_shown its 0 then 1 else 0" its s w n'] w assms(1) by auto
qed

text \<open>C15. However far the selected entry is from the entries on the screen, the menu scrolls to it: after as many frames
  as there are entries between it and the top of the window, or more, its text is drawn in the colour of the selection, and
  the window stays where it is.\<close>

theorem selected_scrolls_into_view:
  assumes "menu_is h m as its (Some s)" "visible m" "readable m its" "entry_top m < int (length its)"
    "nat \<bar>int s - entry_top m\<bar> \<le> n"
  shows "\<exists>m1 m2 calls x y f t. frames h n m = Some m1 \<and> drawMenu h m1 = Some (m2, calls) \<and> entry_top m2 = entry_top m1 \<and>
    entry_text (pane m) (it_label (its ! s)) = Some t \<and> Draw_text x y ACTIVE_COL f t \<in> set calls"
proof -
  have s: "s < length its" using assms(1) by (auto simp: menu_is_def)
  obtain m1 where m1: "frames h n m = Some m1" "menu_is h m1 as its (Some s)" "visible m1" "pane m1 = pane m"
    "menu_view m1 = (next_frame (its, Some s) ^^ n) (menu_view m)"
    using frames_window [OF assms(1-3)] by blast
  have r: "readable m1 its" using assms(3) m1(4) by (simp add: readable_def)
  obtain u where u: "entry_top m1 = int u" "u \<le> s" "s \<le> last_shown its u"
    using frames_reach_any [OF s, of "menu_view m" n] assms(4,5) m1(5) by (metis menu_view_def select_convs(1))
  obtain m2 calls where m2: "drawMenu h m1 = Some (m2, calls)" "menu_view m2 = next_frame (its, Some s) (menu_view m1)"
    "\<forall>(k, y) \<in> set (snd (shown (its, Some s) (menu_view m1))).
      set (the (draw_entry m1 (its ! nat k) (Some s = Some (nat k)) (if pane m1 = PANE_RIGHT then 600 else 0) (int y))) \<subseteq> set calls"
    using drawMenu_window [OF m1(2,3) r] by blast
  have "int s \<in> set (map fst (snd (draw_items (int u) its 0 0 (entry_bottom m1))))"
    using u s draw_items_top [of u its "entry_bottom m1"] by auto
  then obtain y where "(int s, y) \<in> set (snd (shown (its, Some s) (menu_view m1)))"
    using u by (auto simp: shown_def menu_view_def scroll_up_def)
  then have c: "set (the (draw_entry m1 (its ! s) True (if pane m1 = PANE_RIGHT then 600 else 0) (int y))) \<subseteq> set calls"
    using m2(3) by fastforce
  obtain t where t: "entry_text (pane m) (it_label (its ! s)) = Some t"
    using entry_text_readable [OF assms(3), of "its ! s"] s by auto
  then have "\<exists>x y f. Draw_text x y ACTIVE_COL f t \<in> set calls"
    using c m1(4) by (fastforce simp: draw_entry_def Let_def split: prod.splits)
  moreover have "entry_top m2 = entry_top m1"
    using m2(2) next_frame_top [of u its s "menu_view m1"] u s by (simp add: menu_view_def) (metis select_convs(1))
  ultimately show ?thesis using m1(1) m2(1) t by blast
qed

text \<open>A menu of thirty entries, the last of which is selected.\<close>

definition tall_heap :: heap where
  "tall_heap a = (if a < 30 then Some \<lparr>draw_type = MENU_NORMAL, entry_type = MENU_NONE, entry_active = False, position = int a,
     label = ''game'', click_cb = None, nxt = (if a < 29 then Some (a + 1) else None), prv = (if a = 0 then None else Some (a - 1))\<rparr>
     else None)"

definition tall_menu :: Menu where
  "tall_menu = (MenuCreate PANE_LEFT)\<lparr>entry_index := 30, entry_selected := Some 29, entry_start := Some 0, entry_end := Some 29\<rparr>"

lemma tall_menu_is: "menu_is tall_heap tall_menu [0..<30] (items tall_heap [0..<30]) (Some 29)"
  by (auto simp: menu_is_def linked_def tall_heap_def tall_menu_def MenuCreate_def at_def before_def)

theorem selected_scrolls_into_view_witness:
  "\<exists>m1 m2 calls x y f t. frames tall_heap 29 tall_menu = Some m1 \<and> drawMenu tall_heap m1 = Some (m2, calls) \<and>
    entry_top m2 = entry_top m1 \<and> entry_text PANE_LEFT (it_label (items tall_heap [0..<30] ! 29)) = Some t \<and>
    Draw_text x y ACTIVE_COL f t \<in> set calls"
  using selected_scrolls_into_view [OF tall_menu_is, of 29] by (simp add: tall_menu_def MenuCreate_def readable_def)

end
