(* ===== verification/FagInput.thy ===== *)
theory FagInput
  imports FagDraw
begin

text \<open>
  How the user of FAGDec gets from a game to its modules and works the two menus: the search for modules
  (\<open>dumpParseFolder\<close>, \<open>dumpPopulateThread\<close> of \<open>src/FAGDec/src/app/dump.c\<close>) and the buttons (\<open>handleInput\<close>,
  \<open>handleSpecInput\<close> of \<open>main.c\<close>).
\<close>

section \<open>The search for modules\<close>

text \<open>
  \<open>checkSceHeader\<close>: \<open>res\<close> is what \<open>ReadFile\<close> returned and \<open>w\<close> the word in the buffer.
\<close>

definition checkSceHeader :: "int \<times> u32 \<Rightarrow> int" where
  "checkSceHeader r = (let (res, w) = r in if res > 0 then (if w = 0x454353 then 1 else 0) else res)"

text \<open>
  Paths stay shorter than \<open>PATH_MAX\<close>, and none is empty. What is at a path: a file (or
  nothing), a directory that cannot be opened, or one with its entries.
\<close>

datatype node = File | Locked | Dir dir_entries
and dir_entries = Last | Entry string node dir_entries

definition hasEndSlash :: "string \<Rightarrow> bool" where
  "hasEndSlash path = (path \<noteq> [] \<and> last path = CHR ''/'')"

definition join_path :: "string \<Rightarrow> string \<Rightarrow> string" where
  "join_path path name = path @ (if hasEndSlash path then [] else ''/'') @ name"

text \<open>
  \<open>force_end\<close> is set by the other thread: \<open>fe t\<close> is its value when it is looked at for the \<open>t\<close>-th time. \<open>hdr\<close> is what
  \<open>ReadFile\<close> finds in a file. The results are that of the function, the number of looks, and the paths that were added.
\<close>

definition add_module :: "(nat \<Rightarrow> bool) \<Rightarrow> (string \<Rightarrow> int \<times> u32) \<Rightarrow> string \<Rightarrow> nat \<Rightarrow> nat \<times> string list" where
  "add_module fe hdr path t = (if checkSceHeader (hdr path) = 1 then (t + 1, if fe t then [] else [path]) else (t, []))"

fun dumpParseFolder :: "(nat \<Rightarrow> bool) \<Rightarrow> (string \<Rightarrow> int \<times> u32) \<Rightarrow> string \<Rightarrow> node \<Rightarrow> nat \<Rightarrow> int \<times> nat \<times> string list"
  and parse_entries :: "(nat \<Rightarrow> bool) \<Rightarrow> (string \<Rightarrow> int \<times> u32) \<Rightarrow> string \<Rightarrow> dir_entries \<Rightarrow> nat \<Rightarrow> int \<times> nat \<times> string list" where
  "dumpParseFolder fe hdr path (Dir es) t = (if fe t then (-1, t + 1, []) else parse_entries fe hdr path es (t + 1))"
| "dumpParseFolder fe hdr path n t = (if fe t then (-1, t + 1, [])
     else (let (t, ps) = add_module fe hdr path (t + 1) in (1, t, ps)))"
| "parse_entries fe hdr path Last t = (1, t, [])"
| "parse_entries fe hdr path (Entry name n es) t = (if fe t then (-1, t + 1, [])
     else (let new_path = join_path path name;
           (res, t, ps) = (if n = File then (let (t, ps) = add_module fe hdr new_path (t + 1) in (0, t, ps))
             else dumpParseFolder fe hdr new_path n (t + 1)) in
       if res < 0 then (1, t, ps)
       else (let (res, t, qs) = parse_entries fe hdr path es t in (res, t, ps @ qs))))"

text \<open>The menu of a game and what the thread does to it; \<open>found t\<close> is the file system.\<close>

definition dumpGenerateModuleMenu :: "string \<Rightarrow> listing" where
  "dumpGenerateModuleMenu title = fold meaning [Add 0 MENU_TITLE title None, Add 0 MENU_SUBTITLE ''Choose a module to decypt'' None] ([], None)"

definition populate_start :: "listing \<Rightarrow> listing" where
  "populate_start l = (let n = length (fst l) in fold meaning
     [Add 0 MENU_NORMAL ''DECRYPT ALL (CURRENTLY LOOKING FOR MODULES...)'' (Some FagMenu.dumpAllCB), Retype n MENU_WARNING,
      Add 0 MENU_NORMAL ''Back to main menu'' (Some dumpModuleEntryBackCB), Retype (n + 1) MENU_BACK] l)"

fun parse_folders :: "(nat \<Rightarrow> bool) \<Rightarrow> (string \<Rightarrow> int \<times> u32) \<Rightarrow> (string \<Rightarrow> node) \<Rightarrow> string list \<Rightarrow> nat \<Rightarrow> string list" where
  "parse_folders fe hdr fs [] t = []"
| "parse_folders fe hdr fs (p # ps) t = (let (_, t, qs) = dumpParseFolder fe hdr p (fs p) t in qs @ parse_folders fe hdr fs ps t)"

text \<open>\<open>mounted\<close>: \<open>gamePfsDecrypt\<close> succeeded.\<close>

definition module_folders :: "GameEntry \<Rightarrow> bool \<Rightarrow> string list" where
  "module_folders g mounted = (if game_type g = SELF_SYSTEM then [game_title g]
     else if mounted then concat (map (\<lambda>d. [d @ ''/patch/'' @ game_titleid g, d @ ''/app/'' @ game_titleid g]) DEVICES) else [])"

definition populate_end :: "listing \<Rightarrow> listing option" where
  "populate_end l = map_option (\<lambda>k. ((fst l)[k := (fst l ! k)\<lparr>it_type := MENU_NONE, it_label := strncpy 128 ''DECRYPT ALL(DONE)''\<rparr>], snd l))
     (find_last MENU_WARNING (fst l))"

definition dumpPopulateThread :: "(nat \<Rightarrow> bool) \<Rightarrow> (string \<Rightarrow> int \<times> u32) \<Rightarrow> (string \<Rightarrow> node) \<Rightarrow> GameEntry \<Rightarrow> bool \<Rightarrow> listing \<Rightarrow> listing option" where
  "dumpPopulateThread fe hdr fs g mounted l = populate_end
     (fold (\<lambda>p. meaning (Add 0 MENU_NORMAL p (Some dumpModuleMenuEntryCB))) (parse_folders fe hdr fs (module_folders g mounted) 0)
       (populate_start l))"

section \<open>What is found\<close>

text \<open>The files with the magic number, depth first.\<close>

fun modules :: "(string \<Rightarrow> int \<times> u32) \<Rightarrow> string \<Rightarrow> node \<Rightarrow> string list"
  and entry_modules :: "(string \<Rightarrow> int \<times> u32) \<Rightarrow> string \<Rightarrow> dir_entries \<Rightarrow> string list" where
  "modules hdr path (Dir es) = entry_modules hdr path es"
| "modules hdr path n = (if checkSceHeader (hdr path) = 1 then [path] else [])"
| "entry_modules hdr path Last = []"
| "entry_modules hdr path (Entry name n es) = modules hdr (join_path path name) n @ entry_modules hdr path es"

text \<open>Every run finds a beginning of these; the run that is not stopped finds all.\<close>

lemma stopped_entries: "fe t \<Longrightarrow> snd (snd (parse_entries fe hdr path es t)) = []"
  by (cases es) simp_all

lemma parse_modules:
  assumes mono: "\<And>t. fe t \<Longrightarrow> fe (Suc t)"
  shows "prefix (snd (snd (dumpParseFolder fe hdr path n t))) (modules hdr path n) \<and>
      (snd (snd (dumpParseFolder fe hdr path n t)) = modules hdr path n \<and> fst (dumpParseFolder fe hdr path n t) = 1
        \<or> fe (fst (snd (dumpParseFolder fe hdr path n t))))"
    "prefix (snd (snd (parse_entries fe hdr path es t))) (entry_modules hdr path es) \<and>
      (snd (snd (parse_entries fe hdr path es t)) = entry_modules hdr path es \<and> fst (parse_entries fe hdr path es t) = 1
        \<or> fe (fst (snd (parse_entries fe hdr path es t))))"
proof (induction hdr path n and hdr path es arbitrary: t and t rule: modules_entry_modules.induct)
  case (1 hdr path es)
  show ?case
  proof (cases "fe t")
    case False
    then show ?thesis using "1.IH" [of "t + 1"] by simp
  qed (use mono in simp)
next
  case (4 hdr path name n es)
  define q where "q = (if n = File then (let (t, ps) = add_module fe hdr (join_path path name) (t + 1) in (0, t, ps))
    else dumpParseFolder fe hdr (join_path path name) n (t + 1))"
  obtain res t' ps where q: "q = (res, t', ps)" by (cases q)
  have hd: "prefix ps (modules hdr (join_path path name) n) \<and> (ps = modules hdr (join_path path name) n \<and> 0 \<le> res \<or> fe t')"
  proof (cases "n = File")
    case True
    then show ?thesis using q mono by (auto simp: q_def add_module_def split: if_splits)
  next
    case False
    then show ?thesis using "4.IH"(1) [of "t + 1"] q by (simp add: q_def) (metis fst_conv snd_conv zero_le_one)
  qed
  obtain res2 t2 qs where p: "parse_entries fe hdr path es t' = (res2, t2, qs)" by (metis prod_cases3)
  have tl: "prefix qs (entry_modules hdr path es)" "qs = entry_modules hdr path es \<and> res2 = 1 \<or> fe t2"
    using "4.IH"(2) [of t'] by (simp_all add: p)
  have ev: "parse_entries fe hdr path (Entry name n es) t =
      (if fe t then (-1, t + 1, []) else if res < 0 then (1, t', ps) else (res2, t2, ps @ qs))"
    by (simp add: q_def [symmetric] q p Let_def)
  show ?case
  proof (cases "fe t")
    case True
    then show ?thesis using mono by (simp add: ev del: parse_entries.simps)
  next
    case False
    then show ?thesis
    proof (cases "res < 0")
      case True
      then show ?thesis using False hd by (auto simp: ev prefix_def simp del: parse_entries.simps)
    next
      case r: False
      show ?thesis
      proof (cases "ps = modules hdr (join_path path name) n")
        case True
        then show ?thesis using False r tl by (auto simp: ev simp del: parse_entries.simps)
      next
        case False
        then have "fe t'" using hd by blast
        moreover have "qs = []" using stopped_entries [of fe t' hdr path es] p \<open>fe t'\<close> by simp
        moreover have "t2 = t' \<or> t2 = Suc t'" using p \<open>fe t'\<close> by (cases es) auto
        ultimately show ?thesis using \<open>\<not> fe t\<close> r hd mono by (auto simp: ev prefix_def simp del: parse_entries.simps)
      qed
    qed
  qed
qed (use mono in \<open>auto simp: add_module_def split: if_splits\<close>)

lemma stopped_folder: "fe t \<Longrightarrow> dumpParseFolder fe hdr path n t = (-1, t + 1, [])"
  by (cases n) simp_all

lemma parse_folders_modules:
  assumes "\<And>t. fe t \<Longrightarrow> fe (Suc t)"
  shows "prefix (parse_folders fe hdr fs ps t) (concat (map (\<lambda>p. modules hdr p (fs p)) ps))"
proof (induction ps arbitrary: t)
  case (Cons p ps)
  obtain res t' qs where q: "dumpParseFolder fe hdr p (fs p) t = (res, t', qs)" by (metis prod_cases3)
  have m: "prefix qs (modules hdr p (fs p))" "qs = modules hdr p (fs p) \<or> fe t'"
    using parse_modules(1) [of fe hdr p "fs p" t] assms q by auto
  have stop: "fe t' \<Longrightarrow> parse_folders fe hdr fs ps t' = []" for t'
    by (induction ps arbitrary: t') (use assms in \<open>simp_all add: stopped_folder\<close>)
  show ?case using m stop Cons.IH [of t'] by (auto simp: q prefix_def)
qed simp

lemma parse_folders_all: "parse_folders (\<lambda>_. False) hdr fs ps t = concat (map (\<lambda>p. modules hdr p (fs p)) ps)"
proof (induction ps arbitrary: t)
  case (Cons p ps)
  have "snd (snd (dumpParseFolder (\<lambda>_. False) hdr p (fs p) t)) = modules hdr p (fs p)"
    using parse_modules(1) [of "\<lambda>_. False" hdr p "fs p" t] by simp
  then show ?case using Cons.IH by (cases "dumpParseFolder (\<lambda>_. False) hdr p (fs p) t") simp
qed simp

section \<open>The menu of modules\<close>

lemma find_last_other: "\<forall>it \<in> set ys. it_type it \<noteq> t \<Longrightarrow> find_last t (xs @ ys) = find_last t xs"
proof (induction ys rule: rev_induct)
  case (snoc it ys)
  then show ?case using find_last_simps(2) [of t "xs @ ys" it] by simp
qed simp

definition module_items :: "string list \<Rightarrow> item list" where
  "module_items ps = map (\<lambda>p. new_item MENU_NORMAL p (Some dumpModuleMenuEntryCB)) ps"

lemma add_modules: "fold (\<lambda>p. meaning (Add 0 MENU_NORMAL p (Some dumpModuleMenuEntryCB))) ps (its, Some s) = (its @ module_items ps, Some s)"
  by (induction ps arbitrary: its) (simp_all add: module_items_def)

definition back_item :: item where
  "back_item = (new_item MENU_NORMAL ''Back to main menu'' (Some dumpModuleEntryBackCB))\<lparr>it_type := MENU_BACK\<rparr>"

lemma populate_items:
  "\<exists>its. dumpPopulateThread fe hdr fs g mounted (dumpGenerateModuleMenu title) =
      Some (its @ back_item # module_items (parse_folders fe hdr fs (module_folders g mounted) 0), Some 2) \<and>
    length its = 3 \<and> it_cb (its ! 2) = Some FagMenu.dumpAllCB"
proof -
  define ms where "ms = module_items (parse_folders fe hdr fs (module_folders g mounted) 0)"
  define a where "a = [new_item MENU_TITLE title None, new_item MENU_SUBTITLE ''Choose a module to decypt'' None,
    (new_item MENU_NORMAL ''DECRYPT ALL (CURRENTLY LOOKING FOR MODULES...)'' (Some FagMenu.dumpAllCB))\<lparr>it_type := MENU_WARNING\<rparr>]"
  have st: "populate_start (dumpGenerateModuleMenu title) = (a @ [back_item], Some 2)"
    by (simp add: populate_start_def dumpGenerateModuleMenu_def Let_def a_def back_item_def nth_append numeral_3_eq_3 numeral_2_eq_2)
  have "find_last MENU_WARNING (a @ back_item # ms) = find_last MENU_WARNING a"
    by (rule find_last_other) (auto simp: back_item_def ms_def module_items_def)
  also have "\<dots> = Some 2"
    using find_last_simps(2) [of MENU_WARNING "butlast a" "last a"] by (simp add: a_def)
  finally have f: "find_last MENU_WARNING (a @ back_item # ms) = Some 2" .
  have l: "length a = 3" by (simp add: a_def)
  have "dumpPopulateThread fe hdr fs g mounted (dumpGenerateModuleMenu title) =
      Some (a[2 := (a ! 2)\<lparr>it_type := MENU_NONE, it_label := strncpy 128 ''DECRYPT ALL(DONE)''\<rparr>] @ back_item # ms, Some 2)"
    unfolding dumpPopulateThread_def st add_modules ms_def [symmetric] using f l
    by (simp add: populate_end_def list_update_append nth_append)
  moreover have "it_cb (a ! 2) = Some FagMenu.dumpAllCB" by (simp add: a_def new_item_def content_def new_entry_def)
  ultimately show ?thesis using l unfolding ms_def
    by (intro exI [of _ "a[2 := (a ! 2)\<lparr>it_type := MENU_NONE, it_label := strncpy 128 ''DECRYPT ALL(DONE)''\<rparr>]"]) simp
qed

lemma dumpAllCB_modules:
  assumes "\<forall>p \<in> set ps. CHR 0x00 \<notin> set p \<and> length p < 128"
  shows "dumpAllCB t (module_items ps) q = queue_steps (map (Queue t) ps) q"
  using assms
proof (induction ps arbitrary: q)
  case (Cons p ps)
  then have "dumpAllCB t (module_items ps) = queue_steps (map (Queue t) ps)" by auto
  then show ?case using Cons.prems by (simp add: module_items_def label_text_strncpy)
qed (simp add: module_items_def)


text \<open>A game with a module in a folder of its patch and one in its application.\<close>

definition sample_fs :: "string \<Rightarrow> node" where
  "sample_fs p = (if p = ''ux0:/patch/PCSB00001'' then Dir (Entry ''sce_module'' (Dir (Entry ''libc.suprx'' File Last)) Last)
     else if p = ''ux0:/app/PCSB00001'' then Dir (Entry ''icon.png'' File (Entry ''eboot.bin'' File Last)) else Locked)"

definition sample_hdr :: "string \<Rightarrow> int \<times> u32" where
  "sample_hdr p = (if p \<in> {''ux0:/patch/PCSB00001/sce_module/libc.suprx'', ''ux0:/app/PCSB00001/eboot.bin''} then (4, 0x454353)
     else if p = ''ux0:/app/PCSB00001/icon.png'' then (4, 0x474E5089) else (-1, 0))"

definition sample_game :: GameEntry where
  "sample_game = \<lparr>game_title = ''A game'', game_titleid = ''PCSB00001'', game_type = SELF_NP, menu_index = 0\<rparr>"

lemma sample_modules: "concat (map (\<lambda>p. modules sample_hdr p (sample_fs p)) (module_folders sample_game True)) =
    [''ux0:/patch/PCSB00001/sce_module/libc.suprx'', ''ux0:/app/PCSB00001/eboot.bin'']"
  by (simp add: module_folders_def sample_game_def DEVICES_def sample_fs_def sample_hdr_def checkSceHeader_def join_path_def hasEndSlash_def)


section \<open>The buttons\<close>

datatype button = B_UP | B_DOWN | B_LEFT | B_RIGHT | B_CROSS | B_CIRCLE | B_START

text \<open>The menus are at addresses too. A callback gets the menu and a position and gives the menu that is shown next; all are
  collected in \<open>run\<close>.\<close>

type_synonym menus = "nat \<rightharpoonup> Menu"
type_synonym screen = "heap \<times> menus"
type_synonym runner = "callback \<Rightarrow> nat \<Rightarrow> int \<Rightarrow> screen \<Rightarrow> (nat \<times> screen) option"

definition activate :: "nat \<times> screen \<Rightarrow> (nat \<times> screen) option" where
  "activate st = (case st of (a, h, ms) \<Rightarrow> map_option (\<lambda>m. (a, h, ms(a \<mapsto> m\<lparr>menu_active := True\<rparr>))) (ms a))"

text \<open>The callback of the entry at \<open>p\<close>, where there are both.\<close>

definition call_entry :: "runner \<Rightarrow> ptr \<Rightarrow> nat \<times> screen \<Rightarrow> (nat \<times> screen) option" where
  "call_entry run p st = (case st of (a, h, ms) \<Rightarrow> (case p of None \<Rightarrow> Some st
     | Some p \<Rightarrow> do { e \<leftarrow> h p; (case click_cb e of None \<Rightarrow> Some st | Some f \<Rightarrow> run f a (position e) (h, ms)) }))"

definition press_select :: "runner \<Rightarrow> nat \<times> screen \<Rightarrow> (nat \<times> screen) option" where
  "press_select run st = (case st of (a, h, ms) \<Rightarrow> do { m \<leftarrow> ms a; s \<leftarrow> entry_selected m;
     st \<leftarrow> call_entry run (Some s) st; activate st })"

definition press_type :: "runner \<Rightarrow> MenuType \<Rightarrow> nat \<times> screen \<Rightarrow> (nat \<times> screen) option" where
  "press_type run t st = (case st of (a, h, ms) \<Rightarrow> do { m \<leftarrow> ms a; p \<leftarrow> MenuFindType h m t;
     st \<leftarrow> call_entry run p st; activate st })"

definition press_arrow :: "(heap \<Rightarrow> Menu \<Rightarrow> nat \<Rightarrow> Menu option) \<Rightarrow> nat \<times> screen \<Rightarrow> (nat \<times> screen) option" where
  "press_arrow press st = (case st of (a, h, ms) \<Rightarrow> do { m \<leftarrow> ms a; s \<leftarrow> entry_selected m; m \<leftarrow> press h m s; Some (a, h, ms(a \<mapsto> m)) })"

definition on_button :: "button set \<Rightarrow> button \<Rightarrow> ('a \<Rightarrow> 'a option) \<Rightarrow> 'a \<Rightarrow> 'a option" where
  "on_button pad b f st = (if b \<in> pad then f st else Some st)"

definition handleInput :: "runner \<Rightarrow> button set \<Rightarrow> nat \<times> screen \<Rightarrow> (nat \<times> screen) option" where
  "handleInput run pad st = (case st of (a, h, ms) \<Rightarrow> do { m \<leftarrow> ms a;
     if menu_active m \<and> entry_selected m \<noteq> None then do {
       st \<leftarrow> on_button pad B_DOWN (press_arrow press_down) st;
       st \<leftarrow> on_button pad B_UP (press_arrow press_up) st;
       st \<leftarrow> on_button pad B_CROSS (press_select run) st;
       st \<leftarrow> on_button pad B_CIRCLE (press_type run MENU_BACK) st;
       on_button pad B_START (press_type run MENU_START) st }
     else Some st })"

text \<open>The two panes; \<open>l\<close> is the menu on the left and \<open>r\<close> the queue.\<close>

definition to_left :: "Menu \<times> Menu \<Rightarrow> Menu \<times> Menu" where
  "to_left lr = (case lr of (l, r) \<Rightarrow> let (l, r) = (if menu_active l then (l\<lparr>pane := PANE_FULLSCREEN\<rparr>, r\<lparr>visible := False\<rparr>) else (l, r))
     in (l\<lparr>menu_active := True\<rparr>, r\<lparr>menu_active := False\<rparr>))"

definition to_right :: "Menu \<times> Menu \<Rightarrow> Menu \<times> Menu" where
  "to_right lr = (case lr of (l, r) \<Rightarrow> let (l, r) = (if menu_active r then (l\<lparr>visible := False\<rparr>, r\<lparr>pane := PANE_FULLSCREEN\<rparr>) else (l, r))
     in (l\<lparr>menu_active := False\<rparr>, r\<lparr>menu_active := True\<rparr>))"

definition handle_panes :: "button set \<Rightarrow> Menu \<times> Menu \<Rightarrow> Menu \<times> Menu" where
  "handle_panes pad lr = (case lr of (l, r) \<Rightarrow>
     let lr = (l\<lparr>pane := PANE_LEFT, visible := True\<rparr>, r\<lparr>pane := PANE_RIGHT, visible := True\<rparr>);
         lr = (if B_LEFT \<in> pad then to_left lr else lr)
     in if B_RIGHT \<in> pad then to_right lr else lr)"

definition mark_or_delete :: "heap \<Rightarrow> Menu \<Rightarrow> (heap \<times> Menu) option" where
  "mark_or_delete h r = (if menu_active r then (case entry_selected r of None \<Rightarrow> Some (h, r)
     | Some s \<Rightarrow> do { e \<leftarrow> h s;
         if entry_type e = MENU_WARNING then MenuDeleteEntry h r (position e)
         else map_option (\<lambda>h. (h, r)) (set_type h s MENU_WARNING) }) else Some (h, r))"

definition handleSpecInput :: "nat \<Rightarrow> nat \<Rightarrow> button set \<Rightarrow> screen \<Rightarrow> screen option" where
  "handleSpecInput a b pad st = (case st of (h, ms) \<Rightarrow> do { l \<leftarrow> ms a; r \<leftarrow> ms b;
     let (l, r) = handle_panes pad (l, r);
     (h, r) \<leftarrow> (if B_CIRCLE \<in> pad then mark_or_delete h r else Some (h, r));
     Some (h, ms(a \<mapsto> l, b \<mapsto> r)) })"

section \<open>One of the two menus is worked\<close>

text \<open>One of the menus is worked at a time, and it is visible; a menu fills the screen when the other is hidden.\<close>

definition panes_ok :: "Menu \<times> Menu \<Rightarrow> bool" where
  "panes_ok lr = (case lr of (l, r) \<Rightarrow> menu_active l \<noteq> menu_active r \<and> (visible l \<or> menu_active r) \<and> (visible r \<or> menu_active l)
     \<and> (pane l = PANE_FULLSCREEN \<longleftrightarrow> \<not> visible r) \<and> (pane r = PANE_FULLSCREEN \<longleftrightarrow> \<not> visible l))"

lemma handle_panes_ok:
  assumes "menu_active l \<noteq> menu_active r" "\<not> (B_LEFT \<in> pad \<and> B_RIGHT \<in> pad)"
  shows "panes_ok (handle_panes pad (l, r))"
  using assms by (auto simp: panes_ok_def handle_panes_def to_left_def to_right_def Let_def)

text \<open>With both buttons the queue is worked while the other menu fills the screen.\<close>

lemma both_buttons_hide:
  "menu_active l \<Longrightarrow> \<not> menu_active r \<Longrightarrow> (case handle_panes {B_LEFT, B_RIGHT} (l, r) of (l', r') \<Rightarrow> menu_active r' \<and> \<not> visible r')"
  by (simp add: handle_panes_def to_left_def to_right_def Let_def)

lemma handle_panes_menu:
  "menu_is h l as its sel \<Longrightarrow> menu_is h (fst (handle_panes pad (l, r))) as its sel"
  "menu_is h r as its sel \<Longrightarrow> menu_is h (snd (handle_panes pad (l, r))) as its sel"
  by (auto simp: handle_panes_def to_left_def to_right_def Let_def menu_is_def)

text \<open>Circle on the queue is \<open>press_circle\<close> on its list.\<close>

lemma mark_or_delete_list:
  assumes "menu_is h r as its sel" "menu_active r"
  shows "\<exists>h' r' as'. mark_or_delete h r = Some (h', r') \<and>
    menu_is h' r' as' (fst (press_circle (its, sel))) (snd (press_circle (its, sel)))"
proof (cases sel)
  case None
  then show ?thesis using assms by (auto simp: mark_or_delete_def press_circle_def menu_is_def)
next
  case (Some s)
  then have s: "s < length as" "linked h as int" "entry_selected r = Some (as ! s)" "its = items h as"
    using assms by (auto simp: menu_is_def links)
  obtain e where e: "h (as ! s) = Some e" "position e = int s" using linkedE [OF s(2,1)] by blast
  have t: "it_type (its ! s) = entry_type e" using items_nth [OF s(1), of h e] e s(4) by simp
  show ?thesis
  proof (cases "entry_type e = MENU_WARNING")
    case True
    then have "mark_or_delete h r = perform (Remove s) (h, r)" using assms s e by (simp add: mark_or_delete_def)
    then show ?thesis using perform_at [OF assms(1), of "Remove s"] True Some t by (simp add: press_circle_def)
  next
    case False
    then have "mark_or_delete h r = map_option (\<lambda>h. (h, r)) (set_type h (as ! s) MENU_WARNING)"
      using assms s e by (simp add: mark_or_delete_def)
    moreover have "MenuFindEntry h r (int s) = Some (Some (as ! s))" using MenuFindEntry_at [OF assms(1)] s by (simp add: links)
    ultimately have "mark_or_delete h r = perform (Retype s MENU_WARNING) (h, r)" by simp
    then show ?thesis using perform_at [OF assms(1), of "Retype s MENU_WARNING"] False Some t by (simp add: press_circle_def)
  qed
qed

text \<open>The arrows are the operations of \<open>FagMenu\<close>.\<close>

lemma handleInput_arrows:
  assumes "ms a = Some m" "menu_active m" "menu_is h m as its (Some s)" "pad \<subseteq> {B_LEFT, B_RIGHT, B_DOWN} \<or> pad \<subseteq> {B_LEFT, B_RIGHT, B_UP}"
  shows "\<exists>m'. handleInput run pad (a, h, ms) = Some (a, h, ms(a \<mapsto> m')) \<and>
    menu_is h m' as its (Some (if B_DOWN \<in> pad then neighbour its MENU_DOWN s else if B_UP \<in> pad then neighbour its MENU_UP s else s))"
proof -
  have s: "s < length as" "entry_selected m = Some (as ! s)" using assms(3) by (auto simp: menu_is_def links)
  obtain md where md: "press_down h m (as ! s) = Some md" "menu_is h md as its (Some (neighbour its MENU_DOWN s))"
    using press_down_at assms(3) by blast
  obtain mu where mu: "press_up h m (as ! s) = Some mu" "menu_is h mu as its (Some (neighbour its MENU_UP s))"
    using press_up_at assms(3) by blast
  have rest: "B_CROSS \<notin> pad" "B_CIRCLE \<notin> pad" "B_START \<notin> pad" "\<not> (B_DOWN \<in> pad \<and> B_UP \<in> pad)" using assms(4) by auto
  then consider "B_DOWN \<in> pad" "B_UP \<notin> pad" | "B_UP \<in> pad" "B_DOWN \<notin> pad" | "B_DOWN \<notin> pad" "B_UP \<notin> pad" by blast
  then show ?thesis
  proof cases
    case 1
    then show ?thesis using assms(1-3) s md rest by (intro exI [of _ md]) (simp add: handleInput_def on_button_def press_arrow_def)
  next
    case 2
    then show ?thesis using assms(1-3) s mu rest by (intro exI [of _ mu]) (simp add: handleInput_def on_button_def press_arrow_def)
  next
    case 3
    then have "handleInput run pad (a, h, ms) = Some (a, h, ms(a \<mapsto> m))"
      using assms(1,2) s rest by (simp add: handleInput_def on_button_def fun_upd_idem)
    then show ?thesis using 3 assms(3) by auto
  qed
qed

end
