(* ===== verification/FagDump.thy ===== *)
theory FagDump
  imports SelfTools
begin

text \<open>
  What FAGDec does with a decrypted module (\<open>src/FAGDec/src/app/dump.c\<close>, \<open>inflate.c\<close>): \<open>decompressThread\<close> puts the
  segments that the kernel plugin left in files into the ELF file, round by round, and the end of \<open>dumpThread\<close> writes the
  headers, takes the protection out of the control information and checks the digest. \<open>self\<close> is the buffer
  \<open>current_self\<close> with the first \<open>0x1000\<close> bytes of the module. zlib, the allocator and old memory are arguments.
\<close>

section \<open>Decompression\<close>

datatype zstatus = ZOk | ZEnd | ZErr

text \<open>\<open>test_large_inflate\<close>: \<open>infl n\<close> is what the \<open>n\<close>th call of \<open>inflate\<close> puts out, every time at the start of the buffer.
  \<open>Some None\<close>: an error.\<close>

partial_function (option) large_inflate :: "(nat \<Rightarrow> u8 list \<times> zstatus) \<Rightarrow> nat \<Rightarrow> u8 list \<Rightarrow> u8 list option option" where
  "large_inflate infl n dest = (case snd (infl n) of
     ZEnd \<Rightarrow> Some (Some (fst (infl n) @ drop (length (fst (infl n))) dest))
   | ZErr \<Rightarrow> Some None
   | ZOk \<Rightarrow> large_inflate infl (n + 1) (fst (infl n) @ drop (length (fst (infl n))) dest))"

text \<open>\<open>unc f n\<close> is \<open>uncompress\<close> into \<open>n\<close> bytes, \<open>infl f\<close> the calls of \<open>inflate\<close> over \<open>f\<close>, \<open>cmp d n\<close> is \<open>compress\<close> into
  \<open>n\<close> bytes, \<open>fits n\<close> that \<open>n\<close> bytes can be allocated, \<open>old n\<close> what they held before.\<close>

record zenv =
  unc :: "u8 list \<Rightarrow> nat \<Rightarrow> u8 list option"
  infl :: "u8 list \<Rightarrow> nat \<Rightarrow> u8 list \<times> zstatus"
  cmp :: "u8 list \<Rightarrow> nat \<Rightarrow> u8 list option"
  fits :: "nat \<Rightarrow> bool"
  old :: "nat \<Rightarrow> u8 list"

text \<open>The files \<open>current_elf\<close> and \<open>current_file\<close>, the buffer, and the files of the segments.\<close>

record dstate =
  d_elf :: "u8 list"
  d_out :: "u8 list"
  d_self :: "u8 list"
  d_segs :: "nat \<rightharpoonup> u8 list"

text \<open>An empty segment: the gap behind the segment before it is filled. The offsets are computed with 32 bits.\<close>

definition empty_segment :: "zenv \<Rightarrow> nat \<Rightarrow> nat \<Rightarrow> nat \<Rightarrow> dstate \<Rightarrow> self_fault + dstate" where
  "empty_segment E phdrs i po st =
     ebind (if i = 0 then Inr (d_elf st)
       else ebind (get32 (d_self st) (phdrs + 32 * (i - 1) + 4)) (\<lambda>qo. ebind (get32 (d_self st) (phdrs + 32 * (i - 1) + 16)) (\<lambda>qs.
         let off = (qo + qs) mod 2 ^ 32; sz = (po + 2 ^ 32 - off) mod 2 ^ 32 in
         Inr (if 0 < sz \<and> fits E sz then write_at (d_elf st) off (replicate sz 0) else d_elf st))))
     (\<lambda>elf. Inr (st\<lparr>d_elf := elf, d_segs := (d_segs st)(i := None)\<rparr>))"

text \<open>
  The decompressed bytes in the destination with \<open>seg_sz\<close>, \<open>Some None\<close> when neither way of decompressing succeeded.
\<close>

definition segment_data :: "zenv \<Rightarrow> u8 list \<Rightarrow> nat \<Rightarrow> (u8 list \<times> nat) option option" where
  "segment_data E file fsz = (case unc E file fsz of
     Some out \<Rightarrow> Some (Some (out @ drop (length out) (old E fsz), length out))
   | None \<Rightarrow> map_option (map_option (\<lambda>d. (d, fsz))) (large_inflate (infl E file) 0 (old E fsz)))"

text \<open>Compressing the segment for a SELF file; \<open>None\<close>: an error of zlib.\<close>

definition segment_to_self :: "zenv \<Rightarrow> nat \<Rightarrow> nat \<Rightarrow> u8 list \<Rightarrow> u8 list \<Rightarrow> nat \<Rightarrow> dstate \<Rightarrow> self_fault + dstate option" where
  "segment_to_self E sinfo i file dest sz st = (case cmp E (take sz dest) (length file) of None \<Rightarrow> Inr None
     | Some z \<Rightarrow> ebind (put64 (d_self st) (sinfo + 32 * i + 24) 2) (\<lambda>self. ebind (get64 self (sinfo + 32 * i)) (\<lambda>off.
         Inr (Some (st\<lparr>d_self := self, d_out := write_at (d_out st) off z\<rparr>)))))"

text \<open>One round of the loop for the segment \<open>i\<close>: the state and whether the loop goes on. \<open>to_self\<close> is \<open>dump_type == DUMP_SELF\<close>.\<close>

definition full_segment :: "zenv \<Rightarrow> bool \<Rightarrow> nat \<Rightarrow> nat \<Rightarrow> u8 list \<Rightarrow> nat \<Rightarrow> nat \<Rightarrow> dstate \<Rightarrow> (self_fault + dstate \<times> bool) option" where
  "full_segment E to_self sinfo i file po fsz st = (if \<not> (fits E (length file) \<and> fits E fsz) then Some (Inr (st, False))
     else (case segment_data E file fsz of
       None \<Rightarrow> None
     | Some None \<Rightarrow> Some (if fsz \<le> length file then Inr (st\<lparr>d_elf := write_at (d_elf st) po (take fsz file)\<rparr>, False) else Inl OutOfFile)
     | Some (Some (dest, sz)) \<Rightarrow> Some (ebind (if to_self then segment_to_self E sinfo i file dest sz st else Inr (Some st)) (\<lambda>r. case r of
         None \<Rightarrow> Inr (st, False)
       | Some st \<Rightarrow> Inr (st\<lparr>d_elf := write_at (d_elf st) po (take fsz dest), d_segs := (d_segs st)(i := None)\<rparr>, True)))))"

definition segment_step :: "zenv \<Rightarrow> bool \<Rightarrow> nat \<Rightarrow> nat \<Rightarrow> nat \<Rightarrow> dstate \<Rightarrow> (self_fault + dstate \<times> bool) option" where
  "segment_step E to_self phdrs sinfo i st = (case d_segs st i of None \<Rightarrow> Some (Inr (st, True))
     | Some file \<Rightarrow> (case ebind (get32 (d_self st) (phdrs + 32 * i + 16)) (\<lambda>fsz. ebind (get32 (d_self st) (phdrs + 32 * i + 4)) (\<lambda>po. Inr (fsz, po))) of
         Inl e \<Rightarrow> Some (Inl e)
       | Inr (fsz, po) \<Rightarrow> if fsz = 0 then Some (ebind (empty_segment E phdrs i po st) (\<lambda>st. Inr (st, True)))
           else full_segment E to_self sinfo i file po fsz st))"

fun segment_steps :: "zenv \<Rightarrow> bool \<Rightarrow> nat \<Rightarrow> nat \<Rightarrow> nat list \<Rightarrow> dstate \<Rightarrow> (self_fault + dstate) option" where
  "segment_steps E to_self phdrs sinfo [] st = Some (Inr st)"
| "segment_steps E to_self phdrs sinfo (i # is) st = (case segment_step E to_self phdrs sinfo i st of
     None \<Rightarrow> None
   | Some (Inl e) \<Rightarrow> Some (Inl e)
   | Some (Inr (st, go)) \<Rightarrow> if go then segment_steps E to_self phdrs sinfo is st else Some (Inr st))"

text \<open>
  The loop of \<open>decompressThread\<close>: before each round the plugin has finished the segments in \<open>new\<close>. (A file that appears during a
  round counts for this round or the next, as its number is still to come or has passed.)
\<close>

fun decompress_rounds :: "zenv \<Rightarrow> bool \<Rightarrow> nat \<Rightarrow> nat \<Rightarrow> nat \<Rightarrow> (nat \<rightharpoonup> u8 list) list \<Rightarrow> dstate \<Rightarrow> (self_fault + dstate) option" where
  "decompress_rounds E to_self phdrs sinfo n [] st = Some (Inr st)"
| "decompress_rounds E to_self phdrs sinfo n (new # news) st =
     (case segment_steps E to_self phdrs sinfo [0..<n] (st\<lparr>d_segs := d_segs st ++ new\<rparr>) of
        None \<Rightarrow> None | Some (Inl e) \<Rightarrow> Some (Inl e) | Some (Inr st) \<Rightarrow> decompress_rounds E to_self phdrs sinfo n news st)"

section \<open>The end of a module\<close>

text \<open>The section headers are cleared, the ELF header and the program headers are written.\<close>

definition finish_elf :: "dstate \<Rightarrow> self_fault + dstate" where
  "finish_elf st = ebind (SCE_header_at (d_self st)) (\<lambda>sh. let eo = elf_offset sh in
     ebind (poke (d_self st) (eo + 0x30) [0, 0]) (\<lambda>self. ebind (poke self (eo + 0x20) [0, 0, 0, 0]) (\<lambda>self.
     ebind (slice self eo 0x34) (\<lambda>h. ebind (get32 self (eo + 0x1C)) (\<lambda>tpos. ebind (get16 self (eo + 0x2A)) (\<lambda>esz. ebind (get16 self (eo + 0x2C)) (\<lambda>n.
     ebind (slice self (phdr_offset sh) (esz * n)) (\<lambda>tab.
       Inr (st\<lparr>d_self := self, d_elf := write_at (write_at (d_elf st) 0 h) tpos tab\<rparr>)))))))))"

text \<open>The loop over the control information; \<open>d\<close> is \<open>orig_elf_digest\<close>, \<open>None\<close> as long as it is not set.\<close>

definition strip_entry :: "u8 list \<Rightarrow> nat \<Rightarrow> u8 list option \<Rightarrow> self_fault + u8 list \<times> u8 list option \<times> nat" where
  "strip_entry self c d = ebind (get32 self c) (\<lambda>t.
     ebind (if t = 4 then ebind (poke self (c + 0x4C) [0, 0, 0, 0]) (\<lambda>self. ebind (slice self (c + 0x24) 0x20) (\<lambda>x. Inr (self, Some x)))
            else if t = 5 then ebind (poke self (c + 0x10) (replicate 0x100 0)) (\<lambda>self. Inr (self, d)) else Inr (self, d)) (\<lambda>(self, d).
     ebind (get32 self (c + 4)) (\<lambda>sz. Inr (self, d, sz))))"

partial_function (option) strip_loop :: "u8 list \<Rightarrow> nat \<Rightarrow> u8 list option \<Rightarrow> (self_fault + u8 list \<times> u8 list option) option" where
  "strip_loop self c d = (case get64 self (c + 8) of
     Inl f \<Rightarrow> Some (Inl f)
   | Inr nxt \<Rightarrow> if nxt = 0 then Some (Inr (self, d))
       else (case strip_entry self c d of Inl f \<Rightarrow> Some (Inl f) | Inr (self, d, sz) \<Rightarrow> strip_loop self (c + sz) d))"

text \<open>\<open>dumpVerifyElf\<close>; \<open>ctx\<close> is the uninitialised context, \<open>file\<close> the ELF file, if it can be read.\<close>

definition dumpVerifyElf :: "sha256_ctx \<Rightarrow> u8 list option \<Rightarrow> u8 list \<Rightarrow> self_fault + bool" where
  "dumpVerifyElf ctx file digest = (case file of None \<Rightarrow> Inr False
     | Some elf \<Rightarrow> ebind (elf_digest ctx elf) (\<lambda>d. Inr (d = digest)))"

text \<open>The headers of a SELF file: no version, the type of the SDK and the first \<open>0x600\<close> bytes.\<close>

definition finish_self :: "dstate \<Rightarrow> self_fault + dstate" where
  "finish_self st = ebind (SCE_header_at (d_self st)) (\<lambda>sh. let self = d_self st; eo = elf_offset sh in
     ebind (slice self eo 0x34) (\<lambda>h. ebind (get32 self (eo + 0x1C)) (\<lambda>tpos. ebind (get16 self (eo + 0x2A)) (\<lambda>esz. ebind (get16 self (eo + 0x2C)) (\<lambda>n.
     ebind (slice self (phdr_offset sh) (esz * n)) (\<lambda>tab. ebind (get64 self 0x38) (\<lambda>ao.
     ebind (put64 self (ao + 0x10) 0) (\<lambda>self. ebind (poke self 8 [0xC0, 0]) (\<lambda>self. ebind (slice self 0 0x600) (\<lambda>s.
       Inr (st\<lparr>d_self := self, d_out := write_at (write_at (write_at (d_out st) (header_len sh) h) (header_len sh + tpos) tab) 0 s\<rparr>)))))))))))"

section \<open>Segments in any order\<close>

text \<open>The segment \<open>i\<close> is at \<open>po\<close>, not empty, there is memory for it, and its file decompresses to exactly its bytes: with
  \<open>uncompress\<close>, or, when that fails, with the first call of \<open>inflate\<close> (each later call would put its output at the start
  of the buffer again).\<close>

definition unpacks :: "zenv \<Rightarrow> u8 list \<Rightarrow> nat \<Rightarrow> nat \<Rightarrow> u8 list \<Rightarrow> nat \<Rightarrow> u8 list \<Rightarrow> bool" where
  "unpacks E self phdrs i file po bs \<longleftrightarrow> get32 self (phdrs + 32 * i + 4) = Inr po \<and> get32 self (phdrs + 32 * i + 16) = Inr (length bs) \<and>
     bs \<noteq> [] \<and> (unc E file (length bs) = Some bs \<or> unc E file (length bs) = None \<and> infl E file 0 = (bs, ZEnd)) \<and> fits E (length file) \<and> fits E (length bs) \<and> length (old E (length bs)) = length bs"

lemma segment_step_unpacks:
  assumes "d_segs st i = Some file" "unpacks E (d_self st) phdrs i file po bs"
  shows "segment_step E False phdrs sinfo i st = Some (Inr (st\<lparr>d_elf := write_at (d_elf st) po bs, d_segs := (d_segs st)(i := None)\<rparr>, True))"
proof -
  have "segment_data E file (length bs) = Some (Some (bs, length bs))"
    using assms(2) by (auto simp: segment_data_def unpacks_def large_inflate.simps)
  then show ?thesis
    using assms by (simp add: segment_step_def full_segment_def unpacks_def)
qed

text \<open>What a round writes for the segments that are there.\<close>

definition put_segments :: "(nat \<Rightarrow> nat) \<Rightarrow> (nat \<Rightarrow> u8 list) \<Rightarrow> nat list \<Rightarrow> u8 list \<Rightarrow> u8 list" where
  "put_segments po bs is f = fold (\<lambda>i f. write_at f (po i) (bs i)) is f"

lemma segment_steps_unpack:
  assumes "distinct is" "\<And>i file. i \<in> set is \<Longrightarrow> d_segs st i = Some file \<Longrightarrow> unpacks E (d_self st) phdrs i file (po i) (bs i)"
  shows "segment_steps E False phdrs sinfo is st = Some (Inr (st\<lparr>d_elf := put_segments po bs (filter (\<lambda>i. d_segs st i \<noteq> None) is) (d_elf st),
    d_segs := (\<lambda>i. if i \<in> set is then None else d_segs st i)\<rparr>))"
  using assms
proof (induction "is" arbitrary: st)
  case Nil
  then show ?case by (simp add: put_segments_def)
next
  case (Cons i "is")
  show ?case
  proof (cases "d_segs st i")
    case None
    have "segment_steps E False phdrs sinfo is st = Some (Inr (st\<lparr>d_elf := put_segments po bs (filter (\<lambda>i. d_segs st i \<noteq> None) is) (d_elf st),
      d_segs := (\<lambda>i. if i \<in> set is then None else d_segs st i)\<rparr>))"
      by (rule Cons.IH) (use Cons.prems in auto)
    moreover have "(\<lambda>j. if j \<in> set is then None else d_segs st j) = (\<lambda>j. if j \<in> set (i # is) then None else d_segs st j)"
      using None by auto
    ultimately show ?thesis using None by (simp add: segment_step_def)
  next
    case (Some src)
    let ?st = "st\<lparr>d_elf := write_at (d_elf st) (po i) (bs i), d_segs := (d_segs st)(i := None)\<rparr>"
    have "segment_step E False phdrs sinfo i st = Some (Inr (?st, True))"
      by (rule segment_step_unpacks [OF Some]) (use Cons.prems(2) Some in simp)
    moreover have "segment_steps E False phdrs sinfo is ?st = Some (Inr (?st\<lparr>d_elf := put_segments po bs (filter (\<lambda>i. d_segs ?st i \<noteq> None) is) (d_elf ?st),
      d_segs := (\<lambda>i. if i \<in> set is then None else d_segs ?st i)\<rparr>))"
      by (rule Cons.IH) (use Cons.prems in \<open>auto split: if_splits\<close>)
    moreover have "filter (\<lambda>j. d_segs ?st j \<noteq> None) is = filter (\<lambda>j. d_segs st j \<noteq> None) is"
      by (rule filter_cong) (use Cons.prems(1) in auto)
    moreover have "(\<lambda>j. if j \<in> set is then None else d_segs ?st j) = (\<lambda>j. if j \<in> set (i # is) then None else d_segs st j)" by auto
    ultimately show ?thesis using Some by (simp add: put_segments_def)
  qed
qed

text \<open>The order in which segments are written, round by round.\<close>

definition arrivals :: "nat \<Rightarrow> (nat \<rightharpoonup> u8 list) list \<Rightarrow> nat list" where
  "arrivals n news = concat (map (\<lambda>new. filter (\<lambda>i. new i \<noteq> None) [0..<n]) news)"

lemma decompress_rounds_unpack:
  assumes "\<And>new i file. new \<in> set news \<Longrightarrow> i < n \<Longrightarrow> new i = Some file \<Longrightarrow> unpacks E (d_self st) phdrs i file (po i) (bs i)"
    and "\<forall>new \<in> set news. dom new \<subseteq> {0..<n}" "d_segs st = Map.empty"
  shows "decompress_rounds E False phdrs sinfo n news st = Some (Inr (st\<lparr>d_elf := put_segments po bs (arrivals n news) (d_elf st)\<rparr>))"
  using assms
proof (induction news arbitrary: st)
  case Nil
  then show ?case by (simp add: put_segments_def arrivals_def)
next
  case (Cons new news)
  let ?st = "st\<lparr>d_segs := d_segs st ++ new\<rparr>"
  define st1 where "st1 = st\<lparr>d_elf := put_segments po bs (filter (\<lambda>i. new i \<noteq> None) [0..<n]) (d_elf st), d_segs := Map.empty\<rparr>"
  have "segment_steps E False phdrs sinfo [0..<n] ?st = Some (Inr (?st\<lparr>d_elf := put_segments po bs (filter (\<lambda>i. d_segs ?st i \<noteq> None) [0..<n]) (d_elf ?st),
      d_segs := (\<lambda>i. if i \<in> set [0..<n] then None else d_segs ?st i)\<rparr>))"
    by (rule segment_steps_unpack) (use Cons.prems in auto)
  moreover have "(\<lambda>i. if i \<in> set [0..<n] then None else d_segs ?st i) = Map.empty"
    using Cons.prems(2,3) by fastforce
  moreover have "decompress_rounds E False phdrs sinfo n news st1 = Some (Inr (st1\<lparr>d_elf := put_segments po bs (arrivals n news) (d_elf st1)\<rparr>))"
    by (rule Cons.IH) (use Cons.prems in \<open>auto simp: st1_def\<close>)
  ultimately have "decompress_rounds E False phdrs sinfo n (new # news) st = Some (Inr (st1\<lparr>d_elf := put_segments po bs (arrivals n news) (d_elf st1)\<rparr>))"
    using Cons.prems(3) by (simp add: st1_def)
  moreover have "st1\<lparr>d_elf := put_segments po bs (arrivals n news) (d_elf st1)\<rparr> = st\<lparr>d_elf := put_segments po bs (arrivals n (new # news)) (d_elf st)\<rparr>"
    using Cons.prems(3) by (cases st) (simp add: st1_def arrivals_def put_segments_def)
  ultimately show ?case by simp
qed

lemma put_segments_holds:
  assumes "i \<in> set is" "\<And>j. j \<in> set is \<Longrightarrow> j \<noteq> i \<Longrightarrow> apart (po i) (bs i) (po j) (bs j)"
  shows "holds (put_segments po bs is f) (po i) (bs i)"
  using assms
proof (induction "is" arbitrary: f rule: rev_induct)
  case (snoc j "is")
  show ?case
  proof (cases "j = i")
    case True
    then show ?thesis by (simp add: put_segments_def holds_written)
  next
    case False
    then have "holds (put_segments po bs is f) (po i) (bs i)" by (intro snoc.IH) (use snoc.prems in auto)
    then show ?thesis using holds_kept snoc.prems(2) [of j] False by (simp add: put_segments_def)
  qed
qed simp

text \<open>C20. When a module is dumped as an ELF file (\<open>DUMP_ELF\<close>), then in whatever order and in whatever rounds its segments
  arrive, the ELF file ends up with each of those that arrived whole at the offset of its program header, and with the table
  of program headers. Conditions: every segment that arrives is not empty (\<open>p_filesz\<close>), the memory for it can be
  allocated, its file decompresses to exactly \<open>p_filesz\<close> bytes with \<open>uncompress\<close> or, when that fails, with a single call of
  \<open>inflate\<close> (\<open>unpacks\<close>); no segment overlaps another one, the ELF header or the table, and
  the headers lie in the buffer (\<open>finish_elf\<close> succeeds); reading, writing and removing the files never fails in the model. Not covered are the ways in which the code goes on after an error:
  a segment that neither way unpacks is written as it is and stays there for the next round, and an empty one fills
  the gap behind the segment before it.\<close>

theorem segments_assembled:
  assumes "\<And>new i file. new \<in> set news \<Longrightarrow> i < n \<Longrightarrow> new i = Some file \<Longrightarrow> unpacks E (d_self st) phdrs i file (po i) (bs i)"
    and "\<forall>new \<in> set news. dom new \<subseteq> {0..<n}" "d_segs st = Map.empty"
    and "finish_elf (st\<lparr>d_elf := put_segments po bs (arrivals n news) (d_elf st)\<rparr>) = Inr st'"
    and "slice (d_self st') (elf_offset sh) 0x34 = Inr hdr" "SCE_header_at (d_self st) = Inr sh" "get32 (d_self st') (elf_offset sh + 0x1C) = Inr tpos"
      "get16 (d_self st') (elf_offset sh + 0x2A) = Inr esz" "get16 (d_self st') (elf_offset sh + 0x2C) = Inr num"
      "slice (d_self st') (phdr_offset sh) (esz * num) = Inr tab"
    and "\<forall>i < n. apart (po i) (bs i) 0 hdr \<and> apart (po i) (bs i) tpos tab" "\<forall>i < n. \<forall>j < n. i \<noteq> j \<longrightarrow> apart (po i) (bs i) (po j) (bs j)"
  shows "ebind (the (decompress_rounds E False phdrs sinfo n news st)) finish_elf = Inr st' \<and> holds (d_elf st') tpos tab \<and>
    (\<forall>i \<in> set (arrivals n news). holds (d_elf st') (po i) (bs i))"
proof -
  let ?st = "st\<lparr>d_elf := put_segments po bs (arrivals n news) (d_elf st)\<rparr>"
  have r: "decompress_rounds E False phdrs sinfo n news st = Some (Inr ?st)"
    by (rule decompress_rounds_unpack) (use assms(1-3) in auto)
  have f: "d_elf st' = write_at (write_at (d_elf ?st) 0 hdr) tpos tab"
    using assms(4-10) by (auto simp: finish_elf_def ebind_Inr Let_def)
  have "holds (d_elf st') (po i) (bs i)" if i: "i \<in> set (arrivals n news)" for i
  proof -
    have a: "\<forall>j \<in> set (arrivals n news). j < n" by (auto simp: arrivals_def)
    then have "holds (d_elf ?st) (po i) (bs i)" using assms(12) i by (auto intro!: put_segments_holds)
    then show ?thesis unfolding f using assms(11) a i holds_kept by blast
  qed
  then show ?thesis using r assms(4) f holds_written by auto
qed

text \<open>A module with two segments, of which the second one is finished first.\<close>

definition demo_byte :: "nat \<Rightarrow> u8" where
  "demo_byte i = (if i = 0x40 then 0x70 else if i = 0x48 then 0xA4 else if i = 0x8C then 0x34 else if i = 0x9A then 32 else if i = 0x9C then 2
     else if i = 0xA8 then 0x74 else if i = 0xB4 then 2 else if i = 0xC8 then 0x76 else if i = 0xD4 then 1 else 0)"

definition demo_self :: "u8 list" where "demo_self = map demo_byte [0..<0xE4]"

definition demo_state :: dstate where
  "demo_state = \<lparr>d_elf = [], d_out = [], d_self = demo_self, d_segs = Map.empty\<rparr>"

definition demo_env :: zenv where
  "demo_env = \<lparr>unc = (\<lambda>f n. Some f), infl = (\<lambda>f n. ([], ZErr)), cmp = (\<lambda>f n. None), fits = (\<lambda>n. True), old = (\<lambda>n. replicate n 0)\<rparr>"

lemma demo_self_nth: "i < 0xE4 \<Longrightarrow> demo_self ! i = demo_byte i"
  by (simp add: demo_self_def del: upt_conv_Cons)

lemma length_demo_self: "length demo_self = 0xE4"
  by (simp add: demo_self_def)

lemma demo_self_fields:
  "get64 demo_self 0x10 = Inr 0" "get64 demo_self 0x40 = Inr 0x70" "get64 demo_self 0x48 = Inr 0xA4" "get64 demo_self 0x58 = Inr 0"
  "get32 demo_self 0x8C = Inr 0x34" "get16 demo_self 0x9A = Inr 32" "get16 demo_self 0x9C = Inr 2"
  "get32 demo_self 0xA8 = Inr 0x74" "get32 demo_self 0xB4 = Inr 2" "get32 demo_self 0xC8 = Inr 0x76" "get32 demo_self 0xD4 = Inr 1"
  by (simp_all add: get64_def get32_def get16_def rd32_def rd16_def length_demo_self demo_self_nth demo_byte_def join32_def)

lemma slice_demo: "a + n \<le> 0xE4 \<Longrightarrow> slice demo_self a n = Inr (map demo_byte [a..<a + n])"
  by (simp add: slice_def length_demo_self demo_self_def take_map drop_map take_upt del: upt_conv_Cons)

lemma poke_same: "slice bs off (length xs) = Inr xs \<Longrightarrow> poke bs off xs = Inr bs"
  unfolding slice_at by (auto simp: poke_def put_bytes_def intro!: nth_equalityI) (auto simp: nth_append min_def)

lemma demo_pokes: "poke demo_self 0xA0 [0, 0] = Inr demo_self" "poke demo_self 0x90 [0, 0, 0, 0] = Inr demo_self"
  by (rule poke_same, simp add: slice_demo upt_rec demo_byte_def)+

theorem segments_assembled_witness:
  "\<exists>st'. ebind (the (decompress_rounds demo_env False 0xA4 0 2 [[1 \<mapsto> [3]], [0 \<mapsto> [1, 2]]] demo_state)) finish_elf = Inr st' \<and>
    holds (d_elf st') 0x74 [1, 2] \<and> holds (d_elf st') 0x76 [3]"
proof -
  let ?news = "[[1 \<mapsto> [3 :: u8]], [0 \<mapsto> [1, 2]]] :: (nat \<rightharpoonup> u8 list) list"
  let ?po = "\<lambda>i :: nat. if i = 0 then 0x74 else 0x76 :: nat" and ?bs = "\<lambda>i :: nat. if i = 0 then [1, 2] else [3 :: u8]"
  let ?hdr = "map demo_byte [0x70..<0xA4]" and ?tab = "map demo_byte [0xA4..<0xE4]"
  define sh where "sh = \<lparr>header_len = 0, elf_offset = 0x70, phdr_offset = 0xA4, section_info_offset = 0\<rparr>"
  have sh: "SCE_header_at demo_self = Inr sh" by (simp add: SCE_header_at_def demo_self_fields sh_def)
  have s: "slice demo_self 0x70 0x34 = Inr ?hdr" "slice demo_self 0xA4 0x40 = Inr ?tab" by (simp_all add: slice_demo del: upt_conv_Cons)
  let ?st = "demo_state\<lparr>d_elf := put_segments ?po ?bs (arrivals 2 ?news) (d_elf demo_state)\<rparr>"
  obtain st' where st': "finish_elf ?st = Inr st'" "d_self st' = demo_self"
    using sh s demo_pokes by (simp add: finish_elf_def Let_def demo_state_def sh_def demo_self_fields del: upt_conv_Cons)
  have u: "unpacks demo_env (d_self demo_state) 0xA4 i src (?po i) (?bs i)" if "new \<in> set ?news" "i < 2" "new i = Some src" for new i src
  proof -
    have "i = 0 \<or> i = 1" using that(2) by auto
    then show ?thesis using that(1,3) by (auto simp: unpacks_def demo_state_def demo_env_def demo_self_fields)
  qed
  have a: "arrivals 2 ?news = [1, 0]" by (simp add: arrivals_def upt_rec)
  have "ebind (the (decompress_rounds demo_env False 0xA4 0 2 ?news demo_state)) finish_elf = Inr st' \<and> holds (d_elf st') 0x34 ?tab \<and>
    (\<forall>i \<in> set (arrivals 2 ?news). holds (d_elf st') (?po i) (?bs i))"
  proof (rule segments_assembled [where sh = sh and hdr = ?hdr and esz = 32 and num = 2])
    show "\<And>new i file. new \<in> set ?news \<Longrightarrow> i < 2 \<Longrightarrow> new i = Some file \<Longrightarrow> unpacks demo_env (d_self demo_state) 0xA4 i file (?po i) (?bs i)"
      by (rule u)
  qed (use st' sh s in \<open>auto simp: sh_def demo_state_def demo_self_fields apart_def simp del: upt_conv_Cons\<close>)
  then show ?thesis using a by auto
qed

section \<open>The control information\<close>

text \<open>A chain whose entries have room for the field that is cleared as well.\<close>

definition control_ok :: "u8 list \<Rightarrow> nat \<Rightarrow> nat list \<Rightarrow> bool" where
  "control_ok s c es \<longleftrightarrow> chain s c es \<and> (\<forall>e \<in> set es. get32 s e = Inr 4 \<longrightarrow> (\<exists>sz. get32 s (e + 4) = Inr sz \<and> 0x50 \<le> sz \<and> e + 0x50 \<le> length s))"

definition digest_at :: "u8 list \<Rightarrow> nat \<Rightarrow> u8 list" where
  "digest_at s e = take 0x20 (drop (e + 0x24) s)"

definition last_digest :: "u8 list \<Rightarrow> nat list \<Rightarrow> u8 list option \<Rightarrow> u8 list option" where
  "last_digest s es d = fold (\<lambda>e d. if get32 s e = Inr 4 then Some (digest_at s e) else d) es d"

lemma strip_entry_ok:
  assumes "control_ok s c (e # es)"
  shows "\<exists>s' sz. strip_entry s c d = Inr (s', if get32 s c = Inr 4 then Some (digest_at s c) else d, sz) \<and> get32 s (c + 4) = Inr sz \<and> 16 \<le> sz \<and>
    length s' = length s \<and> (\<forall>i<length s. i < c + 16 \<or> c + sz \<le> i \<longrightarrow> s' ! i = s ! i) \<and>
    (get32 s c = Inr 4 \<longrightarrow> 0x50 \<le> sz \<and> slice s' (c + 0x4C) 4 = Inr [0, 0, 0, 0]) \<and>
    (get32 s c = Inr 5 \<longrightarrow> 0x110 \<le> sz \<and> slice s' (c + 0x10) 0x100 = Inr (replicate 0x100 0))"
proof -
  have e: "e = c" using assms by (simp add: control_ok_def)
  obtain t sz where g: "get32 s c = Inr t" "get32 s (c + 4) = Inr sz" "16 \<le> sz"
    and r: "t = 4 \<longrightarrow> 0x50 \<le> sz \<and> c + 0x50 \<le> length s" "t = 5 \<longrightarrow> 0x110 \<le> sz \<and> c + 0x110 \<le> length s"
    using assms e by (auto simp: control_ok_def split: sum.splits)
  have sz: "get32 s' (c + 4) = Inr sz" if "length s' = length s" "\<forall>i<length s. i < c + 16 \<longrightarrow> s' ! i = s ! i" for s'
    using get_same(1) [of s s' "c + 4"] that g(2) by simp
  consider "t = 4" | "t = 5" | "t \<noteq> 4" "t \<noteq> 5" by blast
  then show ?thesis
  proof cases
    case 1
    obtain s' where s': "poke s (c + 0x4C) [0, 0, 0, 0] = Inr s'" "length s' = length s" "slice s' (c + 0x4C) 4 = Inr [0, 0, 0, 0]"
      "\<forall>i<length s. i < c + 0x4C \<or> c + 0x50 \<le> i \<longrightarrow> s' ! i = s ! i"
    proof -
      have l: "length [0, 0, 0, 0 :: u8] = 4" by simp
      show "(\<And>s'. poke s (c + 0x4C) [0, 0, 0, 0] = Inr s' \<Longrightarrow> length s' = length s \<Longrightarrow> slice s' (c + 0x4C) 4 = Inr [0, 0, 0, 0] \<Longrightarrow>
          \<forall>i<length s. i < c + 0x4C \<or> c + 0x50 \<le> i \<longrightarrow> s' ! i = s ! i \<Longrightarrow> thesis) \<Longrightarrow> thesis"
        using poke_ok [of "c + 0x4C" "[0, 0, 0, 0]" s] r(1) 1 unfolding l by (auto simp: add.assoc)
    qed
    have "slice s' (c + 0x24) 0x20 = Inr (digest_at s c)"
      using s'(2,4) r(1) 1 by (auto simp: slice_at digest_at_def)
    then have "strip_entry s c d = Inr (s', Some (digest_at s c), sz)" using g(1) 1 s'(1) sz [of s'] s'(2,4) by (simp add: strip_entry_def)
    then show ?thesis using s' g r(1) 1 by auto
  next
    case 2
    obtain s' where s': "poke s (c + 0x10) (replicate 0x100 0) = Inr s'" "length s' = length s"
      "slice s' (c + 0x10) 0x100 = Inr (replicate 0x100 0)" "\<forall>i<length s. i < c + 0x10 \<or> c + 0x110 \<le> i \<longrightarrow> s' ! i = s ! i"
      using poke_ok [of "c + 0x10" "replicate 0x100 0" s] r(2) 2 by (auto simp: add.assoc)
    then have "strip_entry s c d = Inr (s', d, sz)" using g(1) 2 sz [of s'] by (simp add: strip_entry_def)
    then show ?thesis using s' g r(2) 2 by auto
  next
    case 3
    then show ?thesis using g by (auto simp: strip_entry_def)
  qed
qed

lemma slice_same:
  assumes "length s' = length s" "\<forall>i<length s. i < k \<longrightarrow> s' ! i = s ! i" "a + n \<le> k" "slice s a n = Inr x"
  shows "slice s' a n = Inr x"
  using assms unfolding slice_at by auto

lemma control_ok_rest:
  assumes "control_ok s c (e # es)" "get32 s (c + 4) = Inr sz" "length s1 = length s" "\<forall>i<length s. c + sz \<le> i \<longrightarrow> s1 ! i = s ! i"
  shows "control_ok s1 (c + sz) es \<and> (\<forall>f \<in> set es. c + sz \<le> f \<and> get32 s1 f = get32 s f \<and> digest_at s1 f = digest_at s f)"
proof -
  have ch: "chain s (c + sz) es" using assms(1,2) by (auto simp: control_ok_def split: sum.splits)
  have ch1: "chain s1 (c + sz) es" by (rule chain_same [OF ch]) (use assms(3,4) in auto)
  have f: "c + sz \<le> f \<and> get32 s1 f = get32 s f \<and> get32 s1 (f + 4) = get32 s (f + 4) \<and> digest_at s1 f = digest_at s f" if "f \<in> set es" for f
  proof -
    have l: "c + sz \<le> f" using chain_from [OF ch that] .
    have "digest_at s1 f = digest_at s f"
      unfolding digest_at_def by (rule nth_equalityI) (use assms(3,4) l in auto)
    then show ?thesis using get_same(1) [of s s1] l assms(3,4) by simp
  qed
  show ?thesis using assms(1,3) ch1 f by (auto simp: control_ok_def)
qed

lemma last_digest_cong: "(\<And>f. f \<in> set es \<Longrightarrow> get32 s1 f = get32 s f \<and> digest_at s1 f = digest_at s f) \<Longrightarrow> last_digest s1 es d = last_digest s es d"
  unfolding last_digest_def by (rule fold_cong) auto

lemma strip_loop_ok:
  "control_ok s c es \<Longrightarrow> \<exists>s'. strip_loop s c d = Some (Inr (s', last_digest s es d)) \<and> length s' = length s \<and> (\<forall>i<length s. i < c + 16 \<longrightarrow> s' ! i = s ! i) \<and>
    (\<forall>e \<in> set es. (get32 s e = Inr 4 \<longrightarrow> slice s' (e + 0x4C) 4 = Inr [0, 0, 0, 0]) \<and>
      (get32 s e = Inr 5 \<longrightarrow> slice s' (e + 0x10) 0x100 = Inr (replicate 0x100 0)))"
proof (induction es arbitrary: s c d)
  case Nil
  then show ?case by (subst strip_loop.simps) (simp add: control_ok_def last_digest_def)
next
  case (Cons e es)
  let ?d = "if get32 s c = Inr 4 then Some (digest_at s c) else d"
  obtain s1 sz where s1: "strip_entry s c d = Inr (s1, ?d, sz)" "get32 s (c + 4) = Inr sz" "16 \<le> sz" "length s1 = length s"
    "\<forall>i<length s. i < c + 16 \<or> c + sz \<le> i \<longrightarrow> s1 ! i = s ! i" "get32 s c = Inr 4 \<longrightarrow> 0x50 \<le> sz \<and> slice s1 (c + 0x4C) 4 = Inr [0, 0, 0, 0]"
    "get32 s c = Inr 5 \<longrightarrow> 0x110 \<le> sz \<and> slice s1 (c + 0x10) 0x100 = Inr (replicate 0x100 0)"
    using strip_entry_ok [OF Cons.prems] by blast
  have e: "e = c" and nxt: "\<exists>n. get64 s (c + 8) = Inr n \<and> n \<noteq> 0"
    using Cons.prems by (auto simp: control_ok_def split: sum.splits)
  have rest: "control_ok s1 (c + sz) es" "\<forall>f \<in> set es. c + sz \<le> f \<and> get32 s1 f = get32 s f \<and> digest_at s1 f = digest_at s f"
    using control_ok_rest [OF Cons.prems s1(2,4)] s1(5) by blast+
  obtain s' where s': "strip_loop s1 (c + sz) ?d = Some (Inr (s', last_digest s1 es ?d))" "length s' = length s1"
    "\<forall>i<length s1. i < c + sz + 16 \<longrightarrow> s' ! i = s1 ! i"
    "\<forall>e \<in> set es. (get32 s1 e = Inr 4 \<longrightarrow> slice s' (e + 0x4C) 4 = Inr [0, 0, 0, 0]) \<and>
      (get32 s1 e = Inr 5 \<longrightarrow> slice s' (e + 0x10) 0x100 = Inr (replicate 0x100 0))"
    using Cons.IH [OF rest(1)] by blast
  have "last_digest s1 es ?d = last_digest s (e # es) d"
    using last_digest_cong [of es s1 s] rest(2) e by (simp add: last_digest_def)
  then have loop: "strip_loop s c d = Some (Inr (s', last_digest s (e # es) d))"
    using nxt s1(1) s'(1) by (subst strip_loop.simps) auto
  have "slice s' a n = Inr x" if "slice s1 a n = Inr x" "a + n \<le> c + sz" for a n x
    using slice_same [OF s'(2), of "c + sz"] s'(3) that by auto
  then show ?case using loop s'(2-4) s1(3-7) e rest(2) by auto
qed

text \<open>The chain and the types of its entries outlive the injection of a digest.\<close>

lemma control_loop_chain:
  assumes "length digest = 0x20"
  shows "chain s c es \<Longrightarrow> control_loop digest s c = Some (Inr s') \<Longrightarrow> chain s' c es \<and> (\<forall>e \<in> set es. get32 s' e = get32 s e \<and> get32 s' (e + 4) = get32 s (e + 4))"
proof (induction es arbitrary: s c)
  case Nil
  then show ?case by (simp add: control_loop.simps [of digest s c])
next
  case (Cons e es)
  obtain s1 sz where s1: "control_entry digest s c = Inr (s1, sz)" "get32 s (c + 4) = Inr sz" "16 \<le> sz" "length s1 = length s"
    "\<forall>i<length s. i < c + 16 \<or> c + sz \<le> i \<longrightarrow> s1 ! i = s ! i"
    using control_entry_ok [OF Cons.prems(1) assms] by blast
  have e: "e = c" and nxt: "\<exists>n. get64 s (c + 8) = Inr n \<and> n \<noteq> 0" and ch: "chain s (c + sz) es"
    using Cons.prems(1) s1(2) by (auto split: sum.splits)
  have ch1: "chain s1 (c + sz) es" by (rule chain_same [OF ch]) (use s1(4,5) in auto)
  have l1: "control_loop digest s1 (c + sz) = Some (Inr s')" using Cons.prems(2) nxt s1(1) by (subst (asm) control_loop.simps) auto
  have IH: "chain s' (c + sz) es" "\<forall>e \<in> set es. get32 s' e = get32 s1 e \<and> get32 s' (e + 4) = get32 s1 (e + 4)"
    using Cons.IH [OF ch1 l1] by blast+
  have same: "length s' = length s" "\<forall>i<length s. i < c + 16 \<longrightarrow> s' ! i = s ! i"
    using control_loop_ok [OF assms ch1] l1 s1(3-5) by auto
  have g: "get64 s' (c + 8) = get64 s (c + 8)" "get32 s' c = get32 s c" "get32 s' (c + 4) = get32 s (c + 4)"
    using get_same [of s s'] same by auto
  have f: "get32 s1 f = get32 s f \<and> get32 s1 (f + 4) = get32 s (f + 4)" if "f \<in> set es" for f
    using get_same(1) [of s s1] chain_from [OF ch that] s1(4,5) by simp
  show ?case using Cons.prems(1) IH f s1(2) same(1) by (auto simp: g e split: sum.splits)
qed

lemma last_digest_all:
  assumes "\<forall>e \<in> set es. get32 s e = Inr 4 \<longrightarrow> digest_at s e = x"
  shows "last_digest s es d = (if \<exists>e \<in> set es. get32 s e = Inr 4 then Some x else d)"
  using assms by (induction es arbitrary: d) (auto simp: last_digest_def)

text \<open>The loop over the control information ends, finds the digest of the last entry that has one and a successor, and clears
  the required firmware and the NPDRM data of every entry with a successor; the header before it is unchanged.\<close>

lemma control_stripped:
  assumes "control_ok s c es"
  shows "\<exists>s'. strip_loop s c d = Some (Inr (s', last_digest s es d)) \<and> length s' = length s \<and> (\<forall>i<length s. i < c + 16 \<longrightarrow> s' ! i = s ! i) \<and>
    (\<forall>e \<in> set es. (get32 s e = Inr 4 \<longrightarrow> slice s' (e + 0x4C) 4 = Inr [0, 0, 0, 0]) \<and>
      (get32 s e = Inr 5 \<longrightarrow> slice s' (e + 0x10) 0x100 = Inr (replicate 0x100 0)))"
  by (rule strip_loop_ok [OF assms])

lemma signed_control_ok: "control_ok signed_self 0x70 [0x70]"
  by (simp add: control_ok_def signed_self_def small_eval)

lemma control_stripped_witness:
  "\<exists>s'. strip_loop signed_self 0x70 None = Some (Inr (s', Some (replicate 0x20 0))) \<and> slice s' 0xBC 4 = Inr [0, 0, 0, 0]"
proof -
  have t: "get32 signed_self 0x70 = Inr 4" by (simp add: signed_self_def small_eval)
  have "digest_at signed_self 0x70 = replicate 0x20 0"
    by (rule nth_equalityI) (auto simp: digest_at_def signed_self_def nth_Cons')
  then have "last_digest signed_self [0x70] None = Some (replicate 0x20 0)" using t by (simp add: last_digest_def)
  then show ?thesis using control_stripped [OF signed_control_ok, of None] t by auto
qed



section \<open>What goes wrong\<close>

text \<open>The last entry of the control information is never cleared.\<close>

lemma last_entry_stays: "get64 s (c + 8) = Inr 0 \<Longrightarrow> strip_loop s c d = Some (Inr (s, d))"
  by (subst strip_loop.simps) simp

text \<open>A segment that \<open>inflate\<close> delivers in several calls: each overwrites the one before, and the end of the buffer is old.\<close>

lemma large_inflate_overwrites:
  assumes "calls 0 = (a, ZOk)" "calls 1 = (b, ZEnd)" "length a = length b" "length b \<le> length dest"
  shows "large_inflate calls 0 dest = Some (Some (b @ drop (length b) dest))"
  using assms by (simp add: large_inflate.simps [of calls])

text \<open>A file that cannot be decompressed and is shorter than the segment: writing it out reads behind the buffer.\<close>

lemma short_segment_overreads:
  assumes "unc E file fsz = None" "infl E file 0 = ([], ZErr)" "length file < fsz" "fits E (length file)" "fits E fsz"
  shows "full_segment E to_self sinfo i file po fsz st = Some (Inl OutOfFile)"
  using assms by (simp add: full_segment_def segment_data_def large_inflate.simps [of _ 0])

end
