(* ===== verification/Plugins.thy ===== *)
theory Plugins
  imports LogSettings
begin

text \<open>
  The plugins \<open>unity_debug/src/unity_debug.c\<close>, \<open>PSVita-RTC-set/src/kernel.c\<close> and \<open>base_hooker/src/base_hooker.c\<close>: what they
  put in the place of the functions they hook, the values they pass to the kernel, and the hooks they release. What taiHEN
  and the kernel return are arguments.
\<close>

section \<open>unity\_debug\<close>

text \<open>The function that Mono is given for a name: its own, or one of the three of the plugin.\<close>

datatype 'p internal = Original 'p | Internal_Log | Internal_Log2 | isDebug

definition mono_add_internal_call_patched :: "string \<Rightarrow> 'p \<Rightarrow> 'p internal" where
  "mono_add_internal_call_patched name p =
     (if name = ''UnityEngine.DebugLogHandler::Internal_Log'' then Internal_Log
      else if name = ''UnityEngine.Debug::Internal_Log'' then Internal_Log2
      else if name = ''UnityEngine.Debug::get_isDebugBuild'' then isDebug
      else Original p)"

text \<open>Both functions print the message; its UTF-8 form goes to an array of 512 bytes.\<close>

definition internal_log :: "int \<Rightarrow> u16 list \<Rightarrow> app_fault + string" where
  "internal_log level strings = map_sum id (\<lambda>bs. ''[Unity '' @ dec_int level @ '']: '' @ string_of bs @ [CHR 0x0A]) (convert_text 512 strings)"

text \<open>The array \<open>hook\<close> starts as zeros; \<open>uid\<close> is what taiHEN returns.\<close>

type_synonym hooks = "int list"

definition no_hooks :: hooks where
  "no_hooks = [0, 0, 0]"

definition unity_module_start :: "int \<Rightarrow> hooks \<Rightarrow> hooks" where
  "unity_module_start uid hk = hk[0 := uid]"

text \<open>Only \<open>mono-vita.suprx\<close> is hooked; the part for \<open>Il2CppAssemblies.suprx\<close> is commented out.\<close>

definition sceKernelLoadStartModule_patched :: "string \<Rightarrow> int \<Rightarrow> hooks \<Rightarrow> hooks" where
  "sceKernelLoadStartModule_patched path uid hk = (if path = ''app0:/Media/Modules/mono-vita.suprx'' then hk[1 := uid] else hk)"

text \<open>The hooks that are passed to \<open>taiHookRelease\<close>.\<close>

definition unity_module_stop :: "hooks \<Rightarrow> (nat \<times> int) list" where
  "unity_module_stop hk = filter (\<lambda>(i, uid). uid \<ge> 0) [(0, hk ! 0), (1, hk ! 1), (2, hk ! 2)]"

definition unity_session :: "int \<Rightarrow> (string \<times> int) list \<Rightarrow> hooks" where
  "unity_session uid loads = fold (\<lambda>(path, u). sceKernelLoadStartModule_patched path u) loads (unity_module_start uid no_hooks)"

lemma load_hooks: "length hk = 3 \<Longrightarrow> length (sceKernelLoadStartModule_patched path uid hk) = 3 \<and>
    sceKernelLoadStartModule_patched path uid hk ! 0 = hk ! 0 \<and> sceKernelLoadStartModule_patched path uid hk ! 2 = hk ! 2"
  by (simp add: sceKernelLoadStartModule_patched_def)

text \<open>
  The third hook is never installed, but 0 counts as one: it is always released, and so is the second where no game with
  Mono was started.
\<close>

lemma unity_releases_uninstalled: "(2, 0) \<in> set (unity_module_stop (unity_session uid loads))"
proof -
  have "length hk = 3 \<Longrightarrow> hk ! 2 = 0 \<Longrightarrow> fold (\<lambda>(path, u). sceKernelLoadStartModule_patched path u) loads hk ! 2 = 0" for hk
    by (induction loads arbitrary: hk) (auto simp: load_hooks)
  then have "unity_session uid loads ! 2 = 0" unfolding unity_session_def by (simp add: unity_module_start_def no_hooks_def)
  then show ?thesis by (simp add: unity_module_stop_def)
qed

text \<open>Without its terminator the UTF-8 form of a text has at most three bytes for each of its code units.\<close>

lemma utf8_forms_length: "length (utf8_bmp2 c) = 2" "length (utf8_bmp3 c) = 3" "length (utf8_pair c d) = 4"
  by (simp_all add: utf8_bmp2_def utf8_bmp3_def utf8_pair_def)

lemma utf16_to_utf8_length: "0 \<notin> set us \<Longrightarrow> \<exists>bs. utf16_to_utf8 (us @ 0 # rest) = Some bs \<and> length bs \<le> 3 * length us + 1"
proof (induction us rule: induct_list012)
  case (2 c)
  then show ?case by (auto simp: utf8_forms_length)
next
  case (3 c d us)
  obtain b1 b2 where "utf16_to_utf8 (us @ 0 # rest) = Some b1" "length b1 \<le> 3 * length us + 1"
    "utf16_to_utf8 (d # us @ 0 # rest) = Some b2" "length b2 \<le> 3 * length (d # us) + 1"
    using 3 by auto
  then show ?case using 3(3) by (auto simp: utf8_forms_length simp del: utf16_to_utf8.simps(2) simp add: utf16_to_utf8.simps(2) [of c])
qed simp

text \<open>So messages of up to 170 units are safe, and 171 units of three bytes each are too many.\<close>

lemma short_messages_fit:
  assumes "0 \<notin> set us" "length us \<le> 170"
  shows "\<exists>s. internal_log level (us @ 0 # rest) = Inr s"
  using utf16_to_utf8_length [OF assms(1), of rest] assms(2) by (auto simp: internal_log_def convert_text_def)

lemma three_byte_units: "utf16_to_utf8 (replicate n 0x20AC @ [0]) = Some (concat (replicate n (utf8_bmp3 0x20AC)) @ [0])"
  by (induction n) simp_all

lemma long_message_overflows: "internal_log level (replicate 171 0x20AC @ [0]) = Inl TextOverflow"
proof -
  have "length (concat (replicate n (utf8_bmp3 0x20AC))) = 3 * n" for n
    by (induction n) (simp_all add: utf8_forms_length)
  then show ?thesis by (simp only: internal_log_def convert_text_def three_byte_units) simp
qed

section \<open>PSVita-RTC-set\<close>

text \<open>Microseconds since the year 1; the kernel gets the number as two words.\<close>

definition startDate0 :: "u64 \<Rightarrow> u64" where
  "startDate0 startDate1970 = startDate1970 * 1000 * 1000 + 0xDCBFFEFF2BC000"

definition timestamp :: "u64 \<Rightarrow> u32 \<times> u32" where
  "timestamp t = (ucast t, ucast (drop_bit 32 t))"

text \<open>The second of the calls takes an \<open>int\<close>; the first is only made when its function was found.\<close>

datatype rtc_call = SetCpRtc "32 word" | SetCurrentTick "u32 \<times> u32" | SetCurrentNetworkTick "u32 \<times> u32"
  | SetCurrentSecureTick "u32 \<times> u32" | SetCurrentDebugNetworkTick "u32 \<times> u32"

definition rtc_module_start :: "bool \<Rightarrow> u64 \<Rightarrow> rtc_call list" where
  "rtc_module_start found startDate1970 = (let ts = timestamp (startDate0 startDate1970) in
     (if found then [SetCpRtc (ucast startDate1970)] else []) @
     [SetCurrentTick ts, SetCurrentNetworkTick ts, SetCurrentSecureTick ts, SetCurrentDebugNetworkTick ts])"

text \<open>The constant is 719162 days, from 1 January of the year 1 to 1 January 1970.\<close>

lemma rtc_epoch: "(0xDCBFFEFF2BC000 :: nat) = 719162 * 24 * 60 * 60 * 1000000"
  by simp

lemma startDate0_exact:
  assumes "unat s < 2 ^ 32"
  shows "unat (startDate0 s) = (unat s + 719162 * 24 * 60 * 60) * 1000000"
proof -
  have "unat (s * 1000 * 1000) = unat s * 1000000"
    using assms by (simp add: unat_word_ariths)
  then show ?thesis using assms by (simp add: startDate0_def unat_word_ariths)
qed

lemma timestamp_whole: "unat (fst (timestamp t)) + 2 ^ 32 * unat (snd (timestamp t)) = unat t"
proof -
  have "unat t < 2 ^ 64" using unsigned_less [of t, where ?'a = nat] by simp
  then have "unat t div 2 ^ 32 < 2 ^ 32" by (simp add: less_mult_imp_div_less)
  then show ?thesis by (simp add: timestamp_def unat_div unsigned_ucast_eq unsigned_drop_bit_eq take_bit_eq_mod drop_bit_eq_div)
qed

section \<open>base\_hooker\<close>

text \<open>\<open>hex_dump\<close> reads \<open>length\<close> bytes where the argument of the hooked function is an address of the right range.\<close>

definition hex_dump_reads :: "u32 \<Rightarrow> nat \<Rightarrow> nat list" where
  "hex_dump_reads a n = (if a < 0x81000000 \<or> a > 0x83FFFFFF then [] else map (\<lambda>i. unat a + i) [0..<n])"

definition hook_func1_reads :: "u32 list \<Rightarrow> nat list" where
  "hook_func1_reads r = concat (map (\<lambda>a. hex_dump_reads a 0x50) (take 4 r @ take 4 r))"

text \<open>Only the first byte is checked: the dump may leave the range at its end.\<close>

lemma hex_dump_leaves_range: "hex_dump_reads 0x83FFFFFF 0x50 ! 1 = 0x84000000"
  by (simp add: hex_dump_reads_def)

lemma hex_dump_range: "x \<in> set (hex_dump_reads a n) \<Longrightarrow> 0x81000000 \<le> x \<and> x < 0x84000000 + n"
  by (auto simp: hex_dump_reads_def word_less_nat_alt word_le_nat_alt not_less split: if_splits)

end
