(* ===== verification/Spec2Isabelle.thy ===== *)
theory Spec2Isabelle
  imports NetManager UsbLogging Sha256 Relocate Arzl VitaImport LogSettings ElfBuilder DebugScreen SelfTools
    FagMenu ErrorCodes BootImage ShipLog ShipConfig KernelDump IoPlus FagInput FagDump Plugins
begin

text \<open>
  PS Vita Reverse Engineering Tools: a verification library of the C parts of the toolkit.

  \<^bold>\<open>The program.\<close> The repository holds separate tools. Those that carry logic of their own are the
  loggers that run in the console's kernel (PrincessLog over the network, PSMLogUSB over USB, which share one ring
  buffer, and the older ShipLog), the applications that configure them, the decompressor of the
  ARZL format of boot images, the parts of the decompiler that relocate an SCE ELF file and read
  the database of import names from YAML, the tools that unpack SELF files and inject into them with their SHA-256, the tool that
  builds ELF files from dumped segments, the tools that find modules in boot loaders, boot images and memory dumps,
  the resolver of error codes and the menus of the game decrypter FAGDec.

  \<^bold>\<open>The theories\<close>, each over the ones it uses.

  \<^item> \<open>Vita_Prelude\<close>: integer types, views of byte buffers as words, errors as values (\<open>ebind\<close>, \<open>runs\<close>),
    arithmetic modulo a length, bounded logs. \<open>C_Text\<close>: \<open>strtoul\<close>, \<open>atoi\<close>, \<open>strncpy\<close> and number formats.
  \<^item> \<open>RingBuf\<close> (\<open>NetLoggingMgr/kernel_module/src/ringbuf.c\<close>, copied in \<open>PSMLogUSB\<close>): the static variables
    are the record \<open>ringbuf\<close>, each function one definition; the buffer refines a bounded queue
    (locale of the queue contract, interpreted on the model).
  \<^item> \<open>NetLogging\<close>, \<open>NetManager\<close> (\<open>kernel_module/src/main.c\<close>): the callbacks and the network thread as a
    step relation with an invariant over all interleavings; configuration, start and stop with the
    resources they acquire. \<open>UsbLogging\<close> (\<open>PSMLogUSB/src/main.c\<close>) likewise.
  \<^item> \<open>LogSettings\<close> (\<open>settings_app/src/main.c\<close>): buttons, dialogs, menus and the configuration file; it meets
    \<open>NetManager\<close> in the file and in the configurations it passes to the module. \<open>DebugScreen\<close>
    (\<open>settings_app/src/debugScreen.h\<close>, \<open>Kdumper/src/debugScreen.c\<close>): the console in a frame buffer.
  \<^item> \<open>ShipLog\<close> (\<open>ShipLog2.0/src/backdoor.exe/\<close>): the log buffer, its handlers, the rounds of the sending
    thread, and that thread step by step with calls of the handlers in between. \<open>ShipConfig\<close> (\<open>ShipLog2.0/src/common/\<close>, \<open>config_app/\<close>): settings, their file, and
    the pages as an inductive set of reachable states.
  \<^item> \<open>Sha256\<close> (\<open>elf_injector/src/sha256.c\<close>, the same in \<open>FAGDec\<close>): equivalence with FIPS 180-4.
    \<open>SelfTools\<close> (\<open>vita-unmake-fself/src/main.c\<close>, \<open>elf_injector/src/main.c\<close>): the segments of a fake SELF
    in its ELF file; new segments and, over \<open>Sha256\<close>, new digests in a SELF.
  \<^item> \<open>Relocate\<close> (\<open>vitadecompiler-mod/src/relocate.c\<close>): the entry formats and what each relocation type means.
  \<^item> \<open>Arzl\<close> (\<open>unarzl/src/unarzl.c\<close>, \<open>main.c\<close>): the range decoder, the LZ77 copies and the ARM branch filter.
  \<^item> \<open>YamlTree\<close>, \<open>VitaImport\<close> (\<open>vitadecompiler-mod/src/import/\<close>, copied in \<open>THGN\<close>): the tree builder over
    libyaml's events and the database of modules, libraries and functions.
  \<^item> \<open>ZlibPipe\<close>, \<open>ElfBuilder\<close> (\<open>PSVita-ELF-builder/src/main.c\<close>, \<open>file.c\<close>): files through zlib, and the ELF
    file made of the headers of a SELF and the segments.
  \<^item> \<open>ModuleInfo\<close> (both \<open>module_info_parser.c\<close>, \<open>psp2-syslibtrace-nids-extract/src/main.c\<close>, \<open>types.h\<close>): where the module
    information of an ELF file is, and the list of NIDs. Over it \<open>BootImage\<close> (\<open>psp2-kernel-bootimage-extract/src/main.c\<close>):
    paths and both formats of the image; and \<open>Extract\<close> (\<open>psp2-kbl-elf-extract/src/main.c\<close>, with \<open>Arzl\<close>, and
    \<open>kdump-extract/src/main.c\<close>): scans for modules and the ELF files that are written.
  \<^item> \<open>KernelDump\<close> (\<open>Kdumper/src/main.c\<close>, \<open>physmem-dumper/src/kernel.c\<close>, \<open>FAGDec/src/kplugin/kentente.c\<close>): the loops that
    read memory and segments and write them out, and over \<open>Extract\<close> what becomes of such a dump. \<open>IoPlus\<close>
    (\<open>ioPlus-0.1/src/ioplus.c\<close>, \<open>ioPlus-0.2/src/ioplus.c\<close>): its table of devices and its hooks as calls in any order.
    \<open>Plugins\<close>: \<open>unity_debug\<close>, \<open>PSVita-RTC-set\<close> and \<open>base_hooker\<close>.
  \<^item> \<open>ErrorCodes\<close> (\<open>PSVita-error-code-resolver/src/main.c\<close>): the table of codes, their short texts and the search.
  \<^item> \<open>FagMenu\<close> (\<open>FAGDec/src/app/menu.c\<close>): menus as doubly linked lists on a heap, and the plain lists they stand for.
    \<open>FagDraw\<close> (\<open>draw.c\<close>, \<open>status.c\<close>): what of a menu is on the screen, with scrolling.
    \<open>FagInput\<close> (\<open>main.c\<close>, \<open>dump.c\<close>): the buttons and the search for the modules of a game.
    On these lists \<open>FagGames\<close> (\<open>sfo.c\<close>, \<open>game.c\<close>): parameter files and the menu of games; and \<open>FagQueue\<close> (\<open>dump.c\<close>): the
    queue of modules, from what the user does to what is decrypted. \<open>FagDump\<close> (\<open>dump.c\<close>, \<open>inflate.c\<close>): the segments, headers and
    control information of a dumped module; it meets \<open>elf_injector\<close> of \<open>SelfTools\<close> in the digest.

  \<^bold>\<open>How code is modelled.\<close> Every C function is a function of its state; a fault of the C abstract machine
  (reading or writing outside of a buffer, a NULL or freed pointer, division by zero, memory that
  was not written) is a value of the result. Unsigned integers are words of their width. What is
  not in the repository (the kernel, taiHEN, libyaml's scanner, zlib, the C library's files) is an
  argument; what is assumed of it stands in the theorem. The copies of a file that occur in
  several tools are modelled once.

  \<^bold>\<open>Bounds.\<close> The tree builder has fuel: \<open>3 N + 2\<close> calls are enough for \<open>N\<close> events, which is proved. Loops that
  wait for the user, the kernel or zlib, that follow pointers or that read up to an end mark are partial functions; that they return is proved where
  it holds (both zlib pipes under the contract of zlib, the loop over control information, every loop over a menu, the
  tables of boot images and NIDs that have an end), and properties of the waiting loops are
  about the runs that return. \<open>unarzl\<close> retries with larger buffers; that it ends is a property.
  All other loops are total functions.

  \<^bold>\<open>The lemmas.\<close> Every theory ends with its properties, each with a witness where it has hypotheses. The
  groups before them are: the invariant of the state and that each operation keeps it; the result
  of each operation on each branch; the abstraction (queue, byte stream, decoder state, table, list of items) and
  that operations commute with it. Lemmas whose names end in \<open>faults\<close>, \<open>overreads\<close>, \<open>overruns\<close> or
  \<open>outside\<close> show inputs on which the code fails.

  \<^bold>\<open>Not modelled.\<close> The C++ parts of the decompiler and of the hook generator; what the data planted by the exploit of Kdumper and the
  patches of FAGDec do to the kernel, which is the memory of one firmware; the patches of
  \<open>noASLR\<close>; user interfaces that draw through
  external libraries; copied headers, fonts and icons.
  In the modelled parts: the event flags between the two threads of FAGDec, whose meaning is that of the kernel,
  the text of its credits, what is printed for the user (except in the settings application and
  where a message is the behaviour), the mutex around a print, calls of ShipLog's handlers that overlap each other or are cut by its thread, and files that are open twice under
  the same name.
\<close>

end
